(* ===== verification/Prelude.thy ===== *)
theory Prelude
  imports Main "HOL-Library.Word"
begin

text \<open>
  Shared vocabulary of the development: the machine-integer types the C code uses, the
  collections of rewrite rules that the component theories fill, and the generic lemmas on
  lists, sums over threads and words that more than one component needs.
\<close>

unbundle bit_operations_syntax

type_synonym u32 = "32 word"
type_synonym tid = nat

named_theorems word_fields \<open>how a word expression of the lock code reads field by field\<close>
named_theorems dll_simps \<open>reading the links of a doubly linked list after an update\<close>

section \<open>Sums over the threads of a system\<close>

text \<open>
  The lock word counts its holders.  The invariants relate a field of the word to a sum over
  all threads, and a step changes the summand of one thread only.
\<close>

lemma sum_upd:
  fixes f :: "'a \<Rightarrow> nat" and n :: nat
  assumes "t < n"
  shows "(\<Sum>i<n. f ((g(t := x)) i)) + f (g t) = (\<Sum>i<n. f (g i)) + f x"
proof -
  have "(\<Sum>i<n. f ((g(t := x)) i)) = f x + (\<Sum>i\<in>{..<n} - {t}. f (g i))"
    using assms by (subst sum.remove [of "{..<n}" t]) (auto intro: sum.cong)
  moreover have "(\<Sum>i<n. f (g i)) = f (g t) + (\<Sum>i\<in>{..<n} - {t}. f (g i))"
    using assms by (simp add: sum.remove [of "{..<n}" t])
  ultimately show ?thesis by simp
qed

lemma sum_ge_single:
  fixes f :: "nat \<Rightarrow> nat"
  assumes "t < n"
  shows "f t \<le> (\<Sum>i<n. f i)"
  using assms by (intro member_le_sum) auto

lemma sum_ge_pair:
  fixes f :: "nat \<Rightarrow> nat"
  assumes "t < n" "u < n" "t \<noteq> u"
  shows "f t + f u \<le> (\<Sum>i<n. f i)"
proof -
  have "(\<Sum>i\<in>{t, u}. f i) \<le> (\<Sum>i<n. f i)"
    using assms by (intro sum_mono2) auto
  with assms(3) show ?thesis by simp
qed

lemma sum_le_bound:
  fixes f :: "nat \<Rightarrow> nat"
  assumes "\<And>i. i < n \<Longrightarrow> f i \<le> k"
  shows "(\<Sum>i<n. f i) \<le> n * k"
  using sum_bounded_above [of "{..<n}" f k] assms by simp

lemma sum_le_bound_except:
  fixes f :: "nat \<Rightarrow> nat"
  assumes "t < n" "f t = 0" "\<And>i. i < n \<Longrightarrow> f i \<le> k"
  shows "(\<Sum>i<n. f i) \<le> (n - 1) * k"
proof -
  have "(\<Sum>i<n. f i) = f t + (\<Sum>i\<in>{..<n} - {t}. f i)"
    using assms(1) by (simp add: sum.remove [of "{..<n}" t])
  also have "(\<Sum>i\<in>{..<n} - {t}. f i) \<le> card ({..<n} - {t}) * k"
    using sum_bounded_above [of "{..<n} - {t}" f k] assms(3) by simp
  finally show ?thesis using assms by simp
qed

lemma sum_one_ex:
  fixes f :: "nat \<Rightarrow> nat"
  assumes "(\<Sum>i<n. f i) = 1"
  obtains i where "i < n" "f i = 1"
  using assms sum_eq_1_iff [of "{..<n}" f] by (auto simp del: One_nat_def)

section \<open>Lists without duplicates\<close>

lemma remove1_append_notin:
  "x \<notin> set xs \<Longrightarrow> remove1 x (xs @ ys) = xs @ remove1 x ys"
  by (simp add: remove1_append)

lemma last_remove1_last:
  assumes "distinct (xs @ [x])"
  shows "remove1 x (xs @ [x]) = xs"
  using assms by (simp add: remove1_append)

lemma distinct_split_unique:
  assumes "distinct (as @ x # bs)" "as @ x # bs = cs @ x # ds"
  shows "as = cs \<and> bs = ds"
proof -
  from assms have "x \<notin> set cs" "x \<notin> set as" by (auto dest: arg_cong [where f = distinct])
  with assms(2) show ?thesis by (auto simp: append_eq_append_conv2 append_eq_Cons_conv Cons_eq_append_conv)
qed

section \<open>Filtered lists\<close>

lemma filter_own:
  assumes "distinct xs" "\<And>x. x \<in> set xs \<Longrightarrow> x \<noteq> e \<Longrightarrow> \<not> P x"
  shows "length (filter P xs) = of_bool (e \<in> set xs \<and> P e)"
  using assms by (induction xs) (auto simp: filter_empty_conv)

end
