(* ===== verification/Common.thy ===== *)
theory Common
  imports Prelude
begin

text \<open>
  The layout of the words of \<^verbatim>\<open>nsync_mu\<close> and \<^verbatim>\<open>nsync_cv\<close>
  (\<^verbatim>\<open>internal/common.h\<close>) and the two lock types (\<^verbatim>\<open>internal/common.c\<close>),
  followed by the arithmetic of the fields: the lock field \<open>lockv\<close> (the writer bit and the
  reader count, which is what acquiring and releasing change) and the individual hint bits.
\<close>

section \<open>Bits of the words\<close>

definition MU_WLOCK :: u32 where "MU_WLOCK = push_bit 0 1"
definition MU_SPINLOCK :: u32 where "MU_SPINLOCK = push_bit 1 1"
definition MU_WAITING :: u32 where "MU_WAITING = push_bit 2 1"
definition MU_DESIG_WAKER :: u32 where "MU_DESIG_WAKER = push_bit 3 1"
definition MU_CONDITION :: u32 where "MU_CONDITION = push_bit 4 1"
definition MU_WRITER_WAITING :: u32 where "MU_WRITER_WAITING = push_bit 5 1"
definition MU_LONG_WAIT :: u32 where "MU_LONG_WAIT = push_bit 6 1"
definition MU_ALL_FALSE :: u32 where "MU_ALL_FALSE = push_bit 7 1"
definition MU_RLOCK :: u32 where "MU_RLOCK = push_bit 8 1"

definition MU_RLOCK_FIELD :: u32 where "MU_RLOCK_FIELD = NOT (MU_RLOCK - 1)"
definition MU_ANY_LOCK :: u32 where "MU_ANY_LOCK = MU_WLOCK OR MU_RLOCK_FIELD"

definition MU_WZERO_TO_ACQUIRE :: u32 where "MU_WZERO_TO_ACQUIRE = MU_ANY_LOCK OR MU_LONG_WAIT"
definition MU_WADD_TO_ACQUIRE :: u32 where "MU_WADD_TO_ACQUIRE = MU_WLOCK"
definition MU_WHELD_IF_NON_ZERO :: u32 where "MU_WHELD_IF_NON_ZERO = MU_WLOCK"
definition MU_WSET_WHEN_WAITING :: u32 where
  "MU_WSET_WHEN_WAITING = MU_WAITING OR MU_WRITER_WAITING"
definition MU_WCLEAR_ON_ACQUIRE :: u32 where "MU_WCLEAR_ON_ACQUIRE = MU_WRITER_WAITING"
definition MU_WCLEAR_ON_UNCONTENDED_RELEASE :: u32 where
  "MU_WCLEAR_ON_UNCONTENDED_RELEASE = MU_ALL_FALSE"

definition MU_RZERO_TO_ACQUIRE :: u32 where
  "MU_RZERO_TO_ACQUIRE = MU_WLOCK OR MU_WRITER_WAITING OR MU_LONG_WAIT"
definition MU_RADD_TO_ACQUIRE :: u32 where "MU_RADD_TO_ACQUIRE = MU_RLOCK"
definition MU_RHELD_IF_NON_ZERO :: u32 where "MU_RHELD_IF_NON_ZERO = MU_RLOCK_FIELD"
definition MU_RSET_WHEN_WAITING :: u32 where "MU_RSET_WHEN_WAITING = MU_WAITING"
definition MU_RCLEAR_ON_ACQUIRE :: u32 where "MU_RCLEAR_ON_ACQUIRE = 0"
definition MU_RCLEAR_ON_UNCONTENDED_RELEASE :: u32 where
  "MU_RCLEAR_ON_UNCONTENDED_RELEASE = 0"

definition CV_SPINLOCK :: u32 where "CV_SPINLOCK = push_bit 0 1"
definition CV_NON_EMPTY :: u32 where "CV_NON_EMPTY = push_bit 1 1"

definition LONG_WAIT_THRESHOLD :: u32 where "LONG_WAIT_THRESHOLD = 30"

text \<open>Tags and flags of waiter structs.\<close>

definition WAITER_TAG :: u32 where "WAITER_TAG = 0x0590239f"
definition NSYNC_WAITER_TAG :: u32 where "NSYNC_WAITER_TAG = 0x726d2ba9"
definition NSYNC_WAITER_FLAG_MUCV :: u32 where "NSYNC_WAITER_FLAG_MUCV = 0x1"
definition WAITER_RESERVED :: u32 where "WAITER_RESERVED = 0x1"
definition WAITER_IN_USE :: u32 where "WAITER_IN_USE = 0x2"

section \<open>Lock types\<close>

record lock_type =
  zero_to_acquire :: u32
  add_to_acquire :: u32
  held_if_non_zero :: u32
  set_when_waiting :: u32
  clear_on_acquire :: u32
  clear_on_uncontended_release :: u32

definition Xwriter_type :: lock_type where
  "Xwriter_type = \<lparr>
     zero_to_acquire = MU_WZERO_TO_ACQUIRE,
     add_to_acquire = MU_WADD_TO_ACQUIRE,
     held_if_non_zero = MU_WHELD_IF_NON_ZERO,
     set_when_waiting = MU_WSET_WHEN_WAITING,
     clear_on_acquire = MU_WCLEAR_ON_ACQUIRE,
     clear_on_uncontended_release = MU_WCLEAR_ON_UNCONTENDED_RELEASE\<rparr>"

definition Xreader_type :: lock_type where
  "Xreader_type = \<lparr>
     zero_to_acquire = MU_RZERO_TO_ACQUIRE,
     add_to_acquire = MU_RADD_TO_ACQUIRE,
     held_if_non_zero = MU_RHELD_IF_NON_ZERO,
     set_when_waiting = MU_RSET_WHEN_WAITING,
     clear_on_acquire = MU_RCLEAR_ON_ACQUIRE,
     clear_on_uncontended_release = MU_RCLEAR_ON_UNCONTENDED_RELEASE\<rparr>"

text \<open>
  The code compares lock types by address and reads their fields through the pointer.  The
  two pointers that exist are a datatype; \<open>lt\<close> dereferences them.
\<close>

datatype lmode = nsync_writer_type | nsync_reader_type

primrec lt :: "lmode \<Rightarrow> lock_type" where
  "lt nsync_writer_type = Xwriter_type"
| "lt nsync_reader_type = Xreader_type"

section \<open>The lock field\<close>

text \<open>The part of the word that says who holds the lock: 1 for a writer, 256 for each reader.\<close>

definition lockv :: "u32 \<Rightarrow> nat" where
  "lockv w = unat (w AND MU_ANY_LOCK)"

text \<open>A hint mask touches neither the lock field nor the spinlock.\<close>

definition hint_mask :: "u32 \<Rightarrow> bool" where
  "hint_mask m \<longleftrightarrow> m AND (MU_ANY_LOCK OR MU_SPINLOCK) = 0"

text \<open>What one holder of each mode contributes to the lock field.\<close>

primrec held :: "lmode \<Rightarrow> nat" where
  "held nsync_writer_type = 1"
| "held nsync_reader_type = 256"

text \<open>A value of the lock field to which a holder can be added, or from which one can be removed.\<close>

definition compatible :: "lmode \<Rightarrow> nat \<Rightarrow> bool" where
  "compatible m v \<longleftrightarrow> (case m of nsync_writer_type \<Rightarrow> v = 0
     | nsync_reader_type \<Rightarrow> even v \<and> v + 256 < 2 ^ 32)"

definition releasable :: "lmode \<Rightarrow> nat \<Rightarrow> bool" where
  "releasable m v \<longleftrightarrow> (case m of nsync_writer_type \<Rightarrow> odd v | nsync_reader_type \<Rightarrow> 256 \<le> v)"

lemma and_push_bit_zero: "(w AND push_bit n 1 = 0) = (\<not> bit w n)" for w :: u32
  by (simp add: and_exp_eq_0_iff_not_bit)

lemma MU_RLOCK_FIELD_eq: "MU_RLOCK_FIELD = NOT (mask 8)"
  by (simp add: MU_RLOCK_FIELD_def MU_RLOCK_def mask_eq_exp_minus_1)

lemma unat_less: "unat w < 2 ^ 32" for w :: u32
  using unsigned_less [of w, where ?'a = nat] by simp

lemma and_not_mask8: "w AND NOT (mask 8) = push_bit 8 (drop_bit 8 w)" for w :: u32
  by (rule bit_word_eqI) (auto simp: bit_and_iff bit_not_iff bit_mask_iff bit_push_bit_iff bit_drop_bit_eq)

lemma unat_and_not_mask8: "unat (w AND NOT (mask 8)) = unat w div 256 * 256" for w :: u32
proof -
  have "unat w div 256 * 256 < 2 ^ 32" using unat_less [of w] by simp
  then show ?thesis
  by (simp add: and_not_mask8 push_bit_eq_mult unat_word_ariths unat_drop_bit_eq drop_bit_eq_div)
qed

lemma lockv_eq: "lockv w = unat w div 256 * 256 + unat w mod 2"
proof -
  have "w AND MU_ANY_LOCK = (w AND NOT (mask 8)) OR (w AND 1)"
    by (auto simp: MU_ANY_LOCK_def MU_WLOCK_def MU_RLOCK_FIELD_eq bit_eq_iff bit_and_iff bit_or_iff)
  also have "\<dots> = (w AND NOT (mask 8)) + (w AND 1)"
    by (rule disjunctive_add [symmetric]) (auto simp: bit_and_iff bit_1_iff bit_not_iff bit_mask_iff)
  finally have "lockv w = unat ((w AND NOT (mask 8)) + (w AND 1))" by (simp add: lockv_def)
  also have "w AND 1 = w mod 2"
    by (simp add: and_one_eq)
  also have "unat ((w AND NOT (mask 8)) + (w mod 2)) = unat w div 256 * 256 + unat w mod 2"
  proof -
    have "unat w mod 2 = unat w mod 256 mod 2" by (simp add: mod_mod_cancel)
    also have "\<dots> \<le> unat w mod 256" by (rule mod_less_eq_dividend)
    finally have "unat w div 256 * 256 + unat w mod 2 \<le> unat w"
      using div_mult_mod_eq [of "unat w" 256] by linarith
    then have "unat w div 256 * 256 + unat w mod 2 < 2 ^ 32"
      using unat_less [of w] by linarith
    then show ?thesis
     by (simp add: unat_word_ariths unat_and_not_mask8 unat_mod_distrib)
  qed
  finally show ?thesis .
qed

lemma lockv_0_iff: "w AND MU_ANY_LOCK = 0 \<longleftrightarrow> lockv w = 0"
  by (simp add: lockv_def unsigned_eq_0_iff)

lemma bit_unat: "bit w n \<longleftrightarrow> odd (unat w div 2 ^ n)" for w :: u32
  by (metis bit_iff_odd bit_unsigned_iff possible_bit_nat unsigned_eq_0_iff bit_imp_le_length possible_bit_def)

lemma bit0_lockv: "bit w 0 \<longleftrightarrow> odd (lockv w)"
  by (simp add: bit_unat lockv_eq del: bit_0)

lemma wlock_iff: "w AND MU_WLOCK = 0 \<longleftrightarrow> even (lockv w)"
  using bit0_lockv [of w] and_push_bit_zero [of w 0] by (simp add: MU_WLOCK_def)

lemma rlock_iff: "w AND MU_RLOCK_FIELD = 0 \<longleftrightarrow> lockv w < 256"
proof -
  have "w AND MU_RLOCK_FIELD = 0 \<longleftrightarrow> unat w div 256 * 256 = 0"
    by (simp only: MU_RLOCK_FIELD_eq unat_and_not_mask8 [symmetric] unsigned_eq_0_iff)
  moreover have "unat w mod 2 < 2" by simp
  ultimately show ?thesis unfolding lockv_eq by (cases "unat w div 256") auto
qed

lemma lockv_and_not: "m AND MU_ANY_LOCK = 0 \<Longrightarrow> lockv (w AND NOT m) = lockv w"
  unfolding lockv_def by (rule arg_cong [where f = unat])
    (auto simp: bit_eq_iff bit_and_iff bit_not_iff)

lemma lockv_or: "m AND MU_ANY_LOCK = 0 \<Longrightarrow> lockv (w OR m) = lockv w"
  unfolding lockv_def by (rule arg_cong [where f = unat])
    (auto simp: bit_eq_iff bit_and_iff bit_or_iff)

lemma add_w_or: "\<not> bit w 0 \<Longrightarrow> w + 1 = w OR 1" for w :: u32
  by (rule disjunctive_add) (metis bit_1_iff)

lemma sub_w_and: "bit w 0 \<Longrightarrow> w - 1 = w AND NOT 1" for w :: u32
  by (rule disjunctive_diff) (metis bit_1_iff)

lemma lockv_add_w: "even (lockv w) \<Longrightarrow> lockv (w + 1) = lockv w + 1"
proof -
  assume e: "even (lockv w)"
  have "(w OR 1) AND MU_ANY_LOCK = (w AND MU_ANY_LOCK) OR 1"
    by (auto simp: bit_eq_iff bit_and_iff bit_or_iff bit_1_iff MU_ANY_LOCK_def MU_WLOCK_def)
  also have "\<dots> = (w AND MU_ANY_LOCK) + 1"
  proof (rule add_w_or [symmetric])
    from e have "\<not> bit w 0" by (simp only: bit0_lockv not_not)
    then show "\<not> bit (w AND MU_ANY_LOCK) 0" by (simp only: bit_and_iff) simp
  qed
  finally have "lockv (w OR 1) = unat ((w AND MU_ANY_LOCK) + 1)" by (simp add: lockv_def)
  also have "\<dots> = lockv w + 1"
  proof -
    have "lockv w + 1 < 2 ^ 32" using unat_less [of "w AND MU_ANY_LOCK"] e 
      by (cases "lockv w = 2 ^ 32 - 1") (auto simp: lockv_def)
    then show ?thesis by (simp add: lockv_def unat_word_ariths)
  qed
  finally show ?thesis using e by (simp add: add_w_or bit0_lockv del: bit_0)
qed

lemma bit_add_w: "even (lockv w) \<Longrightarrow> 0 < n \<Longrightarrow> bit (w + 1) n = bit w n"
  by (simp add: add_w_or bit0_lockv bit_or_iff bit_1_iff del: bit_0)

lemma lockv_sub_w: "odd (lockv w) \<Longrightarrow> lockv (w - 1) = lockv w - 1"
proof -
  assume o: "odd (lockv w)"
  then have "bit w 0" by (simp only: bit0_lockv) simp
  then have "\<not> bit (w - 1) 0"
    unfolding sub_w_and [OF \<open>bit w 0\<close>] by (simp only: bit_and_iff bit_not_iff) simp
  then show ?thesis using lockv_add_w [of "w - 1"] by (simp add: bit0_lockv del: bit_0)
qed

lemma bit_sub_w: "odd (lockv w) \<Longrightarrow> 0 < n \<Longrightarrow> bit (w - 1) n = bit w n"
  using bit_imp_le_length [of w n]
  by (auto simp: sub_w_and bit0_lockv bit_and_iff bit_not_iff bit_1_iff simp del: bit_0)

lemma add_256_fields: "(u + 256) mod 2 = u mod 2" "(u + 256) div 256 = u div 256 + 1" for u :: nat
  using mod_mult_self1 [of u 128 2] div_mult_self1 [of 256 u 1] by simp_all

lemma lockv_add_r: "lockv w + 256 < 2 ^ 32 \<Longrightarrow> lockv (w + 256) = lockv w + 256"
proof -
  assume a: "lockv w + 256 < 2 ^ 32"
  have "unat w div 256 < 2 ^ 24 - 1" using a unfolding lockv_eq by simp
  then have "unat w + 256 < 2 ^ 32" by (simp add: div_less_iff_less_mult )
  then have "unat (w + 256) = unat w + 256" by (simp add: unat_word_ariths)
  then show ?thesis by (simp add: lockv_eq add_256_fields)
qed

lemma bit_add_r: "n < 8 \<Longrightarrow> bit (w + 256) n = bit w n" for w :: u32
proof (transfer fixing: n)
  fix k :: int
  assume n: "n < 8"
  have "take_bit 8 (k + 256) = take_bit 8 (take_bit 8 k + take_bit 8 256)"
    by (rule take_bit_add [symmetric])
  also have "\<dots> = take_bit 8 k" by simp
  finally have "bit (k + 256) n = bit k n" using n by (metis bit_take_bit_iff)
  then show "(n < LENGTH(32) \<and> bit (k + 256) n) = (n < LENGTH(32) \<and> bit k n)" by simp
qed

lemma lockv_sub_r: "256 \<le> lockv w \<Longrightarrow> lockv (w - 256) = lockv w - 256"
proof -
  assume a: "256 \<le> lockv w"
  have "1 \<le> unat w div 256" using a unfolding lockv_eq by (cases "unat w div 256") auto
  then have "256 \<le> unat w" by (simp add: div_greater_zero_iff Suc_le_eq)
  then have "256 \<le> w" by (simp add: word_le_nat_alt)
  then have "unat (w - 256) = unat w - 256" by (simp add: unat_sub)
  with \<open>256 \<le> unat w\<close> have "unat w = unat (w - 256) + 256" by simp
  then show ?thesis by (simp add: lockv_eq add_256_fields)
qed

lemma bit_sub_r: "n < 8 \<Longrightarrow> bit (w - 256) n = bit w n" for w :: u32
  using bit_add_r [of n "w - 256"] by simp
section \<open>Fields after an update\<close>

lemmas word_bits_eq = bit_eq_iff [where ?'a = "32 word"]

lemma bit_push_one: "k < 32 \<Longrightarrow> bit (push_bit k 1 :: u32) n \<longleftrightarrow> n = k"
  by (auto simp add: bit_push_bit_iff bit_1_iff simp del: push_bit_of_1)

lemma bit_consts [word_fields]:
  "bit MU_WLOCK n \<longleftrightarrow> n = 0" "bit MU_SPINLOCK n \<longleftrightarrow> n = 1" "bit MU_WAITING n \<longleftrightarrow> n = 2"
  "bit MU_DESIG_WAKER n \<longleftrightarrow> n = 3" "bit MU_CONDITION n \<longleftrightarrow> n = 4"
  "bit MU_WRITER_WAITING n \<longleftrightarrow> n = 5" "bit MU_LONG_WAIT n \<longleftrightarrow> n = 6"
  "bit MU_ALL_FALSE n \<longleftrightarrow> n = 7" "bit MU_RLOCK n \<longleftrightarrow> n = 8"
  unfolding MU_WLOCK_def MU_SPINLOCK_def MU_WAITING_def MU_DESIG_WAKER_def MU_CONDITION_def
      MU_WRITER_WAITING_def MU_LONG_WAIT_def MU_ALL_FALSE_def MU_RLOCK_def
  by (rule bit_push_one, simp)+

lemma test_consts [word_fields]:
  "w AND MU_SPINLOCK = 0 \<longleftrightarrow> \<not> bit w 1" "w AND MU_WAITING = 0 \<longleftrightarrow> \<not> bit w 2"
  "w AND MU_DESIG_WAKER = 0 \<longleftrightarrow> \<not> bit w 3" "w AND MU_CONDITION = 0 \<longleftrightarrow> \<not> bit w 4"
  "w AND MU_WRITER_WAITING = 0 \<longleftrightarrow> \<not> bit w 5" "w AND MU_LONG_WAIT = 0 \<longleftrightarrow> \<not> bit w 6"
  "w AND MU_ALL_FALSE = 0 \<longleftrightarrow> \<not> bit w 7" "w AND MU_WLOCK = 0 \<longleftrightarrow> \<not> bit w 0"
  unfolding MU_WLOCK_def MU_SPINLOCK_def MU_WAITING_def MU_DESIG_WAKER_def MU_CONDITION_def
      MU_WRITER_WAITING_def MU_LONG_WAIT_def MU_ALL_FALSE_def
  by (rule and_push_bit_zero)+

lemma and_or_zero: "w AND (a OR b) = 0 \<longleftrightarrow> w AND a = 0 \<and> w AND b = 0" for w :: u32
  by (auto simp: bit_eq_iff bit_and_iff bit_or_iff)

lemma bit_any_lock: "bit MU_ANY_LOCK n \<longleftrightarrow> n = 0 \<or> 8 \<le> n \<and> n < 32"
  by (auto simp: MU_ANY_LOCK_def MU_RLOCK_FIELD_eq bit_consts bit_or_iff bit_not_iff bit_mask_iff)

lemma hint_mask_bits: "hint_mask m \<longleftrightarrow> (\<forall>n. bit m n \<longrightarrow> n \<in> {2..<8})"
proof -
  have "hint_mask m \<longleftrightarrow> (\<forall>n. bit m n \<longrightarrow> \<not> (n = 0 \<or> 8 \<le> n \<and> n < 32 \<or> n = 1))"
    unfolding hint_mask_def word_bits_eq using bit_imp_le_length [of m]
    by (fastforce simp: bit_and_iff bit_or_iff bit_any_lock bit_consts)
  also have "\<dots> \<longleftrightarrow> (\<forall>n. bit m n \<longrightarrow> n \<in> {2..<8})"
    using bit_imp_le_length [of m] by (fastforce simp: not_less)
  finally show ?thesis .
qed

lemma hint_mask_intros [intro, simp]:
  "hint_mask 0" "hint_mask MU_WAITING" "hint_mask MU_DESIG_WAKER" "hint_mask MU_CONDITION"
  "hint_mask MU_WRITER_WAITING" "hint_mask MU_LONG_WAIT" "hint_mask MU_ALL_FALSE"
  by (auto simp: hint_mask_bits bit_consts)

lemma hint_mask_or [simp]: "hint_mask (a OR b) \<longleftrightarrow> hint_mask a \<and> hint_mask b"
  by (auto simp: hint_mask_bits bit_or_iff)

lemma hint_mask_and [simp]: "hint_mask a \<Longrightarrow> hint_mask (a AND b)"
  by (auto simp: hint_mask_bits bit_and_iff)

lemma hint_any: "hint_mask m \<Longrightarrow> m AND MU_ANY_LOCK = 0"
  by (simp add: hint_mask_def and_or_zero)

lemma lockv_hint [word_fields]:
  "hint_mask m \<Longrightarrow> lockv (w AND NOT m) = lockv w" "hint_mask m \<Longrightarrow> lockv (w OR m) = lockv w"
  by (simp_all add: hint_any lockv_and_not lockv_or)

lemma spin_any: "MU_SPINLOCK AND MU_ANY_LOCK = 0"
  by (auto simp: word_bits_eq bit_and_iff bit_any_lock bit_consts)

lemma lockv_spin [word_fields]:
  "lockv (w AND NOT MU_SPINLOCK) = lockv w" "lockv (w OR MU_SPINLOCK) = lockv w"
  by (simp_all add: spin_any lockv_and_not lockv_or)

lemma spin_hint [word_fields]:
  "hint_mask m \<Longrightarrow> bit (w AND NOT m) (Suc 0) \<longleftrightarrow> bit w (Suc 0)" "hint_mask m \<Longrightarrow> bit (w OR m) (Suc 0) \<longleftrightarrow> bit w (Suc 0)"
  by (auto simp: hint_mask_bits bit_and_iff bit_or_iff bit_not_iff dest: bit_imp_le_length)

lemma bit_ops [word_fields]:
  "bit (a OR b) n \<longleftrightarrow> bit a n \<or> bit b n"
  "bit (a AND NOT b) n \<longleftrightarrow> bit a n \<and> \<not> bit b n" for a b :: u32
  by (auto simp: bit_and_iff bit_or_iff bit_not_iff dest: bit_imp_le_length)

lemma add_consts: "MU_WADD_TO_ACQUIRE = 1" "MU_RADD_TO_ACQUIRE = 256" "MU_WLOCK = 1" "MU_RLOCK = 256"
   "add_to_acquire (lt nsync_writer_type) = 1" "add_to_acquire (lt nsync_reader_type) = 256"
  by (simp_all add: MU_WADD_TO_ACQUIRE_def MU_RADD_TO_ACQUIRE_def MU_WLOCK_def MU_RLOCK_def
      Xwriter_type_def Xreader_type_def)

lemma acquire_fields:
  assumes "compatible m (lockv w)"
  shows "lockv (w + add_to_acquire (lt m)) = lockv w + held m"
    "0 < n \<Longrightarrow> n < 8 \<Longrightarrow> bit (w + add_to_acquire (lt m)) n = bit w n"
  using assms by (cases m; simp add: add_consts compatible_def lockv_add_w lockv_add_r bit_add_w bit_add_r del: lt.simps)+

lemma release_fields:
  assumes "releasable m (lockv w)"
  shows "lockv (w - add_to_acquire (lt m)) = lockv w - held m"
    "0 < n \<Longrightarrow> n < 8 \<Longrightarrow> bit (w - add_to_acquire (lt m)) n = bit w n"
  using assms by (cases m; simp add: add_consts releasable_def lockv_sub_w lockv_sub_r bit_sub_w bit_sub_r del: lt.simps)+

end
