(* ===== verification/Refinement.thy ===== *)
theory Refinement
  imports Main
begin

text \<open>
  The interface between a detailed step system and the abstract specification it implements:
  a function to abstract states under which every step from a reachable state is a step of the
  specification or no step at all.  What holds of all reachable abstract states then holds of
  the abstraction of all reachable detailed states.
\<close>

locale refinement =
  fixes init :: 's and step :: "'s \<Rightarrow> 's \<Rightarrow> bool"
    and abs :: "'s \<Rightarrow> 'a" and astep :: "'a \<Rightarrow> 'a \<Rightarrow> bool"
  assumes simulates: "step\<^sup>*\<^sup>* init s \<Longrightarrow> step s s' \<Longrightarrow> abs s' = abs s \<or> astep (abs s) (abs s')"
begin

lemma abs_reach: "step\<^sup>*\<^sup>* init s \<Longrightarrow> astep\<^sup>*\<^sup>* (abs init) (abs s)"
proof (induction rule: rtranclp_induct)
  case (step s s')
  then show ?case using simulates [of s s'] by (auto intro: rtranclp.rtrancl_into_rtrancl)
qed simp

lemma abs_invariant:
  assumes "P (abs init)" "\<And>a a'. P a \<Longrightarrow> astep a a' \<Longrightarrow> P a'" "step\<^sup>*\<^sup>* init s"
  shows "P (abs s)"
proof -
  have "P a" if "astep\<^sup>*\<^sup>* (abs init) a" for a
    using that by (induction rule: rtranclp_induct) (use assms(1,2) in auto)
  then show ?thesis using abs_reach [OF assms(3)] by blast
qed

end

end
