(* ===== verification/Rw_Spec.thy ===== *)
theory Rw_Spec
  imports Common Refinement
begin

text \<open>
  The specification of a reader-writer lock, which the mutex of \<^verbatim>\<open>internal/mu.c\<close> and the
  \<^verbatim>\<open>pthread_rwlock_t\<close> of \<^verbatim>\<open>platform/c++11/platform.h\<close> implement.
\<close>

text \<open>
  The specification: which threads hold the lock and how.  A holder on its own may change its
  mode; \<^verbatim>\<open>nsync_mu_unlock_slow_\<close> does that when the last reader has conditions to test.
\<close>

type_synonym rw = "tid \<Rightarrow> lmode option"

inductive rw_step :: "rw \<Rightarrow> rw \<Rightarrow> bool" where
  acquire_write: "\<forall>u. h u = None \<Longrightarrow> rw_step h (h(t := Some nsync_writer_type))"
| acquire_read: "h t = None \<Longrightarrow> \<forall>u. h u \<noteq> Some nsync_writer_type \<Longrightarrow>
    rw_step h (h(t := Some nsync_reader_type))"
| release: "h t \<noteq> None \<Longrightarrow> rw_step h (h(t := None))"
| convert: "h t \<noteq> None \<Longrightarrow> \<forall>u. u \<noteq> t \<longrightarrow> h u = None \<Longrightarrow> rw_step h (h(t := Some m))"

definition rw_excl :: "rw \<Rightarrow> bool" where
  "rw_excl h \<longleftrightarrow> (\<forall>t u. h t = Some nsync_writer_type \<longrightarrow> u \<noteq> t \<longrightarrow> h u = None)"

lemma rw_excl_step: "rw_excl h \<Longrightarrow> rw_step h h' \<Longrightarrow> rw_excl h'"
  by (erule rw_step.cases) (auto simp: rw_excl_def)

text \<open>From a free lock no step leads to a writer beside another holder.\<close>

lemma rw_reach_excl: "rw_step\<^sup>*\<^sup>* (\<lambda>_. None) h \<Longrightarrow> rw_excl h"
proof (induction rule: rtranclp_induct)
  case base
  show ?case by (simp add: rw_excl_def)
qed (rule rw_excl_step)

end
