(* ===== verification/Mu_State.thy ===== *)
theory Mu_State
  imports Rw_Spec
begin

text \<open>
  The state of a system of threads that share one \<^verbatim>\<open>nsync_mu\<close>: the two fields of
  the lock, the waiter struct of every thread, the client's data that the lock protects (seen
  through the truth of the conditions passed to \<^verbatim>\<open>nsync_mu_wait\<close>), and for every
  thread where it is in which function, with the live local variables of that function.

  One step is one access to shared memory: an atomic load, compare-and-swap or store of the
  lock word, of a waiter's \<^verbatim>\<open>waiting\<close> flag or of its semaphore; plain accesses to the
  waiter queue, which only the holder of the spinlock makes, are a step of their own.  A
  waiter struct is named by the thread that uses it, the queue is the list of its waiters
  from first to last.
\<close>

type_synonym cond = nat

datatype outcome = Woken | ETIMEDOUT | ECANCELED

record mwait =
  m_ltype :: lmode
  m_cond :: "cond option"
  m_first_wait :: bool
  m_outcome :: outcome
  m_remove_count :: u32
  m_had_waiters :: bool
  m_sem_outcome :: outcome
  m_have_lock :: bool
  m_deadline :: bool

record lock_slow =
  s_ltype :: lmode
  s_clear :: u32
  s_zero_to_acquire :: u32
  s_wait_count :: u32
  s_long_wait :: u32
  s_caller :: "mwait option"

record unlock_slow =
  u_ltype :: lmode
  u_testing :: bool
  u_early :: u32
  u_late :: u32
  u_waiters :: "tid list"
  u_new_waiters :: "tid list"
  u_wake :: "tid list"
  u_wake_type :: "lmode option"
  u_clear_on_release :: u32
  u_set_on_release :: u32
  u_caller :: "mwait option"

datatype lock_pc = Lk_cas0 | Lk_load | Lk_cas u32

datatype lock_slow_pc =
    Ls_load | Ls_acquire u32 | Ls_spin u32 | Ls_enqueue
  | Ls_rel_load | Ls_rel_cas u32 | Ls_wait | Ls_sem

datatype unlock_pc = Ul_cas0 | Ul_load | Ul_cas u32 u32

datatype unlock_slow_pc =
    Us_load | Us_release u32 | Us_grab u32
  | Us_swap | Us_loop | Us_rel_load | Us_rel_cas u32 | Us_scan
  | Us_spin_load | Us_spin_cas u32 | Us_collect | Us_finish
  | Us_final_load | Us_final_cas u32 | Us_wake | Us_sem_v tid

datatype mwait_pc =
    Mw_load | Mw_test | Mw_prepare | Mw_spin_load | Mw_spin_cas u32 | Mw_enqueue
  | Mw_rel_load | Mw_rel_cas u32 u32 | Mw_wait | Mw_sem | Mw_check
  | Ta_load | Ta_cas u32 | Ta_hint u32 | Ta_check u32 | Mw_delay

text \<open>
  \<open>Idle\<close> and \<open>Crit\<close> are the client's own code, outside and inside a critical
  section; \<open>Panicked\<close> is a thread that called \<^verbatim>\<open>nsync_panic_\<close>.
\<close>

datatype pc =
    Idle | Crit lmode | Panicked string
  | Lock lock_pc | Rlock lock_pc | Trylock lock_pc | Rtrylock lock_pc
  | LockSlow lock_slow lock_slow_pc
  | Unlock unlock_pc | Runlock unlock_pc | UnlockNoWakeup unlock_pc
  | UnlockSlow unlock_slow unlock_slow_pc
  | MuWait mwait mwait_pc

record mu_sys =
  word :: u32
  waiters :: "tid list"
  w_waiting :: "tid \<Rightarrow> bool"
  w_sem :: "tid \<Rightarrow> nat"
  w_ltype :: "tid \<Rightarrow> lmode"
  w_cond :: "tid \<Rightarrow> cond option"
  w_remove_count :: "tid \<Rightarrow> u32"
  data :: "cond \<Rightarrow> bool"
  result :: "tid \<Rightarrow> outcome"
  pcs :: "tid \<Rightarrow> pc"

definition goto :: "tid \<Rightarrow> pc \<Rightarrow> mu_sys \<Rightarrow> mu_sys" where
  "goto t p s = s\<lparr>pcs := (pcs s)(t := p)\<rparr>"

text \<open>\<^verbatim>\<open>ATM_CAS\<close> on the lock word: \<open>None\<close> when it fails.\<close>

definition cas_word :: "u32 \<Rightarrow> u32 \<Rightarrow> mu_sys \<Rightarrow> mu_sys option" where
  "cas_word old new s = (if word s = old then Some (s\<lparr>word := new\<rparr>) else None)"

definition nsync_mu_init :: mu_sys where
  "nsync_mu_init = \<lparr>word = 0, waiters = [], w_waiting = (\<lambda>_. False), w_sem = (\<lambda>_. 0),
     w_ltype = (\<lambda>_. nsync_writer_type), w_cond = (\<lambda>_. None), w_remove_count = (\<lambda>_. 0),
     data = (\<lambda>_. False), result = (\<lambda>_. Woken), pcs = (\<lambda>_. Idle)\<rparr>"

lemma goto_simps [simp]:
  "word (goto t p s) = word s" "waiters (goto t p s) = waiters s"
  "w_waiting (goto t p s) = w_waiting s" "w_sem (goto t p s) = w_sem s"
  "w_ltype (goto t p s) = w_ltype s" "w_cond (goto t p s) = w_cond s"
  "w_remove_count (goto t p s) = w_remove_count s" "data (goto t p s) = data s"
  "result (goto t p s) = result s"
  "pcs (goto t p s) = (pcs s)(t := p)"
  by (simp_all add: goto_def)

lemma cas_word_Some: "cas_word old new s = Some s' \<longleftrightarrow> word s = old \<and> s' = s\<lparr>word := new\<rparr>"
  by (auto simp: cas_word_def)

end
