(* ===== verification/Mu.thy ===== *)
theory Mu
  imports Mu_State
begin

text \<open>
  The functions of \<^verbatim>\<open>internal/mu.c\<close> as steps of one thread \<open>t\<close>.  Each function of
  the source is one function here with an equation per point at which it can be suspended;
  the equation does the shared access of that point and everything local up to the next one.
  A call of \<^verbatim>\<open>nsync_spin_delay_\<close> changes no shared state and is left out; a thread
  blocked on its semaphore stays where it is.
\<close>

section \<open>Acquiring\<close>

text \<open>The entry of \<^verbatim>\<open>nsync_mu_lock_slow_\<close>, up to the loop.\<close>

definition lock_slow_entry :: "tid \<Rightarrow> u32 \<Rightarrow> lmode \<Rightarrow> mwait option \<Rightarrow> mu_sys \<Rightarrow> mu_sys" where
  "lock_slow_entry t clear l_type caller s =
     (let zero = zero_to_acquire (lt l_type);
          zero = (if clear \<noteq> 0 then zero AND NOT (MU_WRITER_WAITING OR MU_LONG_WAIT) else zero)
      in goto t (LockSlow \<lparr>s_ltype = l_type, s_clear = clear, s_zero_to_acquire = zero,
                           s_wait_count = 0, s_long_wait = 0, s_caller = caller\<rparr> Ls_load)
           (s\<lparr>w_cond := (w_cond s)(t := None), w_ltype := (w_ltype s)(t := l_type)\<rparr>))"

text \<open>
  What the thread does with the lock when \<^verbatim>\<open>nsync_mu_lock_slow_\<close> returns: the
  client's critical section, or the evaluation of the condition in
  \<^verbatim>\<open>nsync_mu_wait_with_deadline\<close>.
\<close>

definition lock_slow_return :: "tid \<Rightarrow> lock_slow \<Rightarrow> mu_sys \<Rightarrow> mu_sys" where
  "lock_slow_return t l s =
     (case s_caller l of
        None \<Rightarrow> goto t (Crit (s_ltype l)) s
      | Some m \<Rightarrow> goto t (MuWait m Mw_test) s)"

text \<open>The loop of \<^verbatim>\<open>nsync_mu_lock_slow_\<close>.\<close>

fun nsync_mu_lock_slow :: "tid \<Rightarrow> lock_slow \<Rightarrow> lock_slow_pc \<Rightarrow> mu_sys \<Rightarrow> mu_sys" where
  "nsync_mu_lock_slow t l Ls_load s =
     (let old_word = word s
      in if old_word AND s_zero_to_acquire l = 0 then goto t (LockSlow l (Ls_acquire old_word)) s
         else if old_word AND MU_SPINLOCK = 0 then goto t (LockSlow l (Ls_spin old_word)) s
         else s)"
| "nsync_mu_lock_slow t l (Ls_acquire old_word) s =
     (case cas_word old_word
             ((old_word + add_to_acquire (lt (s_ltype l))) AND
              NOT (s_clear l OR s_long_wait l OR clear_on_acquire (lt (s_ltype l)))) s of
        Some s \<Rightarrow> lock_slow_return t l s
      | None \<Rightarrow> goto t (LockSlow l Ls_load) s)"
| "nsync_mu_lock_slow t l (Ls_spin old_word) s =
     (case cas_word old_word
             ((old_word OR MU_SPINLOCK OR s_long_wait l OR set_when_waiting (lt (s_ltype l))) AND
              NOT (s_clear l OR MU_ALL_FALSE)) s of
        Some s \<Rightarrow> goto t (LockSlow l Ls_enqueue) s
      | None \<Rightarrow> goto t (LockSlow l Ls_load) s)"
| "nsync_mu_lock_slow t l Ls_enqueue s =
     (let s = s\<lparr>w_waiting := (w_waiting s)(t := True)\<rparr>;
          s = (if s_wait_count l = 0 then s\<lparr>waiters := waiters s @ [t]\<rparr>
               else s\<lparr>waiters := t # waiters s\<rparr>)
      in goto t (LockSlow l Ls_rel_load) s)"
| "nsync_mu_lock_slow t l Ls_rel_load s = goto t (LockSlow l (Ls_rel_cas (word s))) s"
| "nsync_mu_lock_slow t l (Ls_rel_cas old_word) s =
     (case cas_word old_word (old_word AND NOT MU_SPINLOCK) s of
        Some s \<Rightarrow> goto t (LockSlow l Ls_wait) s
      | None \<Rightarrow> goto t (LockSlow l Ls_rel_load) s)"
| "nsync_mu_lock_slow t l Ls_wait s =
     (if w_waiting s t then goto t (LockSlow l Ls_sem) s
      else
        (let wait_count = s_wait_count l + 1;
             long_wait = (if wait_count = LONG_WAIT_THRESHOLD then MU_LONG_WAIT else s_long_wait l)
         in goto t (LockSlow (l\<lparr>s_wait_count := wait_count, s_long_wait := long_wait,
                s_clear := MU_DESIG_WAKER,
                s_zero_to_acquire :=
                  s_zero_to_acquire l AND NOT (MU_WRITER_WAITING OR MU_LONG_WAIT)\<rparr>) Ls_load) s))"
| "nsync_mu_lock_slow t l Ls_sem s =
     (if w_sem s t = 0 then s
      else goto t (LockSlow l Ls_wait) (s\<lparr>w_sem := (w_sem s)(t := w_sem s t - 1)\<rparr>))"

fun nsync_mu_trylock :: "tid \<Rightarrow> lock_pc \<Rightarrow> mu_sys \<Rightarrow> mu_sys" where
  "nsync_mu_trylock t Lk_cas0 s =
     (case cas_word 0 MU_WADD_TO_ACQUIRE s of
        Some s \<Rightarrow> goto t (Crit nsync_writer_type) s
      | None \<Rightarrow> goto t (Trylock Lk_load) s)"
| "nsync_mu_trylock t Lk_load s =
     (let old_word = word s
      in if old_word AND MU_WZERO_TO_ACQUIRE = 0 then goto t (Trylock (Lk_cas old_word)) s
         else goto t Idle s)"
| "nsync_mu_trylock t (Lk_cas old_word) s =
     (case cas_word old_word ((old_word + MU_WADD_TO_ACQUIRE) AND NOT MU_WCLEAR_ON_ACQUIRE) s of
        Some s \<Rightarrow> goto t (Crit nsync_writer_type) s
      | None \<Rightarrow> goto t Idle s)"

fun nsync_mu_lock :: "tid \<Rightarrow> lock_pc \<Rightarrow> mu_sys \<Rightarrow> mu_sys" where
  "nsync_mu_lock t Lk_cas0 s =
     (case cas_word 0 MU_WADD_TO_ACQUIRE s of
        Some s \<Rightarrow> goto t (Crit nsync_writer_type) s
      | None \<Rightarrow> goto t (Lock Lk_load) s)"
| "nsync_mu_lock t Lk_load s =
     (let old_word = word s
      in if old_word AND MU_WZERO_TO_ACQUIRE \<noteq> 0
         then lock_slow_entry t 0 nsync_writer_type None s
         else goto t (Lock (Lk_cas old_word)) s)"
| "nsync_mu_lock t (Lk_cas old_word) s =
     (case cas_word old_word ((old_word + MU_WADD_TO_ACQUIRE) AND NOT MU_WCLEAR_ON_ACQUIRE) s of
        Some s \<Rightarrow> goto t (Crit nsync_writer_type) s
      | None \<Rightarrow> lock_slow_entry t 0 nsync_writer_type None s)"

fun nsync_mu_rtrylock :: "tid \<Rightarrow> lock_pc \<Rightarrow> mu_sys \<Rightarrow> mu_sys" where
  "nsync_mu_rtrylock t Lk_cas0 s =
     (case cas_word 0 MU_RADD_TO_ACQUIRE s of
        Some s \<Rightarrow> goto t (Crit nsync_reader_type) s
      | None \<Rightarrow> goto t (Rtrylock Lk_load) s)"
| "nsync_mu_rtrylock t Lk_load s =
     (let old_word = word s
      in if old_word AND MU_RZERO_TO_ACQUIRE = 0 then goto t (Rtrylock (Lk_cas old_word)) s
         else goto t Idle s)"
| "nsync_mu_rtrylock t (Lk_cas old_word) s =
     (case cas_word old_word ((old_word + MU_RADD_TO_ACQUIRE) AND NOT MU_RCLEAR_ON_ACQUIRE) s of
        Some s \<Rightarrow> goto t (Crit nsync_reader_type) s
      | None \<Rightarrow> goto t Idle s)"

fun nsync_mu_rlock :: "tid \<Rightarrow> lock_pc \<Rightarrow> mu_sys \<Rightarrow> mu_sys" where
  "nsync_mu_rlock t Lk_cas0 s =
     (case cas_word 0 MU_RADD_TO_ACQUIRE s of
        Some s \<Rightarrow> goto t (Crit nsync_reader_type) s
      | None \<Rightarrow> goto t (Rlock Lk_load) s)"
| "nsync_mu_rlock t Lk_load s =
     (let old_word = word s
      in if old_word AND MU_RZERO_TO_ACQUIRE \<noteq> 0
         then lock_slow_entry t 0 nsync_reader_type None s
         else goto t (Rlock (Lk_cas old_word)) s)"
| "nsync_mu_rlock t (Lk_cas old_word) s =
     (case cas_word old_word ((old_word + MU_RADD_TO_ACQUIRE) AND NOT MU_RCLEAR_ON_ACQUIRE) s of
        Some s \<Rightarrow> goto t (Crit nsync_reader_type) s
      | None \<Rightarrow> lock_slow_entry t 0 nsync_reader_type None s)"

section \<open>Releasing\<close>

text \<open>
  The inner loop of \<^verbatim>\<open>nsync_mu_unlock_slow_\<close>, which walks \<^verbatim>\<open>new_waiters\<close> and
  moves the waiters to wake to \<^verbatim>\<open>wake\<close>.  \<open>sc_keep\<close> is what stays of the part of
  \<^verbatim>\<open>new_waiters\<close> already passed; \<open>sc_panic\<close> records the panic on a condition met
  while the lock is not held.  The thread owns \<^verbatim>\<open>new_waiters\<close> during the walk.
\<close>

record scan_state =
  sc_keep :: "tid list"
  sc_wake :: "tid list"
  sc_wake_type :: "lmode option"
  sc_set_on_release :: u32
  sc_panic :: bool

fun scan :: "(cond \<Rightarrow> bool) \<Rightarrow> (tid \<Rightarrow> cond option) \<Rightarrow> (tid \<Rightarrow> lmode) \<Rightarrow> bool \<Rightarrow>
    tid list \<Rightarrow> scan_state \<Rightarrow> scan_state" where
  "scan d cnd ltype testing [] z = z"
| "scan d cnd ltype testing (p # ps) z =
     (if sc_wake_type z = Some nsync_writer_type
      then z\<lparr>sc_keep := sc_keep z @ p # ps,
             sc_set_on_release := sc_set_on_release z AND NOT MU_ALL_FALSE\<rparr>
      else if cnd p \<noteq> None \<and> \<not> testing then z\<lparr>sc_panic := True\<rparr>
      else if cnd p \<noteq> None \<and> \<not> d (the (cnd p))
      then scan d cnd ltype testing ps (z\<lparr>sc_keep := sc_keep z @ [p]\<rparr>)
      else if sc_wake_type z = None \<or> ltype p = nsync_reader_type
      then scan d cnd ltype testing ps
             (z\<lparr>sc_wake := sc_wake z @ [p], sc_wake_type := Some (ltype p)\<rparr>)
      else scan d cnd ltype testing ps
             (z\<lparr>sc_keep := sc_keep z @ [p],
                sc_set_on_release :=
                  (sc_set_on_release z OR MU_WRITER_WAITING) AND NOT MU_ALL_FALSE\<rparr>))"

text \<open>Every waiter moved to \<^verbatim>\<open>wake\<close> has its \<^verbatim>\<open>remove_count\<close> incremented.\<close>

definition count_removals :: "tid list \<Rightarrow> (tid \<Rightarrow> u32) \<Rightarrow> tid \<Rightarrow> u32" where
  "count_removals ps rc p = (if p \<in> set ps then rc p + 1 else rc p)"

text \<open>Where the thread goes when \<^verbatim>\<open>nsync_mu_unlock_slow_\<close> returns.\<close>

definition unlock_slow_return :: "tid \<Rightarrow> unlock_slow \<Rightarrow> mu_sys \<Rightarrow> mu_sys" where
  "unlock_slow_return t u s =
     (case u_caller u of
        None \<Rightarrow> goto t Idle s
      | Some m \<Rightarrow> goto t (MuWait m Mw_wait) s)"

definition unlock_slow_entry :: "tid \<Rightarrow> lmode \<Rightarrow> mwait option \<Rightarrow> mu_sys \<Rightarrow> mu_sys" where
  "unlock_slow_entry t l_type caller s =
     goto t (UnlockSlow \<lparr>u_ltype = l_type, u_testing = False, u_early = 0, u_late = 0,
       u_waiters = [], u_new_waiters = [], u_wake = [], u_wake_type = None,
       u_clear_on_release = 0, u_set_on_release = 0, u_caller = caller\<rparr> Us_load) s"

text \<open>Lines 332--348: whether conditions are still to be tested in this round.\<close>

definition still_testing :: "unlock_slow \<Rightarrow> mu_sys \<Rightarrow> bool" where
  "still_testing u s =
     (u_testing u \<and> u_wake_type u \<noteq> Some nsync_writer_type \<and>
      \<not> (u_wake_type u = None \<and> w_ltype s (hd (u_new_waiters u)) \<noteq> nsync_reader_type \<and>
         w_cond s (hd (u_new_waiters u)) = None))"

text \<open>Lines 413--430: the list goes back to the mutex, and the bits to clear are decided.\<close>

definition unlock_slow_finish :: "tid \<Rightarrow> unlock_slow \<Rightarrow> mu_sys \<Rightarrow> mu_sys" where
  [simp]: "unlock_slow_finish t u s =
     (let s = s\<lparr>waiters := u_waiters u\<rparr>;
          clr = u_clear_on_release u;
          clr = (if u_wake u = [] then clr OR MU_DESIG_WAKER else clr);
          clr = (if u_set_on_release u AND MU_ALL_FALSE = 0 then clr OR MU_ALL_FALSE else clr);
          clr = (if waiters s = []
                 then clr OR (MU_WAITING OR MU_WRITER_WAITING OR MU_CONDITION OR MU_ALL_FALSE)
                 else clr)
      in goto t (UnlockSlow (u\<lparr>u_clear_on_release := clr\<rparr>) Us_final_load) s)"

text \<open>Lines 443--450: the loop that wakes.\<close>

definition unlock_slow_wake :: "tid \<Rightarrow> unlock_slow \<Rightarrow> mu_sys \<Rightarrow> mu_sys" where
  [simp]: "unlock_slow_wake t u s =
     (case u_wake u of
        [] \<Rightarrow> unlock_slow_return t u s
      | p # ps \<Rightarrow> goto t (UnlockSlow (u\<lparr>u_wake := ps\<rparr>) (Us_sem_v p))
          (s\<lparr>w_waiting := (w_waiting s)(p := False)\<rparr>))"

fun nsync_mu_unlock_slow :: "tid \<Rightarrow> unlock_slow \<Rightarrow> unlock_slow_pc \<Rightarrow> mu_sys \<Rightarrow> mu_sys" where
  "nsync_mu_unlock_slow t u Us_load s =
     (let old_word = word s;
          testing = (old_word AND MU_CONDITION \<noteq> 0);
          add = add_to_acquire (lt (u_ltype u));
          u = u\<lparr>u_testing := testing,
                u_early := (if testing then add - MU_WLOCK else add),
                u_late := (if testing then MU_WLOCK else 0)\<rparr>
      in if old_word AND MU_WAITING = 0 \<or> old_word AND MU_DESIG_WAKER \<noteq> 0 \<or>
            old_word AND MU_RLOCK_FIELD > MU_RLOCK \<or>
            old_word AND (MU_RLOCK OR MU_ALL_FALSE) = (MU_RLOCK OR MU_ALL_FALSE)
         then goto t (UnlockSlow u (Us_release old_word)) s
         else if old_word AND MU_SPINLOCK = 0 then goto t (UnlockSlow u (Us_grab old_word)) s
         else goto t (UnlockSlow u Us_load) s)"
| "nsync_mu_unlock_slow t u (Us_release old_word) s =
     (case cas_word old_word
             ((old_word - add_to_acquire (lt (u_ltype u))) AND
              NOT (clear_on_uncontended_release (lt (u_ltype u)))) s of
        Some s \<Rightarrow> unlock_slow_return t u s
      | None \<Rightarrow> goto t (UnlockSlow u Us_load) s)"
| "nsync_mu_unlock_slow t u (Us_grab old_word) s =
     (case cas_word old_word ((old_word - u_early u) OR MU_SPINLOCK OR MU_DESIG_WAKER) s of
        Some s \<Rightarrow> goto t (UnlockSlow u Us_swap) s
      | None \<Rightarrow> goto t (UnlockSlow u Us_load) s)"
| "nsync_mu_unlock_slow t u Us_swap s =
     goto t (UnlockSlow (u\<lparr>u_waiters := [], u_new_waiters := waiters s, u_wake := [],
               u_wake_type := None, u_clear_on_release := MU_SPINLOCK,
               u_set_on_release := MU_ALL_FALSE\<rparr>) Us_loop)
       (s\<lparr>waiters := []\<rparr>)"
| "nsync_mu_unlock_slow t u Us_loop s =
     (if u_new_waiters u = [] then goto t (UnlockSlow u Us_finish) s
      else
        (let u = u\<lparr>u_testing := still_testing u s\<rparr>
         in goto t (UnlockSlow u (if u_testing u then Us_rel_load else Us_scan)) s))"
| "nsync_mu_unlock_slow t u Us_rel_load s = goto t (UnlockSlow u (Us_rel_cas (word s))) s"
| "nsync_mu_unlock_slow t u (Us_rel_cas old_word) s =
     (case cas_word old_word (old_word AND NOT MU_SPINLOCK) s of
        Some s \<Rightarrow> goto t (UnlockSlow u Us_scan) s
      | None \<Rightarrow> goto t (UnlockSlow u Us_rel_load) s)"
| "nsync_mu_unlock_slow t u Us_scan s =
     (let z = scan (data s) (w_cond s) (w_ltype s) (u_testing u) (u_new_waiters u)
                \<lparr>sc_keep = [], sc_wake = u_wake u, sc_wake_type = u_wake_type u,
                 sc_set_on_release = u_set_on_release u, sc_panic = False\<rparr>;
          s = s\<lparr>w_remove_count :=
                 count_removals (drop (length (u_wake u)) (sc_wake z)) (w_remove_count s)\<rparr>;
          u = u\<lparr>u_new_waiters := sc_keep z, u_wake := sc_wake z, u_wake_type := sc_wake_type z,
                u_set_on_release := sc_set_on_release z\<rparr>
      in if sc_panic z
         then goto t (Panicked ''checking a waiter condition while unlocked'') s
         else goto t (UnlockSlow u (if u_testing u then Us_spin_load else Us_collect)) s)"
| "nsync_mu_unlock_slow t u Us_spin_load s =
     (let old_word = word s
      in if old_word AND MU_SPINLOCK \<noteq> 0 then s
         else goto t (UnlockSlow u (Us_spin_cas old_word)) s)"
| "nsync_mu_unlock_slow t u (Us_spin_cas old_word) s =
     (case cas_word old_word (old_word OR MU_SPINLOCK) s of
        Some s \<Rightarrow> goto t (UnlockSlow u Us_collect) s
      | None \<Rightarrow> goto t (UnlockSlow u Us_spin_load) s)"
| "nsync_mu_unlock_slow t u Us_collect s =
     goto t (UnlockSlow (u\<lparr>u_waiters := u_waiters u @ u_new_waiters u,
               u_new_waiters := waiters s\<rparr>) Us_loop)
       (s\<lparr>waiters := []\<rparr>)"
| "nsync_mu_unlock_slow t u Us_finish s = unlock_slow_finish t u s"
| "nsync_mu_unlock_slow t u Us_final_load s = goto t (UnlockSlow u (Us_final_cas (word s))) s"
| "nsync_mu_unlock_slow t u (Us_final_cas old_word) s =
     (case cas_word old_word
             (((old_word - u_late u) OR u_set_on_release u) AND NOT (u_clear_on_release u)) s of
        Some s \<Rightarrow> goto t (UnlockSlow u Us_wake) s
      | None \<Rightarrow> goto t (UnlockSlow u Us_final_load) s)"
| "nsync_mu_unlock_slow t u Us_wake s = unlock_slow_wake t u s"
| "nsync_mu_unlock_slow t u (Us_sem_v p) s =
     goto t (UnlockSlow u Us_wake) (s\<lparr>w_sem := (w_sem s)(p := w_sem s p + 1)\<rparr>)"

fun nsync_mu_unlock :: "tid \<Rightarrow> unlock_pc \<Rightarrow> mu_sys \<Rightarrow> mu_sys" where
  "nsync_mu_unlock t Ul_cas0 s =
     (case cas_word MU_WLOCK 0 s of
        Some s \<Rightarrow> goto t Idle s
      | None \<Rightarrow> goto t (Unlock Ul_load) s)"
| "nsync_mu_unlock t Ul_load s =
     (let old_word = word s;
          new_word = (old_word - MU_WLOCK) AND NOT MU_ALL_FALSE
      in if new_word AND (MU_RLOCK_FIELD OR MU_WLOCK) \<noteq> 0
         then (if old_word AND MU_RLOCK_FIELD \<noteq> 0
               then goto t (Panicked ''attempt to nsync_mu_unlock() an nsync_mu held in read mode'') s
               else goto t (Panicked ''attempt to nsync_mu_unlock() an nsync_mu not held in write mode'') s)
         else if old_word AND (MU_WAITING OR MU_DESIG_WAKER) = MU_WAITING
         then unlock_slow_entry t nsync_writer_type None s
         else goto t (Unlock (Ul_cas old_word new_word)) s)"
| "nsync_mu_unlock t (Ul_cas old_word new_word) s =
     (case cas_word old_word new_word s of
        Some s \<Rightarrow> goto t Idle s
      | None \<Rightarrow> unlock_slow_entry t nsync_writer_type None s)"

fun nsync_mu_runlock :: "tid \<Rightarrow> unlock_pc \<Rightarrow> mu_sys \<Rightarrow> mu_sys" where
  "nsync_mu_runlock t Ul_cas0 s =
     (case cas_word MU_RLOCK 0 s of
        Some s \<Rightarrow> goto t Idle s
      | None \<Rightarrow> goto t (Runlock Ul_load) s)"
| "nsync_mu_runlock t Ul_load s =
     (let old_word = word s
      in if (old_word XOR MU_WLOCK) AND (MU_WLOCK OR MU_RLOCK_FIELD) = 0
         then (if old_word AND MU_WLOCK \<noteq> 0
               then goto t (Panicked ''attempt to nsync_mu_runlock() an nsync_mu held in write mode'') s
               else goto t (Panicked ''attempt to nsync_mu_runlock() an nsync_mu not held in read mode'') s)
         else if old_word AND (MU_WAITING OR MU_DESIG_WAKER) = MU_WAITING \<and>
                 old_word AND (MU_RLOCK_FIELD OR MU_ALL_FALSE) = MU_RLOCK
         then unlock_slow_entry t nsync_reader_type None s
         else goto t (Runlock (Ul_cas old_word (old_word - MU_RLOCK))) s)"
| "nsync_mu_runlock t (Ul_cas old_word new_word) s =
     (case cas_word old_word new_word s of
        Some s \<Rightarrow> goto t Idle s
      | None \<Rightarrow> unlock_slow_entry t nsync_reader_type None s)"

section \<open>Assertions\<close>

text \<open>These functions read the word once; \<open>None\<close> is a panic.\<close>

definition nsync_mu_assert_held :: "u32 \<Rightarrow> unit option" where
  "nsync_mu_assert_held w = (if w AND MU_WHELD_IF_NON_ZERO = 0 then None else Some ())"

definition nsync_mu_rassert_held :: "u32 \<Rightarrow> unit option" where
  "nsync_mu_rassert_held w = (if w AND MU_ANY_LOCK = 0 then None else Some ())"

definition nsync_mu_is_reader :: "u32 \<Rightarrow> bool option" where
  "nsync_mu_is_reader w = (if w AND MU_ANY_LOCK = 0 then None else Some (w AND MU_WLOCK = 0))"

end
