(* ===== verification/Mu_Wait.thy ===== *)
theory Mu_Wait
  imports Mu
begin

text \<open>
  The functions of \<^verbatim>\<open>internal/mu_wait.c\<close>: conditional critical sections and the unlock
  that need not wake conditional waiters.  As in theory \<open>Mu\<close>, one equation per point of
  suspension.  When a wait may expire is decided outside: \<open>expire\<close> says whether
  \<^verbatim>\<open>nsync_sem_wait_with_cancel_\<close> reports a timeout or a cancellation in this step.
\<close>

text \<open>
  \<^verbatim>\<open>mu_try_acquire_after_timeout_or_cancel\<close>: its spin loop (\<open>Ta_load\<close>,
  \<open>Ta_cas\<close>, \<open>Ta_hint\<close>) and, with the spinlock and the lock held, the decision
  (\<open>Ta_check\<close>).
\<close>

definition try_acquire_failed :: "tid \<Rightarrow> mwait \<Rightarrow> u32 \<Rightarrow> mu_sys \<Rightarrow> mu_sys" where
  "try_acquire_failed t m old_word s =
     (if old_word AND (MU_WRITER_WAITING OR MU_SPINLOCK) = 0
      then goto t (MuWait m (Ta_hint old_word)) s
      else goto t (MuWait m Ta_load) s)"

fun mu_try_acquire_after_timeout_or_cancel ::
  "tid \<Rightarrow> mwait \<Rightarrow> mwait_pc \<Rightarrow> mu_sys \<Rightarrow> mu_sys" where
  "mu_try_acquire_after_timeout_or_cancel t m Ta_load s =
     (let old_word = word s
      in if old_word AND (MU_WZERO_TO_ACQUIRE OR MU_SPINLOCK) \<noteq> 0
         then try_acquire_failed t m old_word s
         else goto t (MuWait m (Ta_cas old_word)) s)"
| "mu_try_acquire_after_timeout_or_cancel t m (Ta_cas old_word) s =
     (case cas_word old_word
             ((old_word + MU_WADD_TO_ACQUIRE + MU_SPINLOCK) AND NOT MU_WCLEAR_ON_ACQUIRE) s of
        Some s \<Rightarrow> goto t (MuWait m (Ta_check old_word)) s
      | None \<Rightarrow> try_acquire_failed t m old_word s)"
| "mu_try_acquire_after_timeout_or_cancel t m (Ta_hint old_word) s =
     (case cas_word old_word (old_word OR MU_WRITER_WAITING) s of
        Some s \<Rightarrow> goto t (MuWait m Ta_load) s
      | None \<Rightarrow> goto t (MuWait m Ta_load) s)"
| "mu_try_acquire_after_timeout_or_cancel t m (Ta_check old_word) s =
     (if w_waiting s t \<and> m_remove_count m = w_remove_count s t
      then goto t (MuWait (m\<lparr>m_have_lock := True, m_outcome := m_sem_outcome m\<rparr>) Mw_delay)
             (s\<lparr>waiters := remove1 t (waiters s),
                w_remove_count := (w_remove_count s)(t := w_remove_count s t + 1),
                w_waiting := (w_waiting s)(t := False),
                word := old_word + add_to_acquire (lt (m_ltype m))\<rparr>)
      else goto t (MuWait m Mw_delay) (s\<lparr>word := old_word\<rparr>))"
| "mu_try_acquire_after_timeout_or_cancel t m p s = s"

text \<open>
  The return of \<^verbatim>\<open>nsync_mu_wait_with_deadline\<close>; \<^verbatim>\<open>nsync_mu_wait\<close> (the call
  without a deadline) panics on any result but 0.
\<close>

definition mu_wait_return :: "tid \<Rightarrow> mwait \<Rightarrow> bool \<Rightarrow> mu_sys \<Rightarrow> mu_sys" where
  "mu_wait_return t m condition_is_true s =
     (let outcome = (if condition_is_true then Woken else m_outcome m)
      in if \<not> m_deadline m \<and> outcome \<noteq> Woken
         then goto t (Panicked ''nsync_mu_wait woke but condition not true'') s
         else goto t (Crit (m_ltype m)) (s\<lparr>result := (result s)(t := outcome)\<rparr>))"

definition condition_holds :: "cond option \<Rightarrow> mu_sys \<Rightarrow> bool" where
  "condition_holds c s = (case c of None \<Rightarrow> True | Some c \<Rightarrow> data s c)"

fun nsync_mu_wait_with_deadline ::
  "tid \<Rightarrow> outcome option \<Rightarrow> mwait \<Rightarrow> mwait_pc \<Rightarrow> mu_sys \<Rightarrow> mu_sys" where
  "nsync_mu_wait_with_deadline t expire m Mw_load s =
     (let old_word = word s
      in if old_word AND MU_ANY_LOCK = 0
         then goto t (Panicked ''nsync_mu not held in some mode when calling nsync_mu_wait_with_deadline()'') s
         else goto t (MuWait (m\<lparr>m_ltype := if old_word AND MU_RHELD_IF_NON_ZERO \<noteq> 0
                                            then nsync_reader_type else nsync_writer_type\<rparr>) Mw_test) s)"
| "nsync_mu_wait_with_deadline t expire m Mw_test s =
     (let condition_is_true = condition_holds (m_cond m) s
      in if m_outcome m = Woken \<and> \<not> condition_is_true
         then goto t (MuWait m Mw_prepare) s
         else mu_wait_return t m condition_is_true s)"
| "nsync_mu_wait_with_deadline t expire m Mw_prepare s =
     goto t (MuWait (m\<lparr>m_remove_count := w_remove_count s t\<rparr>) Mw_spin_load)
       (s\<lparr>w_ltype := (w_ltype s)(t := m_ltype m),
          w_cond := (w_cond s)(t := m_cond m),
          w_waiting := (w_waiting s)(t := True)\<rparr>)"
| "nsync_mu_wait_with_deadline t expire m Mw_spin_load s =
     (let old_word = word s
      in if old_word AND MU_SPINLOCK \<noteq> 0 then s
         else goto t (MuWait m (Mw_spin_cas old_word)) s)"
| "nsync_mu_wait_with_deadline t expire m (Mw_spin_cas old_word) s =
     (let has_condition = (if m_cond m \<noteq> None then MU_CONDITION else 0)
      in case cas_word old_word
                ((old_word OR (MU_SPINLOCK OR MU_WAITING OR has_condition)) AND
                 NOT MU_ALL_FALSE) s of
           Some s \<Rightarrow>
             goto t (MuWait (m\<lparr>m_had_waiters :=
               (old_word AND (MU_DESIG_WAKER OR MU_WAITING) = MU_WAITING)\<rparr>) Mw_enqueue) s
         | None \<Rightarrow> goto t (MuWait m Mw_spin_load) s)"
| "nsync_mu_wait_with_deadline t expire m Mw_enqueue s =
     (if m_first_wait m
      then goto t (MuWait (m\<lparr>m_first_wait := False\<rparr>) Mw_rel_load) (s\<lparr>waiters := waiters s @ [t]\<rparr>)
      else goto t (MuWait m Mw_rel_load) (s\<lparr>waiters := t # waiters s\<rparr>))"
| "nsync_mu_wait_with_deadline t expire m Mw_rel_load s =
     (let old_word = word s;
          add = add_to_acquire (lt (m_ltype m));
          add = (if (old_word - add) AND MU_ANY_LOCK = 0 \<and> m_had_waiters m then 0 else add)
      in goto t (MuWait m (Mw_rel_cas old_word add)) s)"
| "nsync_mu_wait_with_deadline t expire m (Mw_rel_cas old_word add) s =
     (case cas_word old_word ((old_word - add) AND NOT MU_SPINLOCK) s of
        None \<Rightarrow> goto t (MuWait m Mw_rel_load) s
      | Some s \<Rightarrow>
          (let m = m\<lparr>m_sem_outcome := Woken, m_have_lock := False\<rparr>
           in if add = 0 then unlock_slow_entry t (m_ltype m) (Some m) s
              else goto t (MuWait m Mw_wait) s))"
| "nsync_mu_wait_with_deadline t expire m Mw_wait s =
     (if w_waiting s t
      then goto t (MuWait m (if m_sem_outcome m = Woken then Mw_sem else Mw_delay)) s
      else if m_have_lock m then goto t (MuWait m Mw_test) s
      else lock_slow_entry t MU_DESIG_WAKER (m_ltype m) (Some m) s)"
| "nsync_mu_wait_with_deadline t expire m Mw_sem s =
     (case expire of
        Some e \<Rightarrow>
          if m_deadline m then goto t (MuWait (m\<lparr>m_sem_outcome := e\<rparr>) Mw_check) s else s
      | None \<Rightarrow>
          if w_sem s t = 0 then s
          else goto t (MuWait (m\<lparr>m_sem_outcome := Woken\<rparr>) Mw_check)
                 (s\<lparr>w_sem := (w_sem s)(t := w_sem s t - 1)\<rparr>))"
| "nsync_mu_wait_with_deadline t expire m Mw_check s =
     (if m_sem_outcome m \<noteq> Woken \<and> w_waiting s t then goto t (MuWait m Ta_load) s
      else goto t (MuWait m Mw_delay) s)"
| "nsync_mu_wait_with_deadline t expire m Mw_delay s = goto t (MuWait m Mw_wait) s"
| "nsync_mu_wait_with_deadline t expire m Ta_load s =
     mu_try_acquire_after_timeout_or_cancel t m Ta_load s"
| "nsync_mu_wait_with_deadline t expire m (Ta_cas old_word) s =
     mu_try_acquire_after_timeout_or_cancel t m (Ta_cas old_word) s"
| "nsync_mu_wait_with_deadline t expire m (Ta_hint old_word) s =
     mu_try_acquire_after_timeout_or_cancel t m (Ta_hint old_word) s"
| "nsync_mu_wait_with_deadline t expire m (Ta_check old_word) s =
     mu_try_acquire_after_timeout_or_cancel t m (Ta_check old_word) s"

text \<open>
  The entry.  \<^verbatim>\<open>l_type\<close> is not initialised before \<open>Mw_load\<close> sets it; the model
  starts it at the mode in which the caller holds the lock, which \<open>Mw_load\<close> does not use.
\<close>

definition mu_wait_entry :: "tid \<Rightarrow> lmode \<Rightarrow> cond option \<Rightarrow> bool \<Rightarrow> mu_sys \<Rightarrow> mu_sys" where
  "mu_wait_entry t l_type condition with_deadline s =
     goto t (MuWait \<lparr>m_ltype = l_type, m_cond = condition, m_first_wait = True,
       m_outcome = Woken, m_remove_count = 0, m_had_waiters = False, m_sem_outcome = Woken,
       m_have_lock = False, m_deadline = with_deadline\<rparr> Mw_load) s"

fun nsync_mu_unlock_without_wakeup :: "tid \<Rightarrow> unlock_pc \<Rightarrow> mu_sys \<Rightarrow> mu_sys" where
  "nsync_mu_unlock_without_wakeup t Ul_cas0 s =
     (case cas_word MU_WLOCK 0 s of
        Some s \<Rightarrow> goto t Idle s
      | None \<Rightarrow> goto t (UnlockNoWakeup Ul_load) s)"
| "nsync_mu_unlock_without_wakeup t Ul_load s =
     (let old_word = word s;
          new_word = old_word - MU_WLOCK
      in if new_word AND (MU_RLOCK_FIELD OR MU_WLOCK) \<noteq> 0
         then (if old_word AND MU_RLOCK_FIELD \<noteq> 0
               then goto t (Panicked ''attempt to nsync_mu_unlock() an nsync_mu held in read mode'') s
               else goto t (Panicked ''attempt to nsync_mu_unlock() an nsync_mu not held in write mode'') s)
         else if old_word AND (MU_WAITING OR MU_DESIG_WAKER OR MU_ALL_FALSE) = MU_WAITING
         then unlock_slow_entry t nsync_writer_type None s
         else goto t (UnlockNoWakeup (Ul_cas old_word new_word)) s)"
| "nsync_mu_unlock_without_wakeup t (Ul_cas old_word new_word) s =
     (case cas_word old_word new_word s of
        Some s \<Rightarrow> goto t Idle s
      | None \<Rightarrow> unlock_slow_entry t nsync_writer_type None s)"

section \<open>The system\<close>

text \<open>
  What a client may do next.  Outside a critical section a thread may ask for the lock; inside
  it may release the lock in the mode in which it holds it, wait, or (a writer) change the
  data.  These are the rules of \<^verbatim>\<open>public/nsync_mu.h\<close>.
\<close>

datatype call =
    C_lock | C_rlock | C_trylock | C_rtrylock | C_unlock | C_runlock | C_unlock_without_wakeup
  | C_wait "cond option" | C_wait_with_deadline "cond option" | C_data "cond \<Rightarrow> bool"

definition client :: "tid \<Rightarrow> call \<Rightarrow> mu_sys \<Rightarrow> mu_sys option" where
  "client t c s =
     (case pcs s t of
        Idle \<Rightarrow>
          (case c of
             C_lock \<Rightarrow> Some (goto t (Lock Lk_cas0) s)
           | C_rlock \<Rightarrow> Some (goto t (Rlock Lk_cas0) s)
           | C_trylock \<Rightarrow> Some (goto t (Trylock Lk_cas0) s)
           | C_rtrylock \<Rightarrow> Some (goto t (Rtrylock Lk_cas0) s)
           | _ \<Rightarrow> None)
      | Crit m \<Rightarrow>
          (case c of
             C_wait cnd \<Rightarrow> Some (mu_wait_entry t m cnd False s)
           | C_wait_with_deadline cnd \<Rightarrow> Some (mu_wait_entry t m cnd True s)
           | C_unlock \<Rightarrow>
               (if m = nsync_writer_type then Some (goto t (Unlock Ul_cas0) s) else None)
           | C_unlock_without_wakeup \<Rightarrow>
               (if m = nsync_writer_type then Some (goto t (UnlockNoWakeup Ul_cas0) s) else None)
           | C_runlock \<Rightarrow>
               (if m = nsync_reader_type then Some (goto t (Runlock Ul_cas0) s) else None)
           | C_data d \<Rightarrow> (if m = nsync_writer_type then Some (s\<lparr>data := d\<rparr>) else None)
           | _ \<Rightarrow> None)
      | _ \<Rightarrow> None)"

definition run_thread :: "tid \<Rightarrow> outcome option \<Rightarrow> mu_sys \<Rightarrow> mu_sys" where
  "run_thread t expire s =
     (case pcs s t of
        Idle \<Rightarrow> s
      | Crit _ \<Rightarrow> s
      | Panicked _ \<Rightarrow> s
      | Lock p \<Rightarrow> nsync_mu_lock t p s
      | Rlock p \<Rightarrow> nsync_mu_rlock t p s
      | Trylock p \<Rightarrow> nsync_mu_trylock t p s
      | Rtrylock p \<Rightarrow> nsync_mu_rtrylock t p s
      | LockSlow l p \<Rightarrow> nsync_mu_lock_slow t l p s
      | Unlock p \<Rightarrow> nsync_mu_unlock t p s
      | Runlock p \<Rightarrow> nsync_mu_runlock t p s
      | UnlockNoWakeup p \<Rightarrow> nsync_mu_unlock_without_wakeup t p s
      | UnlockSlow u p \<Rightarrow> nsync_mu_unlock_slow t u p s
      | MuWait m p \<Rightarrow> nsync_mu_wait_with_deadline t expire m p s)"

text \<open>\<^verbatim>\<open>nsync_panic_\<close> aborts the process: nothing runs after it.\<close>

definition crashed :: "nat \<Rightarrow> mu_sys \<Rightarrow> bool" where
  "crashed N s = (\<exists>t<N. \<exists>msg. pcs s t = Panicked msg)"

inductive mu_step :: "nat \<Rightarrow> mu_sys \<Rightarrow> mu_sys \<Rightarrow> bool" for N where
  run: "t < N \<Longrightarrow> \<not> crashed N s \<Longrightarrow> expire \<noteq> Some Woken \<Longrightarrow> mu_step N s (run_thread t expire s)"
| call: "t < N \<Longrightarrow> \<not> crashed N s \<Longrightarrow> client t c s = Some s' \<Longrightarrow> mu_step N s s'"

inductive mu_reach :: "nat \<Rightarrow> mu_sys \<Rightarrow> bool" for N where
  init: "mu_reach N nsync_mu_init"
| step: "mu_reach N s \<Longrightarrow> mu_step N s s' \<Longrightarrow> mu_reach N s'"

end
