(* ===== verification/Mu_Inv.thy ===== *)
theory Mu_Inv
  imports Mu_Wait
begin

text \<open>
  The accounting invariant of the lock word.  Every point of every function says what its
  thread owns of the word: a share of the lock field (1 for the writer bit, 256 for one reader)
  and a share of the spinlock.  The invariant says that the word is the sum of the shares of
  all threads, and carries for each point what the thread knows of its local variables.  A
  step is checked against the view of its own thread only (\<open>view_ok\<close>, \<open>step_ok\<close>);
  the frame lemma lifts that to the system.
\<close>

section \<open>Shares\<close>

definition unlock_slow_share :: "unlock_slow \<Rightarrow> unlock_slow_pc \<Rightarrow> nat" where
  "unlock_slow_share u p =
     (case p of
        Us_load \<Rightarrow> held (u_ltype u) | Us_release _ \<Rightarrow> held (u_ltype u) | Us_grab _ \<Rightarrow> held (u_ltype u)
      | Us_wake \<Rightarrow> 0 | Us_sem_v _ \<Rightarrow> 0
      | _ \<Rightarrow> unat (u_late u))"

definition mwait_share :: "mwait \<Rightarrow> mwait_pc \<Rightarrow> nat" where
  "mwait_share m p =
     (case p of
        Mw_wait \<Rightarrow> if m_have_lock m then held (m_ltype m) else 0
      | Mw_delay \<Rightarrow> if m_have_lock m then held (m_ltype m) else 0
      | Mw_sem \<Rightarrow> 0 | Mw_check \<Rightarrow> 0
      | Ta_load \<Rightarrow> 0 | Ta_cas _ \<Rightarrow> 0 | Ta_hint _ \<Rightarrow> 0 | Ta_check _ \<Rightarrow> 1
      | _ \<Rightarrow> held (m_ltype m))"

definition lock_share :: "pc \<Rightarrow> nat" where
  "lock_share q =
     (case q of
        Crit m \<Rightarrow> held m | Unlock _ \<Rightarrow> 1 | UnlockNoWakeup _ \<Rightarrow> 1 | Runlock _ \<Rightarrow> 256
      | UnlockSlow u p \<Rightarrow> unlock_slow_share u p
      | MuWait m p \<Rightarrow> mwait_share m p
      | _ \<Rightarrow> 0)"

definition spin_share :: "pc \<Rightarrow> nat" where
  "spin_share q =
     (case q of
        LockSlow l p \<Rightarrow> of_bool (p = Ls_enqueue \<or> p = Ls_rel_load \<or> (\<exists>w. p = Ls_rel_cas w))
      | UnlockSlow u p \<Rightarrow>
          (case p of
             Us_swap \<Rightarrow> 1 | Us_loop \<Rightarrow> 1 | Us_rel_load \<Rightarrow> 1 | Us_rel_cas _ \<Rightarrow> 1
           | Us_scan \<Rightarrow> of_bool (\<not> u_testing u)
           | Us_collect \<Rightarrow> 1 | Us_finish \<Rightarrow> 1 | Us_final_load \<Rightarrow> 1 | Us_final_cas _ \<Rightarrow> 1
           | _ \<Rightarrow> 0)
      | MuWait m p \<Rightarrow>
          (case p of
             Mw_enqueue \<Rightarrow> 1 | Mw_rel_load \<Rightarrow> 1 | Mw_rel_cas _ _ \<Rightarrow> 1 | Ta_check _ \<Rightarrow> 1 | _ \<Rightarrow> 0)
      | _ \<Rightarrow> 0)"

section \<open>What each point knows\<close>

definition zero_ok :: "lmode \<Rightarrow> u32 \<Rightarrow> bool" where
  "zero_ok m z \<longleftrightarrow>
     z = zero_to_acquire (lt m) \<or>
     z = zero_to_acquire (lt m) AND NOT (MU_WRITER_WAITING OR MU_LONG_WAIT)"

text \<open>Without a deadline a wait never expires.\<close>

definition deadline_ok :: "mwait \<Rightarrow> bool" where
  "deadline_ok m \<longleftrightarrow> m_deadline m \<or> m_outcome m = Woken \<and> m_sem_outcome m = Woken"

definition lock_slow_ok :: "lock_slow \<Rightarrow> lock_slow_pc \<Rightarrow> bool" where
  "lock_slow_ok l p \<longleftrightarrow>
     s_clear l \<in> {0, MU_DESIG_WAKER} \<and> s_long_wait l \<in> {0, MU_LONG_WAIT} \<and>
     zero_ok (s_ltype l) (s_zero_to_acquire l) \<and>
     (case s_caller l of None \<Rightarrow> True | Some m \<Rightarrow> m_ltype m = s_ltype l \<and> deadline_ok m) \<and>
     (case p of
        Ls_acquire old \<Rightarrow> old AND s_zero_to_acquire l = 0
      | Ls_spin old \<Rightarrow> \<not> bit old 1
      | _ \<Rightarrow> True)"

text \<open>The hints that the release of \<^verbatim>\<open>nsync_mu_unlock_slow_\<close> sets and clears.\<close>

definition set_ok :: "u32 \<Rightarrow> bool" where
  "set_ok m \<longleftrightarrow> (\<forall>n. bit m n \<longrightarrow> n = 5 \<or> n = 7)"

definition clear_ok :: "u32 \<Rightarrow> bool" where
  "clear_ok c \<longleftrightarrow> (\<exists>h. hint_mask h \<and> c = (MU_SPINLOCK OR h))"

definition split_ok :: "unlock_slow \<Rightarrow> bool" where
  "split_ok u \<longleftrightarrow>
     (u_late u = 0 \<or> u_late u = 1) \<and> (u_testing u \<longrightarrow> u_late u = 1) \<and>
     clear_ok (u_clear_on_release u) \<and> set_ok (u_set_on_release u)"

definition unlock_slow_ok :: "unlock_slow \<Rightarrow> unlock_slow_pc \<Rightarrow> bool" where
  "unlock_slow_ok u p \<longleftrightarrow>
     (case u_caller u of None \<Rightarrow> True | Some m \<Rightarrow> \<not> m_have_lock m \<and> deadline_ok m) \<and>
     (case p of
        Us_load \<Rightarrow> True | Us_release _ \<Rightarrow> True | Us_wake \<Rightarrow> True | Us_sem_v _ \<Rightarrow> True
      | Us_grab old \<Rightarrow>
          \<not> bit old 1 \<and> old AND MU_RLOCK_FIELD \<le> MU_RLOCK \<and>
          u_late u = (if u_testing u then 1 else 0) \<and>
          u_early u = add_to_acquire (lt (u_ltype u)) - u_late u
      | Us_swap \<Rightarrow> u_late u = (if u_testing u then 1 else 0)
      | Us_rel_load \<Rightarrow> split_ok u \<and> u_testing u
      | Us_rel_cas _ \<Rightarrow> split_ok u \<and> u_testing u
      | Us_spin_load \<Rightarrow> split_ok u \<and> u_testing u
      | Us_spin_cas old \<Rightarrow> split_ok u \<and> u_testing u \<and> \<not> bit old 1
      | _ \<Rightarrow> split_ok u)"

text \<open>
  While a thread is at \<open>Ta_check\<close> it owns both locks, so the word is what its
  compare-and-swap left there.
\<close>

definition mwait_ok :: "u32 \<Rightarrow> mwait \<Rightarrow> mwait_pc \<Rightarrow> bool" where
  "mwait_ok w m p \<longleftrightarrow> deadline_ok m \<and>
     (case p of
        Mw_spin_cas old \<Rightarrow> \<not> bit old 1
      | Mw_rel_cas old add \<Rightarrow> add = 0 \<or> add = add_to_acquire (lt (m_ltype m))
      | Mw_wait \<Rightarrow> m_have_lock m \<longrightarrow> m_sem_outcome m \<noteq> Woken
      | Mw_delay \<Rightarrow> m_have_lock m \<longrightarrow> m_sem_outcome m \<noteq> Woken
      | Mw_sem \<Rightarrow> \<not> m_have_lock m | Mw_check \<Rightarrow> \<not> m_have_lock m | Ta_load \<Rightarrow> \<not> m_have_lock m \<and> m_sem_outcome m \<noteq> Woken
      | Ta_cas old \<Rightarrow> \<not> m_have_lock m \<and> m_sem_outcome m \<noteq> Woken \<and> lockv old = 0 \<and> \<not> bit old 1
      | Ta_hint old \<Rightarrow> \<not> m_have_lock m \<and> m_sem_outcome m \<noteq> Woken \<and> \<not> bit old 1
      | Ta_check old \<Rightarrow> \<not> m_have_lock m \<and> m_sem_outcome m \<noteq> Woken \<and> lockv old = 0 \<and> \<not> bit old 1 \<and>
          w = (old + MU_WADD_TO_ACQUIRE + MU_SPINLOCK) AND NOT MU_WCLEAR_ON_ACQUIRE
      | _ \<Rightarrow> True)"

definition pc_ok :: "u32 \<Rightarrow> pc \<Rightarrow> bool" where
  "pc_ok w q =
     (case q of
        Panicked _ \<Rightarrow> False
      | Lock (Lk_cas old) \<Rightarrow> old AND MU_WZERO_TO_ACQUIRE = 0
      | Trylock (Lk_cas old) \<Rightarrow> old AND MU_WZERO_TO_ACQUIRE = 0
      | Rlock (Lk_cas old) \<Rightarrow> old AND MU_RZERO_TO_ACQUIRE = 0
      | Rtrylock (Lk_cas old) \<Rightarrow> old AND MU_RZERO_TO_ACQUIRE = 0
      | Unlock (Ul_cas old new) \<Rightarrow> new = (old - MU_WLOCK) AND NOT MU_ALL_FALSE
      | UnlockNoWakeup (Ul_cas old new) \<Rightarrow> new = old - MU_WLOCK
      | Runlock (Ul_cas old new) \<Rightarrow> new = old - MU_RLOCK
      | LockSlow l p \<Rightarrow> lock_slow_ok l p
      | UnlockSlow u p \<Rightarrow> unlock_slow_ok u p
      | MuWait m p \<Rightarrow> mwait_ok w m p
      | _ \<Rightarrow> True)"

section \<open>The invariant and its thread-local form\<close>

definition mu_inv :: "nat \<Rightarrow> mu_sys \<Rightarrow> bool" where
  "mu_inv N s \<longleftrightarrow>
     (\<forall>t<N. pc_ok (word s) (pcs s t)) \<and>
     lockv (word s) = (\<Sum>t<N. lock_share (pcs s t)) \<and>
     of_bool (bit (word s) 1) = (\<Sum>t<N. spin_share (pcs s t)) \<and>
     (\<forall>t<N. lock_share (pcs s t) = 1 \<longrightarrow> lockv (word s) = 1)"

text \<open>The reader count has room for one more reader.\<close>

definition reader_room :: "u32 \<Rightarrow> bool" where
  "reader_room w \<longleftrightarrow> lockv w + 256 < 2 ^ 32"

definition view_ok :: "u32 \<Rightarrow> pc \<Rightarrow> bool" where
  "view_ok w q \<longleftrightarrow>
     pc_ok w q \<and> lock_share q \<le> lockv w \<and> (lock_share q = 1 \<longrightarrow> lockv w = 1) \<and>
     (spin_share q = 1 \<longrightarrow> bit w 1) \<and> (lock_share q = 0 \<longrightarrow> reader_room w) \<and>
     (even (lockv w) \<or> lockv w = 1)"

definition step_ok :: "u32 \<Rightarrow> pc \<Rightarrow> u32 \<Rightarrow> pc \<Rightarrow> bool" where
  "step_ok w q w' p \<longleftrightarrow>
     pc_ok w' p \<and>
     lockv w' + lock_share q = lockv w + lock_share p \<and>
     of_bool (bit w' 1) + spin_share q = of_bool (bit w 1) + spin_share p \<and>
     (lock_share p = 1 \<longrightarrow> lockv w' = 1) \<and>
     (lock_share q = 0 \<and> lock_share p \<noteq> 0 \<longrightarrow> lockv w \<noteq> 1) \<and>
     (w' \<noteq> w \<longrightarrow> \<not> bit w 1 \<or> spin_share q \<noteq> 0 \<or> lock_share q \<noteq> 0 \<or> lockv w \<noteq> 1)"

definition good_step :: "tid \<Rightarrow> mu_sys \<Rightarrow> mu_sys \<Rightarrow> bool" where
  "good_step t s s' \<longleftrightarrow>
     (\<exists>p. pcs s' = (pcs s)(t := p) \<and> step_ok (word s) (pcs s t) (word s') p)"

section \<open>The frame\<close>

lemma held_cases: "held m = 1 \<or> held m = 256"
  by (cases m) auto

lemma held_neq_0 [simp]: "held m \<noteq> 0" "0 < held m"
  by (cases m; simp)+

declare lt.simps [simp del] bit.de_Morgan_disj [simp del] bit_0 [simp del]

lemma shares [simp]:
  "lock_share Idle = 0" "spin_share Idle = 0" "lock_share (Crit m) = held m"
  "spin_share (Crit m) = 0" "lock_share (Panicked x) = 0" "spin_share (Panicked x) = 0"
  "lock_share (Lock k) = 0" "spin_share (Lock k) = 0" "lock_share (Rlock k) = 0"
  "spin_share (Rlock k) = 0" "lock_share (Trylock k) = 0" "spin_share (Trylock k) = 0"
  "lock_share (Rtrylock k) = 0" "spin_share (Rtrylock k) = 0" "lock_share (Unlock k2) = 1"
  "spin_share (Unlock k2) = 0" "lock_share (Runlock k2) = 256" "spin_share (Runlock k2) = 0"
  "lock_share (UnlockNoWakeup k2) = 1" "spin_share (UnlockNoWakeup k2) = 0"
  "lock_share (LockSlow l k3) = 0" "spin_share (LockSlow l Ls_load) = 0"
  "spin_share (LockSlow l (Ls_acquire w)) = 0" "spin_share (LockSlow l (Ls_spin w)) = 0"
  "spin_share (LockSlow l Ls_enqueue) = 1" "spin_share (LockSlow l Ls_rel_load) = 1"
  "spin_share (LockSlow l (Ls_rel_cas w)) = 1" "spin_share (LockSlow l Ls_wait) = 0"
  "spin_share (LockSlow l Ls_sem) = 0" "lock_share (UnlockSlow u Us_load) = held (u_ltype u)"
  "spin_share (UnlockSlow u Us_load) = 0"
  "lock_share (UnlockSlow u (Us_release w)) = held (u_ltype u)"
  "spin_share (UnlockSlow u (Us_release w)) = 0"
  "lock_share (UnlockSlow u (Us_grab w)) = held (u_ltype u)"
  "spin_share (UnlockSlow u (Us_grab w)) = 0" "lock_share (UnlockSlow u Us_swap) = unat (u_late u)"
  "spin_share (UnlockSlow u Us_swap) = 1" "lock_share (UnlockSlow u Us_loop) = unat (u_late u)"
  "spin_share (UnlockSlow u Us_loop) = 1" "lock_share (UnlockSlow u Us_rel_load) = unat (u_late u)"
  "spin_share (UnlockSlow u Us_rel_load) = 1"
  "lock_share (UnlockSlow u (Us_rel_cas w)) = unat (u_late u)"
  "spin_share (UnlockSlow u (Us_rel_cas w)) = 1"
  "lock_share (UnlockSlow u Us_scan) = unat (u_late u)"
  "spin_share (UnlockSlow u Us_scan) = of_bool (\<not> u_testing u)"
  "lock_share (UnlockSlow u Us_spin_load) = unat (u_late u)"
  "spin_share (UnlockSlow u Us_spin_load) = 0"
  "lock_share (UnlockSlow u (Us_spin_cas w)) = unat (u_late u)"
  "spin_share (UnlockSlow u (Us_spin_cas w)) = 0"
  "lock_share (UnlockSlow u Us_collect) = unat (u_late u)"
  "spin_share (UnlockSlow u Us_collect) = 1"
  "lock_share (UnlockSlow u Us_finish) = unat (u_late u)" "spin_share (UnlockSlow u Us_finish) = 1"
  "lock_share (UnlockSlow u Us_final_load) = unat (u_late u)"
  "spin_share (UnlockSlow u Us_final_load) = 1"
  "lock_share (UnlockSlow u (Us_final_cas w)) = unat (u_late u)"
  "spin_share (UnlockSlow u (Us_final_cas w)) = 1" "lock_share (UnlockSlow u Us_wake) = 0"
  "spin_share (UnlockSlow u Us_wake) = 0" "lock_share (UnlockSlow u (Us_sem_v i)) = 0"
  "spin_share (UnlockSlow u (Us_sem_v i)) = 0" "lock_share (MuWait c Mw_load) = held (m_ltype c)"
  "spin_share (MuWait c Mw_load) = 0" "lock_share (MuWait c Mw_test) = held (m_ltype c)"
  "spin_share (MuWait c Mw_test) = 0" "lock_share (MuWait c Mw_prepare) = held (m_ltype c)"
  "spin_share (MuWait c Mw_prepare) = 0" "lock_share (MuWait c Mw_spin_load) = held (m_ltype c)"
  "spin_share (MuWait c Mw_spin_load) = 0"
  "lock_share (MuWait c (Mw_spin_cas w)) = held (m_ltype c)"
  "spin_share (MuWait c (Mw_spin_cas w)) = 0" "lock_share (MuWait c Mw_enqueue) = held (m_ltype c)"
  "spin_share (MuWait c Mw_enqueue) = 1" "lock_share (MuWait c Mw_rel_load) = held (m_ltype c)"
  "spin_share (MuWait c Mw_rel_load) = 1"
  "lock_share (MuWait c (Mw_rel_cas w a)) = held (m_ltype c)"
  "spin_share (MuWait c (Mw_rel_cas w a)) = 1"
  "lock_share (MuWait c Mw_wait) = (if m_have_lock c then held (m_ltype c) else 0)"
  "spin_share (MuWait c Mw_wait) = 0" "lock_share (MuWait c Mw_sem) = 0"
  "spin_share (MuWait c Mw_sem) = 0" "lock_share (MuWait c Mw_check) = 0"
  "spin_share (MuWait c Mw_check) = 0" "lock_share (MuWait c Ta_load) = 0"
  "spin_share (MuWait c Ta_load) = 0" "lock_share (MuWait c (Ta_cas w)) = 0"
  "spin_share (MuWait c (Ta_cas w)) = 0" "lock_share (MuWait c (Ta_hint w)) = 0"
  "spin_share (MuWait c (Ta_hint w)) = 0" "lock_share (MuWait c (Ta_check w)) = 1"
  "spin_share (MuWait c (Ta_check w)) = 1"
  "lock_share (MuWait c Mw_delay) = (if m_have_lock c then held (m_ltype c) else 0)"
  "spin_share (MuWait c Mw_delay) = 0"
  by (simp_all add: lock_share_def spin_share_def unlock_slow_share_def mwait_share_def)

lemma lock_share_values:
  assumes "pc_ok w q"
  shows "lock_share q = 0 \<or> lock_share q = 1 \<or> lock_share q = 256"
proof (cases q)
  case (UnlockSlow u p)
  then show ?thesis using assms held_cases [of "u_ltype u"]
    by (cases p) (auto simp: lock_share_def pc_ok_def unlock_slow_ok_def unlock_slow_share_def split_ok_def
        split: if_splits)
next
  case (MuWait m p)
  then show ?thesis using held_cases [of "m_ltype m"]
    by (cases p) (auto simp: lock_share_def mwait_share_def)
qed (use held_cases in \<open>auto simp: lock_share_def\<close>)

lemma spin_share_values: "spin_share q = 0 \<or> spin_share q = 1"
  by (auto simp: spin_share_def split: pc.split unlock_slow_pc.split mwait_pc.split)

lemma mu_invD:
  assumes "mu_inv N s"
  shows "t < N \<Longrightarrow> pc_ok (word s) (pcs s t)"
    "lockv (word s) = (\<Sum>t<N. lock_share (pcs s t))"
    "of_bool (bit (word s) 1) = (\<Sum>t<N. spin_share (pcs s t))"
    "t < N \<Longrightarrow> lock_share (pcs s t) = 1 \<Longrightarrow> lockv (word s) = 1"
  using assms unfolding mu_inv_def by blast+

lemma mu_inv_shares:
  assumes "mu_inv N s" "t < N"
  shows "lock_share (pcs s t) = 0 \<or> lock_share (pcs s t) = 1 \<or> lock_share (pcs s t) = 256"
  using lock_share_values [OF mu_invD(1) [OF assms]] .

lemma mu_inv_odd:
  assumes "mu_inv N s" "odd (lockv (word s))"
  shows "lockv (word s) = 1"
proof (rule ccontr)
  assume n1: "lockv (word s) \<noteq> 1"
  have "even (lock_share (pcs s t))" if "t < N" for t
    using mu_inv_shares [OF assms(1) that] assms(1) that n1 by (auto simp: mu_inv_def)
  then have "even (\<Sum>t<N. lock_share (pcs s t))" by (auto intro: dvd_sum)
  with assms show False by (simp add: mu_inv_def)
qed

lemma mu_inv_view:
  assumes inv: "mu_inv N s" and t: "t < N" and N: "N < 2 ^ 24"
  shows "view_ok (word s) (pcs s t)"
proof -
  have room: "lockv (word s) + 256 < 2 ^ 32" if "lock_share (pcs s t) = 0"
  proof -
    have "lock_share (pcs s i) \<le> 256" if "i < N" for i
      using mu_inv_shares [OF inv that] by auto
    then have "lockv (word s) \<le> (N - 1) * 256"
      using sum_le_bound_except [OF t, of "\<lambda>i. lock_share (pcs s i)" 256] that inv
      by (simp add: mu_inv_def)
    with N t show ?thesis by simp
  qed
  have "spin_share (pcs s t) = 1 \<Longrightarrow> bit (word s) 1"
    using sum_ge_single [OF t, of "\<lambda>i. spin_share (pcs s i)"] inv
    by (cases "bit (word s) 1") (auto simp: mu_inv_def)
  moreover have "lock_share (pcs s t) \<le> lockv (word s)"
    using sum_ge_single [OF t, of "\<lambda>i. lock_share (pcs s i)"] inv by (simp add: mu_inv_def)
  ultimately show ?thesis
    using t room mu_inv_odd [OF inv] mu_invD(1,4) [OF inv t] unfolding view_ok_def reader_room_def
    by blast
qed

lemma share_excludes:
  assumes inv: "mu_inv N s" and tu: "t < N" "u < N" "t \<noteq> u" and one: "lock_share (pcs s u) = 1"
  shows "lock_share (pcs s t) = 0"
  using sum_ge_pair [OF tu, of "\<lambda>i. lock_share (pcs s i)"] inv one tu by (auto simp: mu_inv_def)

lemma spin_excludes:
  assumes inv: "mu_inv N s" and tu: "t < N" "u < N" "t \<noteq> u" and one: "spin_share (pcs s u) = 1"
  shows "spin_share (pcs s t) = 0"
  using sum_ge_pair [OF tu, of "\<lambda>i. spin_share (pcs s i)"] inv one
  by (cases "bit (word s) 1") (auto simp: mu_inv_def)

text \<open>The knowledge of a thread depends on the word only at \<open>Ta_check\<close>, where it owns it.\<close>

lemma pc_ok_word:
  assumes "pc_ok w q" "w' = w \<or> \<not> (lock_share q = 1 \<and> spin_share q = 1)"
  shows "pc_ok w' q"
proof (cases q)
  case (MuWait m p)
  with assms show ?thesis
    by (cases p) (auto simp: pc_ok_def mwait_ok_def lock_share_def spin_share_def mwait_share_def)
qed (use assms in \<open>auto simp: pc_ok_def split: lock_pc.splits unlock_pc.splits\<close>)

lemma mu_inv_frame:
  assumes inv: "mu_inv N s" and t: "t < N" and pcs': "pcs s' = (pcs s)(t := p)"
    and ok: "step_ok (word s) (pcs s t) (word s') p"
  shows "mu_inv N s'"
proof -
  have other: "pc_ok (word s') (pcs s u)" if u: "u < N" "u \<noteq> t" for u
  proof (rule pc_ok_word [of "word s"])
    show "pc_ok (word s) (pcs s u)" using inv u by (simp add: mu_inv_def)
    show "word s' = word s \<or> \<not> (lock_share (pcs s u) = 1 \<and> spin_share (pcs s u) = 1)"
    proof (rule ccontr)
      assume "\<not> ?thesis"
      then have c: "word s' \<noteq> word s" "lock_share (pcs s u) = 1" "spin_share (pcs s u) = 1" by auto
      then have "lock_share (pcs s t) = 0" "spin_share (pcs s t) = 0"
        using share_excludes spin_excludes inv t u by blast+
      moreover have "lockv (word s) = 1" using mu_invD(4) [OF inv u(1) c(2)] .
      moreover have "bit (word s) 1"
        using sum_ge_single [OF u(1), of "\<lambda>i. spin_share (pcs s i)"] inv c
        by (cases "bit (word s) 1") (auto simp: mu_inv_def)
      ultimately show False using ok c by (simp add: step_ok_def)
    qed
  qed
  have one: "lockv (word s') = 1" if u: "u < N" "u \<noteq> t" "lock_share (pcs s u) = 1" for u
  proof -
    have "lock_share (pcs s t) = 0" using share_excludes [OF inv t] u by blast
    moreover have "lockv (word s) = 1" using mu_invD(4) [OF inv u(1) u(3)] .
    ultimately show ?thesis using ok by (auto simp: step_ok_def)
  qed
  have sums: "lockv (word s') = (\<Sum>i<N. lock_share (pcs s' i))"
    "of_bool (bit (word s') 1) = (\<Sum>i<N. spin_share (pcs s' i))"
    using sum_upd [OF t, of lock_share "pcs s" p] sum_upd [OF t, of spin_share "pcs s" p] inv ok
    by (simp_all add: mu_inv_def step_ok_def pcs')
  show ?thesis
    unfolding mu_inv_def
    using sums other one ok by (auto simp: step_ok_def pcs')
qed

lemma good_step_inv: "mu_inv N s \<Longrightarrow> t < N \<Longrightarrow> good_step t s s' \<Longrightarrow> mu_inv N s'"
  using mu_inv_frame by (auto simp: good_step_def)

lemma good_step_goto:
  assumes "pcs s0 = pcs s" "step_ok (word s) (pcs s t) (word s0) p"
  shows "good_step t s (goto t p s0)"
  using assms by (auto simp: good_step_def)

lemma step_ok_refl: "view_ok w q \<Longrightarrow> step_ok w q w q"
  by (auto simp: step_ok_def view_ok_def)

lemma good_step_refl: "view_ok (word s) (pcs s t) \<Longrightarrow> good_step t s s"
  unfolding good_step_def by (rule exI [of _ "pcs s t"]) (simp add: step_ok_refl)

text \<open>A step that leaves the word alone keeps the shares.\<close>

lemma step_ok_local:
  assumes "view_ok w q" "pc_ok w p" "lock_share p = lock_share q" "spin_share p = spin_share q"
  shows "step_ok w q w p"
  using assms by (auto simp: step_ok_def view_ok_def)


section \<open>Kinds of update\<close>

text \<open>What the tests of the code say about the lock field.\<close>

lemma zero_consts:
  "zero_to_acquire (lt nsync_writer_type) = MU_ANY_LOCK OR MU_LONG_WAIT"
  "zero_to_acquire (lt nsync_reader_type) = MU_WLOCK OR MU_WRITER_WAITING OR MU_LONG_WAIT"
  by (simp_all add: lt.simps Xwriter_type_def Xreader_type_def MU_WZERO_TO_ACQUIRE_def MU_RZERO_TO_ACQUIRE_def)

lemma and_zero_bits: "w AND z = 0 \<longleftrightarrow> (\<forall>n<32. bit w n \<longrightarrow> \<not> bit z n)" for w z :: u32
  by (auto simp: word_bits_eq bit_and_iff dest: bit_imp_le_length)

lemma zero_ok_mask:
  assumes "zero_ok m z"
  shows "case m of nsync_writer_type \<Rightarrow> w AND z = 0 \<longrightarrow> w AND MU_ANY_LOCK = 0
     | nsync_reader_type \<Rightarrow> w AND z = 0 \<longrightarrow> w AND MU_WLOCK = 0"
proof (cases m)
  case nsync_writer_type
  with assms show ?thesis
    by (fastforce simp: zero_ok_def zero_consts and_zero_bits bit_and_iff bit_or_iff bit_not_iff
        bit_any_lock bit_consts)
next
  case nsync_reader_type
  have "bit z 0" using assms nsync_reader_type
    by (auto simp: zero_ok_def zero_consts bit_and_iff bit_or_iff bit_not_iff bit_consts)
  then have "w AND z = 0 \<Longrightarrow> \<not> bit w 0" by (auto simp: and_zero_bits)
  then show ?thesis using nsync_reader_type by (simp add: test_consts(8))
qed

lemma zero_compatible:
  assumes "zero_ok m z" "w AND z = 0" "reader_room w"
  shows "compatible m (lockv w)"
  using zero_ok_mask [OF assms(1), of w] assms(2,3)
  by (cases m) (auto simp: compatible_def lockv_0_iff wlock_iff reader_room_def)

lemma zero_ok_self [simp]: "zero_ok m (zero_to_acquire (lt m))"
  "zero_ok m (zero_to_acquire (lt m) AND NOT (MU_WRITER_WAITING OR MU_LONG_WAIT))"
  by (simp_all add: zero_ok_def)

lemma zero_ok_and:
  "zero_ok m z \<Longrightarrow> zero_ok m (z AND NOT (MU_WRITER_WAITING OR MU_LONG_WAIT))"
  by (auto simp: zero_ok_def and.assoc)

lemma hint_types [simp]:
  "hint_mask (clear_on_acquire (lt m))" "hint_mask (set_when_waiting (lt m))"
  "hint_mask (clear_on_uncontended_release (lt m))"
  by (cases m; simp add: lt.simps Xwriter_type_def Xreader_type_def MU_WCLEAR_ON_ACQUIRE_def
      MU_RCLEAR_ON_ACQUIRE_def MU_WSET_WHEN_WAITING_def MU_RSET_WHEN_WAITING_def
      MU_WCLEAR_ON_UNCONTENDED_RELEASE_def MU_RCLEAR_ON_UNCONTENDED_RELEASE_def)+

lemma view_okD:
  assumes "view_ok w q"
  shows "pc_ok w q" "lock_share q \<le> lockv w" "lock_share q = 1 \<Longrightarrow> lockv w = 1"
    "spin_share q = 1 \<Longrightarrow> bit w 1" "lock_share q = 0 \<Longrightarrow> reader_room w"
    "even (lockv w) \<or> lockv w = 1"
  using assms unfolding view_ok_def by blast+

lemma compatible_neq_1: "compatible m v \<Longrightarrow> v \<noteq> 1"
  by (cases m) (auto simp: compatible_def)

lemma compatible_writer: "compatible m v \<Longrightarrow> held m = 1 \<Longrightarrow> v = 0"
  by (cases m) (auto simp: compatible_def)

lemma step_ok_acquire:
  assumes q: "lock_share q = 0" "spin_share q = 0" and c: "compatible m (lockv w)"
    and h: "hint_mask h" and p: "lock_share p = held m" "spin_share p = 0"
    and ok: "pc_ok ((w + add_to_acquire (lt m)) AND NOT h) p"
  shows "step_ok w q ((w + add_to_acquire (lt m)) AND NOT h) p"
proof -
  have "lockv ((w + add_to_acquire (lt m)) AND NOT h) = lockv w + held m"
    using acquire_fields(1) [OF c] h by (simp add: word_fields)
  moreover have "bit ((w + add_to_acquire (lt m)) AND NOT h) (Suc 0) = bit w (Suc 0)"
    using acquire_fields(2) [OF c, of 1] spin_hint [OF h] by simp
  ultimately show ?thesis
    using q p ok compatible_neq_1 [OF c] compatible_writer [OF c] by (auto simp: step_ok_def)
qed

lemma held_releasable:
  assumes "view_ok w q" "lock_share q = held m"
  shows "releasable m (lockv w)"
  using view_okD(2,3) [OF assms(1)] assms(2) by (cases m) (auto simp: releasable_def)

lemma step_ok_release:
  assumes v: "view_ok w q" and q: "lock_share q = held m" "spin_share p = spin_share q"
    and h: "hint_mask h" and p: "lock_share p = 0"
    and ok: "pc_ok ((w - add_to_acquire (lt m)) AND NOT h) p"
  shows "step_ok w q ((w - add_to_acquire (lt m)) AND NOT h) p"
proof -
  have r: "releasable m (lockv w)" using held_releasable [OF v q(1)] .
  have "lockv ((w - add_to_acquire (lt m)) AND NOT h) = lockv w - held m"
    using release_fields(1) [OF r] h by (simp add: word_fields)
  moreover have "bit ((w - add_to_acquire (lt m)) AND NOT h) (Suc 0) = bit w (Suc 0)"
    using release_fields(2) [OF r, of 1] spin_hint [OF h] by simp
  moreover have "held m \<le> lockv w" using view_okD(2) [OF v] q by simp
  ultimately show ?thesis
    using q p ok by (auto simp: step_ok_def)
qed

text \<open>Taking and dropping the spinlock, with changes to the hint bits.\<close>

lemma step_ok_take_spin:
  assumes v: "view_ok w q" and q: "spin_share q = 0" "spin_share p = 1" "lock_share p = lock_share q"
    and b: "\<not> bit w 1" and w': "lockv w' = lockv w" "bit w' 1" and ok: "pc_ok w' p"
  shows "step_ok w q w' p"
  using assms view_okD(3) [OF v] by (auto simp: step_ok_def)

lemma step_ok_drop_spin:
  assumes v: "view_ok w q" and q: "spin_share q = 1" "spin_share p = 0" "lock_share p = lock_share q"
    and w': "lockv w' = lockv w" "\<not> bit w' 1" and ok: "pc_ok w' p"
  shows "step_ok w q w' p"
  using assms view_okD(3,4) [OF v] by (auto simp: step_ok_def)


lemmas knows = pc_ok_def lock_slow_ok_def unlock_slow_ok_def mwait_ok_def deadline_ok_def

section \<open>The fast paths\<close>

lemma const_types:
  "MU_WADD_TO_ACQUIRE = add_to_acquire (lt nsync_writer_type)"
  "MU_RADD_TO_ACQUIRE = add_to_acquire (lt nsync_reader_type)"
  "MU_WZERO_TO_ACQUIRE = zero_to_acquire (lt nsync_writer_type)"
  "MU_RZERO_TO_ACQUIRE = zero_to_acquire (lt nsync_reader_type)"
  "MU_WLOCK = add_to_acquire (lt nsync_writer_type)"
  "MU_RLOCK = add_to_acquire (lt nsync_reader_type)"
  by (simp_all add: lt.simps Xwriter_type_def Xreader_type_def MU_WADD_TO_ACQUIRE_def MU_RADD_TO_ACQUIRE_def)

lemma hint_consts [simp]: "hint_mask MU_WCLEAR_ON_ACQUIRE" "hint_mask MU_RCLEAR_ON_ACQUIRE"
  by (simp_all add: MU_WCLEAR_ON_ACQUIRE_def MU_RCLEAR_ON_ACQUIRE_def)

lemma good_cas:
  assumes "word s = old \<Longrightarrow> step_ok old (pcs s t) new p" "good_step t s s'"
  shows "good_step t s (case cas_word old new s of None \<Rightarrow> s' | Some s \<Rightarrow> goto t p s)"
  using assms by (auto simp: cas_word_def intro!: good_step_goto)

lemma good_stay:
  assumes "view_ok (word s) (pcs s t)" "pc_ok (word s) p"
    "lock_share p = lock_share (pcs s t)" "spin_share p = spin_share (pcs s t)"
  shows "good_step t s (goto t p s)"
  using assms by (intro good_step_goto) (auto intro: step_ok_local)

lemma good_update:
  assumes "pcs s0 = pcs s" "word s0 = word s" "view_ok (word s) (pcs s t)" "pc_ok (word s) p"
    "lock_share p = lock_share (pcs s t)" "spin_share p = spin_share (pcs s t)"
  shows "good_step t s (goto t p s0)"
  using assms by (intro good_step_goto) (auto intro: step_ok_local)

lemma good_lock_slow_entry:
  assumes "view_ok (word s) (pcs s t)" "lock_share (pcs s t) = 0" "spin_share (pcs s t) = 0"
    "c \<in> {0, MU_DESIG_WAKER}" "case m of None \<Rightarrow> True | Some m \<Rightarrow> m_ltype m = l \<and> deadline_ok m"
  shows "good_step t s (lock_slow_entry t c l m s)"
  using assms unfolding lock_slow_entry_def Let_def
  by (intro good_update) (auto simp: knows split: option.splits)

text \<open>The first compare-and-swap of a fast path expects the word of a free lock.\<close>

lemma step_ok_acquire_free:
  assumes "lock_share q = 0" "spin_share q = 0" "lock_share p = held m" "spin_share p = 0"
    "\<And>w. pc_ok w p"
  shows "step_ok 0 q (add_to_acquire (lt m)) p"
proof -
  have "compatible m (lockv 0)" by (cases m) (simp_all add: compatible_def lockv_def)
  then show ?thesis using step_ok_acquire [of q m 0 0 p] assms by simp
qed

lemma step_ok_acquire_zero:
  assumes v: "view_ok w q" and q: "lock_share q = 0" "spin_share q = 0"
    and z: "zero_ok m z" "w AND z = 0" and h: "hint_mask h"
    and p: "lock_share p = held m" "spin_share p = 0" "\<And>w. pc_ok w p"
  shows "step_ok w q ((w + add_to_acquire (lt m)) AND NOT h) p"
  using step_ok_acquire [OF q zero_compatible [OF z view_okD(5) [OF v q(1)]] h p(1,2) p(3)] .

lemmas acquire_rules = good_cas good_stay good_lock_slow_entry step_ok_acquire_free
  step_ok_acquire_zero [OF _ _ _ zero_ok_self(1)]

lemma trylock_good:
  assumes "view_ok (word s) (pcs s t)"
  shows "pcs s t = Trylock p \<Longrightarrow> good_step t s (nsync_mu_trylock t p s)"
    "pcs s t = Rtrylock p \<Longrightarrow> good_step t s (nsync_mu_rtrylock t p s)"
  using assms view_okD(1) [OF assms]
  by (cases p; auto simp: knows Let_def const_types intro!: acquire_rules)+

lemma lock_good:
  assumes "view_ok (word s) (pcs s t)"
  shows "pcs s t = Lock p \<Longrightarrow> good_step t s (nsync_mu_lock t p s)"
    "pcs s t = Rlock p \<Longrightarrow> good_step t s (nsync_mu_rlock t p s)"
  using assms view_okD(1) [OF assms]
  by (cases p; auto simp: knows Let_def const_types intro!: acquire_rules)+


section \<open>The slow path of acquiring\<close>

lemma good_cas_then:
  assumes "word s = old \<Longrightarrow> good_step t s (f (s\<lparr>word := new\<rparr>))" "good_step t s s'"
  shows "good_step t s (case cas_word old new s of None \<Rightarrow> s' | Some s \<Rightarrow> f s)"
  using assms by (auto simp: cas_word_def)

lemma good_lock_slow_return:
  assumes "step_ok (word s) (pcs s t) w (Crit (s_ltype l))"
    "case s_caller l of None \<Rightarrow> True | Some m \<Rightarrow> m_ltype m = s_ltype l \<and> deadline_ok m"
  shows "good_step t s (lock_slow_return t l (s\<lparr>word := w\<rparr>))"
  using assms unfolding lock_slow_return_def
  by (auto split: option.splits intro!: good_step_goto simp: step_ok_def knows)

lemma hint_not_spin [simp, dest]: "hint_mask k \<Longrightarrow> \<not> bit k (Suc 0)"
  by (auto simp: hint_mask_bits)

lemma lock_slow_good:
  assumes "view_ok (word s) (pcs s t)" "pcs s t = LockSlow l p"
  shows "good_step t s (nsync_mu_lock_slow t l p s)"
proof (cases p)
  case (Ls_acquire old)
  then show ?thesis
    using assms view_okD(1) [OF assms(1)]
    by (auto simp: knows intro!: good_cas_then good_stay good_lock_slow_return
        step_ok_acquire_zero [where z = "s_zero_to_acquire l"])
next
  case (Ls_spin old)
  then show ?thesis
    using assms view_okD(1) [OF assms(1)]
    by (auto simp: knows word_fields or.assoc [symmetric] intro!: good_cas good_stay step_ok_take_spin)
next
  case (Ls_rel_cas old)
  then show ?thesis
    using assms view_okD(1) [OF assms(1)]
    by (auto simp: knows word_fields intro!: good_cas good_stay step_ok_drop_spin)
qed (use assms view_okD(1) [OF assms(1)] in
  \<open>auto simp: knows Let_def word_fields zero_ok_and good_step_refl split: option.splits intro!: good_stay good_update\<close>)

section \<open>The fast paths of releasing\<close>

lemma step_ok_release_free:
  assumes "view_ok w q" "w = add_to_acquire (lt m)" "lock_share q = held m" "spin_share p = spin_share q"
    "lock_share p = 0" "\<And>w. pc_ok w p"
  shows "step_ok w q 0 p"
  using step_ok_release [of w q m p 0] assms by simp

lemma step_ok_release_plain:
  assumes "view_ok w q" "lock_share q = held m" "spin_share p = spin_share q"
    "lock_share p = 0" "\<And>w. pc_ok w p"
  shows "step_ok w q (w - add_to_acquire (lt m)) p"
  using step_ok_release [of w q m p 0] assms by simp

lemma good_unlock_slow_entry:
  assumes "view_ok (word s) (pcs s t)" "lock_share (pcs s t) = held l" "spin_share (pcs s t) = 0"
    "case m of None \<Rightarrow> True | Some m \<Rightarrow> \<not> m_have_lock m \<and> deadline_ok m"
  shows "good_step t s (unlock_slow_entry t l m s)"
  using assms unfolding unlock_slow_entry_def
  by (intro good_stay) (auto simp: knows split: option.splits)

text \<open>A thread that holds the lock in write mode never sees another holder.\<close>

lemma writer_word:
  assumes "view_ok w q" "lock_share q = 1"
  shows "(w - MU_WLOCK) AND (MU_RLOCK_FIELD OR MU_WLOCK) = 0"
    "((w - MU_WLOCK) AND NOT MU_ALL_FALSE) AND (MU_RLOCK_FIELD OR MU_WLOCK) = 0"
proof -
  have "lockv w = 1" using view_okD(3) assms by blast
  then have "lockv (w - MU_WLOCK) = 0" by (simp add: add_consts lockv_sub_w)
  moreover have "MU_RLOCK_FIELD OR MU_WLOCK = MU_ANY_LOCK"
    by (simp add: MU_ANY_LOCK_def or.commute)
  ultimately show "(w - MU_WLOCK) AND (MU_RLOCK_FIELD OR MU_WLOCK) = 0"
    "((w - MU_WLOCK) AND NOT MU_ALL_FALSE) AND (MU_RLOCK_FIELD OR MU_WLOCK) = 0"
    by (simp_all add: lockv_0_iff lockv_hint)
qed

lemma reader_word:
  assumes "view_ok w q" "lock_share q = 256"
  shows "(w XOR MU_WLOCK) AND (MU_WLOCK OR MU_RLOCK_FIELD) \<noteq> 0"
proof
  assume z: "(w XOR MU_WLOCK) AND (MU_WLOCK OR MU_RLOCK_FIELD) = 0"
  have "w AND MU_RLOCK_FIELD = 0"
  proof (rule bit_word_eqI)
    fix n assume "n < LENGTH(32)"
    have "bit MU_RLOCK_FIELD n \<Longrightarrow> n \<noteq> 0" by (auto simp: MU_RLOCK_FIELD_eq bit_not_iff bit_mask_iff)
    moreover have "\<not> bit ((w XOR MU_WLOCK) AND (MU_WLOCK OR MU_RLOCK_FIELD)) n" using z by simp
    ultimately show "bit (w AND MU_RLOCK_FIELD) n = bit 0 n"
      by (auto simp: bit_and_iff bit_or_iff bit_xor_iff bit_consts)
  qed
  with assms view_okD(2) [OF assms(1)] show False by (simp add: rlock_iff)
qed

lemmas release_rules = good_cas good_stay good_unlock_slow_entry

lemma unlock_good:
  assumes "view_ok (word s) (pcs s t)" "pcs s t = Unlock p"
  shows "good_step t s (nsync_mu_unlock t p s)"
proof (cases p)
  case (Ul_cas old new)
  with assms view_okD(1) [OF assms(1)] show ?thesis
    by (auto simp: knows const_types(5) intro!: release_rules step_ok_release)
qed (use assms writer_word [OF assms(1)] in
  \<open>auto simp: knows Let_def const_types(5) intro!: release_rules step_ok_release_free\<close>)

lemma unlock_without_wakeup_good:
  assumes "view_ok (word s) (pcs s t)" "pcs s t = UnlockNoWakeup p"
  shows "good_step t s (nsync_mu_unlock_without_wakeup t p s)"
proof (cases p)
  case (Ul_cas old new)
  with assms view_okD(1) [OF assms(1)] show ?thesis
    by (auto simp: knows const_types(5) intro!: release_rules step_ok_release_plain)
qed (use assms writer_word [OF assms(1)] in
  \<open>auto simp: knows Let_def const_types(5) intro!: release_rules step_ok_release_free\<close>)

lemma runlock_good:
  assumes "view_ok (word s) (pcs s t)" "pcs s t = Runlock p"
  shows "good_step t s (nsync_mu_runlock t p s)"
proof (cases p)
  case (Ul_cas old new)
  with assms view_okD(1) [OF assms(1)] show ?thesis
    by (auto simp: knows const_types(6) intro!: release_rules step_ok_release_plain)
qed (use assms reader_word [OF assms(1)] in
  \<open>auto simp: knows Let_def const_types(6) intro!: release_rules step_ok_release_free\<close>)


section \<open>The slow path of releasing\<close>

lemma good_unlock_slow_return:
  assumes "pcs s0 = pcs s" "step_ok (word s) (pcs s t) (word s0) Idle"
    "case u_caller u of None \<Rightarrow> True | Some m \<Rightarrow> \<not> m_have_lock m \<and> deadline_ok m"
  shows "good_step t s (unlock_slow_return t u s0)"
  using assms unfolding unlock_slow_return_def
  by (auto split: option.splits intro!: good_step_goto simp: step_ok_def knows)

lemma rlock_le_iff: "w AND MU_RLOCK_FIELD \<le> MU_RLOCK \<longleftrightarrow> lockv w < 512"
proof -
  have "w AND MU_RLOCK_FIELD \<le> MU_RLOCK \<longleftrightarrow> unat w div 256 * 256 \<le> 256"
    by (simp add: word_le_nat_alt MU_RLOCK_FIELD_eq unat_and_not_mask8 add_consts)
  moreover have "unat w mod 2 < 2" by simp
  ultimately show ?thesis unfolding lockv_eq
    by (cases "unat w div 256"; cases "unat w div 256 - 1") auto
qed

lemma lockv_even: "even (lockv w) \<Longrightarrow> 256 dvd lockv w"
proof -
  assume "even (lockv w)"
  then have "lockv w = unat w div 256 * 256"
    unfolding lockv_eq by simp
  then show ?thesis by simp
qed

text \<open>
  Taking the spinlock to wake waiters gives up the early part of the lock, \<open>u_early\<close>,
  and keeps \<open>u_late\<close>.  With conditions to test a lone reader trades its read lock for a
  write lock in the same compare-and-swap.
\<close>

lemma grab_fields:
  assumes v: "view_ok w q" and q: "lock_share q = held m" and r: "w AND MU_RLOCK_FIELD \<le> MU_RLOCK"
    and late: "late = 0 \<or> late = (1 :: u32)"
  shows "lockv (w - (add_to_acquire (lt m) - late)) + held m = lockv w + unat late"
    "0 < n \<Longrightarrow> n < 8 \<Longrightarrow> bit (w - (add_to_acquire (lt m) - late)) n = bit w n"
    "unat late = 1 \<Longrightarrow> lockv (w - (add_to_acquire (lt m) - late)) = 1"
proof -
  have rel: "releasable m (lockv w)" using held_releasable [OF v q] .
  have ge: "held m \<le> lockv w" using view_okD(2) [OF v] q by simp
  have whole: "lockv w = held m"
    using view_okD(2,3,6) [OF v] q r rlock_le_iff [of w] lockv_even [of w]
    by (cases m) (auto elim!: dvdE)
  define x where "x = w - add_to_acquire (lt m)"
  have x: "lockv x = 0" "0 < n \<Longrightarrow> n < 8 \<Longrightarrow> bit x n = bit w n"
    using release_fields(1) [OF rel] release_fields(2) [OF rel] whole by (simp_all add: x_def)
  have eq: "w - (add_to_acquire (lt m) - late) = x + late" by (simp add: x_def)
  show "lockv (w - (add_to_acquire (lt m) - late)) + held m = lockv w + unat late"
    "0 < n \<Longrightarrow> n < 8 \<Longrightarrow> bit (w - (add_to_acquire (lt m) - late)) n = bit w n"
    "unat late = 1 \<Longrightarrow> lockv (w - (add_to_acquire (lt m) - late)) = 1"
    unfolding eq using late x whole lockv_add_w [of x] bit_add_w [of x n] by auto
qed

lemma step_ok_grab:
  assumes v: "view_ok w q" and q: "lock_share q = held m" "spin_share q = 0"
    and r: "w AND MU_RLOCK_FIELD \<le> MU_RLOCK" "\<not> bit w 1" and late: "late = 0 \<or> late = (1 :: u32)"
    and h: "hint_mask h" and p: "lock_share p = unat late" "spin_share p = 1"
    and ok: "\<And>w. pc_ok w p" 
  shows "step_ok w q ((w - (add_to_acquire (lt m) - late)) OR MU_SPINLOCK OR h) p"
  using grab_fields(1,3) [OF v q(1) r(1) late] grab_fields(2) [OF v q(1) r(1) late, of 1] q r h p ok
  by (auto simp: step_ok_def word_fields or.assoc [symmetric])

lemma step_ok_final:
  assumes v: "view_ok w q" and q: "lock_share q = unat late" "spin_share q = 1"
    and late: "late = 0 \<or> late = (1 :: u32)"
    and c: "c = MU_SPINLOCK OR k" and h: "hint_mask h" "hint_mask k"
    and p: "lock_share p = 0" "spin_share p = 0" and ok: "\<And>w. pc_ok w p"
  shows "step_ok w q (((w - late) OR h) AND NOT c) p"
proof -
  have "lockv (w - late) + unat late = lockv w"
    using late view_okD(3) [OF v] q lockv_sub_w [of w] by auto
  moreover have "NOT c = NOT MU_SPINLOCK AND NOT k" by (simp add: c bit.de_Morgan_disj)
  ultimately show ?thesis
    using q p h ok view_okD(4) [OF v]
    by (auto simp: step_ok_def word_fields and.assoc [symmetric])
qed

lemma clear_ok_or: "clear_ok c \<Longrightarrow> hint_mask h \<Longrightarrow> clear_ok (c OR h)"
  unfolding clear_ok_def by (metis hint_mask_or or.assoc)

lemma clear_ok_spin: "clear_ok MU_SPINLOCK"
  unfolding clear_ok_def by (rule exI [of _ 0]) simp

lemma set_ok_hint: "set_ok m \<Longrightarrow> hint_mask m"
  by (auto simp: set_ok_def hint_mask_bits)

lemma set_ok_masks [simp]: "set_ok MU_ALL_FALSE"
  "set_ok a \<Longrightarrow> set_ok (a AND b)" "set_ok a \<Longrightarrow> set_ok (a OR MU_WRITER_WAITING)"
  by (auto simp: set_ok_def bit_consts bit_and_iff bit_or_iff)

lemma scan_set_hint:
  "set_ok (sc_set_on_release z) \<Longrightarrow> set_ok (sc_set_on_release (scan d cnd ltype testing ps z))"
  by (induction d cnd ltype testing ps z rule: scan.induct) auto

lemma unlock_slow_good:
  assumes "view_ok (word s) (pcs s t)" "pcs s t = UnlockSlow u p"
    and no_panic: "p = Us_scan \<Longrightarrow> \<not> sc_panic (scan (data s) (w_cond s) (w_ltype s) (u_testing u)
       (u_new_waiters u) \<lparr>sc_keep = [], sc_wake = u_wake u, sc_wake_type = u_wake_type u,
                 sc_set_on_release = u_set_on_release u, sc_panic = False\<rparr>)"
  shows "good_step t s (nsync_mu_unlock_slow t u p s)"
proof (cases p)
  case (Us_release old)
  then show ?thesis
    using assms view_okD(1) [OF assms(1)]
    by (auto simp: knows intro!: good_cas_then good_stay good_unlock_slow_return step_ok_release)
next
  case (Us_grab old)
  then show ?thesis
    using assms view_okD(1) [OF assms(1)]
    by (auto simp: knows intro!: good_cas good_stay step_ok_grab [where late = 1]
        step_ok_grab [where late = 0, simplified])
next
  case (Us_rel_cas old)
  then show ?thesis
    using assms view_okD(1) [OF assms(1)]
    by (auto simp: knows word_fields intro!: good_cas good_stay step_ok_drop_spin)
next
  case (Us_spin_cas old)
  then show ?thesis
    using assms view_okD(1) [OF assms(1)]
    by (auto simp: knows word_fields intro!: good_cas good_stay step_ok_take_spin)
next
  case (Us_final_cas old)
  then show ?thesis
    using assms view_okD(1) [OF assms(1)]
    by (auto simp: knows split_ok_def clear_ok_def set_ok_hint intro!: good_cas good_stay step_ok_final)
next
  case Us_load
  then show ?thesis
    using assms view_okD(1) [OF assms(1)]
    by (auto simp: knows Let_def word_fields not_less add_consts intro!: good_stay split: option.splits)
next
  case Us_scan
  then show ?thesis
    using assms view_okD(1) [OF assms(1)]
    by (auto simp: knows Let_def split_ok_def scan_set_hint intro!: good_update split: option.splits)
next
  case Us_wake
  then show ?thesis
    using assms view_okD(1) [OF assms(1)]
    by (auto simp: knows intro!: good_unlock_slow_return step_ok_local good_update split: list.split option.splits)
next
  case Us_finish
  show ?thesis
    using assms view_okD(1) [OF assms(1)] unfolding Us_finish nsync_mu_unlock_slow.simps unlock_slow_finish_def Let_def
    by (intro good_update) (auto simp: knows split_ok_def clear_ok_or)
next
  case Us_swap
  show ?thesis
    using assms view_okD(1) [OF assms(1)] unfolding Us_swap nsync_mu_unlock_slow.simps
    by (intro good_update) (auto simp: knows split_ok_def clear_ok_spin split: if_splits)
qed (use assms view_okD(1) [OF assms(1)] in
  \<open>auto simp: knows Let_def word_fields split_ok_def still_testing_def good_step_refl
     intro!: good_stay good_update\<close>)


section \<open>Conditional waits\<close>

lemma hint_not_any: "\<not> bit MU_WRITER_WAITING (Suc 0)" by (simp add: bit_consts)

text \<open>The compare-and-swap of \<open>Ta_cas\<close> takes the write lock and the spinlock together.\<close>

lemma take_both_fields:
  assumes "lockv old = 0" "\<not> bit old 1"
  shows "lockv ((old + MU_WADD_TO_ACQUIRE + MU_SPINLOCK) AND NOT MU_WCLEAR_ON_ACQUIRE) = 1"
    "bit ((old + MU_WADD_TO_ACQUIRE + MU_SPINLOCK) AND NOT MU_WCLEAR_ON_ACQUIRE) 1"
proof -
  have b: "\<not> bit (old + 1) 1" using bit_add_w [of old 1] assms by simp
  have "old + MU_WADD_TO_ACQUIRE + MU_SPINLOCK = (old + 1) OR MU_SPINLOCK"
    unfolding add_consts by (rule disjunctive_add) (use b in \<open>auto simp: bit_consts\<close>)
  then show "lockv ((old + MU_WADD_TO_ACQUIRE + MU_SPINLOCK) AND NOT MU_WCLEAR_ON_ACQUIRE) = 1"
    "bit ((old + MU_WADD_TO_ACQUIRE + MU_SPINLOCK) AND NOT MU_WCLEAR_ON_ACQUIRE) 1"
    using assms lockv_add_w [of old] by (simp_all add: word_fields MU_WCLEAR_ON_ACQUIRE_def)
qed

lemma step_ok_take_both:
  assumes "lock_share q = 0" "spin_share q = 0" "lockv old = 0" "\<not> bit old 1"
    and "lock_share p = 1" "spin_share p = 1"
    and "pc_ok ((old + MU_WADD_TO_ACQUIRE + MU_SPINLOCK) AND NOT MU_WCLEAR_ON_ACQUIRE) p"
  shows "step_ok old q ((old + MU_WADD_TO_ACQUIRE + MU_SPINLOCK) AND NOT MU_WCLEAR_ON_ACQUIRE) p"
  using take_both_fields [OF assms(3,4)] assms by (simp add: step_ok_def)

text \<open>At \<open>Ta_check\<close> the plain store of the old word releases both.\<close>

lemma compatible_0 [simp]: "compatible m 0"
  by (cases m) (auto simp: compatible_def)

lemma step_ok_ta_check:
  assumes "view_ok w q" "pc_ok w q" "q = MuWait m (Ta_check old)"
  shows "step_ok w q old (MuWait m Mw_delay)"
    "step_ok w q (old + add_to_acquire (lt (m_ltype m)))
       (MuWait (m\<lparr>m_have_lock := True, m_outcome := m_sem_outcome m\<rparr>) Mw_delay)"
  using assms take_both_fields [of old] acquire_fields(1) [of "m_ltype m" old]
    acquire_fields(2) [of "m_ltype m" old 1] held_cases [of "m_ltype m"]
  by (auto simp: step_ok_def knows)

lemma try_acquire_failed_good:
  assumes "view_ok (word s) (pcs s t)" "lock_share (pcs s t) = 0" "spin_share (pcs s t) = 0"
    "\<not> m_have_lock m" "m_sem_outcome m \<noteq> Woken" "deadline_ok m"
  shows "good_step t s (try_acquire_failed t m old s)"
  using assms unfolding try_acquire_failed_def
  by (auto simp: knows and_or_zero word_fields intro!: good_stay)

lemma try_acquire_good:
  assumes "view_ok (word s) (pcs s t)" "pcs s t = MuWait m p"
    "p = Ta_load \<or> p = Ta_cas old \<or> p = Ta_hint old \<or> p = Ta_check old"
  shows "good_step t s (mu_try_acquire_after_timeout_or_cancel t m p s)"
proof -
  note v = assms(1) and k = view_okD(1) [OF assms(1)]
  show ?thesis
    using assms(3)
  proof (elim disjE)
    assume "p = Ta_load"
    then show ?thesis using v k assms(2)
      by (auto simp: knows Let_def word_fields and_or_zero MU_WZERO_TO_ACQUIRE_def lockv_0_iff
          intro!: good_stay try_acquire_failed_good)
  next
    assume "p = Ta_cas old"
    then show ?thesis using v k assms(2)
      by (auto simp: knows intro!: good_cas try_acquire_failed_good step_ok_take_both)
  next
    assume "p = Ta_hint old"
    then show ?thesis using v k assms(2)
      by (auto simp: knows step_ok_def word_fields intro!: good_cas good_stay)
  next
    assume "p = Ta_check old"
    then show ?thesis using step_ok_ta_check [OF v k] assms(2)
      by (auto intro!: good_step_goto simp del: fun_upd_apply)
  qed
qed


lemma mwait_mode:
  assumes "view_ok w q" "lock_share q = held m"
  shows "(if w AND MU_RHELD_IF_NON_ZERO \<noteq> 0 then nsync_reader_type else nsync_writer_type) = m"
  using view_okD(2,3) [OF assms(1)] assms(2)
  by (cases m) (auto simp: MU_RHELD_IF_NON_ZERO_def rlock_iff)

lemma rel_cas_good:
  assumes v: "view_ok (word s) (pcs s t)" and q: "pcs s t = MuWait m (Mw_rel_cas old add)"
  shows "good_step t s (nsync_mu_wait_with_deadline t e m (Mw_rel_cas old add) s)"
proof (cases "word s = old")
  case False
  then show ?thesis using v q view_okD(1) [OF v] by (auto simp: cas_word_def knows intro!: good_stay)
next
  case True
  note k = view_okD(1) [OF v]
  have lock: "held (m_ltype m) \<le> lockv old" and spin: "bit old 1"
    using view_okD(2,4) [OF v] q True by auto
  show ?thesis
  proof (cases "add = 0")
    case z: True
    have "good_step t s (unlock_slow_entry t (m_ltype m) (Some (m\<lparr>m_sem_outcome := Woken, m_have_lock := False\<rparr>))
        (s\<lparr>word := old AND NOT MU_SPINLOCK\<rparr>))"
      unfolding unlock_slow_entry_def
      using v q k True view_okD(3) [OF v] spin
      by (intro good_step_goto) (auto simp: step_ok_def knows word_fields)
    then show ?thesis using True z by (simp add: cas_word_def)
  next
    case nz: False
    then have add: "add = add_to_acquire (lt (m_ltype m))" using k q by (simp add: knows)
    have rel: "releasable (m_ltype m) (lockv old)" using held_releasable [OF v] q True by simp
    have "step_ok (word s) (pcs s t) ((old - add) AND NOT MU_SPINLOCK)
        (MuWait (m\<lparr>m_sem_outcome := Woken, m_have_lock := False\<rparr>) Mw_wait)"
      using True q k lock spin release_fields(1) [OF rel] add
      by (auto simp: step_ok_def knows word_fields)
    then show ?thesis using True nz by (auto simp: cas_word_def intro!: good_step_goto)
  qed
qed

lemma mwait_good:
  assumes v: "view_ok (word s) (pcs s t)" and q: "pcs s t = MuWait m p" and e: "e \<noteq> Some Woken"
  shows "good_step t s (nsync_mu_wait_with_deadline t e m p s)"
proof -
  note k = view_okD(1) [OF v]
  show ?thesis
  proof (cases p)
    case Mw_load
    have "lockv (word s) \<noteq> 0" using view_okD(2) [OF v] q Mw_load held_neq_0(2) [of "m_ltype m"]
      by (auto simp del: held_neq_0)
    then show ?thesis using v q k Mw_load mwait_mode [OF v, of "m_ltype m"]
      by (auto simp: Let_def lockv_0_iff knows intro!: good_stay)
  next
    case Mw_test
    then show ?thesis using v q k
      by (auto simp: Let_def mu_wait_return_def knows intro!: good_stay good_update)
  next
    case (Mw_spin_cas old)
    then show ?thesis using v q k
      by (auto simp: Let_def knows word_fields or.assoc [symmetric] intro!: good_cas good_stay step_ok_take_spin)
  next
    case (Mw_rel_cas old add)
    then show ?thesis using rel_cas_good [OF v] q by simp
  next
    case Mw_wait
    then show ?thesis using v q k
      by (auto simp: knows intro!: good_stay good_lock_slow_entry)
  next
    case Mw_sem
    then show ?thesis using v q k e
      by (auto simp: knows good_step_refl intro!: good_stay good_update split: option.splits)
  next
    case Ta_load
    then show ?thesis using try_acquire_good [OF v q] by simp
  next
    case (Ta_cas old)
    then show ?thesis using try_acquire_good [OF v q] by simp
  next
    case (Ta_hint old)
    then show ?thesis using try_acquire_good [OF v q] by simp
  next
    case (Ta_check old)
    then show ?thesis using try_acquire_good [OF v q] by simp
  qed (use v q k in \<open>auto simp: knows Let_def good_step_refl word_fields intro!: good_stay good_update\<close>)
qed

lemma client_good:
  assumes "view_ok (word s) (pcs s t)" "client t c s = Some s'"
  shows "good_step t s s'"
proof (cases "pcs s t")
  case Idle
  with assms show ?thesis
    by (cases c) (auto simp: client_def knows intro!: good_stay)
next
  case (Crit m)
  have data: "good_step t s (s\<lparr>data := d\<rparr>)" for d
    using good_step_refl [OF assms(1)] by (simp add: good_step_def)
  show ?thesis using Crit assms data
    by (cases c) (auto simp: client_def mu_wait_entry_def knows split: if_splits intro!: good_stay)
qed (use assms in \<open>auto simp: client_def\<close>)

end
