(* ===== verification/Mu_Waiters.thy ===== *)
theory Mu_Waiters
  imports Mu_Inv
begin

text \<open>
  Where the waiters of a mutex are.  A waiting thread is in the queue of the mutex or in one of
  the lists that a thread in \<^verbatim>\<open>nsync_mu_unlock_slow_\<close> has in hand, exactly once
  (\<open>placed\<close>); the bits \<^verbatim>\<open>MU_WAITING\<close> and \<^verbatim>\<open>MU_CONDITION\<close> are set while there
  are waiters, respectively conditional waiters (\<open>marked\<close>); a thread blocked on its
  semaphore that is no longer waiting has a post coming (\<open>posted\<close>).  With the accounting
  of theory \<open>Mu_Inv\<close> this gives the invariant of all reachable states, and with it that no
  thread ever panics.
\<close>

section \<open>Lists in hand\<close>

text \<open>Waiters taken off the queue that may return to it, and waiters that will be woken.\<close>

definition kept :: "pc \<Rightarrow> tid list" where
  "kept q =
     (case q of
        UnlockSlow u p \<Rightarrow>
          (case p of
             Us_load \<Rightarrow> [] | Us_release _ \<Rightarrow> [] | Us_grab _ \<Rightarrow> [] | Us_swap \<Rightarrow> []
           | Us_final_load \<Rightarrow> [] | Us_final_cas _ \<Rightarrow> [] | Us_wake \<Rightarrow> [] | Us_sem_v _ \<Rightarrow> []
           | _ \<Rightarrow> u_waiters u @ u_new_waiters u)
      | _ \<Rightarrow> [])"

definition wakes :: "pc \<Rightarrow> tid list" where
  "wakes q =
     (case q of
        UnlockSlow u p \<Rightarrow>
          (case p of
             Us_load \<Rightarrow> [] | Us_release _ \<Rightarrow> [] | Us_grab _ \<Rightarrow> [] | Us_swap \<Rightarrow> []
           | _ \<Rightarrow> u_wake u)
      | _ \<Rightarrow> [])"

text \<open>The threads that are in the queue or were: from the enqueueing to the next acquisition.\<close>

definition enqueued :: "pc \<Rightarrow> bool" where
  "enqueued q =
     (case q of
        LockSlow l p \<Rightarrow>
          (case p of Ls_rel_load \<Rightarrow> True | Ls_rel_cas _ \<Rightarrow> True | Ls_wait \<Rightarrow> True | Ls_sem \<Rightarrow> True
           | _ \<Rightarrow> False)
      | MuWait m p \<Rightarrow>
          (case p of
             Mw_load \<Rightarrow> False | Mw_test \<Rightarrow> False | Mw_prepare \<Rightarrow> False | Mw_spin_load \<Rightarrow> False
           | Mw_spin_cas _ \<Rightarrow> False | Mw_enqueue \<Rightarrow> False | _ \<Rightarrow> True)
      | UnlockSlow u p \<Rightarrow> u_caller u \<noteq> None
      | _ \<Rightarrow> False)"

definition queued :: "mu_sys \<Rightarrow> tid \<Rightarrow> bool" where
  "queued s i \<longleftrightarrow> w_waiting s i \<and> enqueued (pcs s i)"

text \<open>The conditional wait a thread is in, once its waiter struct is prepared.\<close>

definition cond_wait :: "pc \<Rightarrow> mwait option" where
  "cond_wait q =
     (case q of
        MuWait m p \<Rightarrow>
          (case p of Mw_load \<Rightarrow> None | Mw_test \<Rightarrow> None | Mw_prepare \<Rightarrow> None | _ \<Rightarrow> Some m)
      | UnlockSlow u p \<Rightarrow> u_caller u
      | _ \<Rightarrow> None)"

text \<open>The one thread that works on the queue in \<^verbatim>\<open>nsync_mu_unlock_slow_\<close>.\<close>

definition scanner :: "pc \<Rightarrow> nat" where
  "scanner q =
     (case q of
        UnlockSlow u p \<Rightarrow>
          (case p of
             Us_load \<Rightarrow> 0 | Us_release _ \<Rightarrow> 0 | Us_grab _ \<Rightarrow> 0 | Us_wake \<Rightarrow> 0 | Us_sem_v _ \<Rightarrow> 0
           | _ \<Rightarrow> 1)
      | _ \<Rightarrow> 0)"

definition sem_blocked :: "pc \<Rightarrow> bool" where
  "sem_blocked q =
     (case q of LockSlow l p \<Rightarrow> p = Ls_sem | MuWait m p \<Rightarrow> p = Mw_sem | _ \<Rightarrow> False)"

definition posting :: "pc \<Rightarrow> tid option" where
  "posting q =
     (case q of UnlockSlow u p \<Rightarrow> (case p of Us_sem_v i \<Rightarrow> Some i | _ \<Rightarrow> None) | _ \<Rightarrow> None)"

section \<open>What a thread knows of the queue\<close>

definition first_ok :: "mu_sys \<Rightarrow> unlock_slow \<Rightarrow> bool" where
  "first_ok s u \<longleftrightarrow>
     u_wake_type u = Some nsync_writer_type \<or>
     u_wake_type u = None \<and> u_new_waiters u \<noteq> [] \<and>
       w_ltype s (hd (u_new_waiters u)) = nsync_writer_type \<and> w_cond s (hd (u_new_waiters u)) = None"

definition scan_ok :: "mu_sys \<Rightarrow> unlock_slow \<Rightarrow> unlock_slow_pc \<Rightarrow> bool" where
  "scan_ok s u p =
     (case p of
        Us_load \<Rightarrow> True | Us_release _ \<Rightarrow> True | Us_grab old \<Rightarrow> u_late u = 0 \<longrightarrow> \<not> bit old 4
      | Us_wake \<Rightarrow> True | Us_sem_v _ \<Rightarrow> True
      | Us_swap \<Rightarrow> u_late u = 0 \<longrightarrow> \<not> bit (word s) 4
      | Us_final_load \<Rightarrow> bit (u_clear_on_release u) 2 \<or> bit (u_clear_on_release u) 4 \<longrightarrow> waiters s = []
      | Us_final_cas _ \<Rightarrow> bit (u_clear_on_release u) 2 \<or> bit (u_clear_on_release u) 4 \<longrightarrow> waiters s = []
      | _ \<Rightarrow> u_clear_on_release u = MU_SPINLOCK \<and>
          (case p of
             Us_loop \<Rightarrow> waiters s = [] \<and> (u_late u = 0 \<longrightarrow> \<not> bit (word s) 4) \<and>
               (\<not> u_testing u \<and> u_late u \<noteq> 0 \<longrightarrow> u_new_waiters u = [])
           | Us_scan \<Rightarrow> \<not> u_testing u \<longrightarrow> waiters s = [] \<and>
               (if u_late u = 0 then \<not> bit (word s) 4 else first_ok s u)
           | Us_collect \<Rightarrow> \<not> u_testing u \<longrightarrow> waiters s = [] \<and> (u_late u = 0 \<longrightarrow> \<not> bit (word s) 4)
           | Us_finish \<Rightarrow> waiters s = [] \<and> u_new_waiters u = []
           | _ \<Rightarrow> True))"

definition struct_ok :: "mu_sys \<Rightarrow> tid \<Rightarrow> mwait \<Rightarrow> bool" where
  "struct_ok s t m \<longleftrightarrow> w_cond s t = m_cond m \<and> w_ltype s t = m_ltype m"

definition own_ok :: "mu_sys \<Rightarrow> tid \<Rightarrow> pc \<Rightarrow> bool" where
  "own_ok s t q =
     (case q of
        LockSlow l p \<Rightarrow> w_cond s t = None \<and> w_ltype s t = s_ltype l \<and>
          (p = Ls_enqueue \<longrightarrow> bit (word s) 2)
      | MuWait m p \<Rightarrow>
          (case p of
             Mw_load \<Rightarrow> True | Mw_test \<Rightarrow> True | Mw_prepare \<Rightarrow> True
           | Mw_spin_load \<Rightarrow> struct_ok s t m \<and> w_waiting s t
           | Mw_spin_cas _ \<Rightarrow> struct_ok s t m \<and> w_waiting s t
           | Mw_enqueue \<Rightarrow> struct_ok s t m \<and> w_waiting s t \<and> bit (word s) 2 \<and>
               (m_cond m \<noteq> None \<longrightarrow> bit (word s) 4)
           | _ \<Rightarrow> struct_ok s t m)
      | UnlockSlow u p \<Rightarrow>
          (case u_caller u of None \<Rightarrow> True | Some m \<Rightarrow> struct_ok s t m) \<and> scan_ok s u p
      | _ \<Rightarrow> True)"

section \<open>The invariant\<close>

definition placed :: "nat \<Rightarrow> mu_sys \<Rightarrow> bool" where
  "placed N s \<longleftrightarrow>
     (\<forall>i. count_list (waiters s) i + (\<Sum>t<N. count_list (kept (pcs s t) @ wakes (pcs s t)) i)
        = of_bool (queued s i))"

definition marked :: "nat \<Rightarrow> mu_sys \<Rightarrow> bool" where
  "marked N s \<longleftrightarrow>
     (\<forall>i. i \<in> set (waiters s) \<or> (\<exists>t<N. i \<in> set (kept (pcs s t))) \<longrightarrow>
        bit (word s) 2 \<and> (w_cond s i \<noteq> None \<longrightarrow> bit (word s) 4))"

definition removals :: "nat \<Rightarrow> mu_sys \<Rightarrow> bool" where
  "removals N s \<longleftrightarrow>
     (\<forall>i<N. \<forall>m. cond_wait (pcs s i) = Some m \<and> w_waiting s i \<longrightarrow>
        w_remove_count s i = m_remove_count m + of_nat (\<Sum>t<N. count_list (wakes (pcs s t)) i))"

definition posted :: "nat \<Rightarrow> mu_sys \<Rightarrow> bool" where
  "posted N s \<longleftrightarrow>
     (\<forall>i. sem_blocked (pcs s i) \<and> \<not> w_waiting s i \<longrightarrow>
        0 < w_sem s i \<or> (\<exists>t<N. posting (pcs s t) = Some i))"

definition q_inv :: "nat \<Rightarrow> mu_sys \<Rightarrow> bool" where
  "q_inv N s \<longleftrightarrow>
     (\<forall>t<N. own_ok s t (pcs s t)) \<and> placed N s \<and> marked N s \<and> removals N s \<and> posted N s \<and>
     (\<Sum>t<N. scanner (pcs s t)) \<le> 1 \<and> (\<forall>t. N \<le> t \<longrightarrow> pcs s t = Idle)"

text \<open>What one step of thread \<open>t\<close> may do to the queue, from the point \<open>q\<close> to \<open>p\<close>.\<close>

definition place_step :: "tid \<Rightarrow> mu_sys \<Rightarrow> mu_sys \<Rightarrow> pc \<Rightarrow> pc \<Rightarrow> bool" where
  "place_step t s s' q p \<longleftrightarrow>
     (\<forall>i. count_list (waiters s') i + count_list (kept p @ wakes p) i + of_bool (queued s i) =
          count_list (waiters s) i + count_list (kept q @ wakes q) i + of_bool (queued s' i))"

definition mark_step :: "tid \<Rightarrow> mu_sys \<Rightarrow> mu_sys \<Rightarrow> pc \<Rightarrow> pc \<Rightarrow> bool" where
  "mark_step t s s' q p \<longleftrightarrow>
     (waiters s' = waiters s \<and> bit (word s') 2 = bit (word s) 2 \<and> bit (word s') 4 = bit (word s) 4 \<or>
        spin_share q = 1 \<or> \<not> bit (word s) 1) \<and>
     (\<forall>i. i \<in> set (waiters s') \<union> set (kept p) \<longrightarrow> i \<in> set (waiters s) \<union> set (kept q) \<or>
          i = t \<and> bit (word s') 2 \<and> (w_cond s' t \<noteq> None \<longrightarrow> bit (word s') 4)) \<and>
     ((bit (word s) 2 \<longrightarrow> bit (word s') 2) \<and> (bit (word s) 4 \<longrightarrow> bit (word s') 4) \<or>
        waiters s' = [] \<and> kept p = [] \<and> scanner q = 1) \<and>
     (scanner p \<le> scanner q \<or> \<not> bit (word s) 1 \<and> lock_share q \<noteq> 0)"

definition field_step :: "tid \<Rightarrow> mu_sys \<Rightarrow> mu_sys \<Rightarrow> pc \<Rightarrow> bool" where
  "field_step t s s' q \<longleftrightarrow>
     (\<forall>i. w_cond s' i = w_cond s i \<and> w_ltype s' i = w_ltype s i \<or> i = t \<and> \<not> queued s t) \<and>
     (\<forall>i. i \<noteq> t \<longrightarrow> w_waiting s' i = w_waiting s i \<or> i \<in> set (wakes q) \<and> \<not> w_waiting s' i)"

definition removal_step :: "tid \<Rightarrow> mu_sys \<Rightarrow> mu_sys \<Rightarrow> pc \<Rightarrow> pc \<Rightarrow> bool" where
  "removal_step t s s' q p \<longleftrightarrow>
     (\<forall>i. i \<noteq> t \<or> cond_wait p \<noteq> None \<longrightarrow> w_waiting s' i \<longrightarrow>
          w_remove_count s' i + of_nat (count_list (wakes q) i) =
          w_remove_count s i + of_nat (count_list (wakes p) i)) \<and>
     (\<forall>m'. cond_wait p = Some m' \<longrightarrow> w_waiting s' t \<longrightarrow>
          (\<exists>m. cond_wait q = Some m \<and> m_remove_count m' = m_remove_count m \<and> w_waiting s t) \<or>
          m_remove_count m' = w_remove_count s' t \<and> \<not> queued s t \<and> wakes p = wakes q)"

definition sem_step :: "tid \<Rightarrow> mu_sys \<Rightarrow> mu_sys \<Rightarrow> pc \<Rightarrow> pc \<Rightarrow> bool" where
  "sem_step t s s' q p \<longleftrightarrow>
     (\<forall>i. i \<noteq> t \<longrightarrow> w_sem s i \<le> w_sem s' i) \<and>
     (\<forall>i. posting q = Some i \<longrightarrow> posting p \<noteq> Some i \<longrightarrow> 0 < w_sem s' i) \<and>
     (\<forall>i. w_waiting s i \<longrightarrow>
          w_waiting s' i \<or> posting p = Some i \<or> \<not> sem_blocked (if i = t then p else pcs s i)) \<and>
     (sem_blocked p \<longrightarrow> w_waiting s' t \<or> q = p \<and> w_sem s' t = w_sem s t)"

definition wait_step :: "tid \<Rightarrow> mu_sys \<Rightarrow> mu_sys \<Rightarrow> pc \<Rightarrow> bool" where
  "wait_step t s s' p \<longleftrightarrow>
     own_ok s' t p \<and> place_step t s s' (pcs s t) p \<and> mark_step t s s' (pcs s t) p \<and>
     field_step t s s' (pcs s t) \<and> removal_step t s s' (pcs s t) p \<and> sem_step t s s' (pcs s t) p"

definition q_good :: "tid \<Rightarrow> mu_sys \<Rightarrow> mu_sys \<Rightarrow> bool" where
  "q_good t s s' \<longleftrightarrow> (\<exists>p. pcs s' = (pcs s)(t := p) \<and> wait_step t s s' p)"

text \<open>A step that changes only the word, and there neither of the two bits.\<close>

definition same_marks :: "u32 \<Rightarrow> u32 \<Rightarrow> bool" where
  "same_marks w w' \<longleftrightarrow> bit w' 2 = bit w 2 \<and> bit w' 4 = bit w 4"

section \<open>The frame\<close>

lemma kept_simps [simp]:
  "kept Idle = []" "kept (Crit m) = []" "kept (Panicked x) = []" "kept (Lock k) = []"
  "kept (Rlock k) = []" "kept (Trylock k) = []" "kept (Rtrylock k) = []" "kept (Unlock k2) = []"
  "kept (Runlock k2) = []" "kept (UnlockNoWakeup k2) = []" "kept (LockSlow l k3) = []"
  "kept (MuWait c k4) = []" "kept (UnlockSlow u Us_load) = []"
  "kept (UnlockSlow u (Us_release w)) = []" "kept (UnlockSlow u (Us_grab w)) = []"
  "kept (UnlockSlow u Us_swap) = []" "kept (UnlockSlow u Us_loop) = u_waiters u @ u_new_waiters u"
  "kept (UnlockSlow u Us_rel_load) = u_waiters u @ u_new_waiters u"
  "kept (UnlockSlow u (Us_rel_cas w)) = u_waiters u @ u_new_waiters u"
  "kept (UnlockSlow u Us_scan) = u_waiters u @ u_new_waiters u"
  "kept (UnlockSlow u Us_spin_load) = u_waiters u @ u_new_waiters u"
  "kept (UnlockSlow u (Us_spin_cas w)) = u_waiters u @ u_new_waiters u"
  "kept (UnlockSlow u Us_collect) = u_waiters u @ u_new_waiters u"
  "kept (UnlockSlow u Us_finish) = u_waiters u @ u_new_waiters u"
  "kept (UnlockSlow u Us_final_load) = []" "kept (UnlockSlow u (Us_final_cas w)) = []"
  "kept (UnlockSlow u Us_wake) = []" "kept (UnlockSlow u (Us_sem_v i)) = []"
  by (simp_all add: kept_def)

lemma wakes_simps [simp]:
  "wakes Idle = []" "wakes (Crit m) = []" "wakes (Panicked x) = []" "wakes (Lock k) = []"
  "wakes (Rlock k) = []" "wakes (Trylock k) = []" "wakes (Rtrylock k) = []"
  "wakes (Unlock k2) = []" "wakes (Runlock k2) = []" "wakes (UnlockNoWakeup k2) = []"
  "wakes (LockSlow l k3) = []" "wakes (MuWait c k4) = []" "wakes (UnlockSlow u Us_load) = []"
  "wakes (UnlockSlow u (Us_release w)) = []" "wakes (UnlockSlow u (Us_grab w)) = []"
  "wakes (UnlockSlow u Us_swap) = []" "wakes (UnlockSlow u Us_loop) = u_wake u"
  "wakes (UnlockSlow u Us_rel_load) = u_wake u" "wakes (UnlockSlow u (Us_rel_cas w)) = u_wake u"
  "wakes (UnlockSlow u Us_scan) = u_wake u" "wakes (UnlockSlow u Us_spin_load) = u_wake u"
  "wakes (UnlockSlow u (Us_spin_cas w)) = u_wake u" "wakes (UnlockSlow u Us_collect) = u_wake u"
  "wakes (UnlockSlow u Us_finish) = u_wake u" "wakes (UnlockSlow u Us_final_load) = u_wake u"
  "wakes (UnlockSlow u (Us_final_cas w)) = u_wake u" "wakes (UnlockSlow u Us_wake) = u_wake u"
  "wakes (UnlockSlow u (Us_sem_v i)) = u_wake u"
  by (simp_all add: wakes_def)

lemma enqueued_simps [simp]:
  "\<not> enqueued Idle" "\<not> enqueued (Crit m)" "\<not> enqueued (Panicked x)"
  "\<not> enqueued (Lock k)" "\<not> enqueued (Rlock k)" "\<not> enqueued (Trylock k)"
  "\<not> enqueued (Rtrylock k)" "\<not> enqueued (Unlock k2)" "\<not> enqueued (Runlock k2)"
  "\<not> enqueued (UnlockNoWakeup k2)" "\<not> enqueued (LockSlow l Ls_load)"
  "\<not> enqueued (LockSlow l (Ls_acquire w))" "\<not> enqueued (LockSlow l (Ls_spin w))"
  "\<not> enqueued (LockSlow l Ls_enqueue)" "enqueued (LockSlow l Ls_rel_load)"
  "enqueued (LockSlow l (Ls_rel_cas w))" "enqueued (LockSlow l Ls_wait)"
  "enqueued (LockSlow l Ls_sem)" "\<not> enqueued (MuWait c Mw_load)"
  "\<not> enqueued (MuWait c Mw_test)" "\<not> enqueued (MuWait c Mw_prepare)"
  "\<not> enqueued (MuWait c Mw_spin_load)" "\<not> enqueued (MuWait c (Mw_spin_cas w))"
  "\<not> enqueued (MuWait c Mw_enqueue)" "enqueued (MuWait c Mw_rel_load)"
  "enqueued (MuWait c (Mw_rel_cas w a))" "enqueued (MuWait c Mw_wait)" "enqueued (MuWait c Mw_sem)"
  "enqueued (MuWait c Mw_check)" "enqueued (MuWait c Ta_load)" "enqueued (MuWait c (Ta_cas w))"
  "enqueued (MuWait c (Ta_hint w))" "enqueued (MuWait c (Ta_check w))"
  "enqueued (MuWait c Mw_delay)"
  "enqueued (UnlockSlow u k5) \<longleftrightarrow> u_caller u \<noteq> None"
  by (simp_all add: enqueued_def)

lemma cond_wait_simps [simp]:
  "cond_wait Idle = None" "cond_wait (Crit m) = None" "cond_wait (Panicked x) = None"
  "cond_wait (Lock k) = None" "cond_wait (Rlock k) = None" "cond_wait (Trylock k) = None"
  "cond_wait (Rtrylock k) = None" "cond_wait (Unlock k2) = None" "cond_wait (Runlock k2) = None"
  "cond_wait (UnlockNoWakeup k2) = None" "cond_wait (LockSlow l k3) = None"
  "cond_wait (UnlockSlow u k5) = u_caller u" "cond_wait (MuWait c Mw_load) = None"
  "cond_wait (MuWait c Mw_test) = None" "cond_wait (MuWait c Mw_prepare) = None"
  "cond_wait (MuWait c Mw_spin_load) = Some c" "cond_wait (MuWait c (Mw_spin_cas w)) = Some c"
  "cond_wait (MuWait c Mw_enqueue) = Some c" "cond_wait (MuWait c Mw_rel_load) = Some c"
  "cond_wait (MuWait c (Mw_rel_cas w a)) = Some c" "cond_wait (MuWait c Mw_wait) = Some c"
  "cond_wait (MuWait c Mw_sem) = Some c" "cond_wait (MuWait c Mw_check) = Some c"
  "cond_wait (MuWait c Ta_load) = Some c" "cond_wait (MuWait c (Ta_cas w)) = Some c"
  "cond_wait (MuWait c (Ta_hint w)) = Some c" "cond_wait (MuWait c (Ta_check w)) = Some c"
  "cond_wait (MuWait c Mw_delay) = Some c"
  by (simp_all add: cond_wait_def)

lemma scanner_simps [simp]:
  "scanner Idle = 0" "scanner (Crit m) = 0" "scanner (Panicked x) = 0" "scanner (Lock k) = 0"
  "scanner (Rlock k) = 0" "scanner (Trylock k) = 0" "scanner (Rtrylock k) = 0"
  "scanner (Unlock k2) = 0" "scanner (Runlock k2) = 0" "scanner (UnlockNoWakeup k2) = 0"
  "scanner (LockSlow l k3) = 0" "scanner (MuWait c k4) = 0" "scanner (UnlockSlow u Us_load) = 0"
  "scanner (UnlockSlow u (Us_release w)) = 0" "scanner (UnlockSlow u (Us_grab w)) = 0"
  "scanner (UnlockSlow u Us_swap) = 1" "scanner (UnlockSlow u Us_loop) = 1"
  "scanner (UnlockSlow u Us_rel_load) = 1" "scanner (UnlockSlow u (Us_rel_cas w)) = 1"
  "scanner (UnlockSlow u Us_scan) = 1" "scanner (UnlockSlow u Us_spin_load) = 1"
  "scanner (UnlockSlow u (Us_spin_cas w)) = 1" "scanner (UnlockSlow u Us_collect) = 1"
  "scanner (UnlockSlow u Us_finish) = 1" "scanner (UnlockSlow u Us_final_load) = 1"
  "scanner (UnlockSlow u (Us_final_cas w)) = 1" "scanner (UnlockSlow u Us_wake) = 0"
  "scanner (UnlockSlow u (Us_sem_v i)) = 0"
  by (simp_all add: scanner_def)

lemma sem_blocked_simps [simp]:
  "\<not> sem_blocked Idle" "\<not> sem_blocked (Crit m)" "\<not> sem_blocked (Panicked x)"
  "\<not> sem_blocked (Lock k)" "\<not> sem_blocked (Rlock k)" "\<not> sem_blocked (Trylock k)"
  "\<not> sem_blocked (Rtrylock k)" "\<not> sem_blocked (Unlock k2)"
  "\<not> sem_blocked (Runlock k2)" "\<not> sem_blocked (UnlockNoWakeup k2)"
  "\<not> sem_blocked (UnlockSlow u k5)" "\<not> sem_blocked (LockSlow l Ls_load)"
  "\<not> sem_blocked (LockSlow l (Ls_acquire w))" "\<not> sem_blocked (LockSlow l (Ls_spin w))"
  "\<not> sem_blocked (LockSlow l Ls_enqueue)" "\<not> sem_blocked (LockSlow l Ls_rel_load)"
  "\<not> sem_blocked (LockSlow l (Ls_rel_cas w))" "\<not> sem_blocked (LockSlow l Ls_wait)"
  "sem_blocked (LockSlow l Ls_sem)" "\<not> sem_blocked (MuWait c Mw_load)"
  "\<not> sem_blocked (MuWait c Mw_test)" "\<not> sem_blocked (MuWait c Mw_prepare)"
  "\<not> sem_blocked (MuWait c Mw_spin_load)" "\<not> sem_blocked (MuWait c (Mw_spin_cas w))"
  "\<not> sem_blocked (MuWait c Mw_enqueue)" "\<not> sem_blocked (MuWait c Mw_rel_load)"
  "\<not> sem_blocked (MuWait c (Mw_rel_cas w a))" "\<not> sem_blocked (MuWait c Mw_wait)"
  "sem_blocked (MuWait c Mw_sem)" "\<not> sem_blocked (MuWait c Mw_check)"
  "\<not> sem_blocked (MuWait c Ta_load)" "\<not> sem_blocked (MuWait c (Ta_cas w))"
  "\<not> sem_blocked (MuWait c (Ta_hint w))" "\<not> sem_blocked (MuWait c (Ta_check w))"
  "\<not> sem_blocked (MuWait c Mw_delay)"
  by (simp_all add: sem_blocked_def)

lemma posting_simps [simp]:
  "posting Idle = None" "posting (Crit m) = None" "posting (Panicked x) = None"
  "posting (Lock k) = None" "posting (Rlock k) = None" "posting (Trylock k) = None"
  "posting (Rtrylock k) = None" "posting (Unlock k2) = None" "posting (Runlock k2) = None"
  "posting (UnlockNoWakeup k2) = None" "posting (LockSlow l k3) = None"
  "posting (MuWait c k4) = None" "posting (UnlockSlow u Us_load) = None"
  "posting (UnlockSlow u (Us_release w)) = None" "posting (UnlockSlow u (Us_grab w)) = None"
  "posting (UnlockSlow u Us_swap) = None" "posting (UnlockSlow u Us_loop) = None"
  "posting (UnlockSlow u Us_rel_load) = None" "posting (UnlockSlow u (Us_rel_cas w)) = None"
  "posting (UnlockSlow u Us_scan) = None" "posting (UnlockSlow u Us_spin_load) = None"
  "posting (UnlockSlow u (Us_spin_cas w)) = None" "posting (UnlockSlow u Us_collect) = None"
  "posting (UnlockSlow u Us_finish) = None" "posting (UnlockSlow u Us_final_load) = None"
  "posting (UnlockSlow u (Us_final_cas w)) = None" "posting (UnlockSlow u Us_wake) = None"
  "posting (UnlockSlow u (Us_sem_v i)) = Some i"
  by (simp_all add: posting_def)

lemma scanner_share:
  assumes "pc_ok w q" "scanner q \<noteq> 0"
  shows "scanner q = 1" "spin_share q = 1 \<or> lock_share q = 1"
proof -
  obtain u p where q: "q = UnlockSlow u p" using assms by (cases q) auto
  show "scanner q = 1" "spin_share q = 1 \<or> lock_share q = 1"
    using assms unfolding q by (cases p; auto simp: knows split_ok_def)+
qed

lemma kept_scanner: "kept q \<noteq> [] \<Longrightarrow> scanner q = 1"
proof (cases q)
  case (UnlockSlow u p)
  then show "kept q \<noteq> [] \<Longrightarrow> scanner q = 1" by (cases p) auto
qed auto

lemma first_ok_cong:
  assumes "\<And>i. i \<in> set (u_new_waiters u) \<Longrightarrow> w_cond s' i = w_cond s i \<and> w_ltype s' i = w_ltype s i"
  shows "first_ok s' u = first_ok s u"
  using assms by (cases "u_new_waiters u") (auto simp: first_ok_def)

lemma own_ok_stable:
  assumes "own_ok s u q" "w_cond s' u = w_cond s u" "w_ltype s' u = w_ltype s u"
    "w_waiting s u \<Longrightarrow> \<not> enqueued q \<Longrightarrow> w_waiting s' u"
    "spin_share q = 1 \<Longrightarrow> waiters s' = waiters s \<and> bit (word s') 2 = bit (word s) 2 \<and> bit (word s') 4 = bit (word s) 4"
    "\<And>i. i \<in> set (kept q) \<Longrightarrow> w_cond s' i = w_cond s i \<and> w_ltype s' i = w_ltype s i"
  shows "own_ok s' u q"
proof (cases q)
  case (LockSlow l p)
  then show ?thesis using assms by (cases p) (auto simp: own_ok_def)
next
  case (MuWait m p)
  then show ?thesis using assms by (cases p) (auto simp: own_ok_def struct_ok_def)
next
  case (UnlockSlow v p)
  have "scan_ok s' v p" using assms first_ok_cong [of v s' s] unfolding UnlockSlow
    by (cases p) (auto simp: own_ok_def scan_ok_def)
  moreover have "case u_caller v of None \<Rightarrow> True | Some m \<Rightarrow> struct_ok s' u m"
    using assms UnlockSlow by (auto simp: own_ok_def struct_ok_def split: option.splits)
  ultimately show ?thesis using UnlockSlow by (simp add: own_ok_def)
qed (auto simp: own_ok_def)

lemma q_invD:
  assumes "q_inv N s"
  shows "t < N \<Longrightarrow> own_ok s t (pcs s t)" "placed N s" "marked N s" "removals N s" "posted N s"
    "(\<Sum>t<N. scanner (pcs s t)) \<le> 1" "N \<le> t \<Longrightarrow> pcs s t = Idle"
  using assms unfolding q_inv_def by blast+

lemma placed_queued:
  assumes "placed N s" "i \<in> set (waiters s) \<or> (\<exists>t<N. i \<in> set (kept (pcs s t)) \<union> set (wakes (pcs s t)))"
  shows "queued s i"
proof (rule ccontr)
  assume n: "\<not> queued s i"
  then have z: "count_list (waiters s) i = 0"
    "(\<Sum>t<N. count_list (kept (pcs s t) @ wakes (pcs s t)) i) = 0"
    using spec [OF assms(1) [unfolded placed_def], of i] by simp_all
  with assms(2) show False by (auto simp: count_list_0_iff)
qed

lemma single_scanner:
  assumes "q_inv N s" "t < N" "u < N" "t \<noteq> u" "scanner (pcs s t) = 1"
  shows "kept (pcs s u) = []" "scanner (pcs s u) = 0"
proof -
  have "scanner (pcs s t) + scanner (pcs s u) \<le> 1"
    using sum_ge_pair [OF assms(2,3,4), of "\<lambda>t. scanner (pcs s t)"] q_invD(6) [OF assms(1)] by linarith
  with assms(5) show "scanner (pcs s u) = 0" by simp
  then show "kept (pcs s u) = []" using kept_scanner [of "pcs s u"] by auto
qed


lemma wait_stepD:
  assumes "wait_step t s s' p"
  shows "own_ok s' t p" "place_step t s s' (pcs s t) p" "mark_step t s s' (pcs s t) p"
    "field_step t s s' (pcs s t)" "removal_step t s s' (pcs s t) p" "sem_step t s s' (pcs s t) p"
  using assms unfolding wait_step_def by blast+

lemma mark_stepD:
  assumes "mark_step t s s' q p"
  shows "waiters s' = waiters s \<and> bit (word s') 2 = bit (word s) 2 \<and> bit (word s') 4 = bit (word s) 4 \<or>
        spin_share q = 1 \<or> \<not> bit (word s) 1"
    "i \<in> set (waiters s') \<union> set (kept p) \<Longrightarrow> i \<in> set (waiters s) \<union> set (kept q) \<or>
           i = t \<and> bit (word s') 2 \<and> (w_cond s' t \<noteq> None \<longrightarrow> bit (word s') 4)"
    "(bit (word s) 2 \<longrightarrow> bit (word s') 2) \<and> (bit (word s) 4 \<longrightarrow> bit (word s') 4) \<or>
        waiters s' = [] \<and> kept p = [] \<and> scanner q = 1"
    "scanner p \<le> scanner q \<or> \<not> bit (word s) 1 \<and> lock_share q \<noteq> 0"
  using assms unfolding mark_step_def by (elim conjE, (assumption | erule allE mp | blast))+

lemma field_stepD:
  assumes "field_step t s s' q"
  shows "w_cond s' i = w_cond s i \<and> w_ltype s' i = w_ltype s i \<or> i = t \<and> \<not> queued s t"
    "i \<noteq> t \<Longrightarrow> w_waiting s' i = w_waiting s i \<or> i \<in> set (wakes q) \<and> \<not> w_waiting s' i"
  using assms unfolding field_step_def by blast+

lemma frame_placed:
  assumes "placed N s" "t < N" "pcs s' = (pcs s)(t := p)" "wait_step t s s' p"
  shows "placed N s'"
  unfolding placed_def
proof
  fix i
  show "count_list (waiters s') i + (\<Sum>t<N. count_list (kept (pcs s' t) @ wakes (pcs s' t)) i) = of_bool (queued s' i)"
    using sum_upd [OF assms(2), of "\<lambda>q. count_list (kept q @ wakes q) i" "pcs s" p]
      spec [OF assms(1) [unfolded placed_def], of i] spec [OF wait_stepD(2) [OF assms(4), unfolded place_step_def], of i]
    by (simp add: assms(3))
qed

lemma frame_scanner:
  assumes "mu_inv N s" "q_inv N s" "t < N" "pcs s' = (pcs s)(t := p)" "wait_step t s s' p" "scanner p \<le> 1"
  shows "(\<Sum>t<N. scanner (pcs s' t)) \<le> 1"
proof (cases "scanner p \<le> scanner (pcs s t)")
  case True
  then show ?thesis
    using sum_upd [OF assms(3), of scanner "pcs s" p] q_invD(6) [OF assms(2)] by (simp add: assms(4))
next
  case False
  then have new: "\<not> bit (word s) 1" "lock_share (pcs s t) \<noteq> 0" using mark_stepD(4) [OF wait_stepD(3) [OF assms(5)]] by auto
  have "scanner (pcs s u) = 0" if "u < N" "u \<noteq> t" for u
  proof (rule ccontr)
    assume "scanner (pcs s u) \<noteq> 0"
    then have "spin_share (pcs s u) = 1 \<or> lock_share (pcs s u) = 1"
      using scanner_share(2) mu_invD(1) [OF assms(1) \<open>u < N\<close>] by blast
    then show False
    proof
      assume "spin_share (pcs s u) = 1"
      then show False using sum_ge_single [OF \<open>u < N\<close>, of "\<lambda>i. spin_share (pcs s i)"] mu_invD(3) [OF assms(1)] new by simp
    next
      assume "lock_share (pcs s u) = 1"
      then show False using share_excludes [OF assms(1,3) that(1)] that new by simp
    qed
  qed
  then have "(\<Sum>u<N. scanner (pcs s' u)) = (\<Sum>u\<in>{t}. scanner (pcs s' u))"
    using assms(3,4) by (intro sum.mono_neutral_right) auto
  then show ?thesis using assms by simp
qed

lemma frame_marked:
  assumes "q_inv N s" "t < N" "pcs s' = (pcs s)(t := p)" "wait_step t s s' p"
  shows "marked N s'"
  unfolding marked_def
proof (intro allI impI)
  fix i
  assume i: "i \<in> set (waiters s') \<or> (\<exists>u<N. i \<in> set (kept (pcs s' u)))"
  note keep = mark_stepD(3) [OF wait_stepD(3) [OF assms(4)]]
  have old: "bit (word s') 2 \<and> (w_cond s' i \<noteq> None \<longrightarrow> bit (word s') 4)"
    if m: "i \<in> set (waiters s) \<or> (\<exists>u<N. i \<in> set (kept (pcs s u)))" 
      and k: "(bit (word s) 2 \<longrightarrow> bit (word s') 2) \<and> (bit (word s) 4 \<longrightarrow> bit (word s') 4)"
  proof -
    have "queued s i" using placed_queued [OF q_invD(2) [OF assms(1)]] m by blast
    then have "w_cond s' i = w_cond s i" using field_stepD(1) [OF wait_stepD(4) [OF assms(4)], of i] by auto
    then show ?thesis using q_invD(3) [OF assms(1)] m k unfolding marked_def by metis
  qed
  have others: "kept (pcs s u) = []" if "u < N" "u \<noteq> t" "scanner (pcs s t) = 1" for u
    using single_scanner(1) [OF assms(1,2)] that by blast
  from i consider (mine) "i \<in> set (waiters s') \<union> set (kept p)" | (other) u where "u < N" "u \<noteq> t" "i \<in> set (kept (pcs s u))"
    using assms(3) by (auto split: if_splits)
  then show "bit (word s') 2 \<and> (w_cond s' i \<noteq> None \<longrightarrow> bit (word s') 4)"
  proof cases
    case mine
    then have c: "(bit (word s) 2 \<longrightarrow> bit (word s') 2) \<and> (bit (word s) 4 \<longrightarrow> bit (word s') 4)"
      using keep by auto
    show ?thesis using mark_stepD(2) [OF wait_stepD(3) [OF assms(4)] mine] old [OF _ c] assms(2) by blast
  next
    case other
    then have "scanner (pcs s t) \<noteq> 1" using others [of u] by auto
    then show ?thesis using old keep other by blast
  qed
qed


lemma unqueued_wakes:
  assumes "placed N s" "\<not> queued s i"
  shows "(\<Sum>t<N. count_list (wakes (pcs s t)) i) = 0"
proof -
  have "i \<notin> set (wakes (pcs s t))" if "t < N" for t
    using placed_queued [OF assms(1), of i] assms(2) that by blast
  then show ?thesis by (simp add: count_list_0_iff)
qed

lemma frame_removals:
  assumes inv: "q_inv N s" and t: "t < N" and pcs': "pcs s' = (pcs s)(t := p)" and st: "wait_step t s s' p"
  shows "removals N s'"
  unfolding removals_def
proof (intro allI impI, elim conjE)
  fix i m'
  assume i: "i < N" and cw: "cond_wait (pcs s' i) = Some m'" and w: "w_waiting s' i"
  note rs = wait_stepD(5) [OF st, unfolded removal_step_def]
  define W where "W = (\<Sum>t<N. count_list (wakes (pcs s t)) i)"
  define W' where "W' = (\<Sum>t<N. count_list (wakes (pcs s' t)) i)"
  have upd: "W' + count_list (wakes (pcs s t)) i = W + count_list (wakes p) i"
    using sum_upd [OF t, of "\<lambda>q. count_list (wakes q) i" "pcs s" p] by (simp add: W_def W'_def pcs')
  then have upd': "(of_nat W' :: u32) + of_nat (count_list (wakes (pcs s t)) i) =
      of_nat W + of_nat (count_list (wakes p) i)"
    by (metis of_nat_add)
  have same: "w_remove_count s' i = m_remove_count m + of_nat W'"
    if "cond_wait (pcs s i) = Some m" "w_waiting s i" "i \<noteq> t \<or> cond_wait p \<noteq> None" for m
  proof -
    have "w_remove_count s i = m_remove_count m + of_nat W"
      using q_invD(4) [OF inv] i that unfolding removals_def W_def by blast
    moreover have "w_remove_count s' i + of_nat (count_list (wakes (pcs s t)) i) =
          w_remove_count s i + of_nat (count_list (wakes p) i)"
      using rs that w by blast
    ultimately have "w_remove_count s' i + of_nat (count_list (wakes (pcs s t)) i) =
          (m_remove_count m + of_nat W') + of_nat (count_list (wakes (pcs s t)) i)"
      using upd' by (simp add: add.assoc)
    then show ?thesis by simp
  qed
  have "w_remove_count s' i = m_remove_count m' + of_nat W'"
  proof (cases "i = t")
    case False
    then have "w_waiting s i" using field_stepD(2) [OF wait_stepD(4) [OF st] False] w by auto
    then show ?thesis using same cw pcs' False by simp
  next
    case True
    then have p: "cond_wait p = Some m'" using cw pcs' by simp
    then consider m where "cond_wait (pcs s t) = Some m" "m_remove_count m' = m_remove_count m" "w_waiting s t"
      | "m_remove_count m' = w_remove_count s' t" "\<not> queued s t" "wakes p = wakes (pcs s t)"
      using rs w True by blast
    then show ?thesis
    proof cases
      case 1
      then show ?thesis using same [of m] True p by simp
    next
      case 2
      then have "W' = 0" using upd unqueued_wakes [OF q_invD(2) [OF inv], of i] True by (simp add: W_def)
      then show ?thesis using 2 True by simp
    qed
  qed
  then show "w_remove_count s' i = m_remove_count m' + of_nat (\<Sum>t<N. count_list (wakes (pcs s' t)) i)"
    by (simp add: W'_def)
qed

lemma frame_posted:
  assumes inv: "q_inv N s" and t: "t < N" and pcs': "pcs s' = (pcs s)(t := p)" and st: "wait_step t s s' p"
  shows "posted N s'"
  unfolding posted_def
proof (intro allI impI, elim conjE)
  fix i
  assume b: "sem_blocked (pcs s' i)" and nw: "\<not> w_waiting s' i"
  note ss = wait_stepD(6) [OF st, unfolded sem_step_def]
  have p': "posting (pcs s' t) = posting p" using pcs' by simp
  show "0 < w_sem s' i \<or> (\<exists>u<N. posting (pcs s' u) = Some i)"
  proof (cases "w_waiting s i")
    case True
    then have "posting p = Some i" using ss nw b pcs' by (auto split: if_splits)
    then show ?thesis using t p' by auto
  next
    case False
    have still: "sem_blocked (pcs s i)" "w_sem s i \<le> w_sem s' i"
      using ss b nw pcs' by (auto split: if_splits)
    then have "0 < w_sem s i \<or> (\<exists>u<N. posting (pcs s u) = Some i)"
      using q_invD(5) [OF inv] False unfolding posted_def by blast
    then show ?thesis
    proof
      assume "\<exists>u<N. posting (pcs s u) = Some i"
      then obtain u where u: "u < N" "posting (pcs s u) = Some i" by blast
      then show ?thesis
      proof (cases "u = t")
        case True
        then show ?thesis using u ss p' t by (cases "posting p = Some i") auto
      next
        case False
        then show ?thesis using u pcs' by (auto intro!: exI [of _ u])
      qed
    qed (use still in auto)
  qed
qed

lemma frame_own:
  assumes m: "mu_inv N s" and inv: "q_inv N s" and t: "t < N" and pcs': "pcs s' = (pcs s)(t := p)"
    and st: "wait_step t s s' p" and u: "u < N"
  shows "own_ok s' u (pcs s' u)"
proof (cases "u = t")
  case True
  then show ?thesis using wait_stepD(1) [OF st] pcs' by simp
next
  case False
  note fs = field_stepD [OF wait_stepD(4) [OF st]]
  have "own_ok s' u (pcs s u)"
  proof (rule own_ok_stable [OF q_invD(1) [OF inv u]])
    show "w_cond s' u = w_cond s u" "w_ltype s' u = w_ltype s u" using fs(1) [of u] False by auto
    show "w_waiting s' u" if "w_waiting s u" "\<not> enqueued (pcs s u)"
    proof -
      have "u \<notin> set (wakes (pcs s t))"
        using placed_queued [OF q_invD(2) [OF inv], of u] t that(2) by (auto simp: queued_def)
      then show ?thesis using fs(2) [OF False] that(1) by simp
    qed
    show "waiters s' = waiters s \<and> bit (word s') 2 = bit (word s) 2 \<and> bit (word s') 4 = bit (word s) 4"
      if "spin_share (pcs s u) = 1"
    proof -
      have "spin_share (pcs s t) = 0" using spin_excludes [OF m t u] False that by blast
      moreover have "bit (word s) 1"
        using sum_ge_single [OF u, of "\<lambda>i. spin_share (pcs s i)"] mu_invD(3) [OF m] that
        by (cases "bit (word s) 1") auto
      ultimately show ?thesis using mark_stepD(1) [OF wait_stepD(3) [OF st]] by simp
    qed
    fix i assume "i \<in> set (kept (pcs s u))"
    then have "queued s i" using placed_queued [OF q_invD(2) [OF inv], of i] u by blast
    then show "w_cond s' i = w_cond s i \<and> w_ltype s' i = w_ltype s i" using fs(1) [of i] by auto
  qed
  then show ?thesis using pcs' False by simp
qed

lemma scanner_le: "scanner p \<le> 1"
  by (auto simp: scanner_def split: pc.split unlock_slow_pc.split)

lemma q_inv_frame:
  assumes "mu_inv N s" "q_inv N s" "t < N" "pcs s' = (pcs s)(t := p)" "wait_step t s s' p"
  shows "q_inv N s'"
  unfolding q_inv_def
  using frame_own [OF assms] frame_placed [OF q_invD(2) [OF assms(2)] assms(3-5)]
    frame_marked [OF assms(2-5)] frame_removals [OF assms(2-5)] frame_posted [OF assms(2-5)]
    frame_scanner [OF assms scanner_le] q_invD(7) [OF assms(2)] assms(3,4)
  by auto


section \<open>Quiet steps\<close>

text \<open>Most steps touch neither a list nor a waiter struct that is queued.\<close>

lemma quiet_step:
  assumes pcs': "pcs s' = (pcs s)(t := p)" and own: "own_ok s' t p"
    and fields: "waiters s' = waiters s" "w_waiting s' = w_waiting s" "w_remove_count s' = w_remove_count s"
      "\<And>i. w_sem s i \<le> w_sem s' i \<or> i = t"
    and struct: "\<And>i. w_cond s' i = w_cond s i \<and> w_ltype s' i = w_ltype s i \<or> i = t \<and> \<not> queued s t"
    and bits: "bit (word s') 2 = bit (word s) 2" "bit (word s') 4 = bit (word s) 4"
    and lists: "kept p = kept (pcs s t)" "wakes p = wakes (pcs s t)" "scanner p = scanner (pcs s t)"
    and post: "posting (pcs s t) = None"
    and enq: "w_waiting s t \<Longrightarrow> enqueued p = enqueued (pcs s t)"
    and cw: "\<And>m'. cond_wait p = Some m' \<Longrightarrow> \<exists>m. cond_wait (pcs s t) = Some m \<and> m_remove_count m' = m_remove_count m"
    and sem: "sem_blocked p \<Longrightarrow> w_waiting s t \<or> pcs s t = p \<and> w_sem s' t = w_sem s t"
  shows "wait_step t s s' p"
proof -
  have q: "queued s' i = queued s i" for i
    using enq by (auto simp: queued_def pcs' fields)
  have "place_step t s s' (pcs s t) p" using fields lists q by (simp add: place_step_def)
  moreover have "mark_step t s s' (pcs s t) p" using fields lists bits by (simp add: mark_step_def)
  moreover have "field_step t s s' (pcs s t)" using fields struct by (simp add: field_step_def)
  moreover have "removal_step t s s' (pcs s t) p" using fields lists cw by (auto simp: removal_step_def)
  moreover have "sem_step t s s' (pcs s t) p" using fields post sem by (auto simp: sem_step_def)
  ultimately show ?thesis using own by (simp add: wait_step_def)
qed

lemma q_good_inv: "mu_inv N s \<Longrightarrow> q_inv N s \<Longrightarrow> t < N \<Longrightarrow> q_good t s s' \<Longrightarrow> q_inv N s'"
  using q_inv_frame unfolding q_good_def by blast

lemma q_good_word:
  assumes "same_marks (word s) w'" "own_ok (s\<lparr>word := w'\<rparr>) t p"
    "kept p = kept (pcs s t)" "wakes p = wakes (pcs s t)" "scanner p = scanner (pcs s t)"
    "posting (pcs s t) = None" "w_waiting s t \<Longrightarrow> enqueued p = enqueued (pcs s t)"
    "\<And>m'. cond_wait p = Some m' \<Longrightarrow> \<exists>m. cond_wait (pcs s t) = Some m \<and> m_remove_count m' = m_remove_count m"
    "sem_blocked p \<Longrightarrow> w_waiting s t \<or> pcs s t = p"
  shows "q_good t s (goto t p (s\<lparr>word := w'\<rparr>))"
  unfolding q_good_def
proof (intro exI conjI)
  show "wait_step t s (goto t p (s\<lparr>word := w'\<rparr>)) p"
  proof (rule quiet_step)
    show "own_ok (goto t p (s\<lparr>word := w'\<rparr>)) t p"
      by (rule own_ok_stable [OF assms(2)]) auto
  qed (use assms in \<open>auto simp: same_marks_def\<close>)
qed simp


lemma q_stay:
  assumes "own_ok s t p"
    "kept p = kept (pcs s t)" "wakes p = wakes (pcs s t)" "scanner p = scanner (pcs s t)"
    "posting (pcs s t) = None" "w_waiting s t \<Longrightarrow> enqueued p = enqueued (pcs s t)"
    "\<And>m'. cond_wait p = Some m' \<Longrightarrow> \<exists>m. cond_wait (pcs s t) = Some m \<and> m_remove_count m' = m_remove_count m"
    "sem_blocked p \<Longrightarrow> w_waiting s t \<or> pcs s t = p"
  shows "q_good t s (goto t p s)"
  using q_good_word [of s "word s" t p] assms by (simp add: same_marks_def)

lemma q_refl: "own_ok s t (pcs s t) \<Longrightarrow> posting (pcs s t) = None \<Longrightarrow> q_good t s s"
  using quiet_step [of s s t "pcs s t"] unfolding q_good_def by (intro exI [of _ "pcs s t"]) auto

text \<open>A step that changes the thread's semaphore or its result only.\<close>

lemma q_private:
  assumes "\<exists>v r. s0 = s\<lparr>w_sem := (w_sem s)(t := v), result := r\<rparr>" "own_ok s t p" "\<not> sem_blocked p"
    "kept p = kept (pcs s t)" "wakes p = wakes (pcs s t)" "scanner p = scanner (pcs s t)"
    "posting (pcs s t) = None" "w_waiting s t \<Longrightarrow> enqueued p = enqueued (pcs s t)"
    "\<And>m'. cond_wait p = Some m' \<Longrightarrow> \<exists>m. cond_wait (pcs s t) = Some m \<and> m_remove_count m' = m_remove_count m"
  shows "q_good t s (goto t p s0)"
proof -
  obtain v r where s0: "s0 = s\<lparr>w_sem := (w_sem s)(t := v), result := r\<rparr>" using assms(1) by blast
  have "own_ok (goto t p s0) t p" by (rule own_ok_stable [OF assms(2)]) (auto simp: s0)
  then have "wait_step t s (goto t p s0) p"
    by (intro quiet_step) (use assms(3-) in \<open>auto simp: s0\<close>)
  then show ?thesis unfolding q_good_def by (auto simp: s0)
qed

lemma q_private_sem:
  "q_good t s (goto t p (s\<lparr>w_sem := (w_sem s)(t := v), result := result s\<rparr>)) \<Longrightarrow>
   q_good t s (goto t p (s\<lparr>w_sem := (w_sem s)(t := v)\<rparr>))"
  by simp

lemma q_cas:
  assumes "word s = old \<Longrightarrow> q_good t s (f (s\<lparr>word := new\<rparr>))" "q_good t s s'"
  shows "q_good t s (case cas_word old new s of None \<Rightarrow> s' | Some s \<Rightarrow> f s)"
  using assms by (auto simp: cas_word_def)

lemma marks_hint:
  assumes "\<not> bit h 2" "\<not> bit h 4" "same_marks w w'"
  shows "same_marks w (w' AND NOT h)" "same_marks w (w' OR h)"
  using assms by (auto simp: same_marks_def word_fields)

lemma marks_acquire:
  assumes "view_ok w q" "lock_share q = 0" "zero_ok m z" "w AND z = 0" "\<not> bit h 2" "\<not> bit h 4"
  shows "same_marks w ((w + add_to_acquire (lt m)) AND NOT h)"
  using acquire_fields(2) [OF zero_compatible [OF assms(3,4) view_okD(5) [OF assms(1,2)]]] assms(5,6)
  by (simp add: same_marks_def word_fields)

lemma marks_acquire_free:  "same_marks 0 (add_to_acquire (lt m))"
  using acquire_fields(2) [of m 0] by (simp add: same_marks_def lockv_def)

lemma marks_release:
  assumes "view_ok w q" "lock_share q = held m" "\<not> bit h 2" "\<not> bit h 4"
  shows "same_marks w ((w - add_to_acquire (lt m)) AND NOT h)"
  using release_fields(2) [OF held_releasable [OF assms(1,2)]] assms(3,4)
  by (simp add: same_marks_def word_fields)

lemma marks_release_plain:
  assumes "view_ok w q" "lock_share q = held m"
  shows "same_marks w (w - add_to_acquire (lt m))"
  using marks_release [of w q m 0] assms by simp

lemma marks_release_free: "same_marks (add_to_acquire (lt m)) 0"
  using marks_acquire_free [of m] by (auto simp: same_marks_def)

lemma mark_masks [simp]:
  "\<not> bit MU_WCLEAR_ON_ACQUIRE 2" "\<not> bit MU_WCLEAR_ON_ACQUIRE 4"
  "\<not> bit MU_RCLEAR_ON_ACQUIRE 2" "\<not> bit MU_RCLEAR_ON_ACQUIRE 4"
  "\<not> bit MU_ALL_FALSE 2" "\<not> bit MU_ALL_FALSE 4" "\<not> bit MU_SPINLOCK 2" "\<not> bit MU_SPINLOCK 4"
  "\<not> bit MU_DESIG_WAKER 2" "\<not> bit MU_DESIG_WAKER 4" "\<not> bit MU_LONG_WAIT 2" "\<not> bit MU_LONG_WAIT 4"
  "\<not> bit (clear_on_acquire (lt m)) 2" "\<not> bit (clear_on_acquire (lt m)) 4"
  "\<not> bit (clear_on_uncontended_release (lt m)) 2" "\<not> bit (clear_on_uncontended_release (lt m)) 4"
  by (simp_all add: MU_WCLEAR_ON_ACQUIRE_def MU_RCLEAR_ON_ACQUIRE_def bit_consts)
     (cases m; simp add: lt.simps Xwriter_type_def Xreader_type_def bit_consts
       MU_WCLEAR_ON_ACQUIRE_def MU_RCLEAR_ON_ACQUIRE_def MU_WCLEAR_ON_UNCONTENDED_RELEASE_def
       MU_RCLEAR_ON_UNCONTENDED_RELEASE_def)+

lemma q_lock_slow_entry:
  assumes "\<not> queued s t" "posting (pcs s t) = None" "kept (pcs s t) = []" "wakes (pcs s t) = []"
    "scanner (pcs s t) = 0"
  shows "q_good t s (lock_slow_entry t c l m s)"
  unfolding q_good_def lock_slow_entry_def Let_def
  by (intro exI conjI, simp, rule quiet_step) (use assms in \<open>auto simp: own_ok_def queued_def\<close>)

lemma queued_simps [simp]:
  "queued s t \<longleftrightarrow> w_waiting s t \<and> enqueued (pcs s t)"
  by (simp add: queued_def)

lemmas q_acquire_rules = q_cas q_stay q_lock_slow_entry q_good_word marks_acquire_free
  marks_acquire [OF _ _ zero_ok_self(1)]

lemma q_trylock:
  assumes "view_ok (word s) (pcs s t)"
  shows "pcs s t = Trylock p \<Longrightarrow> q_good t s (nsync_mu_trylock t p s)"
    "pcs s t = Rtrylock p \<Longrightarrow> q_good t s (nsync_mu_rtrylock t p s)"
  using assms view_okD(1) [OF assms]
  by (cases p; auto simp: own_ok_def knows Let_def const_types intro!: q_acquire_rules)+

lemma q_lock:
  assumes "view_ok (word s) (pcs s t)"
  shows "pcs s t = Lock p \<Longrightarrow> q_good t s (nsync_mu_lock t p s)"
    "pcs s t = Rlock p \<Longrightarrow> q_good t s (nsync_mu_rlock t p s)"
  using assms view_okD(1) [OF assms]
  by (cases p; auto simp: own_ok_def knows Let_def const_types intro!: q_acquire_rules)+


section \<open>The slow path of acquiring\<close>

lemma q_lock_slow_return:
  assumes "pcs s t = LockSlow l (Ls_acquire old)" "same_marks (word s) w"
  shows "q_good t s (lock_slow_return t l (s\<lparr>word := w\<rparr>))"
  using assms unfolding lock_slow_return_def
  by (auto split: option.splits intro!: q_good_word simp: own_ok_def)

text \<open>Taking the spinlock in order to enqueue sets the bits for the waiter to come.\<close>

lemma q_mark:
  assumes "\<not> bit (word s) 1" "own_ok (s\<lparr>word := w'\<rparr>) t p" "kept p = kept (pcs s t)" "wakes p = wakes (pcs s t)"
    "scanner p = scanner (pcs s t)" "posting (pcs s t) = None" "enqueued p = enqueued (pcs s t)"
    "bit (word s) 2 \<longrightarrow> bit w' 2" "bit (word s) 4 \<longrightarrow> bit w' 4"
    "\<And>m'. cond_wait p = Some m' \<Longrightarrow> \<exists>m. cond_wait (pcs s t) = Some m \<and> m_remove_count m' = m_remove_count m"
    "\<not> sem_blocked p"
  shows "q_good t s (goto t p (s\<lparr>word := w'\<rparr>))"
proof -
  have q: "queued (goto t p (s\<lparr>word := w'\<rparr>)) i = queued s i" for i
    using assms by (auto simp: queued_def)
  have "own_ok (goto t p (s\<lparr>word := w'\<rparr>)) t p"
    by (rule own_ok_stable [OF assms(2)]) auto
  then have "wait_step t s (goto t p (s\<lparr>word := w'\<rparr>)) p"
    using assms q unfolding wait_step_def
    by (auto simp: place_step_def mark_step_def field_step_def removal_step_def sem_step_def)
  then show ?thesis unfolding q_good_def by auto
qed

text \<open>The thread puts itself into the queue.\<close>

lemma q_enqueue:
  assumes "spin_share (pcs s t) = 1" "\<not> enqueued (pcs s t)" "enqueued p"
    "waiters s' = waiters s @ [t] \<or> waiters s' = t # waiters s"
    "\<And>i. w_waiting s' i = (if i = t then True else w_waiting s i)" "pcs s' = (pcs s)(t := p)"
    "word s' = word s" "w_cond s' = w_cond s" "w_ltype s' = w_ltype s" "w_sem s' = w_sem s"
    "w_remove_count s' = w_remove_count s"
    "kept p = []" "wakes p = []" "kept (pcs s t) = []" "wakes (pcs s t) = []" "posting (pcs s t) = None"
    "scanner p = 0" "\<not> sem_blocked p" "own_ok s' t p"
    "bit (word s) 2" "w_cond s t \<noteq> None \<longrightarrow> bit (word s) 4"
    "\<And>m'. cond_wait p = Some m' \<Longrightarrow>
      w_waiting s t \<and> (\<exists>m. cond_wait (pcs s t) = Some m \<and> m_remove_count m' = m_remove_count m)"
  shows "q_good t s s'"
proof -
  have place: "place_step t s s' (pcs s t) p"
    using assms(2-6,12-15) by (auto simp: place_step_def queued_def)
  have mark: "mark_step t s s' (pcs s t) p" using assms by (auto simp: mark_step_def)
  have rest: "field_step t s s' (pcs s t)" "removal_step t s s' (pcs s t) p" "sem_step t s s' (pcs s t) p"
    using assms by (auto simp: field_step_def removal_step_def sem_step_def)
  show ?thesis unfolding q_good_def wait_step_def using assms(6,19) place mark rest by blast
qed

lemma q_lock_slow:
  assumes v: "view_ok (word s) (pcs s t)" and q: "pcs s t = LockSlow l p" and o: "own_ok s t (pcs s t)"
  shows "q_good t s (nsync_mu_lock_slow t l p s)"
proof -
  note k = view_okD(1) [OF v]
  show ?thesis
  proof (cases p)
    case (Ls_acquire old)
    then show ?thesis using v q k o
      by (auto simp: knows own_ok_def word_fields intro!: q_cas q_stay q_lock_slow_return
          marks_acquire [where z = "s_zero_to_acquire l"])
  next
    case (Ls_spin old)
    have "bit (set_when_waiting (lt (s_ltype l))) 2" "\<not> bit (set_when_waiting (lt (s_ltype l))) 4"
      by (cases "s_ltype l"; simp add: lt.simps Xwriter_type_def Xreader_type_def
          MU_WSET_WHEN_WAITING_def MU_RSET_WHEN_WAITING_def word_fields)+
    then show ?thesis using v q k o Ls_spin
      by (auto simp: knows own_ok_def word_fields intro!: q_cas q_stay q_mark)
  next
    case Ls_enqueue
    then show ?thesis using q o
      by (auto simp: own_ok_def Let_def intro!: q_enqueue [where p = "LockSlow l Ls_rel_load"])
  next
    case (Ls_rel_cas old)
    then show ?thesis using q o
      by (auto simp: own_ok_def same_marks_def word_fields intro!: q_cas q_stay q_good_word)
  next
    case Ls_sem
    show ?thesis
    proof (cases "w_sem s t = 0")
      case True
      then show ?thesis using Ls_sem q o q_refl [of s t] by (simp add: own_ok_def)
    next
      case False
      then show ?thesis using Ls_sem q o by (auto simp: own_ok_def intro!: q_private_sem q_private)
    qed
  qed (use q o in \<open>auto simp: own_ok_def Let_def intro!: q_stay q_refl\<close>)
qed


section \<open>Releasing\<close>

lemma q_unlock_slow_entry_None:
  assumes "kept (pcs s t) = []" "wakes (pcs s t) = []" "scanner (pcs s t) = 0" "posting (pcs s t) = None"
    "\<not> enqueued (pcs s t)"
  shows "q_good t s (unlock_slow_entry t l None s)"
  unfolding unlock_slow_entry_def
  by (rule q_stay) (use assms in \<open>auto simp: own_ok_def scan_ok_def\<close>)

lemmas q_release_rules = q_cas q_stay q_unlock_slow_entry_None q_good_word marks_release_free

lemma q_unlock:
  assumes "view_ok (word s) (pcs s t)" "pcs s t = Unlock p"
  shows "q_good t s (nsync_mu_unlock t p s)"
proof (cases p)
  case (Ul_cas old new)
  with assms view_okD(1) [OF assms(1)] show ?thesis
    by (auto simp: own_ok_def knows const_types(5) intro!: q_release_rules marks_release)
qed (use assms writer_word [OF assms(1)] in
  \<open>auto simp: own_ok_def knows Let_def const_types(5) intro!: q_release_rules\<close>)

lemma q_unlock_without_wakeup:
  assumes "view_ok (word s) (pcs s t)" "pcs s t = UnlockNoWakeup p"
  shows "q_good t s (nsync_mu_unlock_without_wakeup t p s)"
proof (cases p)
  case (Ul_cas old new)
  with assms view_okD(1) [OF assms(1)] show ?thesis
    by (auto simp: own_ok_def knows const_types(5) intro!: q_release_rules marks_release_plain)
qed (use assms writer_word [OF assms(1)] in
  \<open>auto simp: own_ok_def knows Let_def const_types(5) intro!: q_release_rules\<close>)

lemma q_runlock:
  assumes "view_ok (word s) (pcs s t)" "pcs s t = Runlock p"
  shows "q_good t s (nsync_mu_runlock t p s)"
proof (cases p)
  case (Ul_cas old new)
  with assms view_okD(1) [OF assms(1)] show ?thesis
    by (auto simp: own_ok_def knows const_types(6) intro!: q_release_rules marks_release_plain)
qed (use assms reader_word [OF assms(1)] in
  \<open>auto simp: own_ok_def knows Let_def const_types(6) intro!: q_release_rules\<close>)

text \<open>The scan splits the list: what stays keeps its order, what is woken is appended.\<close>

lemma scan_splits:
  "\<not> sc_panic (scan d cnd ltype testing ps z) \<Longrightarrow>
   \<exists>ws ks. sc_wake (scan d cnd ltype testing ps z) = sc_wake z @ ws \<and>
     sc_keep (scan d cnd ltype testing ps z) = sc_keep z @ ks \<and> (\<forall>i. count_list ps i = count_list ws i + count_list ks i)"
proof (induction d cnd ltype testing ps z rule: scan.induct)
  case (2 d cnd ltype testing p ps z)
  let ?keep = "\<lambda>z' :: scan_state. \<exists>ws ks. sc_wake z' = sc_wake z @ ws \<and> sc_keep z' = sc_keep z @ ks \<and>
      (\<forall>i. count_list (p # ps) i = count_list ws i + count_list ks i)"
  show ?case
  proof (cases "sc_wake_type z = Some nsync_writer_type")
    case True
    have "?keep (z\<lparr>sc_keep := sc_keep z @ p # ps,
        sc_set_on_release := sc_set_on_release z AND NOT MU_ALL_FALSE\<rparr>)"
      by (intro exI [of _ "[]"] exI [of _ "p # ps"]) simp
    then show ?thesis using True by simp
  next
    case w: False
    show ?thesis
    proof (cases "cnd p \<noteq> None \<and> \<not> testing")
      case True
      then show ?thesis using "2.prems" w by simp
    next
      case c: False
      show ?thesis
      proof (cases "cnd p \<noteq> None \<and> \<not> d (the (cnd p))")
        case d: True
        then obtain ws ks where "sc_wake (scan d cnd ltype testing (p # ps) z) = sc_wake z @ ws"
          "sc_keep (scan d cnd ltype testing (p # ps) z) = sc_keep z @ p # ks"
          "\<forall>i. count_list ps i = count_list ws i + count_list ks i"
          using "2.IH"(1) [OF w c d] "2.prems" w c by auto
        then show ?thesis by (intro exI [of _ ws] exI [of _ "p # ks"]) simp
      next
        case d: False
        show ?thesis
        proof (cases "sc_wake_type z = None \<or> ltype p = nsync_reader_type")
          case r: True
          then obtain ws ks where "sc_wake (scan d cnd ltype testing (p # ps) z) = sc_wake z @ p # ws"
            "sc_keep (scan d cnd ltype testing (p # ps) z) = sc_keep z @ ks"
            "\<forall>i. count_list ps i = count_list ws i + count_list ks i"
            using "2.IH"(2) [OF w c d r] "2.prems" w c d by auto
          then show ?thesis by (intro exI [of _ "p # ws"] exI [of _ ks]) simp
        next
          case r: False
          then obtain ws ks where "sc_wake (scan d cnd ltype testing (p # ps) z) = sc_wake z @ ws"
            "sc_keep (scan d cnd ltype testing (p # ps) z) = sc_keep z @ p # ks"
            "\<forall>i. count_list ps i = count_list ws i + count_list ks i"
            using "2.IH"(3) [OF w c d r] "2.prems" w c d by auto
          then show ?thesis by (intro exI [of _ ws] exI [of _ "p # ks"]) simp
        qed
      qed
    qed
  qed
qed auto


lemma struct_ok_word [simp]: "struct_ok (s\<lparr>word := w\<rparr>) t m = struct_ok s t m"
  by (simp add: struct_ok_def)

lemma scan_no_panic:
  assumes "\<not> sc_panic z" "testing \<or> (\<forall>i\<in>set ps. cnd i = None)"
  shows "\<not> sc_panic (scan d cnd ltype testing ps z)"
  using assms by (induction d cnd ltype testing ps z rule: scan.induct) auto

lemma scan_writer:
  assumes "\<not> sc_panic z" "sc_wake_type z = Some nsync_writer_type"
  shows "\<not> sc_panic (scan d cnd ltype testing ps z)"
  using assms by (cases ps) auto

lemma scan_first:
  assumes "\<not> sc_panic z" "first_ok s u" "sc_wake_type z = u_wake_type u"
  shows "\<not> sc_panic (scan d (w_cond s) (w_ltype s) testing (u_new_waiters u) z)"
proof (cases "u_new_waiters u")
  case (Cons p ps)
  then show ?thesis using assms scan_writer by (auto simp: first_ok_def)
qed (use assms in auto)

lemma q_unlock_slow_return:
  assumes "pcs s t = UnlockSlow u p" "scanner (pcs s t) = 0" "wakes (pcs s t) = []" "posting (pcs s t) = None"
    "own_ok s t (pcs s t)" "same_marks (word s) w"
  shows "q_good t s (unlock_slow_return t u (s\<lparr>word := w\<rparr>))"
proof (cases "u_caller u")
  case None
  have "kept (pcs s t) = []" using kept_scanner [of "pcs s t"] assms(2) by auto
  then show ?thesis using assms None unfolding unlock_slow_return_def
    by (auto intro!: q_good_word simp: own_ok_def)
next
  case (Some m)
  have "kept (pcs s t) = []" using kept_scanner [of "pcs s t"] assms(2) by auto
  then show ?thesis using assms Some unfolding unlock_slow_return_def
    by (auto intro!: q_good_word simp: own_ok_def struct_ok_def)
qed

text \<open>Moves between the queue and the lists in hand, by the thread that has the spinlock.\<close>

lemma q_move:
  assumes p: "pcs s' = (pcs s)(t := p)" and q: "scanner (pcs s t) = 1" "posting (pcs s t) = None"
    and spin: "spin_share (pcs s t) = 1 \<or> waiters s' = waiters s"
    and fields: "word s' = word s" "w_waiting s' = w_waiting s" "w_cond s' = w_cond s"
      "w_ltype s' = w_ltype s" "w_sem s' = w_sem s" 
    and lists: "\<And>i. count_list (waiters s') i + count_list (kept p) i + count_list (wakes p) i
        = count_list (waiters s) i + count_list (kept (pcs s t)) i + count_list (wakes (pcs s t)) i"
      "set (waiters s') \<union> set (kept p) \<subseteq> set (waiters s) \<union> set (kept (pcs s t))"
    and rem: "\<And>i. w_remove_count s' i + of_nat (count_list (wakes (pcs s t)) i) =
          w_remove_count s i + of_nat (count_list (wakes p) i)"
    and p': "scanner p = 1" "enqueued p = enqueued (pcs s t)" "cond_wait p = cond_wait (pcs s t)" "\<not> sem_blocked p"
    and own: "own_ok s' t p"
  shows "q_good t s s'"
proof -
  have qu: "queued s' i = queued s i" for i using p p' fields by (auto simp: queued_def)
  have "place_step t s s' (pcs s t) p" using lists(1) qu by (simp add: place_step_def add.assoc)
  moreover have "mark_step t s s' (pcs s t) p" using spin fields lists(2) q p' by (auto simp: mark_step_def)
  moreover have "field_step t s s' (pcs s t)" using fields by (simp add: field_step_def)
  moreover have "removal_step t s s' (pcs s t) p" using rem fields p' by (simp add: removal_step_def)
  moreover have "sem_step t s s' (pcs s t) p" using fields q p' by (simp add: sem_step_def)
  ultimately show ?thesis using own p unfolding q_good_def wait_step_def by blast
qed

lemma q_scan:
  assumes q: "pcs s t = UnlockSlow u Us_scan" and o: "own_ok s t (pcs s t)" and k: "pc_ok (word s) (pcs s t)"
    and once: "\<And>i. count_list (u_new_waiters u) i \<le> 1"
    and np: "\<not> sc_panic (scan (data s) (w_cond s) (w_ltype s) (u_testing u)
       (u_new_waiters u) \<lparr>sc_keep = [], sc_wake = u_wake u, sc_wake_type = u_wake_type u,
                 sc_set_on_release = u_set_on_release u, sc_panic = False\<rparr>)"
  shows "q_good t s (nsync_mu_unlock_slow t u Us_scan s)"
proof -
  define z where "z = scan (data s) (w_cond s) (w_ltype s) (u_testing u)
       (u_new_waiters u) \<lparr>sc_keep = [], sc_wake = u_wake u, sc_wake_type = u_wake_type u,
                 sc_set_on_release = u_set_on_release u, sc_panic = False\<rparr>"
  obtain ws where ws: "sc_wake z = u_wake u @ ws"
    "\<And>i. count_list (u_new_waiters u) i = count_list ws i + count_list (sc_keep z) i"
    using scan_splits [OF np] unfolding z_def by fastforce
  define s1 where "s1 = s\<lparr>w_remove_count := count_removals ws (w_remove_count s)\<rparr>"
  define u1 where "u1 = u\<lparr>u_new_waiters := sc_keep z, u_wake := sc_wake z, u_wake_type := sc_wake_type z,
                u_set_on_release := sc_set_on_release z\<rparr>"
  define p1 where "p1 = UnlockSlow u1 (if u_testing u then Us_spin_load else Us_collect)"
  have eq: "nsync_mu_unlock_slow t u Us_scan s = goto t p1 s1"
    using np by (simp add: z_def [symmetric] ws s1_def u1_def p1_def)
  have sub: "set (sc_keep z) \<subseteq> set (u_new_waiters u)"
  proof
    fix i assume "i \<in> set (sc_keep z)"
    then have "count_list (sc_keep z) i \<noteq> 0" by (simp add: count_list_0_iff)
    then show "i \<in> set (u_new_waiters u)" using ws(2) [of i] count_list_0_iff [of "u_new_waiters u" i] by auto
  qed
  have rem: "w_remove_count s1 i = w_remove_count s i + of_nat (count_list ws i)" for i
  proof -
    have le: "count_list ws i \<le> 1" using once [of i] ws(2) [of i] by linarith
    show ?thesis
    proof (cases "i \<in> set ws")
      case True
      then have "count_list ws i = 1" using le count_list_0_iff [of ws i] by linarith
      then show ?thesis using True by (simp add: s1_def count_removals_def)
    next
      case False
      then show ?thesis by (simp add: s1_def count_removals_def count_list_0_iff [THEN iffD2])
    qed
  qed
  show ?thesis unfolding eq
  proof (rule q_move)
    show "own_ok (goto t p1 s1) t p1"
      using q o by (auto simp: own_ok_def scan_ok_def p1_def u1_def s1_def struct_ok_def split: option.splits)
    show "spin_share (pcs s t) = 1 \<or> waiters (goto t p1 s1) = waiters s" by (simp add: s1_def)
  qed (use q ws rem sub in \<open>auto simp: p1_def u1_def s1_def\<close>)
qed


lemma q_wake:
  assumes q: "pcs s t = UnlockSlow u Us_wake" and u: "u_wake u = i # ps" and qi: "queued s i"
    and o: "own_ok s t (pcs s t)"
    and once: "count_list ps i = 0"
  shows "q_good t s (nsync_mu_unlock_slow t u Us_wake s)"
proof -
  define p where "p = UnlockSlow (u\<lparr>u_wake := ps\<rparr>) (Us_sem_v i)"
  define s' where "s' = goto t p (s\<lparr>w_waiting := (w_waiting s)(i := False)\<rparr>)"
  have "own_ok s' t p"
    using q o by (auto simp: own_ok_def scan_ok_def s'_def p_def struct_ok_def split: option.splits)
  moreover have "place_step t s s' (pcs s t) p"
    using q u qi by (auto simp: place_step_def s'_def p_def queued_def)
  moreover have "mark_step t s s' (pcs s t) p" using q by (auto simp: mark_step_def s'_def p_def)
  moreover have "field_step t s s' (pcs s t)" using q u by (auto simp: field_step_def s'_def)
  moreover have "removal_step t s s' (pcs s t) p"
    using q u by (auto simp: removal_step_def s'_def p_def)
  moreover have "sem_step t s s' (pcs s t) p" using q by (auto simp: sem_step_def s'_def p_def)
  moreover have "nsync_mu_unlock_slow t u Us_wake s = s'" using u by (simp add: s'_def p_def)
  ultimately show ?thesis unfolding q_good_def wait_step_def by (intro exI [of _ p]) (simp add: s'_def)
qed

lemma q_sem_v:
  assumes q: "pcs s t = UnlockSlow u (Us_sem_v i)" and o: "own_ok s t (pcs s t)"
  shows "q_good t s (nsync_mu_unlock_slow t u (Us_sem_v i) s)"
proof -
  define p where "p = UnlockSlow u Us_wake"
  define s' where "s' = goto t p (s\<lparr>w_sem := (w_sem s)(i := w_sem s i + 1)\<rparr>)"
  have "own_ok s' t p"
    using q o by (auto simp: own_ok_def scan_ok_def s'_def p_def struct_ok_def split: option.splits)
  moreover have "place_step t s s' (pcs s t) p"
    using q by (auto simp: place_step_def s'_def p_def queued_def)
  moreover have "mark_step t s s' (pcs s t) p" using q by (auto simp: mark_step_def s'_def p_def)
  moreover have "field_step t s s' (pcs s t)" using q by (auto simp: field_step_def s'_def)
  moreover have "removal_step t s s' (pcs s t) p"
    using q by (auto simp: removal_step_def s'_def p_def)
  moreover have "sem_step t s s' (pcs s t) p" using q by (auto simp: sem_step_def s'_def p_def)
  moreover have "nsync_mu_unlock_slow t u (Us_sem_v i) s = s'" by (simp add: s'_def p_def)
  ultimately show ?thesis unfolding q_good_def wait_step_def by (intro exI [of _ p]) (simp add: s'_def)
qed

lemma q_final:
  assumes v: "view_ok (word s) (pcs s t)" and q: "pcs s t = UnlockSlow u (Us_final_cas (word s))"
    and o: "own_ok s t (pcs s t)"
  shows "q_good t s (goto t (UnlockSlow u Us_wake) (s\<lparr>word :=
    ((word s - u_late u) OR u_set_on_release u) AND NOT (u_clear_on_release u)\<rparr>))"
proof -
  define w' where "w' = ((word s - u_late u) OR u_set_on_release u) AND NOT (u_clear_on_release u)"
  define p where "p = UnlockSlow u Us_wake"
  define s' where "s' = goto t p (s\<lparr>word := w'\<rparr>)"
  have k: "split_ok u" using view_okD(1) [OF v] q by (simp add: knows)
  have sub: "bit (word s - u_late u) n = bit (word s) n" if "0 < n" for n
    using k view_okD(3) [OF v] q bit_sub_w [of "word s" n] that by (auto simp: split_ok_def)
  have setb: "\<not> bit (u_set_on_release u) 2" "\<not> bit (u_set_on_release u) 4"
    using k by (auto simp: split_ok_def set_ok_def)
  have b: "bit w' n = (bit (word s) n \<and> \<not> bit (u_clear_on_release u) n)" if "n = 2 \<or> n = 4" for n
    using that sub [of n] setb by (auto simp: w'_def word_fields)
  have "own_ok s' t p"
    using q o by (auto simp: own_ok_def scan_ok_def s'_def p_def struct_ok_def split: option.splits)
  moreover have "place_step t s s' (pcs s t) p"
    using q by (auto simp: place_step_def s'_def p_def queued_def)
  moreover have "mark_step t s s' (pcs s t) p"
    using q b o by (auto simp: mark_step_def s'_def p_def own_ok_def scan_ok_def)
  moreover have "field_step t s s' (pcs s t)" using q by (auto simp: field_step_def s'_def)
  moreover have "removal_step t s s' (pcs s t) p"
    using q by (auto simp: removal_step_def s'_def p_def)
  moreover have "sem_step t s s' (pcs s t) p" using q by (auto simp: sem_step_def s'_def p_def)
  ultimately show ?thesis unfolding q_good_def wait_step_def
    by (intro exI [of _ p]) (simp add: s'_def w'_def p_def)
qed

lemma q_grab:
  assumes v: "view_ok (word s) (pcs s t)" and q: "pcs s t = UnlockSlow u (Us_grab (word s))"
    and o: "own_ok s t (pcs s t)"
  shows "q_good t s (goto t (UnlockSlow u Us_swap)
    (s\<lparr>word := (word s - u_early u) OR MU_SPINLOCK OR MU_DESIG_WAKER\<rparr>))"
proof -
  define w' where "w' = (word s - u_early u) OR MU_SPINLOCK OR MU_DESIG_WAKER"
  define p where "p = UnlockSlow u Us_swap"
  define s' where "s' = goto t p (s\<lparr>word := w'\<rparr>)"
  note k = view_okD(1) [OF v]
  have late: "u_late u = 0 \<or> u_late u = 1" and e: "u_early u = add_to_acquire (lt (u_ltype u)) - u_late u"
    and r: "word s AND MU_RLOCK_FIELD \<le> MU_RLOCK" and nb: "\<not> bit (word s) 1"
    using k q by (auto simp: knows)
  have sub: "bit (word s - u_early u) n = bit (word s) n" if "0 < n" "n < 8" for n
    using grab_fields(2) [OF v _ r late, of "u_ltype u" n] q that unfolding e by simp
  have b: "bit w' 2 = bit (word s) 2" "bit w' 4 = bit (word s) 4"
    using sub [of 2] sub [of 4] by (simp_all add: w'_def word_fields)
  have "own_ok s' t p"
    using q o b by (auto simp: own_ok_def scan_ok_def s'_def p_def struct_ok_def split: option.splits)
  moreover have "place_step t s s' (pcs s t) p"
    using q by (auto simp: place_step_def s'_def p_def queued_def)
  moreover have "mark_step t s s' (pcs s t) p"
    using q b nb by (auto simp: mark_step_def s'_def p_def)
  moreover have "field_step t s s' (pcs s t)" using q by (auto simp: field_step_def s'_def)
  moreover have "removal_step t s s' (pcs s t) p"
    using q by (auto simp: removal_step_def s'_def p_def)
  moreover have "sem_step t s s' (pcs s t) p" using q by (auto simp: sem_step_def s'_def p_def)
  ultimately show ?thesis unfolding q_good_def wait_step_def
    by (intro exI [of _ p]) (simp add: s'_def w'_def p_def)
qed

lemma not_reader: "m \<noteq> nsync_reader_type \<longleftrightarrow> m = nsync_writer_type"
  by (cases m) auto

text \<open>The steps of the unlocker that move waiters between its lists.\<close>

lemma q_lists:
  assumes v: "view_ok (word s) (pcs s t)" and q: "pcs s t = UnlockSlow u p" and o: "own_ok s t (pcs s t)"
    and p: "p \<in> {Us_swap, Us_collect, Us_finish}"
  shows "q_good t s (nsync_mu_unlock_slow t u p s)"
proof -
  note k = view_okD(1) [OF v]
  consider "p = Us_swap" | "p = Us_collect" | "p = Us_finish" using p by blast
  then show ?thesis
  proof cases
    case 1
    show ?thesis unfolding 1 nsync_mu_unlock_slow.simps
      by (rule q_move) (use q o k 1 in \<open>auto simp: own_ok_def scan_ok_def struct_ok_def knows split: option.splits if_splits\<close>)
  next
    case 2
    show ?thesis unfolding 2 nsync_mu_unlock_slow.simps
      by (rule q_move) (use q o k 2 in \<open>auto simp: own_ok_def scan_ok_def struct_ok_def knows split_ok_def split: option.splits\<close>)
  next
    case 3
    show ?thesis unfolding 3 nsync_mu_unlock_slow.simps unlock_slow_finish_def Let_def
      by (rule q_move) (use q o k 3 in \<open>auto simp: own_ok_def scan_ok_def struct_ok_def word_fields split: option.splits\<close>)
  qed
qed

text \<open>The two compare-and-swaps with which it gives the spinlock up and takes it again.\<close>

lemma q_hold_word:
  assumes v: "view_ok (word s) (pcs s t)" and q: "pcs s t = UnlockSlow u p" and o: "own_ok s t (pcs s t)"
    and p: "p = Us_rel_cas old \<or> p = Us_spin_cas old"
  shows "q_good t s (nsync_mu_unlock_slow t u p s)"
  using p v q o view_okD(1) [OF v]
  by (cases "u_caller u"; elim disjE)
    (auto simp: own_ok_def scan_ok_def same_marks_def word_fields knows intro!: q_cas q_stay q_good_word)

lemma q_wake_next:
  assumes q: "pcs s t = UnlockSlow u Us_wake" and o: "own_ok s t (pcs s t)"
    and wk: "\<And>i. i \<in> set (wakes (pcs s t)) \<Longrightarrow> queued s i"
    and once: "\<And>i. count_list (kept (pcs s t)) i + count_list (wakes (pcs s t)) i \<le> 1"
  shows "q_good t s (nsync_mu_unlock_slow t u Us_wake s)"
proof (cases "u_wake u")
  case Nil
  then show ?thesis using q o q_unlock_slow_return [of s t u Us_wake "word s"] by (auto simp: same_marks_def)
next
  case (Cons i ps)
  then show ?thesis using q_wake [of s t u i ps] once [of i] wk [of i] q o by simp
qed

lemma q_unlock_slow:
  assumes v: "view_ok (word s) (pcs s t)" and q: "pcs s t = UnlockSlow u p" and o: "own_ok s t (pcs s t)"
    and wk: "\<And>i. i \<in> set (wakes (pcs s t)) \<Longrightarrow> queued s i"
    and once: "\<And>i. count_list (kept (pcs s t)) i + count_list (wakes (pcs s t)) i \<le> 1"
    and np: "p = Us_scan \<Longrightarrow> \<not> sc_panic (scan (data s) (w_cond s) (w_ltype s) (u_testing u)
       (u_new_waiters u) \<lparr>sc_keep = [], sc_wake = u_wake u, sc_wake_type = u_wake_type u,
                 sc_set_on_release = u_set_on_release u, sc_panic = False\<rparr>)"
  shows "q_good t s (nsync_mu_unlock_slow t u p s)"
proof -
  note k = view_okD(1) [OF v]
  show ?thesis
  proof (cases p)
    case (Us_release old)
    then show ?thesis using v q o
      by (auto simp: own_ok_def scan_ok_def intro!: q_cas q_stay q_unlock_slow_return marks_release)
  next
    case (Us_grab old)
    then show ?thesis using v q o q_grab [OF v] by (auto simp: own_ok_def scan_ok_def intro!: q_cas q_stay)
  next
    case (Us_rel_cas old)
    then show ?thesis using q_hold_word [OF v q o] by simp
  next
    case (Us_spin_cas old)
    then show ?thesis using q_hold_word [OF v q o] by simp
  next
    case (Us_final_cas old)
    then show ?thesis using v q o q_final [OF v] by (auto simp: own_ok_def scan_ok_def intro!: q_cas q_stay)
  next
    case Us_load
    then show ?thesis using v q o
      by (auto simp: own_ok_def scan_ok_def Let_def word_fields add_consts intro!: q_stay)
  next
    case Us_scan
    have "count_list (u_new_waiters u) i \<le> 1" for i using once [of i] q Us_scan by simp
    then show ?thesis using q_scan [of s t u] np q o k Us_scan by auto
  next
    case Us_wake
    then show ?thesis using q_wake_next [of s t u] q o wk once by simp
  next
    case (Us_sem_v i)
    then show ?thesis using q_sem_v q o by auto
  next
    case Us_swap
    then show ?thesis using q_lists [OF v q o] by simp
  next
    case Us_collect
    then show ?thesis using q_lists [OF v q o] by simp
  next
    case Us_finish
    then show ?thesis using q_lists [OF v q o] by simp
  next
    case Us_loop
    then show ?thesis using q o k
      by (auto simp: own_ok_def scan_ok_def Let_def still_testing_def first_ok_def knows split_ok_def not_reader intro!: q_stay)
  next
    case Us_spin_load
    then show ?thesis using q o by (auto simp: own_ok_def scan_ok_def Let_def intro!: q_stay q_refl)
  qed (use q o in \<open>auto simp: own_ok_def scan_ok_def Let_def intro!: q_stay\<close>)
qed


section \<open>Conditional waits\<close>

lemma q_prepare:
  assumes q: "pcs s t = MuWait m Mw_prepare"
  shows "q_good t s (nsync_mu_wait_with_deadline t e m Mw_prepare s)"
proof -
  define p where "p = MuWait (m\<lparr>m_remove_count := w_remove_count s t\<rparr>) Mw_spin_load"
  define s' where "s' = goto t p (s\<lparr>w_ltype := (w_ltype s)(t := m_ltype m),
          w_cond := (w_cond s)(t := m_cond m), w_waiting := (w_waiting s)(t := True)\<rparr>)"
  have "own_ok s' t p" by (auto simp: own_ok_def s'_def p_def struct_ok_def)
  moreover have "place_step t s s' (pcs s t) p"
    using q by (auto simp: place_step_def s'_def p_def queued_def)
  moreover have "mark_step t s s' (pcs s t) p" using q by (auto simp: mark_step_def s'_def p_def)
  moreover have "field_step t s s' (pcs s t)" using q by (auto simp: field_step_def s'_def)
  moreover have "removal_step t s s' (pcs s t) p"
    using q by (auto simp: removal_step_def s'_def p_def)
  moreover have "sem_step t s s' (pcs s t) p" using q by (auto simp: sem_step_def s'_def p_def)
  ultimately show ?thesis unfolding q_good_def wait_step_def
    by (intro exI [of _ p]) (simp add: s'_def p_def)
qed

text \<open>
  The thread that timed out removes itself: it is in the queue, because nobody else has lists in
  hand while it holds both locks, and because its count of removals has not changed.
\<close>

lemma marks_ta:
  assumes old: "lockv old = 0" "\<not> bit old 1"
  shows "same_marks old ((old + MU_WADD_TO_ACQUIRE + MU_SPINLOCK) AND NOT MU_WCLEAR_ON_ACQUIRE)"
proof -
  have "old + MU_WADD_TO_ACQUIRE + MU_SPINLOCK = (old + 1) OR MU_SPINLOCK"
    unfolding add_consts
    by (rule disjunctive_add) (use old bit_add_w [of old 1] in \<open>auto simp: bit_consts\<close>)
  then show ?thesis
    using bit_add_w [of old 2] bit_add_w [of old 4] old by (simp add: same_marks_def word_fields)
qed

lemma q_ta_check:
  assumes v: "view_ok (word s) (pcs s t)" and q: "pcs s t = MuWait m (Ta_check old)"
    and o: "own_ok s t (pcs s t)"
    and here: "w_waiting s t \<Longrightarrow> m_remove_count m = w_remove_count s t \<Longrightarrow> t \<in> set (waiters s)"
    and once: "count_list (waiters s) t \<le> 1"
  shows "q_good t s (mu_try_acquire_after_timeout_or_cancel t m (Ta_check old) s)"
proof -
  note k = view_okD(1) [OF v]
  have old: "lockv old = 0" "\<not> bit old 1"
    and w: "word s = (old + MU_WADD_TO_ACQUIRE + MU_SPINLOCK) AND NOT MU_WCLEAR_ON_ACQUIRE"
    using k q by (auto simp: knows)
  have b: "same_marks (word s) old" using marks_ta [OF old] by (simp add: w same_marks_def)
  then have b2: "same_marks (word s) (old + add_to_acquire (lt (m_ltype m)))"
    using acquire_fields(2) [of "m_ltype m" old] old by (simp add: same_marks_def)
  show ?thesis
  proof (cases "w_waiting s t \<and> m_remove_count m = w_remove_count s t")
    case False
    then have "mu_try_acquire_after_timeout_or_cancel t m (Ta_check old) s = goto t (MuWait m Mw_delay) (s\<lparr>word := old\<rparr>)"
      by auto
    then show ?thesis using q o b by (auto simp: own_ok_def intro!: q_good_word)
  next
    case True
    define p where "p = MuWait (m\<lparr>m_have_lock := True, m_outcome := m_sem_outcome m\<rparr>) Mw_delay"
    define s' where "s' = goto t p (s\<lparr>waiters := remove1 t (waiters s),
                w_remove_count := (w_remove_count s)(t := w_remove_count s t + 1),
                w_waiting := (w_waiting s)(t := False),
                word := old + add_to_acquire (lt (m_ltype m))\<rparr>)"
    have c: "0 < count_list (waiters s) t"
      using here True count_list_0_iff [of "waiters s" t] by auto
    have "own_ok s' t p" using o q by (auto simp: own_ok_def s'_def p_def struct_ok_def)
    moreover have "place_step t s s' (pcs s t) p"
      using q True c by (auto simp: place_step_def s'_def p_def queued_def)
    moreover have "mark_step t s s' (pcs s t) p"
      using q b2 set_remove1_subset [of t "waiters s"] by (auto simp: mark_step_def s'_def p_def same_marks_def)
    moreover have "field_step t s s' (pcs s t)" using q by (auto simp: field_step_def s'_def)
    moreover have "removal_step t s s' (pcs s t) p"
      using q by (auto simp: removal_step_def s'_def p_def)
    moreover have "sem_step t s s' (pcs s t) p" using q by (auto simp: sem_step_def s'_def p_def)
    moreover have "mu_try_acquire_after_timeout_or_cancel t m (Ta_check old) s = s'"
      using True by (simp add: s'_def p_def)
    ultimately show ?thesis unfolding q_good_def wait_step_def by (intro exI [of _ p]) (simp add: s'_def)
  qed
qed

lemma q_mwait_enqueue:
  assumes q: "pcs s t = MuWait m Mw_enqueue" and o: "own_ok s t (pcs s t)"
  shows "q_good t s (nsync_mu_wait_with_deadline t e m Mw_enqueue s)"
proof -
  have "q_good t s (goto t (MuWait m' Mw_rel_load) (s\<lparr>waiters := ws\<rparr>))"
    if "ws = waiters s @ [t] \<or> ws = t # waiters s" "m' = m \<or> m' = m\<lparr>m_first_wait := False\<rparr>" for ws m'
    by (rule q_enqueue [where p = "MuWait m' Mw_rel_load"])
       (use q o that in \<open>auto simp: own_ok_def struct_ok_def\<close>)
  then show ?thesis by simp
qed

lemma q_mwait_release:
  assumes v: "view_ok (word s) (pcs s t)" and q: "pcs s t = MuWait m (Mw_rel_cas old add)"
    and o: "own_ok s t (pcs s t)"
  shows "q_good t s (nsync_mu_wait_with_deadline t e m (Mw_rel_cas old add) s)"
proof -
  have "same_marks old ((old - add) AND NOT MU_SPINLOCK)" if "word s = old"
    using view_okD(1) [OF v] q that marks_release [OF v, of "m_ltype m" MU_SPINLOCK]
    by (auto simp: knows same_marks_def word_fields)
  then show ?thesis using q o
    by (auto simp: own_ok_def Let_def unlock_slow_entry_def scan_ok_def struct_ok_def
        intro!: q_cas q_stay q_good_word)
qed

lemma q_mwait:
  assumes v: "view_ok (word s) (pcs s t)" and q: "pcs s t = MuWait m p" and o: "own_ok s t (pcs s t)"
    and here: "\<And>old. p = Ta_check old \<Longrightarrow> w_waiting s t \<Longrightarrow> m_remove_count m = w_remove_count s t \<Longrightarrow>
      t \<in> set (waiters s)"
    and once: "count_list (waiters s) t \<le> 1"
  shows "q_good t s (nsync_mu_wait_with_deadline t e m p s)"
proof -
  note k = view_okD(1) [OF v]
  have fail: "q_good t s (try_acquire_failed t m old s)" if "p = Ta_load \<or> p = Ta_cas old" for old
    using q o that unfolding try_acquire_failed_def by (auto simp: own_ok_def intro!: q_stay)
  show ?thesis
  proof (cases p)
    case Mw_prepare
    then show ?thesis using q_prepare q by simp
  next
    case (Mw_spin_cas old)
    then show ?thesis using q o k
      by (auto simp: own_ok_def struct_ok_def knows word_fields Let_def intro!: q_cas q_stay q_mark)
  next
    case Mw_enqueue
    then show ?thesis using q_mwait_enqueue q o by simp
  next
    case (Mw_rel_cas old add)
    then show ?thesis using q_mwait_release [OF v] q o by simp
  next
    case Mw_wait
    then show ?thesis using q o by (auto simp: own_ok_def intro!: q_stay q_lock_slow_entry)
  next
    case Mw_sem
    then show ?thesis using q o
      by (cases e) (auto simp: own_ok_def struct_ok_def intro!: q_stay q_refl q_private_sem q_private)
  next
    case (Ta_cas old)
    have "lockv old = 0" "\<not> bit old 1" using k q Ta_cas by (auto simp: knows)
    then show ?thesis using marks_ta [of old] q o Ta_cas fail [of old]
      by (auto simp: own_ok_def intro!: q_cas q_good_word)
  next
    case (Ta_hint old)
    then show ?thesis using q o
      by (auto simp: own_ok_def same_marks_def word_fields intro!: q_cas q_stay q_good_word)
  next
    case (Ta_check old)
    then show ?thesis using q_ta_check [OF v _ o, of m old] q here once by simp
  next
    case Ta_load
    then show ?thesis using q o fail by (auto simp: own_ok_def Let_def intro!: q_stay)
  next
    case Mw_test
    have "q_good t s (goto t (Crit (m_ltype m)) (s\<lparr>result := r\<rparr>))" for r
      using q Mw_test by (intro q_private) (auto simp: own_ok_def intro!: exI [of _ "w_sem s t"])
    then show ?thesis using q o Mw_test
      by (auto simp: own_ok_def Let_def mu_wait_return_def intro!: q_stay)
  qed (use q o in \<open>auto simp: own_ok_def Let_def struct_ok_def intro!: q_stay q_refl\<close>)
qed


section \<open>All reachable states\<close>

lemma q_client:
  assumes "own_ok s t (pcs s t)" "client t c s = Some s'"
  shows "q_good t s s'"
proof (cases "pcs s t")
  case Idle
  with assms show ?thesis by (cases c) (auto simp: client_def own_ok_def intro!: q_stay)
next
  case (Crit m)
  have data: "q_good t s (s\<lparr>data := d\<rparr>)" for d
    using Crit unfolding q_good_def
    by (intro exI [of _ "Crit m"] conjI quiet_step) (auto simp: own_ok_def)
  show ?thesis using Crit assms data
    by (cases c) (auto simp: client_def mu_wait_entry_def own_ok_def split: if_splits intro!: q_stay)
qed (use assms in \<open>auto simp: client_def\<close>)

lemma placed_once:
  assumes "placed N s" "t < N"
  shows "count_list (kept (pcs s t)) i + count_list (wakes (pcs s t)) i \<le> 1" "count_list (waiters s) i \<le> 1"
proof -
  have "count_list (kept (pcs s t) @ wakes (pcs s t)) i \<le> (\<Sum>t<N. count_list (kept (pcs s t) @ wakes (pcs s t)) i)"
    using sum_ge_single [OF assms(2), of "\<lambda>t. count_list (kept (pcs s t) @ wakes (pcs s t)) i"] .
  moreover have "count_list (waiters s) i + (\<Sum>t<N. count_list (kept (pcs s t) @ wakes (pcs s t)) i) \<le> 1"
    using spec [OF assms(1) [unfolded placed_def], of i] by simp
  ultimately show "count_list (kept (pcs s t)) i + count_list (wakes (pcs s t)) i \<le> 1" "count_list (waiters s) i \<le> 1"
    by simp_all
qed

lemma no_scan_panic:
  assumes inv: "q_inv N s" and t: "t < N" and q: "pcs s t = UnlockSlow u Us_scan" and z: "\<not> sc_panic z"
    "sc_wake_type z = u_wake_type u"
  shows "\<not> sc_panic (scan (data s) (w_cond s) (w_ltype s) (u_testing u) (u_new_waiters u) z)"
proof (cases "u_testing u")
  case True
  then show ?thesis using scan_no_panic [OF z(1)] by blast
next
  case False
  then have o: "if u_late u = 0 then \<not> bit (word s) 4 else first_ok s u"
    using q_invD(1) [OF inv t] q by (simp add: own_ok_def scan_ok_def split: if_splits)
  show ?thesis
  proof (cases "u_late u = 0")
    case True
    have "w_cond s i = None" if "i \<in> set (u_new_waiters u)" for i
    proof -
      have "i \<in> set (kept (pcs s t))" using that q by simp
      then show ?thesis using q_invD(3) [OF inv] t o True unfolding marked_def by (metis (full_types))
    qed
    then show ?thesis using scan_no_panic [OF z(1)] by blast
  next
    case False
    then show ?thesis using scan_first [OF z(1) _ z(2)] o by simp
  qed
qed

lemma timed_out_in_queue:
  assumes m: "mu_inv N s" and inv: "q_inv N s" and t: "t < N" and q: "pcs s t = MuWait c (Ta_check old)"
    and w: "w_waiting s t" "m_remove_count c = w_remove_count s t"
  shows "t \<in> set (waiters s)"
proof -
  define W where "W = (\<Sum>u<N. count_list (wakes (pcs s u)) t)"
  have "w_remove_count s t = m_remove_count c + of_nat W"
    using q_invD(4) [OF inv] t q w unfolding removals_def W_def by simp
  then have z: "of_nat W = (0 :: u32)" using w by simp
  have k: "kept (pcs s u) = []" if u: "u < N" for u
  proof (rule ccontr)
    assume "kept (pcs s u) \<noteq> []"
    then have sc: "scanner (pcs s u) = 1" by (rule kept_scanner)
    then have "u \<noteq> t" using q by auto
    moreover have "spin_share (pcs s u) = 1 \<or> lock_share (pcs s u) = 1"
      using scanner_share(2) [OF mu_invD(1) [OF m u]] sc by simp
    ultimately show False
      using spin_excludes [OF m u t] share_excludes [OF m u t] q by auto
  qed
  have "count_list (waiters s) t + W = 1"
    using spec [OF q_invD(2) [OF inv, unfolded placed_def], of t] k w q unfolding W_def by simp
  moreover have "W = 0"
  proof (cases "W = 0")
    case False
    then have "W = 1" using \<open>count_list (waiters s) t + W = 1\<close> by linarith
    then show ?thesis using z by simp
  qed
  ultimately have "count_list (waiters s) t \<noteq> 0" by simp
  then show ?thesis by (simp add: count_list_0_iff)
qed

lemma run_good:
  assumes m: "mu_inv N s" and inv: "q_inv N s" and t: "t < N" and N: "N < 2 ^ 24" and e: "e \<noteq> Some Woken"
  shows "good_step t s (run_thread t e s) \<and> q_good t s (run_thread t e s)"
proof -
  note v = mu_inv_view [OF m t N] and o = q_invD(1) [OF inv t]
  show ?thesis
  proof (cases "pcs s t")
    case (UnlockSlow u p)
    have wk: "queued s i" if "i \<in> set (wakes (pcs s t))" for i
      using placed_queued [OF q_invD(2) [OF inv], of i] that t by blast
    show ?thesis
      using UnlockSlow unlock_slow_good [OF v UnlockSlow] 
        q_unlock_slow [OF v UnlockSlow o wk placed_once(1) [OF q_invD(2) [OF inv] t]]
        no_scan_panic [OF inv t]
      by (simp add: run_thread_def)
  next
    case (MuWait c p)
    have "t \<in> set (waiters s)" if "p = Ta_check old" "w_waiting s t" "m_remove_count c = w_remove_count s t" for old
      using timed_out_in_queue [OF m inv t] MuWait that by blast
    then show ?thesis
      using MuWait mwait_good [OF v MuWait e] q_mwait [OF v MuWait o _ placed_once(2) [OF q_invD(2) [OF inv] t]]
      by (simp add: run_thread_def)
  qed (use v o in \<open>auto simp: run_thread_def own_ok_def
     intro: good_step_refl q_refl lock_good q_lock trylock_good q_trylock lock_slow_good q_lock_slow
       unlock_good q_unlock runlock_good q_runlock unlock_without_wakeup_good q_unlock_without_wakeup\<close>)
qed

lemma init_inv: "mu_inv N nsync_mu_init" "q_inv N nsync_mu_init"
  by (auto simp: mu_inv_def q_inv_def nsync_mu_init_def knows lockv_def own_ok_def placed_def marked_def
      removals_def posted_def queued_def)

lemma reach_inv:
  assumes "mu_reach N s" "N < 2 ^ 24"
  shows "mu_inv N s \<and> q_inv N s"
  using assms(1)
proof induction
  case init
  then show ?case using init_inv by simp
next
  case (step s s')
  from step.hyps(2) show ?case
  proof cases
    case (run t e)
    then show ?thesis
      using run_good [of N s t e] step.IH assms(2) good_step_inv q_good_inv by blast
  next
    case (call t c)
    then show ?thesis
      using client_good [of s t c s'] q_client [of s t c s'] mu_inv_view [of N s t] q_invD(1) [of N s t] step.IH
        assms(2) good_step_inv q_good_inv by blast
  qed
qed

end
