(* ===== verification/Mu_Props.thy ===== *)
theory Mu_Props
  imports Mu_Waiters
begin

text \<open>
  The properties of the mutex, over all reachable states of any number of threads below
  \<open>2 ^ 24\<close> (the reader count has 24 bits and is not checked for overflow).  They rest on the
  invariant of theory \<open>Mu_Waiters\<close>.  \<open>run_schedule\<close> executes a given interleaving, for
  concrete states.
\<close>

section \<open>Who holds the lock\<close>

text \<open>
  A thread holds the lock in a mode while the client is in the critical section and while
  \<^verbatim>\<open>nsync_mu_wait\<close> evaluates the client's condition.
\<close>

definition holds :: "mu_sys \<Rightarrow> tid \<Rightarrow> lmode \<Rightarrow> bool" where
  "holds s t m =
     (case pcs s t of
        Crit m' \<Rightarrow> m' = m
      | MuWait c p \<Rightarrow> p = Mw_test \<and> m_ltype c = m
      | _ \<Rightarrow> False)"

text \<open>A releasing thread that evaluates the conditions of the waiters.\<close>

definition tests_conditions :: "mu_sys \<Rightarrow> tid \<Rightarrow> bool" where
  "tests_conditions s t =
     (case pcs s t of UnlockSlow u p \<Rightarrow> p = Us_scan \<and> u_testing u | _ \<Rightarrow> False)"

datatype event = Run tid "outcome option" | Call tid call

fun run_event :: "event \<Rightarrow> mu_sys \<Rightarrow> mu_sys option" where
  "run_event (Run t e) s = (if e = Some Woken then None else Some (run_thread t e s))"
| "run_event (Call t c) s = client t c s"

definition event_thread :: "event \<Rightarrow> tid" where
  "event_thread v = (case v of Run t _ \<Rightarrow> t | Call t _ \<Rightarrow> t)"

fun run_schedule :: "nat \<Rightarrow> event list \<Rightarrow> mu_sys \<Rightarrow> mu_sys option" where
  "run_schedule N [] s = Some s"
| "run_schedule N (v # vs) s =
     (if event_thread v < N
      then (case run_event v s of None \<Rightarrow> None | Some s' \<Rightarrow> run_schedule N vs s')
      else None)"

section \<open>The lock as the specification sees it\<close>

definition rw_abs :: "mu_sys \<Rightarrow> rw" where
  "rw_abs s t =
     (if lock_share (pcs s t) = 1 then Some nsync_writer_type
      else if lock_share (pcs s t) = 256 then Some nsync_reader_type else None)"

text \<open>The steps of a system that is not too large for the reader count.\<close>

definition sized_step :: "nat \<Rightarrow> mu_sys \<Rightarrow> mu_sys \<Rightarrow> bool" where
  "sized_step N s s' \<longleftrightarrow> N < 2 ^ 24 \<and> mu_step N s s'"

section \<open>Consequences of the invariant\<close>

lemma holds_share: "holds s t m \<Longrightarrow> lock_share (pcs s t) = held m"
  by (auto simp: holds_def split: pc.splits)

lemma reach_shares:
  assumes "mu_reach N s" "N < 2 ^ 24" "t < N" "u < N" "t \<noteq> u" "lock_share (pcs s u) = 1"
  shows "lock_share (pcs s t) = 0"
  using share_excludes [of N s t u] reach_inv [OF assms(1,2)] assms(3-) by blast

lemma mu_reach_star: "mu_reach N s \<longleftrightarrow> (mu_step N)\<^sup>*\<^sup>* nsync_mu_init s"
proof
  assume "mu_reach N s" then show "(mu_step N)\<^sup>*\<^sup>* nsync_mu_init s"
    by induction (auto intro: rtranclp.rtrancl_into_rtrancl)
next
  assume "(mu_step N)\<^sup>*\<^sup>* nsync_mu_init s" then show "mu_reach N s"
    by (induction rule: rtranclp_induct) (auto intro: mu_reach.intros)
qed

lemma not_crashed:
  assumes "mu_reach N s" "N < 2 ^ 24"
  shows "\<not> crashed N s"
proof
  assume "crashed N s"
  then obtain t msg where "t < N" "pcs s t = Panicked msg" by (auto simp: crashed_def)
  then show False using mu_invD(1) [of N s t] reach_inv [OF assms] by (simp add: knows)
qed

lemma step_one_thread:
  assumes "mu_reach N s" "N < 2 ^ 24" "mu_step N s s'"
  shows "\<exists>t<N. \<exists>p. pcs s' = (pcs s)(t := p)"
  using assms(3)
proof cases
  case (run t e)
  then show ?thesis using run_good [of N s t e] reach_inv [OF assms(1,2)] assms(2)
    by (auto simp: good_step_def)
next
  case (call t c)
  then show ?thesis
    using client_good [of s t c s'] mu_inv_view [of N s t] reach_inv [OF assms(1,2)] assms(2)
    by (auto simp: good_step_def)
qed

lemma rw_abs_excl: "mu_inv N s \<Longrightarrow> t < N \<Longrightarrow> u < N \<Longrightarrow> t \<noteq> u \<Longrightarrow> rw_abs s t = Some nsync_writer_type \<Longrightarrow> rw_abs s u = None"
  using share_excludes [of N s u t] by (auto simp: rw_abs_def split: if_splits)

lemma rw_abs_outside: "q_inv N s \<Longrightarrow> N \<le> t \<Longrightarrow> rw_abs s t = None"
  using q_invD(7) [of N s t] by (auto simp: rw_abs_def)

lemma rw_simulates:
  assumes r: "mu_reach N s" and N: "N < 2 ^ 24" and st: "mu_step N s s'"
  shows "rw_abs s' = rw_abs s \<or> rw_step (rw_abs s) (rw_abs s')"
proof -
  obtain t p where t: "t < N" and p: "pcs s' = (pcs s)(t := p)" using step_one_thread [OF r N st] by blast
  have inv: "mu_inv N s" "q_inv N s" and inv': "mu_inv N s'" "q_inv N s'"
    using reach_inv [OF _ N] r mu_reach.step [OF r st] by auto
  define x where "x = rw_abs s' t"
  have upd: "rw_abs s' = (rw_abs s)(t := x)" by (auto simp: rw_abs_def p x_def)
  have other: "rw_abs s u = None" if "x = Some nsync_writer_type" "u \<noteq> t" for u
  proof (cases "u < N")
    case True
    then have "rw_abs s' u = None" using rw_abs_excl [OF inv'(1) t True] that by (simp add: x_def)
    then show ?thesis using that(2) upd by simp
  qed (use rw_abs_outside [OF inv(2)] in auto)
  have nowriter: "rw_abs s u \<noteq> Some nsync_writer_type" if "x \<noteq> None" "u \<noteq> t" for u
  proof
    assume w: "rw_abs s u = Some nsync_writer_type"
    then have "u < N" using rw_abs_outside [OF inv(2), of u] by fastforce
    moreover have "rw_abs s' u = Some nsync_writer_type" using w that(2) upd by simp
    ultimately show False using rw_abs_excl [OF inv'(1) _ t, of u] that by (simp add: x_def)
  qed
  consider "rw_abs s t = x" | "rw_abs s t \<noteq> None" "x = None"
    | "rw_abs s t = None" "x = Some nsync_writer_type" | "rw_abs s t = None" "x = Some nsync_reader_type"
    | "rw_abs s t = Some nsync_reader_type" "x = Some nsync_writer_type"
    | "rw_abs s t = Some nsync_writer_type" "x = Some nsync_reader_type"
    by (cases "rw_abs s t"; cases x) (metis lmode.exhaust option.distinct(1))+
  then show ?thesis
  proof cases
    case 1
    then show ?thesis using upd by auto
  next
    case 2
    then show ?thesis unfolding upd by (auto intro: rw_step.release)
  next
    case 3
    have all: "\<forall>u. rw_abs s u = None" using 3 other by (metis)
    show ?thesis using acquire_write [OF all, of t] upd 3(2) by simp
  next
    case 4
    have "\<forall>u. rw_abs s u \<noteq> Some nsync_writer_type" using 4 nowriter by (metis option.distinct(1))
    then show ?thesis using acquire_read [of "rw_abs s" t] upd 4 by simp
  next
    case 5
    then show ?thesis using convert [of "rw_abs s" t nsync_writer_type] other upd by simp
  next
    case 6
    have "rw_abs s u = None" if "u \<noteq> t" for u
      using rw_abs_excl [OF inv(1) t, of u] 6 rw_abs_outside [OF inv(2), of u] that
      by (cases "u < N") auto
    then show ?thesis using convert [of "rw_abs s" t nsync_reader_type] 6 upd by simp
  qed
qed

lemma sized_reach: "(sized_step N)\<^sup>*\<^sup>* nsync_mu_init s \<Longrightarrow> mu_reach N s"
  by (induction rule: rtranclp_induct) (auto simp: sized_step_def intro: mu_reach.intros)

lemma reach_sized: "mu_reach N s \<Longrightarrow> N < 2 ^ 24 \<Longrightarrow> (sized_step N)\<^sup>*\<^sup>* nsync_mu_init s"
  by (induction rule: mu_reach.induct)
     (auto simp: sized_step_def intro: rtranclp.rtrancl_into_rtrancl)

interpretation mu_rw: refinement nsync_mu_init "sized_step N" rw_abs rw_step for N
  by unfold_locales (metis rw_simulates sized_reach sized_step_def)

lemma run_event_step:
  assumes "mu_reach N s" "N < 2 ^ 24" "event_thread v < N" "run_event v s = Some s'"
  shows "mu_reach N s'"
proof (cases v)
  case (Run t e)
  then show ?thesis using assms not_crashed [OF assms(1,2)] mu_step.run [of t N s e]
    by (auto simp: event_thread_def split: if_splits intro: mu_reach.step)
next
  case (Call t c)
  then show ?thesis using assms not_crashed [OF assms(1,2)] mu_step.call [of t N s c s']
    by (auto simp: event_thread_def intro: mu_reach.step)
qed

lemma run_schedule_reach:
  assumes "run_schedule N vs s = Some s'" "mu_reach N s" "N < 2 ^ 24"
  shows "mu_reach N s'"
  using assms
proof (induction N vs s rule: run_schedule.induct)
  case (2 N v vs s)
  then show ?case by (auto split: if_splits option.splits dest: run_event_step)
qed auto


lemma share_sum:
  assumes inv: "mu_inv N s" and even: "even (lockv (word s))"
  shows "lockv (word s) = 256 * card {t. t < N \<and> rw_abs s t = Some nsync_reader_type}"
proof -
  have "lock_share (pcs s t) = (if rw_abs s t = Some nsync_reader_type then 256 else 0)" if "t < N" for t
    using mu_inv_shares [OF inv that] mu_invD(4) [OF inv that] even by (auto simp: rw_abs_def)
  then have "lockv (word s) = (\<Sum>t<N. if rw_abs s t = Some nsync_reader_type then 256 else 0)"
    using mu_invD(2) [OF inv] by (auto intro!: sum.cong)
  also have "\<dots> = (\<Sum>t\<in>{t. t < N \<and> rw_abs s t = Some nsync_reader_type}. 256)"
    by (intro sum.mono_neutral_cong_right) auto
  finally show ?thesis by simp
qed


lemma word_writer:
  assumes inv: "mu_inv N s"
  shows "word s AND MU_WLOCK \<noteq> 0 \<longleftrightarrow> (\<exists>t<N. rw_abs s t = Some nsync_writer_type)"
proof
  assume "word s AND MU_WLOCK \<noteq> 0"
  then have "lockv (word s) = 1" using wlock_iff mu_inv_odd [OF inv] by blast
  then have "(\<Sum>t<N. lock_share (pcs s t)) = 1" using mu_invD(2) [OF inv] by simp
  then obtain t where "t < N" "lock_share (pcs s t) = 1"
    by (rule sum_one_ex)
  then show "\<exists>t<N. rw_abs s t = Some nsync_writer_type" by (auto simp: rw_abs_def intro!: exI [of _ t])
next
  assume "\<exists>t<N. rw_abs s t = Some nsync_writer_type"
  then show "word s AND MU_WLOCK \<noteq> 0"
    using mu_invD(4) [OF inv] by (auto simp: wlock_iff rw_abs_def split: if_splits)
qed

lemma word_readers:
  assumes inv: "mu_inv N s"
  shows "unat (drop_bit 8 (word s)) = card {t. t < N \<and> rw_abs s t = Some nsync_reader_type}"
proof -
  have d: "unat (drop_bit 8 (word s)) = lockv (word s) div 256"
    by (simp add: lockv_eq unat_drop_bit_eq) (simp add: drop_bit_eq_div)
  show ?thesis
  proof (cases "even (lockv (word s))")
    case True
    then show ?thesis using share_sum [OF inv] d by simp
  next
    case False
    then have one: "lockv (word s) = 1" using mu_inv_odd [OF inv] by blast
    have "rw_abs s t \<noteq> Some nsync_reader_type" if "t < N" for t
      using sum_ge_single [OF that, of "\<lambda>t. lock_share (pcs s t)"] mu_invD(2) [OF inv] one
      by (auto simp: rw_abs_def)
    then have none: "{t. t < N \<and> rw_abs s t = Some nsync_reader_type} = {}" by blast
    show ?thesis unfolding none using d one by simp
  qed
qed

lemma word_spin:
  assumes inv: "mu_inv N s"
  shows "word s AND MU_SPINLOCK \<noteq> 0 \<longleftrightarrow> (\<exists>!t. t < N \<and> spin_share (pcs s t) = 1)"
proof -
  have b: "word s AND MU_SPINLOCK \<noteq> 0 \<longleftrightarrow> (\<Sum>t<N. spin_share (pcs s t)) = 1"
    using mu_invD(3) [OF inv] by (cases "bit (word s) 1") (auto simp: word_fields)
  show ?thesis
  proof
    assume "word s AND MU_SPINLOCK \<noteq> 0"
    then obtain t where "t < N" "spin_share (pcs s t) = 1"
      using b sum_one_ex [of "\<lambda>t. spin_share (pcs s t)" N] by metis
    then show "\<exists>!t. t < N \<and> spin_share (pcs s t) = 1" using spin_excludes [OF inv] by (metis zero_neq_one)
  next
    assume "\<exists>!t. t < N \<and> spin_share (pcs s t) = 1"
    then obtain t where t: "t < N" "spin_share (pcs s t) = 1" by blast
    then show "word s AND MU_SPINLOCK \<noteq> 0"
      using sum_ge_single [OF t(1), of "\<lambda>t. spin_share (pcs s t)"] mu_invD(3) [OF inv]
      by (cases "bit (word s) 1") (auto simp: word_fields)
  qed
qed

lemma distinct_count_list: "distinct xs \<longleftrightarrow> (\<forall>i. count_list xs i \<le> 1)"
proof (induction xs)
  case (Cons x xs)
  have "(\<forall>i. count_list (x # xs) i \<le> 1) \<longleftrightarrow> count_list xs x = 0 \<and> (\<forall>i. count_list xs i \<le> 1)"
    by (auto simp: all_conj_distrib) (metis Suc_le_mono le_zero_eq le0)+
  then show ?case using Cons by (simp add: count_list_0_iff)
qed simp

section \<open>Schedules\<close>

definition demo_lock :: "event list" where
  "demo_lock = [Call 0 C_lock, Run 0 None, Call 1 C_rlock, Run 1 None]"

definition demo_held :: mu_sys where
  "demo_held = nsync_mu_init\<lparr>word := 1, pcs := (\<lambda>_. Idle)(0 := Crit nsync_writer_type, 1 := Rlock Lk_load)\<rparr>"

definition runs :: "nat \<Rightarrow> tid \<Rightarrow> event list" where
  "runs n t = replicate n (Run t None)"

text \<open>
  Thread 3 holds the lock while reader 1 and then writer 2 queue up.  It unlocks, which wakes
  reader 1, and locks and unlocks once more before reader 1 runs.  Reader 0 acquires and starts
  a conditional wait; while it has the spinlock, reader 1 acquires (which clears
  \<^verbatim>\<open>MU_DESIG_WAKER\<close>) and releases.  Then reader 0 releases.
\<close>

definition demo_stall :: "event list" where
  "demo_stall =
     Call 3 C_lock # runs 1 3 @ Call 1 C_rlock # runs 8 1 @ Call 2 C_lock # runs 8 2 @
     Call 3 C_unlock # runs 15 3 @ Call 3 C_trylock # runs 3 3 @ Call 3 C_unlock # runs 3 3 @
     Call 0 C_rlock # runs 3 0 @ Call 0 (C_wait (Some 0)) # runs 6 0 @
     runs 4 1 @ Call 1 C_runlock # runs 3 1 @ runs 3 0"

text \<open>The lock is free and nobody is on the way, but the writer at the head of the queue sleeps.\<close>

definition stalled :: "mu_sys \<Rightarrow> bool" where
  "stalled s \<longleftrightarrow>
     word s AND MU_ANY_LOCK = 0 \<and> waiters s = [2, 0] \<and> w_ltype s 2 = nsync_writer_type \<and>
     w_cond s 2 = None \<and> w_waiting s 2 \<and> w_sem s 2 = 0 \<and> w_sem s 0 = 0 \<and>
     pcs s 1 = Idle \<and> pcs s 3 = Idle \<and>
     (case pcs s 0 of MuWait m p \<Rightarrow> p = Mw_sem | _ \<Rightarrow> False) \<and>
     (case pcs s 2 of LockSlow l p \<Rightarrow> p = Ls_sem | _ \<Rightarrow> False)"

lemma stall_run:
  "case run_schedule 4 demo_stall nsync_mu_init of None \<Rightarrow> False | Some s \<Rightarrow> stalled s"
  by code_simp

definition demo_queue :: mu_sys where
  "demo_queue = (case run_schedule 4 demo_stall nsync_mu_init of None \<Rightarrow> nsync_mu_init | Some s \<Rightarrow> s)"

text \<open>Thread 1 waits for a condition; thread 0 releases and is about to test it.\<close>

definition demo_test :: "event list" where
  "demo_test = Call 1 C_lock # runs 1 1 @ Call 1 (C_wait (Some 0)) # runs 10 1 @
     Call 0 C_lock # runs 3 0 @ Call 0 C_unlock # runs 8 0"

definition demo_scan :: mu_sys where
  "demo_scan = (case run_schedule 2 demo_test nsync_mu_init of None \<Rightarrow> nsync_mu_init | Some s \<Rightarrow> s)"

lemma demo_scan_run:
  "case run_schedule 2 demo_test nsync_mu_init of None \<Rightarrow> False | Some s \<Rightarrow> tests_conditions s 0"
  by code_simp

lemma demo_scan_reach: "mu_reach 2 demo_scan" "tests_conditions demo_scan 0"
  using demo_scan_run run_schedule_reach [OF _ mu_reach.init, of 2 demo_test] unfolding demo_scan_def
  by (auto split: option.splits)

lemma demo_queue_reach: "mu_reach 4 demo_queue" "stalled demo_queue"
  using stall_run run_schedule_reach [OF _ mu_reach.init, of 4 demo_stall] unfolding demo_queue_def
  by (auto split: option.splits)

text \<open>Thread 1 makes the condition true, and thread 0, which waited for it, is woken.\<close>

definition demo_woken :: "event list" where
  "demo_woken = Call 0 C_lock # runs 1 0 @ Call 0 (C_wait (Some 0)) # runs 10 0 @
     Call 1 C_lock # runs 3 1 @ Call 1 (C_data (\<lambda>_. True)) # Call 1 C_unlock # runs 21 1 @ runs 6 0"

definition demo_return :: mu_sys where
  "demo_return = (case run_schedule 2 demo_woken nsync_mu_init of None \<Rightarrow> nsync_mu_init | Some s \<Rightarrow> s)"

definition returning :: "mu_sys \<Rightarrow> bool" where
  "returning s \<longleftrightarrow>
     (case pcs s 0 of MuWait m p \<Rightarrow> p = Mw_test \<and> m_cond m = Some 0 \<and> m_ltype m = nsync_writer_type | _ \<Rightarrow> False) \<and>
     data s 0"

text \<open>Thread 0 times out in a wait.\<close>

definition demo_expire :: "event list" where
  "demo_expire = Call 0 C_lock # runs 1 0 @ Call 0 (C_wait_with_deadline (Some 0)) # runs 9 0 @
     [Run 0 (Some ETIMEDOUT)] @ runs 3 0"

definition demo_timeout :: mu_sys where
  "demo_timeout = (case run_schedule 2 demo_expire nsync_mu_init of None \<Rightarrow> nsync_mu_init | Some s \<Rightarrow> s)"

definition timing_out :: "mu_sys \<Rightarrow> bool" where
  "timing_out s \<longleftrightarrow> w_waiting s 0 \<and>
     (case pcs s 0 of
        MuWait m p \<Rightarrow> (case p of Ta_check _ \<Rightarrow> m_remove_count m = w_remove_count s 0 | _ \<Rightarrow> False)
      | _ \<Rightarrow> False)"

lemma demo_return_run:
  "case run_schedule 2 demo_woken nsync_mu_init of None \<Rightarrow> False | Some s \<Rightarrow> returning s"
  by code_simp

lemma demo_timeout_run:
  "case run_schedule 2 demo_expire nsync_mu_init of None \<Rightarrow> False | Some s \<Rightarrow> timing_out s"
  by code_simp

lemma demo_return_reach:
  "mu_reach 2 demo_return" "returning demo_return"
  using demo_return_run run_schedule_reach [OF _ mu_reach.init, of 2 demo_woken] unfolding demo_return_def
  by (auto split: option.splits)

lemma demo_timeout_reach: "mu_reach 2 demo_timeout" "timing_out demo_timeout"
  using demo_timeout_run run_schedule_reach [OF _ mu_reach.init, of 2 demo_expire] unfolding demo_timeout_def
  by (auto split: option.splits)

lemma demo_lock_run: "run_schedule 2 demo_lock nsync_mu_init =
   Some demo_held"
  by (simp add: demo_held_def demo_lock_def event_thread_def client_def nsync_mu_init_def run_thread_def goto_def
      cas_word_def const_types add_consts)

lemma demo_lock_reach:
  "mu_reach 2 demo_held"
  using run_schedule_reach [OF demo_lock_run mu_reach.init] by simp

section \<open>Inside a wait\<close>

text \<open>The local variables of the \<^verbatim>\<open>nsync_mu_wait_with_deadline\<close> a thread is in, also while it
  releases or reacquires the lock in the slow paths.\<close>

definition wait_call :: "pc \<Rightarrow> mwait option" where
  "wait_call p =
     (case p of MuWait m _ \<Rightarrow> Some m | LockSlow l _ \<Rightarrow> s_caller l | UnlockSlow u _ \<Rightarrow> u_caller u | _ \<Rightarrow> None)"

lemma wait_call_simps [simp]:
  "wait_call (MuWait m p) = Some m" "wait_call (LockSlow l q) = s_caller l" "wait_call (UnlockSlow u r) = u_caller u"
  "wait_call (Crit k) = None" "wait_call (Panicked msg) = None" "wait_call Idle = None"
  by (simp_all add: wait_call_def)

lemma lock_slow_call:
  "wait_call (pcs (nsync_mu_lock_slow t l p s) t) = Some m' \<Longrightarrow> pcs s t = LockSlow l p \<Longrightarrow> s_caller l = Some m'"
  by (cases p) (auto simp: Let_def lock_slow_return_def split: if_splits option.splits)

lemma unlock_slow_call:
  "wait_call (pcs (nsync_mu_unlock_slow t u p s) t) = Some m' \<Longrightarrow> pcs s t = UnlockSlow u p \<Longrightarrow> u_caller u = Some m'"
  by (cases p) (auto simp: Let_def unlock_slow_return_def split: if_splits option.splits list.splits)

lemma mu_wait_call:
  assumes "wait_call (pcs (nsync_mu_wait_with_deadline t e m p s) t) = Some m'" "pcs s t = MuWait m p" "p \<noteq> Mw_load"
  shows "m_ltype m' = m_ltype m \<and> m_cond m' = m_cond m \<and> m_deadline m' = m_deadline m"
  using assms
  by (cases p) (auto simp: Let_def lock_slow_entry_def unlock_slow_entry_def mu_wait_return_def try_acquire_failed_def
      split: if_splits option.splits)

lemma share_held:
  assumes r: "mu_reach N s" "N < 2 ^ 24" "t < N" and k: "lock_share (pcs s t) = held k"
  shows "if k = nsync_writer_type
    then word s AND MU_ANY_LOCK = MU_WLOCK \<and> (\<forall>u<N. u \<noteq> t \<longrightarrow> lock_share (pcs s u) = 0)
    else word s AND MU_WLOCK = 0 \<and> word s AND MU_RLOCK_FIELD \<noteq> 0 \<and> (\<forall>u<N. lock_share (pcs s u) \<noteq> 1)"
proof (cases k)
  case nsync_writer_type
  then have one: "lock_share (pcs s t) = 1" using k by simp
  then have "lockv (word s) = 1" using mu_invD(4) [of N s t] reach_inv [OF r(1,2)] r(3) by blast
  then have "word s AND MU_ANY_LOCK = MU_WLOCK" by (simp add: lockv_def add_consts word_unat_eq_iff)
  then show ?thesis using nsync_writer_type reach_shares [OF r(1,2) _ r(3) _ one] by simp
next
  case nsync_reader_type
  have inv: "mu_inv N s" using reach_inv [OF r(1,2)] by blast
  have no: "lock_share (pcs s u) \<noteq> 1" if "u < N" for u
    using reach_shares [OF r(1,2,3) that] k nsync_reader_type by (cases "u = t") auto
  then have w: "word s AND MU_WLOCK = 0" using word_writer [OF inv] by (auto simp: rw_abs_def split: if_splits)
  have "lock_share (pcs s t) \<le> (\<Sum>u<N. lock_share (pcs s u))" by (rule member_le_sum) (use r(3) in auto)
  then have "lockv (word s) \<noteq> 0" using mu_invD(2) [OF inv] k nsync_reader_type by (metis held_neq_0(2) leD)
  then have "word s AND MU_RLOCK_FIELD \<noteq> 0" using w by (metis lockv_0_iff MU_ANY_LOCK_def and_or_zero)
  then show ?thesis using w no nsync_reader_type by simp
qed

text \<open>The mode read from the word at the entry is the mode in which the caller holds the lock.\<close>

lemma mu_wait_entry_mode:
  assumes "mu_reach N s" "N < 2 ^ 24" "t < N" "pcs s t = MuWait m Mw_load"
  shows "pcs (run_thread t e s) t = MuWait m Mw_test"
proof -
  have "lock_share (pcs s t) = held (m_ltype m)" using assms(4) by simp
  note h = share_held [OF assms(1-3) this]
  have mode: "word s AND MU_ANY_LOCK \<noteq> 0 \<and>
    (if word s AND MU_RLOCK_FIELD \<noteq> 0 then nsync_reader_type else nsync_writer_type) = m_ltype m"
  proof (cases "m_ltype m")
    case nsync_writer_type
    have "MU_WLOCK AND MU_RLOCK_FIELD = 0" "MU_WLOCK \<noteq> 0" "MU_ANY_LOCK AND MU_RLOCK_FIELD = MU_RLOCK_FIELD"
      by (simp_all add: MU_ANY_LOCK_def MU_WLOCK_def MU_RLOCK_FIELD_def MU_RLOCK_def)
    then show ?thesis using h nsync_writer_type by (metis and.assoc)
  next
    case nsync_reader_type
    then show ?thesis using h by (auto simp: MU_ANY_LOCK_def and_or_zero)
  qed
  then have "(m\<lparr>m_ltype := if word s AND MU_RLOCK_FIELD \<noteq> 0 then nsync_reader_type else nsync_writer_type\<rparr>) = m" by simp
  then show ?thesis using mode assms(4) by (simp add: run_thread_def Let_def MU_RHELD_IF_NON_ZERO_def)
qed

lemma wait_call_keeps:
  assumes "mu_reach N s" "N < 2 ^ 24" "t < N" "wait_call (pcs s t) = Some m"
  shows "\<forall>m'. wait_call (pcs (run_thread t e s) t) = Some m' \<longrightarrow>
    m_ltype m' = m_ltype m \<and> m_cond m' = m_cond m \<and> m_deadline m' = m_deadline m"
proof (intro allI impI)
  fix m' assume w: "wait_call (pcs (run_thread t e s) t) = Some m'"
  show "m_ltype m' = m_ltype m \<and> m_cond m' = m_cond m \<and> m_deadline m' = m_deadline m"
  proof (cases "pcs s t")
    case (MuWait n p)
    then show ?thesis
      using assms(4) w mu_wait_entry_mode [OF assms(1-3), of m e] mu_wait_call [of t e m p s m']
      by (cases "p = Mw_load") (auto simp: run_thread_def)
  next
    case (LockSlow l p)
    then show ?thesis using assms(4) w lock_slow_call [of t l p s m'] by (simp add: run_thread_def)
  next
    case (UnlockSlow u p)
    then show ?thesis using assms(4) w unlock_slow_call [of t u p s m'] by (simp add: run_thread_def)
  qed (use assms(4) in \<open>simp_all add: wait_call_def\<close>)
qed

lemma wait_call_returns:
  assumes "mu_reach N s" "N < 2 ^ 24" "t < N" "wait_call (pcs s t) = Some m" "pcs (run_thread t e s) t = Crit k"
  shows "k = m_ltype m \<and> (result (run_thread t e s) t = Woken \<longleftrightarrow> condition_holds (m_cond m) (run_thread t e s)) \<and>
    (\<not> m_deadline m \<longrightarrow> condition_holds (m_cond m) (run_thread t e s))"
proof -
  have p: "pcs s t = MuWait m Mw_test"
  proof (cases "pcs s t")
    case (MuWait n p)
    then have "p = Mw_test" using assms(5)
      by (cases p) (auto simp: run_thread_def Let_def lock_slow_entry_def unlock_slow_entry_def
        try_acquire_failed_def split: if_splits option.splits)
    then show ?thesis using MuWait assms(4) by simp
  next
    case (LockSlow l p)
    then show ?thesis using assms(4,5)
      by (cases p) (auto simp: run_thread_def Let_def lock_slow_return_def split: if_splits option.splits)
  next
    case (UnlockSlow u p)
    then show ?thesis using assms(4,5)
      by (cases p) (auto simp: run_thread_def Let_def unlock_slow_return_def split: if_splits option.splits list.splits)
  qed (use assms(4) in \<open>simp_all add: wait_call_def\<close>)
  have "pc_ok (word s) (pcs s t)" using mu_invD(1) reach_inv [OF assms(1,2)] assms(3) by blast
  then show ?thesis using assms(5) p
    by (auto simp: run_thread_def Let_def mu_wait_return_def knows condition_holds_def split: if_splits option.splits)
qed

lemma crit_held:
  assumes "mu_reach N s" "N < 2 ^ 24" "t < N" "pcs s t = Crit k"
  shows "(if k = nsync_writer_type
      then word s AND MU_ANY_LOCK = MU_WLOCK \<and> (\<forall>u<N. \<forall>j. u \<noteq> t \<longrightarrow> \<not> holds s u j)
      else word s AND MU_WLOCK = 0 \<and> word s AND MU_RLOCK_FIELD \<noteq> 0 \<and> (\<forall>u<N. \<not> holds s u nsync_writer_type)) \<and>
    (\<forall>u<N. \<forall>d. u \<noteq> t \<longrightarrow> client u (C_data d) s = None)"
proof -
  have "lock_share (pcs s t) = held k" using assms(4) by simp
  note h = share_held [OF assms(1-3) this]
  have no: "\<not> holds s u j" if "lock_share (pcs s u) \<noteq> held j" for u j using that holds_share [of s u j] by blast
  have cl: "client u (C_data d) s = None" if "\<not> holds s u nsync_writer_type" for u d
    using that by (auto simp: client_def holds_def split: pc.splits)
  show ?thesis using h no cl by (cases k) (auto dest: holds_share)
qed

section \<open>Properties\<close>

text \<open>C1.  Mutual exclusion: in every reachable state of fewer than \<open>2 ^ 24\<close> threads that use
  the mutex by its rules, a thread that holds the lock in write mode is the only holder; the
  lock word then says so (the writer bit is set and the reader count is 0).\<close>

theorem mu_writer_exclusive:
  assumes "mu_reach N s" "N < 2 ^ 24" "t < N" "holds s t nsync_writer_type"
  shows "(\<forall>u<N. \<forall>m. u \<noteq> t \<longrightarrow> \<not> holds s u m) \<and> word s AND MU_ANY_LOCK = MU_WLOCK"
proof -
  have one: "lock_share (pcs s t) = 1" using holds_share [OF assms(4)] by simp
  then have "lockv (word s) = 1" using mu_invD(4) [of N s t] reach_inv [OF assms(1,2)] assms(3) by blast
  then have "word s AND MU_ANY_LOCK = MU_WLOCK"
    by (simp add: lockv_def add_consts word_unat_eq_iff)
  moreover have "\<not> holds s u m" if "u < N" "u \<noteq> t" for u m
    using reach_shares [OF assms(1,2) that(1) assms(3) that(2) one] holds_share [of s u m] by auto
  ultimately show ?thesis by blast
qed

theorem mu_writer_exclusive_witness:
  "holds demo_held 0 nsync_writer_type \<and> \<not> holds demo_held 1 nsync_reader_type"
  using mu_writer_exclusive [OF demo_lock_reach, of 0] by (simp add: holds_def demo_held_def)


text \<open>C2.  Refinement: every step of the mutex code is a step of the abstract reader-writer lock
  or leaves it unchanged, and the abstract lock reached never has a writer beside another
  holder.\<close>

theorem mu_refines_rwlock:
  assumes "mu_reach N s" "N < 2 ^ 24"
  shows "rw_step\<^sup>*\<^sup>* (\<lambda>_. None) (rw_abs s) \<and> rw_excl (rw_abs s) \<and>
    (\<forall>s'. mu_step N s s' \<longrightarrow> rw_abs s' = rw_abs s \<or> rw_step (rw_abs s) (rw_abs s'))"
proof -
  have i: "rw_abs nsync_mu_init = (\<lambda>_. None)" by (auto simp: rw_abs_def nsync_mu_init_def)
  have r: "(sized_step N)\<^sup>*\<^sup>* nsync_mu_init s" using reach_sized [OF assms] .
  have "rw_excl (rw_abs s)"
    using mu_rw.abs_invariant [where P = rw_excl, OF _ _ r] rw_excl_step by (auto simp: i rw_excl_def)
  then show ?thesis using mu_rw.abs_reach [OF r] rw_simulates [OF assms] by (simp add: i)
qed

theorem mu_refines_rwlock_witness:
  "rw_abs demo_held 0 = Some nsync_writer_type \<and> rw_excl (rw_abs demo_held)"
  using mu_refines_rwlock [OF demo_lock_reach] by (simp add: rw_abs_def demo_held_def)

text \<open> The lock word counts exactly: the writer bit is set just when some thread holds a write
  share, the reader count is the number of threads with a read share, and the spinlock bit is
  set just when exactly one thread is in a section protected by the spinlock.\<close>

theorem mu_word_counts:
  assumes "mu_reach N s" "N < 2 ^ 24"
  shows "(word s AND MU_WLOCK \<noteq> 0 \<longleftrightarrow> (\<exists>t<N. rw_abs s t = Some nsync_writer_type)) \<and>
    unat (drop_bit 8 (word s)) = card {t. t < N \<and> rw_abs s t = Some nsync_reader_type} \<and>
    (word s AND MU_SPINLOCK \<noteq> 0 \<longleftrightarrow> (\<exists>!t. t < N \<and> spin_share (pcs s t) = 1))"
proof -
  have inv: "mu_inv N s" using reach_inv [OF assms] by blast
  show ?thesis using word_writer [OF inv] word_readers [OF inv] word_spin [OF inv] by blast
qed

theorem mu_word_counts_witness:
  "word demo_held AND MU_WLOCK \<noteq> 0 \<and> (\<exists>t<2. rw_abs demo_held t = Some nsync_writer_type)"
  using mu_word_counts [OF demo_lock_reach] by (simp add: add_consts demo_held_def)


text \<open>C5.  No thread that follows the rules of \<^verbatim>\<open>nsync_mu.h\<close> ever panics: not in an unlock
  function, not in \<^verbatim>\<open>nsync_mu_wait\<close>, and not because a waiter's condition is met while
  the lock is not held.\<close>

theorem mu_never_panics:
  assumes "mu_reach N s" "N < 2 ^ 24"
  shows "\<not> crashed N s"
  using not_crashed [OF assms] .

theorem mu_never_panics_witness: "\<not> crashed 2 demo_held"
  using mu_never_panics [OF demo_lock_reach] by simp

text \<open>C6.  A releasing thread evaluates the conditions of waiters only while no other thread holds
  the lock in any mode, so no client changes the data that a condition reads.\<close>

theorem mu_conditions_protected:
  assumes "mu_reach N s" "N < 2 ^ 24" "t < N" "tests_conditions s t"
  shows "\<forall>u<N. \<forall>m d. \<not> holds s u m \<and> client u (C_data d) s = None"
proof (intro allI impI)
  fix u m d assume u: "u < N"
  obtain v where v: "pcs s t = UnlockSlow v Us_scan" "u_testing v"
    using assms(4) by (auto simp: tests_conditions_def split: pc.splits)
  have inv: "mu_inv N s" using reach_inv [OF assms(1,2)] by blast
  have one: "lock_share (pcs s t) = 1"
    using mu_invD(1) [OF inv assms(3)] v by (auto simp: knows split_ok_def)
  have "lock_share (pcs s u) = 0 \<or> u = t" using reach_shares [OF assms(1,2) u assms(3) _ one] by blast
  then show "\<not> holds s u m \<and> client u (C_data d) s = None"
    using v by (auto simp: holds_def client_def split: pc.splits)
qed

theorem mu_conditions_protected_witness:
  "tests_conditions demo_scan 0 \<and> \<not> holds demo_scan 1 nsync_writer_type \<and> \<not> holds demo_scan 1 nsync_reader_type"
  using mu_conditions_protected [OF demo_scan_reach(1), of 0] demo_scan_reach(2) by simp

text \<open>C3.  No waiter is lost or duplicated: a thread that waits in a queued state is in exactly one
  place, once: the queue of the mutex or the list in hand of a thread that is releasing.
  Nothing else is in the queue, and \<^verbatim>\<open>MU_WAITING\<close> is set while it is not empty.\<close>

theorem mu_waiters_placed:
  assumes "mu_reach N s" "N < 2 ^ 24"
  shows "distinct (waiters s) \<and> (waiters s \<noteq> [] \<longrightarrow> word s AND MU_WAITING \<noteq> 0) \<and>
    (\<forall>i. count_list (waiters s) i + (\<Sum>t<N. count_list (kept (pcs s t) @ wakes (pcs s t)) i) =
       of_bool (w_waiting s i \<and> enqueued (pcs s i)))"
proof -
  have inv: "q_inv N s" using reach_inv [OF assms] by blast
  have pl: "\<forall>i. count_list (waiters s) i + (\<Sum>t<N. count_list (kept (pcs s t) @ wakes (pcs s t)) i) =
      of_bool (w_waiting s i \<and> enqueued (pcs s i))"
    using q_invD(2) [OF inv] unfolding placed_def queued_def .
  have "count_list (waiters s) i \<le> 1" for i
    using spec [OF pl, of i] by (cases "w_waiting s i \<and> enqueued (pcs s i)") auto
  then have d: "distinct (waiters s)" by (simp add: distinct_count_list)
  have "word s AND MU_WAITING \<noteq> 0" if "waiters s \<noteq> []"
    using q_invD(3) [OF inv] hd_in_set [OF that] unfolding marked_def by (metis test_consts(2))
  with pl d show ?thesis by blast
qed


theorem mu_waiters_placed_witness: "distinct (waiters demo_queue) \<and> word demo_queue AND MU_WAITING \<noteq> 0"
  using mu_waiters_placed [OF demo_queue_reach(1)] demo_queue_reach(2) by (simp add: stalled_def)

text \<open>C4.  Where the wakeup of a sleeping thread is: a thread blocked on its semaphore whose
  \<^verbatim>\<open>waiting\<close> flag is set is in the queue of the mutex, and \<^verbatim>\<open>MU_WAITING\<close> is then
  set so that a releasing thread looks there, or it is on a list in the hands of a releasing
  thread; if its flag has been cleared, its semaphore has been posted or some thread is about to
  post it.  The theorem does not say that a queued thread is woken in the end, which C9 shows to
  need a later call of the library.\<close>

theorem mu_sleepers_are_queued:
  assumes "mu_reach N s" "N < 2 ^ 24" "sem_blocked (pcs s i)"
  shows "if w_waiting s i
    then i \<in> set (waiters s) \<and> word s AND MU_WAITING \<noteq> 0 \<or>
      (\<exists>t<N. i \<in> set (kept (pcs s t)) \<union> set (wakes (pcs s t)))
    else 0 < w_sem s i \<or> (\<exists>t<N. posting (pcs s t) = Some i)"
proof (cases "w_waiting s i")
  case True
  have inv: "q_inv N s" using reach_inv [OF assms(1,2)] by blast
  have "enqueued (pcs s i)" using assms(3) by (auto simp: sem_blocked_def split: pc.splits)
  then have eq: "count_list (waiters s) i + (\<Sum>t<N. count_list (kept (pcs s t) @ wakes (pcs s t)) i) = 1"
    using spec [OF q_invD(2) [OF inv, unfolded placed_def], of i] True by (simp add: queued_def)
  show ?thesis
  proof (cases "i \<in> set (waiters s)")
    case False
    then have "(\<Sum>t<N. count_list (kept (pcs s t) @ wakes (pcs s t)) i) = 1" using eq by (simp add: count_list_0_iff)
    then obtain t where "t < N" "count_list (kept (pcs s t) @ wakes (pcs s t)) i = 1" by (rule sum_one_ex)
    then show ?thesis using True count_list_0_iff [of "kept (pcs s t) @ wakes (pcs s t)" i] by fastforce
  next
    case True
    then have "word s AND MU_WAITING \<noteq> 0"
      using q_invD(3) [OF inv] unfolding marked_def by (metis test_consts(2))
    with True \<open>w_waiting s i\<close> show ?thesis by simp
  qed
next
  case False
  have "q_inv N s" using reach_inv [OF assms(1,2)] by blast
  from q_invD(5) [OF this] show ?thesis using assms(3) False unfolding posted_def by auto
qed

theorem mu_sleepers_are_queued_witness:
  "sem_blocked (pcs demo_queue 2) \<and>
    (2 \<in> set (waiters demo_queue) \<and> word demo_queue AND MU_WAITING \<noteq> 0 \<or>
     (\<exists>t<4. 2 \<in> set (kept (pcs demo_queue t)) \<union> set (wakes (pcs demo_queue t))))"
proof -
  have b: "sem_blocked (pcs demo_queue 2)" "w_waiting demo_queue 2"
    using demo_queue_reach(2) by (auto simp: stalled_def split: pc.splits)
  then show ?thesis using mu_sleepers_are_queued [OF demo_queue_reach(1) _ b(1)] by simp
qed

text \<open>C7.  The wait functions.  \<open>wait_call\<close> gives the local variables of the call of
  \<^verbatim>\<open>nsync_mu_wait_with_deadline\<close> or \<^verbatim>\<open>nsync_mu_wait\<close> that a thread is in; at the
  call \<^verbatim>\<open>l_type\<close> is the mode in which the caller holds the lock.  No step of the call, the
  load of the word that computes \<^verbatim>\<open>l_type\<close> included, changes the mode, the condition or
  whether there is a deadline.  When the call returns, the lock is really held in that mode: for a
  writer the word has the writer bit and no reader, and no other thread holds the lock; for a
  reader the reader count is not 0, the writer bit is clear and no thread holds the lock as a
  writer.  No other thread may then change the data, and the result is 0 just when the condition
  is true of the data in the state in which the call returns; without a deadline the condition is
  always true then.\<close>

theorem mu_wait_result:
  assumes "mu_reach N s" "N < 2 ^ 24" "t < N" "e \<noteq> Some Woken" "wait_call (pcs s t) = Some m"
    "s' = run_thread t e s"
  shows "(\<forall>m'. wait_call (pcs s' t) = Some m' \<longrightarrow>
      m_ltype m' = m_ltype m \<and> m_cond m' = m_cond m \<and> m_deadline m' = m_deadline m) \<and>
    (\<forall>k. pcs s' t = Crit k \<longrightarrow> k = m_ltype m \<and>
      (if k = nsync_writer_type
       then word s' AND MU_ANY_LOCK = MU_WLOCK \<and> (\<forall>u<N. \<forall>j. u \<noteq> t \<longrightarrow> \<not> holds s' u j)
       else word s' AND MU_WLOCK = 0 \<and> word s' AND MU_RLOCK_FIELD \<noteq> 0 \<and> (\<forall>u<N. \<not> holds s' u nsync_writer_type)) \<and>
      (\<forall>u<N. \<forall>d. u \<noteq> t \<longrightarrow> client u (C_data d) s' = None) \<and>
      (result s' t = Woken \<longleftrightarrow> condition_holds (m_cond m) s') \<and>
      (\<not> m_deadline m \<longrightarrow> condition_holds (m_cond m) s'))"
proof (rule conjI [OF wait_call_keeps [OF assms(1-3,5), of e, folded assms(6)]], intro allI impI)
  fix k assume k: "pcs s' t = Crit k"
  have r: "mu_reach N s'"
    unfolding assms(6) using assms(1-4) not_crashed [OF assms(1,2)] by (intro mu_reach.step [OF _ mu_step.run])
  note c = crit_held [OF r assms(2,3) k]
  show "k = m_ltype m \<and>
      (if k = nsync_writer_type
       then word s' AND MU_ANY_LOCK = MU_WLOCK \<and> (\<forall>u<N. \<forall>j. u \<noteq> t \<longrightarrow> \<not> holds s' u j)
       else word s' AND MU_WLOCK = 0 \<and> word s' AND MU_RLOCK_FIELD \<noteq> 0 \<and> (\<forall>u<N. \<not> holds s' u nsync_writer_type)) \<and>
      (\<forall>u<N. \<forall>d. u \<noteq> t \<longrightarrow> client u (C_data d) s' = None) \<and>
      (result s' t = Woken \<longleftrightarrow> condition_holds (m_cond m) s') \<and>
      (\<not> m_deadline m \<longrightarrow> condition_holds (m_cond m) s')"
    using wait_call_returns [OF assms(1-3,5) k [unfolded assms(6)]] c unfolding assms(6) [symmetric] by blast
qed

theorem mu_wait_result_witness:
  "pcs (run_thread 0 None demo_return) 0 = Crit nsync_writer_type \<and>
     word (run_thread 0 None demo_return) AND MU_ANY_LOCK = MU_WLOCK \<and> result (run_thread 0 None demo_return) 0 = Woken"
proof -
  obtain m where q: "pcs demo_return 0 = MuWait m Mw_test" and m: "m_cond m = Some 0" "m_ltype m = nsync_writer_type"
    and d: "data demo_return 0"
    using demo_return_reach(2) by (auto simp: returning_def split: pc.splits)
  have r: "pcs (run_thread 0 None demo_return) 0 = Crit nsync_writer_type" "data (run_thread 0 None demo_return) 0"
    using q m d by (simp_all add: run_thread_def mu_wait_return_def condition_holds_def)
  have "wait_call (pcs demo_return 0) = Some m" using q by (simp add: wait_call_def)
  then show ?thesis
    using mu_wait_result [OF demo_return_reach(1), of 0 None m] r m by (simp add: condition_holds_def)
qed

text \<open>C8.  A waiter that times out takes the write lock and the spinlock in one compare-and-swap.
  Until it decides, the word is exactly what that left there, so its plain store of the old
  word loses no update; and when its check says that nobody removed it, it is in the queue,
  from which it then removes itself.\<close>

theorem mu_timeout_store_safe:
  assumes "mu_reach N s" "N < 2 ^ 24" "t < N" "pcs s t = MuWait m (Ta_check old)"
  shows "word s = (old + MU_WLOCK + MU_SPINLOCK) AND NOT MU_WRITER_WAITING \<and> old AND (MU_ANY_LOCK OR MU_SPINLOCK) = 0 \<and>
    (w_waiting s t \<and> m_remove_count m = w_remove_count s t \<longrightarrow> t \<in> set (waiters s))"
proof -
  have inv: "mu_inv N s" "q_inv N s" using reach_inv [OF assms(1,2)] by auto
  have "t \<in> set (waiters s)" if "w_waiting s t" "m_remove_count m = w_remove_count s t"
    using timed_out_in_queue [OF inv assms(3,4) that] .
  moreover have "pc_ok (word s) (MuWait m (Ta_check old))" using mu_invD(1) [OF inv(1) assms(3)] assms(4) by simp
  ultimately show ?thesis
    by (auto simp: knows MU_WADD_TO_ACQUIRE_def MU_WCLEAR_ON_ACQUIRE_def and_or_zero lockv_0_iff word_fields)
qed

theorem mu_timeout_store_safe_witness:
  "\<exists>m old. pcs demo_timeout 0 = MuWait m (Ta_check old) \<and> 0 \<in> set (waiters demo_timeout)"
proof -
  obtain m old where q: "pcs demo_timeout 0 = MuWait m (Ta_check old)"
    and w: "w_waiting demo_timeout 0" "m_remove_count m = w_remove_count demo_timeout 0"
    using demo_timeout_reach(2) by (auto simp: timing_out_def split: pc.splits mwait_pc.splits)
  show ?thesis using mu_timeout_store_safe [OF demo_timeout_reach(1) _ _ q] q w by auto
qed

text \<open> Locking without contention: when the word shows none of the bits that keep a thread from
  acquiring, three steps of \<^verbatim>\<open>nsync_mu_trylock\<close>, \<^verbatim>\<open>nsync_mu_rtrylock\<close>,
  \<^verbatim>\<open>nsync_mu_lock\<close> or \<^verbatim>\<open>nsync_mu_rlock\<close> without interference acquire the lock.\<close>

theorem mu_uncontended_acquires:
  assumes "pcs s t = (case m of nsync_writer_type \<Rightarrow> if only_try then Trylock Lk_cas0 else Lock Lk_cas0
      | nsync_reader_type \<Rightarrow> if only_try then Rtrylock Lk_cas0 else Rlock Lk_cas0)"
    "word s AND zero_to_acquire (lt m) = 0"
  shows "\<exists>n\<le>3. pcs ((run_thread t None ^^ n) s) t = Crit m"
proof (cases "word s = 0")
  case True
  then have "pcs ((run_thread t None ^^ 1) s) t = Crit m"
    using assms by (cases m; cases only_try) (auto simp: run_thread_def cas_word_def)
  then show ?thesis by (metis one_le_numeral)
next
  case False
  then have "pcs ((run_thread t None ^^ 3) s) t = Crit m"
    using assms by (cases m; cases only_try) (auto simp: numeral_3_eq_3 run_thread_def cas_word_def const_types(3,4) Let_def)
  then show ?thesis by blast
qed

theorem mu_uncontended_acquires_witness:
  "\<exists>n\<le>3. pcs ((run_thread 5 None ^^ n) (goto 5 (Rlock Lk_cas0) (nsync_mu_init\<lparr>word := MU_RLOCK\<rparr>))) 5 = Crit nsync_reader_type"
  by (rule mu_uncontended_acquires [where only_try = False])
     (simp_all add: zero_consts, simp add: word_fields and_or_zero)

text \<open>C10.  A defect: the sanity check of \<^verbatim>\<open>nsync_mu_runlock\<close> does not detect an unlock of a
  mutex that nobody holds.  The thread does not panic, and the reader count wraps to its
  maximum: the free mutex is left with \<open>2 ^ 24 - 1\<close> readers.\<close>

theorem mu_runlock_unheld_wraps:
  assumes "pcs s t = Runlock Ul_cas0" "word s = 0"
  shows "pcs ((run_thread t None ^^ 3) s) t = Idle \<and>
    unat (drop_bit 8 (word ((run_thread t None ^^ 3) s))) = 2 ^ 24 - 1"
  using assms
  by (simp add: numeral_3_eq_3 run_thread_def cas_word_def Let_def add_consts MU_RLOCK_FIELD_def
      MU_WAITING_def MU_DESIG_WAKER_def)

theorem mu_runlock_unheld_wraps_witness:
  "pcs ((run_thread 0 None ^^ 3) (goto 0 (Runlock Ul_cas0) nsync_mu_init)) 0 = Idle"
  using mu_runlock_unheld_wraps [of "goto 0 (Runlock Ul_cas0) nsync_mu_init" 0] by (simp add: nsync_mu_init_def)

text \<open>C9.  A defect: a wakeup can be lost when \<^verbatim>\<open>nsync_mu_wait\<close> is called with a read lock.
  Its \<^verbatim>\<open>had_waiters\<close> is computed when the spinlock is taken; if another reader, the
  designated waker, acquires and releases before the lock is given up, the lock becomes free
  with a queued writer, no designated waker, and every thread asleep or idle: nothing
  happens until some thread calls the library again.\<close>

theorem mu_wait_reader_stall:
  "\<exists>s. mu_reach 4 s \<and> word s AND MU_ANY_LOCK = 0 \<and> hd (waiters s) = 2 \<and> w_cond s 2 = None \<and>
     w_ltype s 2 = nsync_writer_type \<and> sem_blocked (pcs s 2) \<and>
     run_thread 0 None s = s \<and> run_thread 1 None s = s \<and> run_thread 2 None s = s \<and> run_thread 3 None s = s"
proof -
  have "\<forall>t<4. run_thread t None demo_queue = demo_queue"
    using demo_queue_reach(2)
    by (auto simp: stalled_def numeral_eq_Suc less_Suc_eq run_thread_def split: pc.splits)
  then show ?thesis using demo_queue_reach
    by (intro exI [of _ demo_queue]) (auto simp: stalled_def split: pc.splits)
qed

end
