(* ===== verification/Dll.thy ===== *)
theory Dll
  imports Prelude
begin

text \<open>
  The circular doubly linked lists of \<^verbatim>\<open>internal/dll.h\<close> and
  \<^verbatim>\<open>internal/dll.c\<close>.  The heap is a record of the three fields of
  \<^verbatim>\<open>nsync_dll_element_\<close>, each a function of the element's address; a list is a
  pointer to its last element or NULL.  The operations are the C statements in order, so a
  read sees the writes before it.  \<open>is_dll h l xs\<close> says that the list \<open>l\<close> holds
  the elements \<open>xs\<close>, first to last; the lemmas show that every operation does on
  \<open>xs\<close> what its comment promises and changes no link outside the lists it is given.
\<close>

section \<open>The heap and the operations\<close>

type_synonym addr = nat
type_synonym dll_list = "addr option"

record dll_heap =
  nxt :: "addr \<Rightarrow> addr"
  prv :: "addr \<Rightarrow> addr"
  container :: "addr \<Rightarrow> addr"

definition set_nxt :: "addr \<Rightarrow> addr \<Rightarrow> dll_heap \<Rightarrow> dll_heap" where
  "set_nxt a v h = h\<lparr>nxt := (nxt h)(a := v)\<rparr>"

definition set_prv :: "addr \<Rightarrow> addr \<Rightarrow> dll_heap \<Rightarrow> dll_heap" where
  "set_prv a v h = h\<lparr>prv := (prv h)(a := v)\<rparr>"

definition nsync_dll_init :: "dll_heap \<Rightarrow> addr \<Rightarrow> addr \<Rightarrow> dll_heap" where
  "nsync_dll_init h e c =
     (let h = set_nxt e e h; h = set_prv e e h
      in h\<lparr>container := (container h)(e := c)\<rparr>)"

definition nsync_dll_is_empty :: "dll_list \<Rightarrow> bool" where
  "nsync_dll_is_empty l \<longleftrightarrow> l = None"

definition nsync_dll_remove :: "dll_heap \<Rightarrow> dll_list \<Rightarrow> addr \<Rightarrow> dll_heap \<times> dll_list" where
  "nsync_dll_remove h l e =
     (let l = (if l = Some e
               then (if prv h e = e then None else Some (prv h e))
               else l);
          h = set_prv (nxt h e) (prv h e) h;
          h = set_nxt (prv h e) (nxt h e) h;
          h = set_nxt e e h;
          h = set_prv e e h
      in (h, l))"

definition nsync_dll_splice_after :: "dll_heap \<Rightarrow> addr \<Rightarrow> addr \<Rightarrow> dll_heap" where
  "nsync_dll_splice_after h p n =
     (let p_2nd = nxt h p;
          n_last = prv h n;
          h = set_nxt p n h;
          h = set_prv n p h;
          h = set_nxt n_last p_2nd h;
          h = set_prv p_2nd n_last h
      in h)"

definition nsync_dll_make_first_in_list ::
  "dll_heap \<Rightarrow> dll_list \<Rightarrow> addr option \<Rightarrow> dll_heap \<times> dll_list" where
  "nsync_dll_make_first_in_list h l e =
     (case e of
        None \<Rightarrow> (h, l)
      | Some e \<Rightarrow> (case l of
          None \<Rightarrow> (h, Some (prv h e))
        | Some p \<Rightarrow> (nsync_dll_splice_after h p e, l)))"

definition nsync_dll_make_last_in_list ::
  "dll_heap \<Rightarrow> dll_list \<Rightarrow> addr option \<Rightarrow> dll_heap \<times> dll_list" where
  "nsync_dll_make_last_in_list h l e =
     (case e of
        None \<Rightarrow> (h, l)
      | Some e \<Rightarrow>
          (let h = fst (nsync_dll_make_first_in_list h l (Some (nxt h e)))
           in (h, Some e)))"

definition nsync_dll_first :: "dll_heap \<Rightarrow> dll_list \<Rightarrow> addr option" where
  "nsync_dll_first h l = (case l of None \<Rightarrow> None | Some p \<Rightarrow> Some (nxt h p))"

definition nsync_dll_last :: "dll_list \<Rightarrow> addr option" where
  "nsync_dll_last l = l"

definition nsync_dll_next :: "dll_heap \<Rightarrow> dll_list \<Rightarrow> addr \<Rightarrow> addr option" where
  "nsync_dll_next h l e = (if l \<noteq> Some e then Some (nxt h e) else None)"

text \<open>\<^verbatim>\<open>nsync_dll_prev_\<close> reads \<^verbatim>\<open>list->next\<close>: its list is not NULL.\<close>

definition nsync_dll_prev :: "dll_heap \<Rightarrow> addr \<Rightarrow> addr \<Rightarrow> addr option" where
  "nsync_dll_prev h p e = (if e \<noteq> nxt h p then Some (prv h e) else None)"

section \<open>Rings and lists\<close>

fun links :: "dll_heap \<Rightarrow> addr list \<Rightarrow> bool" where
  "links h [] = True"
| "links h [x] = True"
| "links h (x # y # zs) = (nxt h x = y \<and> prv h y = x \<and> links h (y # zs))"

definition ring :: "dll_heap \<Rightarrow> addr list \<Rightarrow> bool" where
  "ring h xs \<longleftrightarrow> xs \<noteq> [] \<and> distinct xs \<and> links h xs \<and>
     nxt h (last xs) = hd xs \<and> prv h (hd xs) = last xs"

definition is_dll :: "dll_heap \<Rightarrow> dll_list \<Rightarrow> addr list \<Rightarrow> bool" where
  "is_dll h l xs \<longleftrightarrow>
     (case l of None \<Rightarrow> xs = [] | Some p \<Rightarrow> ring h xs \<and> last xs = p)"

definition same_links :: "addr set \<Rightarrow> dll_heap \<Rightarrow> dll_heap \<Rightarrow> bool" where
  "same_links A h h' \<longleftrightarrow> (\<forall>a\<in>A. nxt h' a = nxt h a \<and> prv h' a = prv h a)"

lemma set_links [simp, dll_simps]:
  "nxt (set_nxt a v h) = (nxt h)(a := v)" "prv (set_nxt a v h) = prv h"
  "prv (set_prv a v h) = (prv h)(a := v)" "nxt (set_prv a v h) = nxt h"
  "container (set_nxt a v h) = container h" "container (set_prv a v h) = container h"
  by (simp_all add: set_nxt_def set_prv_def)

lemma links_append:
  "links h (xs @ ys) \<longleftrightarrow> links h xs \<and> links h ys \<and>
     (xs \<noteq> [] \<longrightarrow> ys \<noteq> [] \<longrightarrow> nxt h (last xs) = hd ys \<and> prv h (hd ys) = last xs)"
proof (induction h xs rule: links.induct)
  case (2 h x)
  then show ?case by (cases ys) auto
qed auto

lemma links_cong:
  assumes "same_links (set xs) h h'" "links h xs"
  shows "links h' xs"
  using assms by (induction h xs rule: links.induct) (auto simp: same_links_def)

lemma ring_cong:
  assumes "same_links (set xs) h h'" "ring h xs"
  shows "ring h' xs"
  using assms links_cong [OF assms(1)] by (auto simp: ring_def same_links_def)

lemma is_dll_cong:
  assumes "same_links (set xs) h h'" "is_dll h l xs"
  shows "is_dll h' l xs"
  using assms ring_cong [OF assms(1)] by (auto simp: is_dll_def split: option.splits)

lemma ring_rotate:
  assumes "ring h (xs @ ys)"
  shows "ring h (ys @ xs)"
  using assms by (cases "xs = []"; cases "ys = []") (auto simp: ring_def links_append)

lemma ring_single [simp]: "ring h [e] \<longleftrightarrow> nxt h e = e \<and> prv h e = e"
  by (auto simp: ring_def)

lemma ring_Cons:
  assumes "c \<noteq> []"
  shows "ring h (e # c) \<longleftrightarrow> distinct (e # c) \<and> links h c \<and>
     nxt h e = hd c \<and> prv h (hd c) = e \<and> nxt h (last c) = e \<and> prv h e = last c"
  using assms links_append [of h "[e]" c] by (auto simp: ring_def)

lemma is_dll_None [simp]: "is_dll h None xs \<longleftrightarrow> xs = []"
  by (simp add: is_dll_def)

lemma is_dll_Nil [simp]: "is_dll h l [] \<longleftrightarrow> l = None"
  by (auto simp: is_dll_def ring_def split: option.splits)

lemma is_dll_Some: "is_dll h (Some p) xs \<longleftrightarrow> ring h xs \<and> last xs = p"
  by (simp add: is_dll_def)

lemma is_dll_distinct: "is_dll h l xs \<Longrightarrow> distinct xs"
  by (auto simp: is_dll_def ring_def split: option.splits)

lemma is_dll_snoc: "is_dll h l (xs @ [x]) \<longleftrightarrow> l = Some x \<and> ring h (xs @ [x])"
  by (auto simp: is_dll_def split: option.splits)

section \<open>What the operations do\<close>

lemma links_set_nxt [simp]:
  "a \<notin> set (butlast c) \<Longrightarrow> links (set_nxt a v h) c = links h c"
  by (induction h c rule: links.induct) auto

lemma links_set_prv [simp]:
  "a \<notin> set (tl c) \<Longrightarrow> links (set_prv a v h) c = links h c"
  by (induction h c rule: links.induct) auto

lemma last_notin_butlast: "distinct c \<Longrightarrow> c \<noteq> [] \<Longrightarrow> last c \<notin> set (butlast c)"
  by (metis append_butlast_last_id distinct_butlast not_distinct_conv_prefix)

lemma hd_notin_tl: "distinct c \<Longrightarrow> c \<noteq> [] \<Longrightarrow> hd c \<notin> set (tl c)"
  by (cases c) auto

text \<open>Closing a chain of linked elements into a ring.\<close>

lemma ring_close:
  assumes "links h c" "distinct c" "c \<noteq> []"
  shows "ring (set_nxt (last c) (hd c) (set_prv (hd c) (last c) h)) c"
  using assms by (simp add: ring_def last_notin_butlast hd_notin_tl)

lemma remove_ring:
  assumes r: "ring h (e # c)" and c: "c \<noteq> []"
    and h': "h' = fst (nsync_dll_remove h l e)"
  shows "ring h' c" "ring h' [e]" "same_links (- set (e # c)) h h'" "container h' = container h"
proof -
  from r c have d: "distinct (e # c)" "nxt h e = hd c" "prv h e = last c" "links h c"
    by (auto simp: ring_Cons)
  from d c have ne: "hd c \<noteq> e" "last c \<noteq> e" by auto
  have eq: "h' = set_prv e e (set_nxt e e (set_nxt (last c) (hd c) (set_prv (hd c) (last c) h)))"
    using d ne by (simp add: h' nsync_dll_remove_def Let_def)
  have "ring (set_nxt (last c) (hd c) (set_prv (hd c) (last c) h)) c"
    using d c by (intro ring_close) auto
  then show "ring h' c"
    by (rule ring_cong [rotated]) (use d in \<open>auto simp: same_links_def eq\<close>)
  show "ring h' [e]" by (simp add: eq)
  show "same_links (- set (e # c)) h h'" using c by (auto simp: same_links_def eq)
  show "container h' = container h" by (simp add: eq)
qed

lemma remove_ring_single:
  assumes "ring h [e]" and h': "h' = fst (nsync_dll_remove h l e)"
  shows "ring h' [e]" "same_links (- {e}) h h'" "container h' = container h"
  using assms by (auto simp: nsync_dll_remove_def Let_def same_links_def)

lemma splice_ring:
  assumes p: "ring h (p # ps)" and n: "ring h (n # ns)"
    and disj: "set (p # ps) \<inter> set (n # ns) = {}"
    and h': "h' = nsync_dll_splice_after h p n"
  shows "ring h' (p # n # ns @ ps)"
    "same_links (- (set (p # ps) \<union> set (n # ns))) h h'" "container h' = container h"
proof -
  define p2 nl where "p2 = nxt h p" and "nl = prv h n"
  from p have p2: "p2 = hd (ps @ [p])" "links h (p # ps)" "distinct (p # ps)"
      "prv h p2 = p \<or> ps = []"
    by (cases ps; auto simp: ring_def p2_def)+
  from n have nl: "nl = last (n # ns)" "links h (n # ns)" "distinct (n # ns)"
    by (auto simp: ring_def nl_def)
  have eq: "h' = set_prv p2 nl (set_nxt nl p2 (set_prv n p (set_nxt p n h)))"
    by (simp add: h' nsync_dll_splice_after_def Let_def p2_def nl_def)
  have mem: "nl \<in> set (n # ns)" "p2 \<in> set (p # ps)"
    unfolding nl(1) p2(1) by (simp, cases ps, auto)
  have l1: "links h' (n # ns)"
  proof -
    have "nl \<notin> set (butlast (n # ns))"
      using last_notin_butlast [OF nl(3)] nl(1) by simp
    moreover have "p \<notin> set (butlast (n # ns))" "p2 \<notin> set (tl (n # ns))" "n \<notin> set (tl (n # ns))"
      using disj mem nl(3) by (auto dest: in_set_butlastD)
    ultimately show ?thesis using nl(2) by (simp only: eq links_set_prv links_set_nxt not_False_eq_True)
  qed
  have l2: "links h' ps"
  proof -
    have "links h ps" using p2(2) by (cases ps) auto
    moreover have "p2 \<notin> set (tl ps)" using p2(1,3) by (cases ps) auto
    moreover have "nl \<notin> set (butlast ps)" "p \<notin> set (butlast ps)"
      using disj mem p2(3) by (auto dest: in_set_butlastD)
    moreover have "n \<notin> set (tl ps)" using disj by (cases ps) auto
    ultimately show ?thesis by (simp only: eq links_set_prv links_set_nxt not_False_eq_True)
  qed
  have dist: "distinct (p # n # ns @ ps)" using p2(3) nl(3) disj by auto
  have at: "nxt h' p = n" "prv h' n = p" "nxt h' nl = p2" "prv h' p2 = nl"
    using disj mem by (auto simp: eq)
  show "ring h' (p # n # ns @ ps)"
  proof (cases "ps = []")
    case True
    then show ?thesis
      using dist l1 at p2(1) nl(1) by (auto simp: ring_def)
  next
    case False
    with p have pl: "nxt h (last ps) = p" "prv h p = last ps" by (auto simp: ring_def)
    from False have "last ps \<in> set ps" by simp
    with disj mem p2(3) have "last ps \<noteq> p" "last ps \<noteq> nl" "p \<noteq> n" by auto
    moreover have "p \<noteq> p2" using False p2(1,3) by (cases ps) auto
    moreover note pl
    ultimately have "nxt h' (last ps) = p" "prv h' p = last ps" by (simp_all add: eq)
    moreover have "links h' ((n # ns) @ ps)"
      using l1 l2 at nl(1) p2(1) False by (subst links_append) (auto simp: hd_append)
    ultimately show ?thesis
      using dist at False by (auto simp: ring_def)
  qed
  show "same_links (- (set (p # ps) \<union> set (n # ns))) h h'"
    using mem by (auto simp: same_links_def eq)
  show "container h' = container h" by (simp add: eq)
qed

text \<open>A ring may be entered at any of its elements.\<close>

lemma ring_enter:
  assumes "ring h (as @ e # bs)"
  shows "ring h (e # bs @ as)"
  using ring_rotate [of h as "e # bs"] assms by simp

lemma remove_list:
  assumes d: "is_dll h l xs" and e: "e \<in> set xs"
    and rm: "nsync_dll_remove h l e = (h', l')"
  shows "is_dll h' l' (remove1 e xs)" "ring h' [e]" "same_links (- set xs) h h'"
    "container h' = container h"
proof -
  from e obtain as bs where xs: "xs = as @ e # bs" and "e \<notin> set as"
    by (meson split_list_first)
  from d have r: "ring h xs" and l: "l = Some (last xs)"
    using e by (auto simp: is_dll_def split: option.splits)
  from r have r': "ring h (e # bs @ as)" unfolding xs by (rule ring_enter)
  have rem: "remove1 e xs = as @ bs" using \<open>e \<notin> set as\<close> by (simp add: xs remove1_append)
  have h': "h' = fst (nsync_dll_remove h l e)" by (simp add: rm)
  show "is_dll h' l' (remove1 e xs)"
  proof (cases "bs @ as = []")
    case True
    with l r' rm show ?thesis
      by (auto simp: rem xs nsync_dll_remove_def Let_def)
  next
    case False
    with r' h' have "ring h' (bs @ as)" by (blast intro: remove_ring)
    then have r2: "ring h' (as @ bs)" by (rule ring_rotate)
    have "l' = Some (last (as @ bs))"
    proof (cases "bs = []")
      case True
      with False r' have "prv h e = last as" "last as \<noteq> e" by (auto simp: ring_Cons)
      with True l rm show ?thesis by (auto simp: xs nsync_dll_remove_def Let_def)
    next
      case False
      then have "last bs \<in> set bs" by simp
      moreover have "e \<notin> set bs" using r' by (simp add: ring_def)
      ultimately have "last bs \<noteq> e" by auto
      with False l rm show ?thesis by (auto simp: xs nsync_dll_remove_def Let_def)
    qed
    with r2 show ?thesis by (simp add: rem is_dll_Some)
  qed
  have set_xs: "set xs = set (e # bs @ as)" by (auto simp: xs)
  show "ring h' [e]" "same_links (- set xs) h h'" "container h' = container h"
    using remove_ring(2-4) [OF r' _ h'] remove_ring_single [OF _ h'] r'
    unfolding set_xs by (cases "bs @ as = []"; simp)+
qed

text \<open>
  What the owner of a list sees when an element of its ring is removed through another list
  pointer: the owner's pointer still points to its last element, so if this was the one removed, the
  owner sees it alone.
\<close>

definition unlink :: "'a \<Rightarrow> 'a list \<Rightarrow> 'a list" where
  "unlink e xs = (if e \<notin> set xs then xs else if last xs = e then [e] else remove1 e xs)"

lemma remove_elsewhere:
  assumes d: "is_dll h l xs" and e: "e \<in> set xs"
  shows "is_dll (fst (nsync_dll_remove h other e)) l (unlink e xs)"
proof -
  have other: "fst (nsync_dll_remove h other e) = fst (nsync_dll_remove h l e)"
    by (simp add: nsync_dll_remove_def Let_def)
  obtain h' l' where rm: "nsync_dll_remove h l e = (h', l')" by fastforce
  note r = remove_list [OF d e rm]
  have l: "l = Some (last xs)" using d e by (auto simp: is_dll_def split: option.splits)
  show ?thesis
  proof (cases "last xs = e")
    case True
    then show ?thesis using r(2) l e other rm by (simp add: unlink_def is_dll_Some)
  next
    case False
    then have "l' = l" using l rm by (auto simp: nsync_dll_remove_def Let_def)
    then show ?thesis using r(1) False e other rm by (simp add: unlink_def)
  qed
qed

lemma unlink_notin [simp]: "e \<notin> set xs \<Longrightarrow> unlink e xs = xs"
  by (simp add: unlink_def)

lemma make_first_list:
  assumes d: "is_dll h l xs" and e: "ring h (e # es)" and disj: "set xs \<inter> set (e # es) = {}"
    and mk: "nsync_dll_make_first_in_list h l (Some e) = (h', l')"
  shows "is_dll h' l' (e # es @ xs)" "same_links (- (set xs \<union> set (e # es))) h h'"
    "container h' = container h"
proof (atomize (full), cases l)
  case None
  with d e mk show "is_dll h' l' (e # es @ xs) \<and>
      same_links (- (set xs \<union> set (e # es))) h h' \<and> container h' = container h"
    by (auto simp: nsync_dll_make_first_in_list_def is_dll_Some same_links_def ring_def)
next
  case (Some p)
  with d have r: "ring h xs" "last xs = p" by (auto simp: is_dll_Some)
  then obtain ys where xs: "xs = ys @ [p]" by (metis append_butlast_last_id ring_def)
  with r have r': "ring h (p # ys)" using ring_rotate [of h ys "[p]"] by simp
  from Some mk have h': "h' = nsync_dll_splice_after h p e" "l' = Some p"
    by (auto simp: nsync_dll_make_first_in_list_def)
  have "set (p # ys) \<inter> set (e # es) = {}" using disj xs by auto
  from splice_ring [OF r' e this h'(1)] have sp: "ring h' (p # e # es @ ys)"
    "same_links (- (set (p # ys) \<union> set (e # es))) h h'" "container h' = container h" by auto
  from sp(1) have "ring h' (e # es @ xs)" using ring_rotate [of h' "[p]" "e # es @ ys"] xs by simp
  with sp(2,3) h'(2) xs show "is_dll h' l' (e # es @ xs) \<and>
      same_links (- (set xs \<union> set (e # es))) h h' \<and> container h' = container h"
    by (auto simp: is_dll_Some insert_commute)
qed

lemma make_last_list:
  assumes d: "is_dll h l xs" and e: "ring h (es @ [e])" and disj: "set xs \<inter> set (es @ [e]) = {}"
    and mk: "nsync_dll_make_last_in_list h l (Some e) = (h', l')"
  shows "is_dll h' l' (xs @ es @ [e])" "same_links (- (set xs \<union> set (es @ [e]))) h h'"
    "container h' = container h"
proof -
  obtain f fs where f: "es @ [e] = f # fs" by (cases es) auto
  with e have r: "ring h (f # fs)" "last (f # fs) = e" by (metis, metis last_snoc)
  then have nf: "nxt h e = f" "ring h (f # fs)" by (auto simp: ring_def)
  from mk nf obtain l2 where mf: "nsync_dll_make_first_in_list h l (Some f) = (h', l2)"
    and l': "l' = Some e"
    by (cases "nsync_dll_make_first_in_list h l (Some f)")
       (auto simp: nsync_dll_make_last_in_list_def Let_def)
  from make_first_list [OF d nf(2) _ mf] disj f
  have res: "is_dll h' l2 (f # fs @ xs)" "same_links (- (set xs \<union> set (f # fs))) h h'"
    "container h' = container h" by auto
  from res(1) have "ring h' ((f # fs) @ xs)" by (auto simp: is_dll_def split: option.splits)
  then have "ring h' (xs @ f # fs)" by (rule ring_rotate)
  with l' r(2) f have "is_dll h' l' (xs @ es @ [e])" by (simp only: is_dll_Some last_appendR) simp
  with res(2,3) f show "is_dll h' l' (xs @ es @ [e])"
    "same_links (- (set xs \<union> set (es @ [e]))) h h'" "container h' = container h" by auto
qed

lemma make_none [simp]:
  "nsync_dll_make_first_in_list h l None = (h, l)" "nsync_dll_make_last_in_list h l None = (h, l)"
  by (simp_all add: nsync_dll_make_first_in_list_def nsync_dll_make_last_in_list_def)

lemma init_ring:
  "ring (nsync_dll_init h e c) [e]" "same_links (- {e}) h (nsync_dll_init h e c)"
  "container (nsync_dll_init h e c) e = c"
  by (auto simp: nsync_dll_init_def Let_def same_links_def)

lemma is_empty_list: "is_dll h l xs \<Longrightarrow> nsync_dll_is_empty l \<longleftrightarrow> xs = []"
  by (auto simp: nsync_dll_is_empty_def is_dll_def ring_def split: option.splits)

lemma first_list: "is_dll h l xs \<Longrightarrow> nsync_dll_first h l = (if xs = [] then None else Some (hd xs))"
  by (auto simp: nsync_dll_first_def is_dll_def ring_def split: option.splits)

lemma last_list: "is_dll h l xs \<Longrightarrow> nsync_dll_last l = (if xs = [] then None else Some (last xs))"
  by (auto simp: nsync_dll_last_def is_dll_def ring_def split: option.splits)

lemma next_list:
  assumes "is_dll h l (as @ e # bs)"
  shows "nsync_dll_next h l e = (if bs = [] then None else Some (hd bs))"
proof (cases bs)
  case (Cons b bs')
  from assms have "links h (as @ e # bs)" "distinct (as @ e # bs)" "l = Some (last (as @ e # bs))"
    by (auto simp: is_dll_def ring_def split: option.splits)
  with Cons show ?thesis by (auto simp: nsync_dll_next_def links_append)
qed (use assms in \<open>auto simp: nsync_dll_next_def is_dll_snoc\<close>)

lemma prev_list:
  assumes "is_dll h (Some p) (as @ e # bs)"
  shows "nsync_dll_prev h p e = (if as = [] then None else Some (last as))"
proof -
  from assms have l: "links h (as @ e # bs)" "distinct (as @ e # bs)" "nxt h p = hd (as @ e # bs)"
    by (auto simp: is_dll_Some ring_def)
  show ?thesis
  proof (cases "as = []")
    case False
    with l(2) have "e \<noteq> hd as" by auto
    with False l links_append [of h as "e # bs"] show ?thesis by (simp add: nsync_dll_prev_def)
  qed (use l in \<open>simp add: nsync_dll_prev_def\<close>)
qed


section \<open>Properties\<close>

text \<open>C29.  \<^verbatim>\<open>nsync_dll_remove_\<close>: removing an element that is in a list yields a
  well-formed list of the other elements in their order, leaves the element linked to itself,
  and changes no link of an element outside the list.\<close>

theorem dll_remove_correct:
  assumes "is_dll h l xs" "e \<in> set xs"
  shows "is_dll (fst (nsync_dll_remove h l e)) (snd (nsync_dll_remove h l e)) (remove1 e xs) \<and>
    ring (fst (nsync_dll_remove h l e)) [e] \<and>
    same_links (- set xs) h (fst (nsync_dll_remove h l e))"
  using remove_list [OF assms] by (metis prod.collapse)

definition dll_example :: dll_heap where
  "dll_example = \<lparr>nxt = (\<lambda>_. 0)(1 := 2, 2 := 3, 3 := 1, 7 := 7), prv = (\<lambda>_. 0)(1 := 3, 2 := 1, 3 := 2, 7 := 7),
     container = (\<lambda>a. a)\<rparr>"

lemma dll_example_ok: "is_dll dll_example (Some 3) [1, 2, 3]" "ring dll_example [7]"
  by (simp_all add: dll_example_def is_dll_def ring_def)

theorem dll_remove_correct_witness:
  "is_dll (fst (nsync_dll_remove dll_example (Some 3) 3)) (Some 2) [1, 2]"
  using dll_remove_correct [OF dll_example_ok(1), of 3]
  by (simp add: nsync_dll_remove_def Let_def dll_example_def)

text \<open> \<^verbatim>\<open>nsync_dll_make_last_in_list_\<close> and
  \<^verbatim>\<open>nsync_dll_make_first_in_list_\<close>: adding an element that is in no list puts it at the
  end, respectively at the start, and removing it again restores the list.\<close>

theorem dll_insert_remove:
  assumes "is_dll h l xs" "ring h [e]" "e \<notin> set xs"
    and "nsync_dll_make_last_in_list h l (Some e) = (h1, l1)"
    and "nsync_dll_make_first_in_list h l (Some e) = (h2, l2)"
  shows "is_dll h1 l1 (xs @ [e]) \<and> is_dll h2 l2 (e # xs) \<and>
    is_dll (fst (nsync_dll_remove h1 l1 e)) (snd (nsync_dll_remove h1 l1 e)) xs \<and>
    is_dll (fst (nsync_dll_remove h2 l2 e)) (snd (nsync_dll_remove h2 l2 e)) xs"
proof -
  have 1: "is_dll h1 l1 (xs @ [e])"
    using make_last_list(1) [of h l xs "[]" e h1 l1] assms by simp
  have 2: "is_dll h2 l2 (e # xs)"
    using make_first_list(1) [of h l xs e "[]" h2 l2] assms by simp
  have "distinct (xs @ [e])" using is_dll_distinct [OF 1] .
  then have "remove1 e (xs @ [e]) = xs" by (rule last_remove1_last)
  then show ?thesis
    using 1 2 remove_list(1) [OF 1, of e] remove_list(1) [OF 2, of e] by (simp add: prod_eq_iff)
qed

theorem dll_insert_remove_witness:
  "is_dll (fst (nsync_dll_make_last_in_list dll_example (Some 3) (Some 7)))
     (snd (nsync_dll_make_last_in_list dll_example (Some 3) (Some 7))) [1, 2, 3, 7]"
  using dll_insert_remove [OF dll_example_ok, OF _ prod.collapse [symmetric] prod.collapse [symmetric]]
  by simp

end
