(* ===== verification/Mu_Queue.thy ===== *)
theory Mu_Queue
  imports Common Dll
begin

text \<open>
  The waiter queue of a mutex as the code keeps it (\<^verbatim>\<open>internal/mu.c\<close>, lines 201--262): a
  doubly linked list of waiters and, inside it, circular lists of neighbours with the same
  condition, which let a scan skip a group whose condition is false.  A waiter is named by its
  address; the \<^verbatim>\<open>nw.q\<close> and \<^verbatim>\<open>same_condition\<close> fields of all waiters are two heaps of
  links.  The condition functions of the client are parameters: \<open>ev d f v\<close> is what the
  function \<open>f\<close> returns for \<open>v\<close> when the protected data are \<open>d\<close>, and
  \<open>ceq e a b\<close> is what the comparison function \<open>e\<close> returns.
\<close>

record wait_condition =
  wc_f :: "addr option"
  wc_v :: addr
  wc_eq :: "addr option"

type_synonym cond_eq = "addr \<Rightarrow> addr \<Rightarrow> addr \<Rightarrow> bool"

definition WAIT_CONDITION_EQ :: "cond_eq \<Rightarrow> wait_condition \<Rightarrow> wait_condition \<Rightarrow> bool" where
  "WAIT_CONDITION_EQ ceq a b \<longleftrightarrow>
     wc_f a \<noteq> None \<and> wc_f a = wc_f b \<and>
     (wc_v a = wc_v b \<or> (case wc_eq a of None \<Rightarrow> False | Some e \<Rightarrow> ceq e (wc_v a) (wc_v b)))"

record mu_queue =
  mq_q :: dll_heap
  mq_same :: dll_heap
  mq_cond :: "addr \<Rightarrow> wait_condition"
  mq_remove_count :: "addr \<Rightarrow> u32"

section \<open>The operations\<close>

text \<open>Called only for a waiter with a condition.\<close>

definition condition_true :: "('d \<Rightarrow> addr \<Rightarrow> addr \<Rightarrow> bool) \<Rightarrow> 'd \<Rightarrow> mu_queue \<Rightarrow> addr \<Rightarrow> bool" where
  "condition_true ev d m p = ev d (the (wc_f (mq_cond m p))) (wc_v (mq_cond m p))"

definition skip_past_same_condition :: "mu_queue \<Rightarrow> dll_list \<Rightarrow> addr \<Rightarrow> addr option" where
  "skip_past_same_condition m waiter_list p =
     (let last_with_same_condition = prv (mq_same m) p
      in if last_with_same_condition \<noteq> p \<and> last_with_same_condition \<noteq> prv (mq_q m) p
         then nsync_dll_next (mq_q m) waiter_list last_with_same_condition
         else nsync_dll_next (mq_q m) waiter_list p)"

definition nsync_maybe_merge_conditions :: "cond_eq \<Rightarrow> mu_queue \<Rightarrow> addr option \<Rightarrow> addr option \<Rightarrow> mu_queue" where
  "nsync_maybe_merge_conditions ceq m p n =
     (case (p, n) of
        (Some p, Some n) \<Rightarrow>
          if WAIT_CONDITION_EQ ceq (mq_cond m p) (mq_cond m n)
          then m\<lparr>mq_same := nsync_dll_splice_after (mq_same m) p n\<rparr> else m
      | _ \<Rightarrow> m)"

text \<open>Unlinking from the \<^verbatim>\<open>same_condition\<close> list, written out in the source.\<close>

definition same_unlink :: "addr \<Rightarrow> dll_heap \<Rightarrow> dll_heap" where
  "same_unlink e h =
     (let h = set_prv (nxt h e) (prv h e) h;
          h = set_nxt (prv h e) (nxt h e) h;
          h = set_nxt e e h
      in set_prv e e h)"

definition nsync_remove_from_mu_queue :: "cond_eq \<Rightarrow> mu_queue \<Rightarrow> dll_list \<Rightarrow> addr \<Rightarrow> mu_queue \<times> dll_list" where
  "nsync_remove_from_mu_queue ceq m mu_queue e =
     (let prev = prv (mq_q m) e;
          next = nxt (mq_q m) e;
          (h, mu_queue) = nsync_dll_remove (mq_q m) mu_queue e;
          m = m\<lparr>mq_q := h, mq_remove_count := (mq_remove_count m)(e := mq_remove_count m e + 1)\<rparr>
      in (if \<not> nsync_dll_is_empty mu_queue
          then (if nxt (mq_same m) e \<noteq> e then m\<lparr>mq_same := same_unlink e (mq_same m)\<rparr>
                else if Some prev \<noteq> nsync_dll_last mu_queue
                then nsync_maybe_merge_conditions ceq m (Some prev) (Some next)
                else m)
          else m, mu_queue))"

section \<open>Groups\<close>

text \<open>Conditions that are true for the same data.\<close>

definition same_condition :: "('d \<Rightarrow> addr \<Rightarrow> addr \<Rightarrow> bool) \<Rightarrow> wait_condition \<Rightarrow> wait_condition \<Rightarrow> bool" where
  "same_condition ev a b \<longleftrightarrow>
     wc_f a \<noteq> None \<and> wc_f b \<noteq> None \<and> (\<forall>d. ev d (the (wc_f a)) (wc_v a) = ev d (the (wc_f b)) (wc_v b))"

text \<open>What clients promise of their comparison functions (\<^verbatim>\<open>public/nsync_mu_wait.h\<close>): for calls
  with the same condition function \<open>f\<close>, arguments that the comparison function of the first says
  to be equal are equivalent for \<open>f\<close>.  \<open>cs\<close> are the conditions of the waiters.\<close>

definition ceq_sound :: "('d \<Rightarrow> addr \<Rightarrow> addr \<Rightarrow> bool) \<Rightarrow> cond_eq \<Rightarrow> wait_condition set \<Rightarrow> bool" where
  "ceq_sound ev ceq cs \<longleftrightarrow>
     (\<forall>a\<in>cs. \<forall>b\<in>cs. \<forall>f e d. wc_f a = Some f \<longrightarrow> wc_f b = Some f \<longrightarrow> wc_eq a = Some e \<longrightarrow>
        ceq e (wc_v a) (wc_v b) \<longrightarrow> ev d f (wc_v a) = ev d f (wc_v b))"

definition group_ok :: "('d \<Rightarrow> addr \<Rightarrow> addr \<Rightarrow> bool) \<Rightarrow> mu_queue \<Rightarrow> addr list \<Rightarrow> bool" where
  "group_ok ev m g \<longleftrightarrow>
     ring (mq_same m) g \<and>
     (length g = 1 \<or> (\<forall>x\<in>set g. \<forall>y\<in>set g. same_condition ev (mq_cond m x) (mq_cond m y)))"

text \<open>The queue falls into consecutive groups, each on a circular list of its own.\<close>

definition grouped :: "('d \<Rightarrow> addr \<Rightarrow> addr \<Rightarrow> bool) \<Rightarrow> mu_queue \<Rightarrow> addr list list \<Rightarrow> bool" where
  "grouped ev m gs \<longleftrightarrow> (\<forall>g\<in>set gs. group_ok ev m g)"

lemma eq_same_condition:
  assumes "ceq_sound ev ceq cs" "a \<in> cs" "b \<in> cs" "WAIT_CONDITION_EQ ceq a b"
  shows "same_condition ev a b"
proof -
  obtain f where f: "wc_f a = Some f" "wc_f b = Some f" using assms(4) by (auto simp: WAIT_CONDITION_EQ_def)
  then have "ev d f (wc_v a) = ev d f (wc_v b)" for d
    using assms unfolding ceq_sound_def WAIT_CONDITION_EQ_def by (cases "wc_v a = wc_v b"; cases "wc_eq a") auto
  then show ?thesis using f by (simp add: same_condition_def)
qed

lemma group_ok_cong:
  assumes "group_ok ev m g" "same_links (set g) (mq_same m) (mq_same m')" "mq_cond m' = mq_cond m"
  shows "group_ok ev m' g"
  using assms ring_cong [OF assms(2)] by (auto simp: group_ok_def)

lemma same_unlink_remove: "same_unlink e h = fst (nsync_dll_remove h l e)"
  by (simp add: same_unlink_def nsync_dll_remove_def Let_def)

lemma group_unlink:
  assumes g: "group_ok ev m g" "e \<in> set g" "length g \<noteq> 1" and m': "mq_same m' = same_unlink e (mq_same m)" "mq_cond m' = mq_cond m"
  shows "group_ok ev m' (remove1 e g)" "ring (mq_same m') [e]" "same_links (- set g) (mq_same m) (mq_same m')"
proof -
  obtain g1 g2 where gs: "g = g1 @ e # g2" "e \<notin> set g1" using g(2) by (meson split_list_first)
  have r: "ring (mq_same m) (e # g2 @ g1)" using g(1) ring_enter gs(1) by (auto simp: group_ok_def)
  have ne: "g2 @ g1 \<noteq> []" using gs(1) g(3) by auto
  have h': "mq_same m' = fst (nsync_dll_remove (mq_same m) None e)" using m'(1) same_unlink_remove by simp
  note rr = remove_ring [OF r ne h']
  have rm: "remove1 e g = g1 @ g2" using gs by (simp add: remove1_append)
  have sub: "set (remove1 e g) \<subseteq> set g" by (rule set_remove1_subset)
  have "ring (mq_same m') (remove1 e g)" unfolding rm by (rule ring_rotate [OF rr(1)])
  moreover have "\<forall>x\<in>set (remove1 e g). \<forall>y\<in>set (remove1 e g). same_condition ev (mq_cond m x) (mq_cond m y)"
    using g(1,3) sub unfolding group_ok_def by blast
  ultimately show "group_ok ev m' (remove1 e g)" using m'(2) by (simp add: group_ok_def)
  show "ring (mq_same m') [e]" by (rule rr(2))
  have "set g = set (e # g2 @ g1)" using gs(1) by auto
  then show "same_links (- set g) (mq_same m) (mq_same m')" using rr(3) by simp
qed

lemma group_merge:
  assumes g: "group_ok ev m ga" "group_ok ev m gb" and dis: "set ga \<inter> set gb = {}"
    and eq: "same_condition ev (mq_cond m (last ga)) (mq_cond m (hd gb))"
    and m': "mq_same m' = nsync_dll_splice_after (mq_same m) (last ga) (hd gb)" "mq_cond m' = mq_cond m"
  shows "group_ok ev m' (ga @ gb)" "same_links (- (set ga \<union> set gb)) (mq_same m) (mq_same m')"
proof -
  have ra: "ring (mq_same m) ga" and rb: "ring (mq_same m) gb" using g by (auto simp: group_ok_def)
  have "gb \<noteq> []" using rb unfolding ring_def by blast
  then obtain n ns where gb: "gb = n # ns" by (metis list.exhaust)
  have "ga \<noteq> []" using ra unfolding ring_def by blast
  then obtain ps p where ga: "ga = ps @ [p]" by (metis rev_exhaust)
  have r1: "ring (mq_same m) (p # ps)" using ring_rotate [of "mq_same m" ps "[p]"] ra ga by simp
  have d: "set (p # ps) \<inter> set (n # ns) = {}" using dis gb ga by auto
  have h': "mq_same m' = nsync_dll_splice_after (mq_same m) p n" using m'(1) ga gb by simp
  note sp = splice_ring [OF r1 rb [unfolded gb] d h']
  have r: "ring (mq_same m') (ga @ gb)"
    using ring_rotate [of "mq_same m'" "p # n # ns" ps] sp(1) ga gb by simp
  have c: "same_condition ev (mq_cond m x) (mq_cond m (last ga))" if "x \<in> set ga" for x
  proof (cases "length ga = 1")
    case True
    then show ?thesis using that eq ga by (auto simp: same_condition_def)
  next
    case False
    then show ?thesis using g(1) that ga unfolding group_ok_def by auto
  qed
  have c': "same_condition ev (mq_cond m (last ga)) (mq_cond m x)" if "x \<in> set gb" for x
  proof -
    have "same_condition ev (mq_cond m (hd gb)) (mq_cond m x)"
    proof (cases "length gb = 1")
      case True
      then show ?thesis using that eq gb by (auto simp: same_condition_def)
    next
      case False
      then show ?thesis using g(2) that gb unfolding group_ok_def by auto
    qed
    then show ?thesis using eq by (simp add: same_condition_def)
  qed
  have "same_condition ev (mq_cond m x) (mq_cond m y)" if "x \<in> set (ga @ gb)" "y \<in> set (ga @ gb)" for x y
    using that c c' unfolding same_condition_def by (metis Un_iff set_append)
  then show "group_ok ev m' (ga @ gb)" using r m'(2) by (simp add: group_ok_def)
  show "same_links (- (set ga \<union> set gb)) (mq_same m) (mq_same m')"
    using sp(2) ga gb by (simp add: insert_commute Un_commute)
qed


section \<open>Skipping\<close>

lemma ring_adjacent: "ring h (as @ x # y # bs) \<Longrightarrow> prv h y = x \<and> nxt h x = y"
  by (auto simp: ring_def links_append)

lemma ring_first_prev: "ring h (x # xs) \<Longrightarrow> prv h x = last (x # xs)"
  by (simp add: ring_def)

lemma dll_ring: "is_dll h l xs \<Longrightarrow> xs \<noteq> [] \<Longrightarrow> ring h xs"
  by (auto simp: is_dll_def split: option.splits)

lemma skip_group:
  assumes d: "is_dll (mq_q m) l xs" and xs: "xs = concat (as @ g # bs)" and g: "group_ok ev m g" "g = g1 @ p # g2"
  shows "\<exists>ys zs. xs = (concat as @ g1) @ p # ys @ zs \<and> set ys \<subseteq> set g2 \<and>
    skip_past_same_condition m l p = (if zs = [] then None else Some (hd zs))"
proof -
  have x: "xs = (concat as @ g1) @ p # g2 @ concat bs" using xs g(2) by simp
  have r: "ring (mq_q m) xs" "ring (mq_same m) g" using dll_ring [OF d] x g(1) by (auto simp: group_ok_def)
  have np: "nsync_dll_next (mq_q m) l p = (if g2 @ concat bs = [] then None else Some (hd (g2 @ concat bs)))"
    using next_list d x by metis
  show ?thesis
  proof (cases g1 rule: rev_cases)
    case Nil
    show ?thesis
    proof (cases "prv (mq_same m) p \<noteq> p \<and> prv (mq_same m) p \<noteq> prv (mq_q m) p")
      case True
      have l: "prv (mq_same m) p = last g" using ring_first_prev r(2) g(2) Nil by simp
      then have "g2 \<noteq> []" using True g(2) Nil by auto
      then have "xs = (concat as @ p # butlast g2) @ last g # concat bs" using x Nil g(2) by simp
      then have "nsync_dll_next (mq_q m) l (last g) = (if concat bs = [] then None else Some (hd (concat bs)))"
        using next_list d by metis
      then show ?thesis using True l x
        by (intro exI [of _ g2] exI [of _ "concat bs"]) (simp add: skip_past_same_condition_def)
    next
      case False
      then show ?thesis using np x
        by (intro exI [of _ "[]"] exI [of _ "g2 @ concat bs"]) (auto simp: skip_past_same_condition_def Let_def)
    qed
  next
    case (snoc ps q)
    have "prv (mq_same m) p = q" using ring_adjacent [of "mq_same m" ps q p g2] r(2) g(2) snoc by simp
    moreover have "prv (mq_q m) p = q"
      using ring_adjacent [of "mq_q m" "concat as @ ps" q p "g2 @ concat bs"] r(1) x snoc by simp
    ultimately show ?thesis using np x
      by (intro exI [of _ "[]"] exI [of _ "g2 @ concat bs"]) (auto simp: skip_past_same_condition_def)
  qed
qed

section \<open>Removal\<close>

lemma concat_remove1:
  assumes "distinct (concat (as @ g # bs))" "e \<in> set g"
  shows "remove1 e (concat (as @ g # bs)) = concat (as @ remove1 e g # bs)"
  using assms by (auto simp: remove1_append)

lemma grouped_other:
  assumes "grouped ev m gs" "same_links (- A) (mq_same m) (mq_same m')" "mq_cond m' = mq_cond m"
    "\<And>g. g \<in> set gs' \<Longrightarrow> g \<in> set gs \<and> set g \<inter> A = {}"
  shows "grouped ev m' gs'"
  unfolding grouped_def
proof
  fix g assume g: "g \<in> set gs'"
  have "same_links (set g) (mq_same m) (mq_same m')" using assms(2,4) g by (fastforce simp: same_links_def)
  then show "group_ok ev m' g" using assms(1,3,4) g unfolding grouped_def by (blast intro: group_ok_cong)
qed

text \<open>The four ways in which a removal ends.\<close>

lemma remove_linked:
  assumes "grouped ev m (as @ g # bs)" "distinct (concat (as @ g # bs))" "e \<in> set g" "length g \<noteq> 1"
    "mq_same m' = same_unlink e (mq_same m)" "mq_cond m' = mq_cond m"
  shows "grouped ev m' (as @ remove1 e g # bs)" "ring (mq_same m') [e]"
proof -
  have g: "group_ok ev m g" using assms(1) by (simp add: grouped_def)
  note u = group_unlink [OF g assms(3-6)]
  have "grouped ev m' (as @ bs)"
    by (rule grouped_other [OF assms(1) u(3) assms(6)]) (use assms(2) in auto)
  then show "grouped ev m' (as @ remove1 e g # bs)" using u(1) by (auto simp: grouped_def)
  show "ring (mq_same m') [e]" by (rule u(2))
qed

lemma remove_merged:
  assumes "grouped ev m (as @ ga # [e] # gb # bs)" "distinct (concat (as @ ga # [e] # gb # bs))"
    "ceq_sound ev ceq (mq_cond m ` set (concat (as @ ga # [e] # gb # bs)))" "m' = nsync_maybe_merge_conditions ceq m (Some (last ga)) (Some (hd gb))"
  shows "\<exists>gs. grouped ev m' gs \<and> concat gs = concat (as @ ga # gb # bs) \<and> ring (mq_same m') [e]"
proof (cases "WAIT_CONDITION_EQ ceq (mq_cond m (last ga)) (mq_cond m (hd gb))")
  case False
  then show ?thesis using assms(1,4)
    by (intro exI [of _ "as @ ga # gb # bs"]) (auto simp: nsync_maybe_merge_conditions_def grouped_def group_ok_def)
next
  case True
  have m': "mq_same m' = nsync_dll_splice_after (mq_same m) (last ga) (hd gb)" "mq_cond m' = mq_cond m"
    using True assms(4) by (simp_all add: nsync_maybe_merge_conditions_def)
  have g: "group_ok ev m ga" "group_ok ev m gb" using assms(1) by (auto simp: grouped_def)
  have dis: "set ga \<inter> set gb = {}" using assms(2) by auto
  have "ga \<noteq> []" "gb \<noteq> []" using g by (auto simp: group_ok_def ring_def)
  then have "mq_cond m (last ga) \<in> mq_cond m ` set (concat (as @ ga # [e] # gb # bs))"
    "mq_cond m (hd gb) \<in> mq_cond m ` set (concat (as @ ga # [e] # gb # bs))" by auto
  note mg = group_merge [OF g dis eq_same_condition [OF assms(3) this True] m']
  have "grouped ev m' (as @ [e] # bs)"
    by (rule grouped_other [OF assms(1) mg(2) m'(2)]) (use assms(2) in auto)
  then show ?thesis using mg(1)
    by (intro exI [of _ "as @ (ga @ gb) # bs"]) (auto simp: grouped_def group_ok_def)
qed

text \<open>At either end of the queue the predecessor of the removed element is what is then the last.\<close>

lemma last_after_removal:
  assumes "ring q (us @ e # vs)" "is_dll h l (us @ vs)" "us = [] \<or> vs = []"
  shows "l = None \<or> l = Some (prv q e)"
proof (cases "us = []")
  case True
  then have "prv q e = last (e # vs)" using ring_first_prev assms(1) by simp
  then show ?thesis using assms(2) True by (cases l; cases "vs = []") (simp_all add: is_dll_Some)
next
  case False
  then obtain ys y where u: "us = ys @ [y]" by (metis rev_exhaust)
  then have "prv q e = y" using ring_adjacent [of q ys y e vs] assms(1) by simp
  then show ?thesis using assms(2,3) u by (cases l) (simp_all add: is_dll_Some)
qed

text \<open>
  The two shapes of a removal, after the waiter has left the queue: it leaves a group with others,
  or it was a group of its own, and then its neighbours may be merged.
\<close>

definition unqueued :: "dll_heap \<Rightarrow> nat \<Rightarrow> mu_queue \<Rightarrow> mu_queue" where
  "unqueued h e m = m\<lparr>mq_q := h, mq_remove_count := (mq_remove_count m)(e := mq_remove_count m e + 1)\<rparr>"

lemma remove_from_group:
  assumes gr: "grouped ev m (as @ g # bs)" and dx: "distinct (concat (as @ g # bs))" and e: "e \<in> set g" "length g \<noteq> 1"
    and hl: "nsync_dll_remove (mq_q m) l e = (h, l')" "is_dll h l' (concat (as @ remove1 e g # bs))"
    and rm: "nsync_remove_from_mu_queue ceq m l e = (m', l')"
  shows "ring (mq_same m') [e] \<and> (\<exists>gs'. grouped ev m' gs' \<and> concat gs' = concat (as @ remove1 e g # bs))"
proof -
  have rg: "ring (mq_same m) g" using gr by (simp add: grouped_def group_ok_def)
  obtain g1 g2 where g: "g = g1 @ e # g2" using e(1) by (meson split_list)
  then have "ring (mq_same m) (e # g2 @ g1)" "g2 @ g1 \<noteq> []" using ring_enter rg e(2) by auto
  then have "nxt (mq_same m) e \<noteq> e" using ring_Cons hd_in_set by (metis distinct.simps(2))
  moreover have "remove1 e g \<noteq> []" using e g by (auto simp: remove1_append)
  then have "l' \<noteq> None" using hl(2) by (cases l') simp_all
  ultimately have "m' = (unqueued h e m)\<lparr>mq_same := same_unlink e (mq_same m)\<rparr>"
    using rm hl(1) by (simp add: nsync_remove_from_mu_queue_def nsync_dll_is_empty_def unqueued_def Let_def)
  moreover have "grouped ev (unqueued h e m) (as @ g # bs)" using gr by (simp add: grouped_def group_ok_def unqueued_def)
  ultimately show ?thesis using remove_linked [OF _ dx e, of ev "unqueued h e m" m'] by (auto simp: unqueued_def)
qed

lemma remove_own_group:
  assumes gr: "grouped ev m (as @ [e] # bs)" and dx: "distinct (concat (as @ [e] # bs))" and rx: "ring (mq_q m) (concat (as @ [e] # bs))"
    and cs: "ceq_sound ev ceq (mq_cond m ` set (concat (as @ [e] # bs)))" and hl: "nsync_dll_remove (mq_q m) l e = (h, l')" "is_dll h l' (concat (as @ bs))"
    and rm: "nsync_remove_from_mu_queue ceq m l e = (m', l')"
  shows "ring (mq_same m') [e] \<and> (\<exists>gs'. grouped ev m' gs' \<and> concat gs' = concat (as @ bs))"
proof -
  have gm: "grouped ev (unqueued h e m) (as @ [e] # bs)" using gr by (simp add: grouped_def group_ok_def unqueued_def)
  have re: "ring (mq_same m) [e]" using gr by (simp add: grouped_def group_ok_def)
  show ?thesis
  proof (cases "as = [] \<or> bs = []")
    case True
    then have "l' = None \<or> l' = Some (prv (mq_q m) e)"
      using last_after_removal [of "mq_q m" "concat as" e "concat bs" h l'] rx hl(2) by auto
    then have "m' = unqueued h e m" using rm hl(1) re
      by (auto simp: nsync_remove_from_mu_queue_def nsync_dll_is_empty_def nsync_dll_last_def unqueued_def Let_def)
    then show ?thesis using gm re by (intro conjI exI [of _ "as @ bs"]) (auto simp: grouped_def unqueued_def)
  next
    case False
    then obtain as' ga gb bs' where ab: "as = as' @ [ga]" "bs = gb # bs'" by (metis neq_Nil_conv rev_exhaust)
    have gn: "ga \<noteq> []" "gb \<noteq> []" using gr ab by (auto simp: grouped_def group_ok_def ring_def)
    obtain ps p where ga: "ga = ps @ [p]" using gn by (metis rev_exhaust)
    obtain n ns where gb: "gb = n # ns" using gn by (metis neq_Nil_conv)
    have pn: "prv (mq_q m) e = last ga" "nxt (mq_q m) e = hd gb"
      using ring_adjacent [of "mq_q m" "concat as' @ ps" p e "gb @ concat bs'"]
        ring_adjacent [of "mq_q m" "concat as' @ ga" e n "ns @ concat bs'"] rx ab ga gb by simp_all
    have "l' = Some (last (gb @ concat bs'))" using hl(2) ab gn by (cases l') (auto simp: is_dll_Some)
    moreover have "last (gb @ concat bs') \<in> set (gb @ concat bs')" using gn by (intro last_in_set) simp
    moreover have "last ga \<in> set ga" using gn by simp
    ultimately have lp: "l' \<noteq> Some (last ga)" "l' \<noteq> None" using dx unfolding ab by auto
    have m': "m' = nsync_maybe_merge_conditions ceq (unqueued h e m) (Some (last ga)) (Some (hd gb))"
      using rm hl(1) re lp pn
      by (auto simp: nsync_remove_from_mu_queue_def nsync_dll_is_empty_def nsync_dll_last_def unqueued_def Let_def split: if_splits)
    have eqs: "as @ [e] # bs = as' @ ga # [e] # gb # bs'" using ab by simp
    have cs': "ceq_sound ev ceq (mq_cond (unqueued h e m) ` set (concat (as' @ ga # [e] # gb # bs')))"
      using cs unfolding eqs by (simp add: unqueued_def)
    show ?thesis using remove_merged [OF gm [unfolded eqs] dx [unfolded eqs] cs' m'] ab by auto
  qed
qed

lemma remove_from_queue:
  assumes d: "is_dll (mq_q m) l (concat gs)" and gr: "grouped ev m gs" and e: "e \<in> set (concat gs)"
    and cs: "ceq_sound ev ceq (mq_cond m ` set (concat gs))" and rm: "nsync_remove_from_mu_queue ceq m l e = (m', l')"
  shows "is_dll (mq_q m') l' (remove1 e (concat gs)) \<and> ring (mq_q m') [e] \<and> ring (mq_same m') [e] \<and>
    mq_remove_count m' = (mq_remove_count m)(e := mq_remove_count m e + 1) \<and> mq_cond m' = mq_cond m \<and>
    (\<exists>gs'. grouped ev m' gs' \<and> concat gs' = remove1 e (concat gs))"
proof -
  obtain g where g: "g \<in> set gs" "e \<in> set g" using e by auto
  then obtain as bs where gs: "gs = as @ g # bs" by (meson split_list)
  have dx: "distinct (concat gs)" using is_dll_distinct [OF d] .
  have rx: "ring (mq_q m) (concat gs)" using dll_ring [OF d] e by (metis empty_iff list.set(1))
  obtain h l1 where hl: "nsync_dll_remove (mq_q m) l e = (h, l1)" by fastforce
  note r = remove_list [OF d e hl]
  have q: "l' = l1" "mq_q m' = h" "mq_remove_count m' = (mq_remove_count m)(e := mq_remove_count m e + 1)" "mq_cond m' = mq_cond m"
    using rm hl by (auto simp: nsync_remove_from_mu_queue_def nsync_maybe_merge_conditions_def Let_def split: if_splits)
  have c1: "concat (as @ remove1 e g # bs) = remove1 e (concat gs)" using concat_remove1 dx g(2) unfolding gs by metis
  have "ring (mq_same m') [e] \<and> (\<exists>gs'. grouped ev m' gs' \<and> concat gs' = concat (as @ remove1 e g # bs))"
  proof (cases "length g = 1")
    case False
    show ?thesis
      by (rule remove_from_group [OF gr [unfolded gs] dx [unfolded gs] g(2) False hl [folded q(1)] _ rm]) (use r(1) c1 q(1) in simp)
  next
    case True
    then have ge: "g = [e]" using g(2) by (auto simp: length_Suc_conv)
    have "concat (as @ remove1 e g # bs) = concat (as @ bs)" using ge by simp
    then show ?thesis
      using remove_own_group [OF gr [unfolded gs ge] dx [unfolded gs ge] rx [unfolded gs ge] cs [unfolded gs ge] hl [folded q(1)] _ rm] r(1) c1 q(1) by simp
  qed
  then show ?thesis using r(1,2) q c1 by simp
qed


section \<open>Properties\<close>

text \<open>C37. \<^verbatim>\<open>nsync_remove_from_mu_queue_\<close> removes just the given waiter: the queue keeps the
  others in order, the waiter is unlinked from both lists and its removal is counted, and the
  queue still falls into consecutive groups of equal conditions, neighbours that have become
  adjacent being merged when their conditions are equal.\<close>

theorem remove_from_mu_queue_correct:
  assumes "is_dll (mq_q m) l (concat gs)" "grouped ev m gs" "e \<in> set (concat gs)"
    "ceq_sound ev ceq (mq_cond m ` set (concat gs))"
    "nsync_remove_from_mu_queue ceq m l e = (m', l')"
  shows "is_dll (mq_q m') l' (remove1 e (concat gs)) \<and> ring (mq_q m') [e] \<and> ring (mq_same m') [e] \<and>
    mq_remove_count m' = (mq_remove_count m)(e := mq_remove_count m e + 1) \<and> mq_cond m' = mq_cond m \<and>
    (\<exists>gs'. grouped ev m' gs' \<and> concat gs' = remove1 e (concat gs))"
  by (rule remove_from_queue [OF assms])

text \<open>Waiters 1 and 2 have one condition, waiter 3 has none.\<close>

definition demo_queue :: mu_queue where
  "demo_queue = \<lparr>mq_q = dll_example,
     mq_same = \<lparr>nxt = id(1 := 2, 2 := 1), prv = id(1 := 2, 2 := 1), container = id\<rparr>,
     mq_cond = (\<lambda>w. if w = 3 then \<lparr>wc_f = None, wc_v = 0, wc_eq = None\<rparr> else \<lparr>wc_f = Some 50, wc_v = 7, wc_eq = None\<rparr>),
     mq_remove_count = \<lambda>_. 0\<rparr>"

lemma demo_grouped: "is_dll (mq_q demo_queue) (Some 3) (concat [[1, 2], [3]])" "grouped (\<lambda>d f v. d = v) demo_queue [[1, 2], [3]]"
  using dll_example_ok(1)
  by (simp_all add: demo_queue_def grouped_def group_ok_def same_condition_def ring_def)

lemma demo_sound: "ceq_sound (\<lambda>d f v. d = v) (\<lambda>e a b. a = b) cs"
  by (simp add: ceq_sound_def)

theorem remove_from_mu_queue_correct_witness:
  "ring (mq_same (fst (nsync_remove_from_mu_queue (\<lambda>e a b. a = b) demo_queue (Some 3) 1))) [1] \<and>
   is_dll (mq_q (fst (nsync_remove_from_mu_queue (\<lambda>e a b. a = b) demo_queue (Some 3) 1)))
     (snd (nsync_remove_from_mu_queue (\<lambda>e a b. a = b) demo_queue (Some 3) 1)) [2, 3]"
  using remove_from_mu_queue_correct [OF demo_grouped _ demo_sound prod.collapse [symmetric], of 1] by simp

text \<open>C38. A scan that finds a condition false and skips with \<^verbatim>\<open>skip_past_same_condition\<close>
  passes over no waiter whose condition may be true: between a waiter and the element to which
  the scan goes on there are only waiters whose condition is true for the same data as its own.\<close>

theorem skip_same_condition_sound:
  assumes "is_dll (mq_q m) l (concat gs)" "grouped ev m gs" "p \<in> set (concat gs)"
  shows "\<exists>xs ys zs. concat gs = xs @ p # ys @ zs \<and>
    skip_past_same_condition m l p = (if zs = [] then None else Some (hd zs)) \<and>
    (\<forall>y\<in>set ys. \<forall>d. condition_true ev d m y = condition_true ev d m p)"
proof -
  obtain g where "g \<in> set gs" "p \<in> set g" using assms(3) by auto
  then obtain as bs g1 g2 where gs: "gs = as @ g # bs" "g = g1 @ p # g2" by (meson split_list)
  have g: "group_ok ev m g" using assms(2) gs(1) by (simp add: grouped_def)
  obtain ys zs where yz: "concat gs = (concat as @ g1) @ p # ys @ zs" "set ys \<subseteq> set g2"
    "skip_past_same_condition m l p = (if zs = [] then None else Some (hd zs))"
    using skip_group [OF assms(1) arg_cong [OF gs(1)] g gs(2)] by blast
  have "condition_true ev d m y = condition_true ev d m p" if "y \<in> set ys" for y d
  proof -
    have "y \<in> set g2" using yz(2) that by blast
    then have "length g \<noteq> 1" "y \<in> set g" "p \<in> set g" using gs(2) by auto
    then have "same_condition ev (mq_cond m y) (mq_cond m p)" using g unfolding group_ok_def by blast
    then show ?thesis by (simp add: same_condition_def condition_true_def)
  qed
  then show ?thesis using yz(1,3) by blast
qed

theorem skip_same_condition_sound_witness:
  "skip_past_same_condition demo_queue (Some 3) 1 = Some 3 \<and>
   (\<exists>xs ys zs. concat [[1, 2], [3::nat]] = xs @ 1 # ys @ zs \<and> zs = [3])"
proof -
  have s: "skip_past_same_condition demo_queue (Some 3) 1 = Some 3" by code_simp
  have "1 \<in> set (concat [[1, 2], [3::nat]])" by simp
  then obtain xs ys zs where z: "concat [[1, 2], [3]] = xs @ 1 # ys @ zs"
    "skip_past_same_condition demo_queue (Some 3) 1 = (if zs = [] then None else Some (hd zs))"
    using skip_same_condition_sound [OF demo_grouped] by blast
  have zs: "zs \<noteq> []" "hd zs = 3" using z(2) s by (auto split: if_splits)
  have "xs = []" using z(1) by (cases xs) (auto simp: Cons_eq_append_conv)
  then have "zs = [3]" using z(1) zs by (auto simp: Cons_eq_append_conv)
  then show ?thesis using s z(1) by blast
qed

text \<open>A defect: when all waiters of the queue have the same condition, nothing is skipped.
  The first waiter is then the successor of the last in the circular list, so the test for being
  the first of its group fails, and the scan evaluates the false condition of every waiter.\<close>

theorem skip_defeated_by_one_group:
  assumes "is_dll (mq_q m) l (p # q # xs)" "group_ok ev m (p # q # xs)"
  shows "skip_past_same_condition m l p = Some q"
proof -
  have "prv (mq_q m) p = last (q # xs)" "prv (mq_same m) p = last (q # xs)"
    using ring_first_prev [of "mq_q m" p "q # xs"] ring_first_prev [of "mq_same m" p "q # xs"] dll_ring [OF assms(1)] assms(2)
    by (simp_all add: group_ok_def)
  then show ?thesis using next_list [of "mq_q m" l "[]" p "q # xs"] assms(1)
    by (simp add: skip_past_same_condition_def)
qed

theorem skip_defeated_by_one_group_witness:
  "skip_past_same_condition (demo_queue\<lparr>mq_same := dll_example, mq_cond := \<lambda>_. mq_cond demo_queue 1\<rparr>) (Some 3) 1 = Some 2"
  using dll_example_ok(1)
  by (intro skip_defeated_by_one_group [of _ _ _ _ "[3]" "\<lambda>d f v. d = v"])
     (simp_all add: demo_queue_def group_ok_def same_condition_def is_dll_Some)

end
