(* ===== verification/Time.thy ===== *)
theory Time
  imports Prelude
begin

text \<open>
  Times: \<^verbatim>\<open>platform/posix/src/time_rep.c\<close> (a \<^verbatim>\<open>struct timespec\<close>),
  \<^verbatim>\<open>platform/posix/src/time_rep_debug.c\<close> (seconds and unsigned nanoseconds),
  \<^verbatim>\<open>platform/num_time/src/time_rep.c\<close> with a 64-bit integer type, and
  \<^verbatim>\<open>internal/time_internal.c\<close>.  Signed arithmetic that overflows is undefined in C; the
  model returns \<open>None\<close>.  What the three representations have in common is the locale
  \<open>time_rep\<close>: each is a way to write a number of nanoseconds.
\<close>

section \<open>A timespec\<close>

definition NSYNC_NS_IN_S :: int where "NSYNC_NS_IN_S = 1000 * 1000 * 1000"

text \<open>The value of a signed 64-bit expression (\<^verbatim>\<open>time_t\<close>, \<^verbatim>\<open>long\<close>).\<close>

definition i64 :: "int \<Rightarrow> int option" where
  "i64 x = (if - (2 ^ 63) \<le> x \<and> x < 2 ^ 63 then Some x else None)"

datatype nsync_time = Timespec (tv_sec: int) (tv_nsec: int)

definition nsync_time_no_deadline :: nsync_time where
  "nsync_time_no_deadline = Timespec (2 ^ 63 - 1) (NSYNC_NS_IN_S - 1)"

definition nsync_time_zero :: nsync_time where
  "nsync_time_zero = Timespec 0 0"

definition nsync_time_s_ns :: "int \<Rightarrow> u32 \<Rightarrow> nsync_time" where
  "nsync_time_s_ns s ns = Timespec s (uint ns)"

text \<open>\<^verbatim>\<open>nanosleep\<close> is a parameter: whether it returns 0, and what it leaves in its second argument.\<close>

definition nsync_time_sleep :: "(int \<times> int \<Rightarrow> bool \<times> nsync_time) \<Rightarrow> nsync_time \<Rightarrow> nsync_time" where
  "nsync_time_sleep nanosleep delay =
     (case nanosleep (tv_sec delay, tv_nsec delay) of
        (ok, remain) \<Rightarrow> if ok then Timespec 0 0 else remain)"

definition nsync_time_add :: "nsync_time \<Rightarrow> nsync_time \<Rightarrow> nsync_time option" where
  "nsync_time_add a b =
     (case i64 (tv_sec a + tv_sec b) of None \<Rightarrow> None | Some sec \<Rightarrow>
      case i64 (tv_nsec a + tv_nsec b) of None \<Rightarrow> None | Some nsec \<Rightarrow>
      if nsec \<ge> NSYNC_NS_IN_S
      then (case i64 (sec + 1) of None \<Rightarrow> None | Some sec \<Rightarrow> Some (Timespec sec (nsec - NSYNC_NS_IN_S)))
      else Some (Timespec sec nsec))"

definition nsync_time_sub :: "nsync_time \<Rightarrow> nsync_time \<Rightarrow> nsync_time option" where
  "nsync_time_sub a b =
     (case i64 (tv_sec a - tv_sec b) of None \<Rightarrow> None | Some sec \<Rightarrow>
      if tv_nsec a < tv_nsec b
      then (case i64 (tv_nsec a + NSYNC_NS_IN_S) of None \<Rightarrow> None | Some nsec \<Rightarrow>
            case i64 (sec - 1) of None \<Rightarrow> None | Some sec \<Rightarrow>
            case i64 (nsec - tv_nsec b) of None \<Rightarrow> None | Some nsec \<Rightarrow> Some (Timespec sec nsec))
      else (case i64 (tv_nsec a - tv_nsec b) of None \<Rightarrow> None | Some nsec \<Rightarrow> Some (Timespec sec nsec)))"

definition nsync_time_cmp :: "nsync_time \<Rightarrow> nsync_time \<Rightarrow> int" where
  "nsync_time_cmp a b =
     (let cmp = of_bool (tv_sec a > tv_sec b) - of_bool (tv_sec a < tv_sec b)
      in if cmp = 0 then of_bool (tv_nsec a > tv_nsec b) - of_bool (tv_nsec a < tv_nsec b) else cmp)"

definition nsync_time_ms :: "u32 \<Rightarrow> nsync_time" where
  "nsync_time_ms ms = nsync_time_s_ns (uint (ms div 1000)) (1000 * 1000 * (ms mod 1000))"

definition nsync_time_us :: "u32 \<Rightarrow> nsync_time" where
  "nsync_time_us us = nsync_time_s_ns (uint (us div (1000 * 1000))) (1000 * (us mod (1000 * 1000)))"

section \<open>Seconds and unsigned nanoseconds\<close>

datatype debug_time = Debug_time (seconds: int) (nanoseconds: u32)

definition debug_time_s_ns :: "int \<Rightarrow> u32 \<Rightarrow> debug_time" where
  "debug_time_s_ns s ns = Debug_time s ns"

definition debug_time_add :: "debug_time \<Rightarrow> debug_time \<Rightarrow> debug_time option" where
  "debug_time_add a b =
     (case i64 (seconds a + seconds b) of None \<Rightarrow> None | Some sec \<Rightarrow>
      let nsec = nanoseconds a + nanoseconds b in
      if nsec \<ge> 1000000000
      then (case i64 (sec + 1) of None \<Rightarrow> None | Some sec \<Rightarrow> Some (Debug_time sec (nsec - 1000000000)))
      else Some (Debug_time sec nsec))"

definition debug_time_sub :: "debug_time \<Rightarrow> debug_time \<Rightarrow> debug_time option" where
  "debug_time_sub a b =
     (case i64 (seconds a - seconds b) of None \<Rightarrow> None | Some sec \<Rightarrow>
      if nanoseconds a < nanoseconds b
      then (case i64 (sec - 1) of None \<Rightarrow> None | Some sec \<Rightarrow>
            Some (Debug_time sec (nanoseconds a + 1000000000 - nanoseconds b)))
      else Some (Debug_time sec (nanoseconds a - nanoseconds b)))"

definition debug_time_cmp :: "debug_time \<Rightarrow> debug_time \<Rightarrow> int" where
  "debug_time_cmp a b =
     (let cmp = of_bool (seconds a > seconds b) - of_bool (seconds a < seconds b)
      in if cmp = 0 then of_bool (nanoseconds a > nanoseconds b) - of_bool (nanoseconds a < nanoseconds b)
         else cmp)"

section \<open>A 64-bit integer\<close>

definition num_time_s_ns :: "int \<Rightarrow> u32 \<Rightarrow> int option" where
  "num_time_s_ns s ns =
     (case i64 (s * NSYNC_NS_IN_S) of None \<Rightarrow> None | Some x \<Rightarrow> i64 (x + uint ns))"

definition num_time_add :: "int \<Rightarrow> int \<Rightarrow> int option" where
  "num_time_add a b = i64 (a + b)"

definition num_time_sub :: "int \<Rightarrow> int \<Rightarrow> int option" where
  "num_time_sub a b = i64 (a - b)"

definition num_time_cmp :: "int \<Rightarrow> int \<Rightarrow> int" where
  "num_time_cmp a b = of_bool (a > b) - of_bool (a < b)"

section \<open>The common interface\<close>

locale time_rep =
  fixes ok :: "'t \<Rightarrow> bool" and ns :: "'t \<Rightarrow> int"
    and add :: "'t \<Rightarrow> 't \<Rightarrow> 't option" and sub :: "'t \<Rightarrow> 't \<Rightarrow> 't option" and cmp :: "'t \<Rightarrow> 't \<Rightarrow> int"
  assumes ns_inj: "ok a \<Longrightarrow> ok b \<Longrightarrow> ns a = ns b \<Longrightarrow> a = b"
    and add_ns: "ok a \<Longrightarrow> ok b \<Longrightarrow> add a b = Some c \<Longrightarrow> ok c \<and> ns c = ns a + ns b"
    and sub_ns: "ok a \<Longrightarrow> ok b \<Longrightarrow> sub a b = Some c \<Longrightarrow> ok c \<and> ns c = ns a - ns b"
    and sub_defined: "ok a \<Longrightarrow> ok b \<Longrightarrow> ok c \<Longrightarrow> 0 \<le> ns b \<Longrightarrow> ns c = ns a + ns b \<Longrightarrow> sub c b \<noteq> None"
    and cmp_ns: "ok a \<Longrightarrow> ok b \<Longrightarrow> cmp a b = sgn (ns a - ns b)"
begin

lemma add_sub:
  assumes "ok a" "ok b" "0 \<le> ns b" "add a b = Some c"
  shows "sub c b = Some a"
proof -
  have c: "ok c" "ns c = ns a + ns b" using add_ns [OF assms(1,2,4)] by blast+
  then obtain d where d: "sub c b = Some d" using sub_defined [OF assms(1,2) c(1) assms(3) c(2)] by blast
  then have "ok d" "ns d = ns a" using sub_ns [OF c(1) assms(2) d] c(2) by simp_all
  then show ?thesis using ns_inj [OF _ assms(1)] d by blast
qed

lemma cmp_le: "ok a \<Longrightarrow> ok b \<Longrightarrow> cmp a b \<le> 0 \<longleftrightarrow> ns a \<le> ns b"
  by (simp add: cmp_ns sgn_if)

lemma cmp_eq: "ok a \<Longrightarrow> ok b \<Longrightarrow> cmp a b = 0 \<longleftrightarrow> a = b"
  using ns_inj [of a b] by (auto simp: cmp_ns sgn_if)

lemma cmp_trans:
  assumes "ok a" "ok b" "ok c" "cmp a b \<le> 0" "cmp b c \<le> 0"
  shows "cmp a c \<le> 0"
  using cmp_le [OF assms(1,2)] cmp_le [OF assms(2,3)] cmp_le [OF assms(1,3)] assms(4,5) by linarith

text \<open>A deadline computed from a delay expires no earlier than the delay.\<close>

lemma add_mono:
  assumes "ok a" "ok b" "ok d" "add a d = Some x" "add b d = Some y"
  shows "cmp x y = cmp a b"
  using add_ns [OF assms(1,3,4)] add_ns [OF assms(2,3,5)] assms by (simp add: cmp_ns)

end

definition time_ok :: "nsync_time \<Rightarrow> bool" where
  "time_ok t \<longleftrightarrow> - (2 ^ 63) \<le> tv_sec t \<and> tv_sec t < 2 ^ 63 \<and> 0 \<le> tv_nsec t \<and> tv_nsec t < NSYNC_NS_IN_S"

definition time_ns :: "nsync_time \<Rightarrow> int" where
  "time_ns t = tv_sec t * NSYNC_NS_IN_S + tv_nsec t"

definition debug_ok :: "debug_time \<Rightarrow> bool" where
  "debug_ok t \<longleftrightarrow> - (2 ^ 63) \<le> seconds t \<and> seconds t < 2 ^ 63 \<and> nanoseconds t < 1000000000"

text \<open>The debug representation read as a timespec.\<close>

definition debug_abs :: "debug_time \<Rightarrow> nsync_time" where
  "debug_abs t = Timespec (seconds t) (uint (nanoseconds t))"

definition num_ok :: "int \<Rightarrow> bool" where
  "num_ok x \<longleftrightarrow> - (2 ^ 63) \<le> x \<and> x < 2 ^ 63"

text \<open>Times are ordered as pairs.\<close>

instantiation nsync_time :: linorder
begin
definition less_eq_nsync_time :: "nsync_time \<Rightarrow> nsync_time \<Rightarrow> bool" where
  "a \<le> b \<longleftrightarrow> tv_sec a < tv_sec b \<or> tv_sec a = tv_sec b \<and> tv_nsec a \<le> tv_nsec b"
definition less_nsync_time :: "nsync_time \<Rightarrow> nsync_time \<Rightarrow> bool" where
  "a < b \<longleftrightarrow> tv_sec a < tv_sec b \<or> tv_sec a = tv_sec b \<and> tv_nsec a < tv_nsec b"
instance
  by standard (auto simp: less_eq_nsync_time_def less_nsync_time_def intro: nsync_time.expand)
end

lemma i64_Some: "i64 x = Some y \<longleftrightarrow> y = x \<and> - (2 ^ 63) \<le> x \<and> x < 2 ^ 63"
  by (auto simp: i64_def)

lemma i64_None: "i64 x = None \<longleftrightarrow> x < - (2 ^ 63) \<or> 2 ^ 63 \<le> x"
  by (auto simp: i64_def)

lemma sec_split:
  fixes s1 s2 n1 n2 :: int
  assumes "0 \<le> n1" "n1 < K" "0 \<le> n2" "n2 < K"
  shows "s1 * K + n1 < s2 * K + n2 \<longleftrightarrow> s1 < s2 \<or> s1 = s2 \<and> n1 < n2"
proof -
  have K: "0 < K" using assms by simp
  have d: "(s1 * K + n1) div K = s1" "(s2 * K + n2) div K = s2" using assms by (simp_all add: div_add1_eq)
  show ?thesis
  proof (cases s1 s2 rule: linorder_cases)
    case less
    then have "s1 * K + K \<le> s2 * K" using mult_right_mono [of "s1 + 1" s2 K] K by (simp add: algebra_simps)
    then show ?thesis using less assms by simp
  next
    case greater
    then have "s2 * K + K \<le> s1 * K" using mult_right_mono [of "s2 + 1" s1 K] K by (simp add: algebra_simps)
    then show ?thesis using greater assms by simp
  qed simp
qed

lemma time_ns_less: "time_ok a \<Longrightarrow> time_ok b \<Longrightarrow> time_ns a < time_ns b \<longleftrightarrow> a < b"
  using sec_split [of "tv_nsec a" NSYNC_NS_IN_S "tv_nsec b" "tv_sec a" "tv_sec b"]
  by (simp add: time_ok_def time_ns_def less_nsync_time_def)

lemma time_ns_inj: "time_ok a \<Longrightarrow> time_ok b \<Longrightarrow> time_ns a = time_ns b \<Longrightarrow> a = b"
  using time_ns_less [of a b] time_ns_less [of b a] by (metis less_irrefl linorder_neqE)

lemma cmp_order_time: "nsync_time_cmp a b = (if a < b then -1 else if a = b then 0 else 1)"
  by (auto simp: nsync_time_cmp_def Let_def less_nsync_time_def intro: nsync_time.expand)

lemma time_add_ns:
  "time_ok a \<Longrightarrow> time_ok b \<Longrightarrow> nsync_time_add a b = Some c \<Longrightarrow> time_ok c \<and> time_ns c = time_ns a + time_ns b"
  by (auto simp: nsync_time_add_def i64_Some time_ok_def time_ns_def NSYNC_NS_IN_S_def algebra_simps
      split: option.splits if_splits)

lemma time_sub_ns:
  "time_ok a \<Longrightarrow> time_ok b \<Longrightarrow> nsync_time_sub a b = Some c \<Longrightarrow> time_ok c \<and> time_ns c = time_ns a - time_ns b"
  by (auto simp: nsync_time_sub_def i64_Some time_ok_def time_ns_def NSYNC_NS_IN_S_def algebra_simps
      split: option.splits if_splits)


lemma time_sub_defined:
  assumes "time_ok a" "time_ok b" "time_ok c" "0 \<le> time_ns b" "time_ns c = time_ns a + time_ns b"
  shows "nsync_time_sub c b \<noteq> None"
proof -
  have b: "0 \<le> tv_sec b" using assms(2,4) by (simp add: time_ok_def time_ns_def NSYNC_NS_IN_S_def)
  show ?thesis using assms(1-3,5) b
    by (auto simp: nsync_time_sub_def i64_None i64_Some time_ok_def time_ns_def NSYNC_NS_IN_S_def split: option.splits)
qed

interpretation timespec: time_rep time_ok time_ns nsync_time_add nsync_time_sub nsync_time_cmp
proof unfold_locales
  fix a b assume ab: "time_ok a" "time_ok b"
  show "nsync_time_cmp a b = sgn (time_ns a - time_ns b)"
    using time_ns_less [of a b] time_ns_less [of b a] ab by (auto simp: cmp_order_time sgn_if)
qed (use time_ns_inj time_add_ns time_sub_ns time_sub_defined in blast)+

interpretation num: time_rep num_ok "\<lambda>x. x" num_time_add num_time_sub num_time_cmp
  by unfold_locales
     (auto simp: num_ok_def num_time_add_def num_time_sub_def num_time_cmp_def i64_Some i64_None sgn_if)

section \<open>The debug representation refines the timespec\<close>

lemma debug_ok_abs: "debug_ok t \<longleftrightarrow> time_ok (debug_abs t)"
  by (simp add: debug_ok_def time_ok_def debug_abs_def NSYNC_NS_IN_S_def word_less_def)

lemma uint_small_add:
  fixes a b :: u32
  assumes "uint a + uint b < 2 ^ 32"
  shows "uint (a + b) = uint a + uint b"
  using assms by (simp add: uint_word_ariths)

lemma debug_add_abs:
  assumes "debug_ok a" "debug_ok b"
  shows "map_option debug_abs (debug_time_add a b) = nsync_time_add (debug_abs a) (debug_abs b)"
proof -
  have lt: "uint (nanoseconds a) < 1000000000" "uint (nanoseconds b) < 1000000000"
    using assms by (simp_all add: debug_ok_def word_less_def)
  then have u: "uint (nanoseconds a + nanoseconds b) = uint (nanoseconds a) + uint (nanoseconds b)"
    by (intro uint_small_add) simp
  have ge: "nanoseconds a + nanoseconds b \<ge> 1000000000 \<longleftrightarrow> uint (nanoseconds a) + uint (nanoseconds b) \<ge> 1000000000"
    by (simp add: word_le_def u)
  have sub: "uint (nanoseconds a + nanoseconds b - 1000000000) = uint (nanoseconds a) + uint (nanoseconds b) - 1000000000"
    if "uint (nanoseconds a) + uint (nanoseconds b) \<ge> 1000000000"
    using that u uint_sub_lem [of 1000000000 "nanoseconds a + nanoseconds b"] by simp
  have nn: "0 \<le> uint (nanoseconds a)" "0 \<le> uint (nanoseconds b)" by simp_all
  have lo: "- 9223372036854775808 \<le> uint (nanoseconds a) + uint (nanoseconds b)" using nn by linarith
  show ?thesis using lt nn lo u ge sub
    by (auto simp: debug_time_add_def nsync_time_add_def debug_abs_def NSYNC_NS_IN_S_def i64_def Let_def)
qed

lemma debug_sub_abs:
  assumes "debug_ok a" "debug_ok b"
  shows "map_option debug_abs (debug_time_sub a b) = nsync_time_sub (debug_abs a) (debug_abs b)"
proof -
  have lt: "uint (nanoseconds a) < 1000000000" "uint (nanoseconds b) < 1000000000"
    using assms by (simp_all add: debug_ok_def word_less_def)
  have u: "uint (nanoseconds a + 1000000000) = uint (nanoseconds a) + 1000000000"
    using lt uint_small_add [of "nanoseconds a" 1000000000] by simp
  have s1: "uint (nanoseconds a + 1000000000 - nanoseconds b) = uint (nanoseconds a) + 1000000000 - uint (nanoseconds b)"
  proof -
    have "uint (nanoseconds b) \<le> uint (nanoseconds a) + 1000000000" using lt uint_ge_0 [of "nanoseconds a"] by linarith
    then show ?thesis using u uint_sub_lem [of "nanoseconds b" "nanoseconds a + 1000000000"] by simp
  qed
  have s2: "uint (nanoseconds a - nanoseconds b) = uint (nanoseconds a) - uint (nanoseconds b)"
    if "uint (nanoseconds b) \<le> uint (nanoseconds a)" using that by (simp add: uint_sub_lem)
  have nn: "0 \<le> uint (nanoseconds a)" "0 \<le> uint (nanoseconds b)" by simp_all
  have d: "uint (nanoseconds a) - uint (nanoseconds b) < 9223372036854775808"
    "0 \<le> 9223372037854775808 + (uint (nanoseconds a) - uint (nanoseconds b))" using lt nn by linarith+
  show ?thesis using lt nn d u s1 s2
    by (auto simp: debug_time_sub_def nsync_time_sub_def debug_abs_def NSYNC_NS_IN_S_def i64_def word_less_def)
qed

lemma debug_cmp_abs: "debug_time_cmp a b = nsync_time_cmp (debug_abs a) (debug_abs b)"
  by (simp add: debug_time_cmp_def nsync_time_cmp_def debug_abs_def word_less_def)


section \<open>Constructors\<close>

lemma ns_mul:
  fixes k :: u32
  assumes "unat k * unat m < 2 ^ 32"
  shows "uint (k * m) = uint k * uint m"
proof -
  have "unat (k * m) = unat k * unat m" using assms unat_mult_lem [of k m] by simp
  then show ?thesis unfolding uint_nat by simp
qed

lemma ms_ns:
  "time_ok (nsync_time_ms ms) \<and> time_ns (nsync_time_ms ms) = uint ms * 1000000"
proof -
  have m: "uint (ms mod 1000) = uint ms mod 1000" "uint (ms div 1000) = uint ms div 1000"
    by (simp_all add: uint_mod_distrib uint_div_distrib)
  have lt: "uint ms mod 1000 < 1000" "0 \<le> uint ms mod 1000" by simp_all
  have "unat (ms mod 1000) < 1000" by (simp add: unat_mod_distrib)
  then have n: "uint (1000000 * (ms mod 1000)) = 1000000 * (uint ms mod 1000)"
    using ns_mul [of 1000000 "ms mod 1000"] m by simp
  have "uint ms div 1000 * 1000 + uint ms mod 1000 = uint ms" by simp
  then have e: "uint ms div 1000 * 1000000000 + 1000000 * (uint ms mod 1000) = uint ms * 1000000" by linarith
  have "uint ms < 2 ^ 32" using uint_bounded [of ms] by simp
  then have hi: "uint ms div 1000 < 2 ^ 63" "0 \<le> uint ms div 1000" by (auto simp: pos_imp_zdiv_nonneg_iff)
  show ?thesis using n e lt hi
    by (simp add: nsync_time_ms_def nsync_time_s_ns_def time_ok_def time_ns_def NSYNC_NS_IN_S_def m)
qed

lemma us_ns:
  "time_ok (nsync_time_us us) \<and> time_ns (nsync_time_us us) = uint us * 1000"
proof -
  have m: "uint (us mod 1000000) = uint us mod 1000000" "uint (us div 1000000) = uint us div 1000000"
    by (simp_all add: uint_mod_distrib uint_div_distrib)
  have lt: "uint us mod 1000000 < 1000000" "0 \<le> uint us mod 1000000" by simp_all
  have "unat (us mod 1000000) < 1000000" by (simp add: unat_mod_distrib)
  then have n: "uint (1000 * (us mod 1000000)) = 1000 * (uint us mod 1000000)"
    using ns_mul [of 1000 "us mod 1000000"] m by simp
  have "uint us div 1000000 * 1000000 + uint us mod 1000000 = uint us" by simp
  then have e: "uint us div 1000000 * 1000000000 + 1000 * (uint us mod 1000000) = uint us * 1000" by linarith
  have "uint us < 2 ^ 32" using uint_bounded [of us] by simp
  then have hi: "uint us div 1000000 < 2 ^ 63" "0 \<le> uint us div 1000000" by (auto simp: pos_imp_zdiv_nonneg_iff)
  show ?thesis using n e lt hi
    by (simp add: nsync_time_us_def nsync_time_s_ns_def time_ok_def time_ns_def NSYNC_NS_IN_S_def m)
qed

section \<open>Properties\<close>

text \<open>C28.  Adding times and subtracting one again: when \<^verbatim>\<open>nsync_time_add\<close> of two
  well-formed times does not overflow, the result is well-formed and is the sum in
  nanoseconds, and \<^verbatim>\<open>nsync_time_sub\<close> of a non-negative summand gives back the other.\<close>

theorem time_add_sub:
  assumes "time_ok a" "time_ok b" "nsync_time_add a b = Some c"
  shows "time_ok c \<and> time_ns c = time_ns a + time_ns b \<and> (0 \<le> time_ns b \<longrightarrow> nsync_time_sub c b = Some a)"
  using timespec.add_ns [OF assms] timespec.add_sub [OF assms(1,2) _ assms(3)] by blast

theorem time_add_sub_witness:
  "nsync_time_add (Timespec 1 700000000) (Timespec 2 600000000) = Some (Timespec 4 300000000) \<and>
   nsync_time_sub (Timespec 4 300000000) (Timespec 2 600000000) = Some (Timespec 1 700000000)"
proof -
  have a: "nsync_time_add (Timespec 1 700000000) (Timespec 2 600000000) = Some (Timespec 4 300000000)"
    by (simp add: nsync_time_add_def i64_def NSYNC_NS_IN_S_def)
  show ?thesis using time_add_sub [OF _ _ a] a by (simp add: time_ok_def time_ns_def NSYNC_NS_IN_S_def)
qed

text \<open> \<^verbatim>\<open>nsync_time_cmp\<close> compares well-formed times by their nanoseconds, and
  \<^verbatim>\<open>nsync_time_no_deadline\<close> is the largest of them.\<close>

theorem time_cmp_correct:
  assumes "time_ok a" "time_ok b"
  shows "nsync_time_cmp a b = sgn (time_ns a - time_ns b) \<and> nsync_time_cmp a nsync_time_no_deadline \<le> 0"
proof -
  have "a \<le> nsync_time_no_deadline"
    using assms(1) by (auto simp: less_eq_nsync_time_def nsync_time_no_deadline_def time_ok_def)
  then show ?thesis using timespec.cmp_ns [OF assms] by (auto simp: cmp_order_time)
qed

theorem time_cmp_correct_witness:
  "nsync_time_cmp (Timespec 3 5) (Timespec 3 9) = -1 \<and> nsync_time_cmp (Timespec 3 5) nsync_time_no_deadline \<le> 0"
  using time_cmp_correct [of "Timespec 3 5" "Timespec 3 9"]
  by (simp add: time_ok_def time_ns_def NSYNC_NS_IN_S_def)

text \<open> The representations agree: the debug representation refines the timespec, operation by
  operation, and \<^verbatim>\<open>nsync_time_ms\<close> and \<^verbatim>\<open>nsync_time_us\<close> give exactly the number of
  nanoseconds for every argument, without wrap-around of their unsigned products.\<close>

theorem time_representations_agree:
  assumes "debug_ok a" "debug_ok b"
  shows "map_option debug_abs (debug_time_add a b) = nsync_time_add (debug_abs a) (debug_abs b) \<and>
    map_option debug_abs (debug_time_sub a b) = nsync_time_sub (debug_abs a) (debug_abs b) \<and>
    debug_time_cmp a b = nsync_time_cmp (debug_abs a) (debug_abs b) \<and>
    time_ns (nsync_time_ms k) = uint k * 10 ^ 6 \<and> time_ns (nsync_time_us k) = uint k * 10 ^ 3"
  using debug_add_abs [OF assms] debug_sub_abs [OF assms] debug_cmp_abs ms_ns [of k] us_ns [of k] by simp

theorem time_representations_agree_witness:
  "map_option debug_abs (debug_time_add (Debug_time 1 700000000) (Debug_time 2 600000000)) =
     Some (Timespec 4 300000000)"
  using time_representations_agree [of "Debug_time 1 700000000" "Debug_time 2 600000000" 0]
  by (simp add: debug_ok_def debug_abs_def nsync_time_add_def i64_def NSYNC_NS_IN_S_def)

end
