(* ===== verification/Cv.thy ===== *)
theory Cv
  imports Common Time Dll
begin

text \<open>
  \<^verbatim>\<open>internal/cv.c\<close>: condition variables, as a system of threads that share one
  \<^verbatim>\<open>nsync_cv\<close> used with one \<^verbatim>\<open>nsync_mu\<close>.  A waiter struct is named by a number;
  the struct of thread \<open>t\<close> is \<open>t\<close>, and the structs that \<^verbatim>\<open>nsync_wait_n\<close>
  enqueues (flag \<^verbatim>\<open>NSYNC_WAITER_FLAG_MUCV\<close> clear) have numbers of their own.  The lists
  are lists from first to last (theory \<open>Dll\<close>).  A critical section under the spinlock of
  the condition variable is one step, since it gives the word back as it found it but for
  \<^verbatim>\<open>CV_NON_EMPTY\<close>; every other access to shared memory is a step of its own.  The mutex is
  the environment: its word may change at any time, and it may take waiters from its queue and
  wake them, as theory \<open>Mu_Waiters\<close> shows it does.
\<close>

datatype cv_result = Cv_ok | Cv_ETIMEDOUT | Cv_ECANCELED

text \<open>The local variables of a wait; \<open>v_mu\<close>: the mutex is an \<^verbatim>\<open>nsync_mu\<close>.\<close>

record cv_wait =
  v_mu :: bool
  v_reader :: bool
  v_remove_count :: u32
  v_sem_outcome :: cv_result
  v_outcome :: cv_result

datatype cv_pc =
    Cv_client | Cv_panicked string | Cv_returned cv_result
  | W_prepare bool | W_mode | W_enqueue cv_wait | W_unlock cv_wait | W_loop cv_wait | W_sem cv_wait | W_check cv_wait
  | W_confirm cv_wait | W_delay cv_wait | W_relock cv_wait
  | S_load | S_detach | B_load | B_detach
  | S_mu_load "nat list" bool | S_mu_cas u32 "nat list" bool | S_rel_load u32 "nat list" | S_rel_cas u32 u32 "nat list"
  | S_wake "nat list" | S_post nat "nat list"

text \<open>\<open>cv_raced\<close> is not a variable of the program; it records that \<^verbatim>\<open>cv_dequeue\<close> has unlinked a
  struct from the list of a signaller, see there.\<close>

record cv_sys =
  cv_word :: u32
  cv_waiters :: "nat list"
  pmu_word :: u32
  pmu_waiters :: "nat list"
  pmu_posts :: "nat list"
  nw_mucv :: "nat \<Rightarrow> bool"
  nw_waiting :: "nat \<Rightarrow> bool"
  nw_sem :: "nat \<Rightarrow> nat"
  wt_l_type :: "nat \<Rightarrow> lmode option"
  wt_cv_mu :: "nat \<Rightarrow> bool"
  wt_remove_count :: "nat \<Rightarrow> u32"
  cv_pcs :: "tid \<Rightarrow> cv_pc"
  cv_raced :: bool

definition cgoto :: "tid \<Rightarrow> cv_pc \<Rightarrow> cv_sys \<Rightarrow> cv_sys" where
  "cgoto t p s = s\<lparr>cv_pcs := (cv_pcs s)(t := p)\<rparr>"

definition nsync_cv_init :: cv_sys where
  "nsync_cv_init = \<lparr>cv_word = 0, cv_waiters = [], pmu_word = 0, pmu_waiters = [], pmu_posts = [],
     nw_mucv = \<lambda>_. True, nw_waiting = \<lambda>_. False, nw_sem = \<lambda>_. 0, wt_l_type = \<lambda>_. None, wt_cv_mu = \<lambda>_. False,
     wt_remove_count = \<lambda>_. 0, cv_pcs = \<lambda>_. Cv_client, cv_raced = False\<rparr>"

section \<open>Choosing the waiters to wake\<close>

text \<open>A waiter that reads through an \<^verbatim>\<open>nsync_mu\<close>.\<close>

definition is_reader :: "cv_sys \<Rightarrow> nat \<Rightarrow> bool" where
  "is_reader s p \<longleftrightarrow> nw_mucv s p \<and> wt_l_type s p = Some nsync_reader_type"

text \<open>The loop of \<^verbatim>\<open>nsync_cv_signal\<close> when the first waiter is a reader: what stays, what is woken, whether one is no reader.\<close>

fun signal_scan :: "(nat \<Rightarrow> bool) \<Rightarrow> nat list \<Rightarrow> bool \<Rightarrow> nat list \<times> nat list \<times> bool" where
  "signal_scan rd [] woke_writer = ([], [], woke_writer)"
| "signal_scan rd (p # ps) woke_writer =
     (if rd p
      then (case signal_scan rd ps woke_writer of (keep, wake, ww) \<Rightarrow> (keep, p # wake, ww))
      else if \<not> woke_writer
      then (case signal_scan rd ps True of (keep, wake, ww) \<Rightarrow> (keep, p # wake, ww))
      else (case signal_scan rd ps woke_writer of (keep, wake, ww) \<Rightarrow> (p # keep, wake, ww)))"

text \<open>Every native waiter taken off the list has its \<^verbatim>\<open>remove_count\<close> incremented.\<close>

definition count_removed :: "nat list \<Rightarrow> cv_sys \<Rightarrow> cv_sys" where
  "count_removed ps s =
     s\<lparr>wt_remove_count := (\<lambda>p. if p \<in> set ps \<and> nw_mucv s p then wt_remove_count s p + 1 else wt_remove_count s p)\<rparr>"

text \<open>The critical section of \<^verbatim>\<open>nsync_cv_signal\<close>: the state after it, \<^verbatim>\<open>to_wake_list\<close> and \<^verbatim>\<open>all_readers\<close>.\<close>

definition cv_signal_detach :: "cv_sys \<Rightarrow> cv_sys \<times> nat list \<times> bool" where
  "cv_signal_detach s =
     (case cv_waiters s of
        [] \<Rightarrow> (s, [], False)
      | first # rest \<Rightarrow>
          (let (keep, wake, all_readers) =
                 (if is_reader s first
                  then (case signal_scan (is_reader s) rest False of (keep, wake, ww) \<Rightarrow> (keep, first # wake, \<not> ww))
                  else (rest, [first], False));
               s = count_removed wake (s\<lparr>cv_waiters := keep\<rparr>)
           in (s\<lparr>cv_word := if keep = [] then cv_word s AND NOT CV_NON_EMPTY else cv_word s\<rparr>, wake, all_readers)))"

definition cv_broadcast_detach :: "cv_sys \<Rightarrow> cv_sys \<times> nat list \<times> bool" where
  "cv_broadcast_detach s =
     (let wake = cv_waiters s
      in ((count_removed wake (s\<lparr>cv_waiters := []\<rparr>))\<lparr>cv_word := 0\<rparr>, wake, list_all (is_reader s) wake))"

section \<open>Waking\<close>

text \<open>
  The loop of \<^verbatim>\<open>wake_waiters\<close> over the waiters after the first: what stays on
  \<^verbatim>\<open>to_wake_list\<close>, what is transferred, and the two flags.
\<close>

fun transfer_scan :: "cv_sys \<Rightarrow> bool \<Rightarrow> bool \<Rightarrow> nat list \<Rightarrow> bool \<Rightarrow> bool \<Rightarrow> nat list \<times> nat list \<times> bool \<times> bool" where
  "transfer_scan s cant fw [] tw wr = ([], [], tw, wr)"
| "transfer_scan s cant fw (p # ps) tw wr =
     (let p_is_writer = (nw_mucv s p \<and> wt_l_type s p = Some nsync_writer_type)
      in if \<not> nw_mucv s p
         then (case transfer_scan s cant fw ps tw wr of (keep, move, tw, wr) \<Rightarrow> (p # keep, move, tw, wr))
         else if cant \<or> fw \<or> p_is_writer
         then (case transfer_scan s cant fw ps (tw \<or> p_is_writer) wr of (keep, move, tw, wr) \<Rightarrow> (keep, p # move, tw, wr))
         else (case transfer_scan s cant fw ps tw (wr \<or> \<not> p_is_writer) of (keep, move, tw, wr) \<Rightarrow> (p # keep, move, tw, wr)))"

definition first_cant_acquire :: "cv_sys \<Rightarrow> u32 \<Rightarrow> nat \<Rightarrow> bool" where
  "first_cant_acquire s old first \<longleftrightarrow> old AND zero_to_acquire (lt (the (wt_l_type s first))) \<noteq> 0"

text \<open>The transfer under the spinlock of the mutex: the state, what stays and \<^verbatim>\<open>set_on_release\<close>.\<close>

definition wake_transfer :: "cv_sys \<Rightarrow> u32 \<Rightarrow> nat \<Rightarrow> nat list \<Rightarrow> cv_sys \<times> nat list \<times> u32" where
  "wake_transfer s old first rest =
     (let cant = first_cant_acquire s old first;
          fw = (wt_l_type s first = Some nsync_writer_type);
          (keep, move, tw, wr) = transfer_scan s cant fw rest (cant \<and> fw) (\<not> cant \<and> \<not> fw);
          keep = (if cant then keep else first # keep);
          move = (if cant then first # move else move)
      in (s\<lparr>pmu_waiters := pmu_waiters s @ move,
            wt_cv_mu := (\<lambda>p. if p \<in> set move then False else wt_cv_mu s p)\<rparr>, keep,
          if tw \<and> \<not> wr then MU_WRITER_WAITING else 0))"

text \<open>The test before the transfer.\<close>

definition should_transfer :: "cv_sys \<Rightarrow> u32 \<Rightarrow> nat list \<Rightarrow> bool \<Rightarrow> bool" where
  "should_transfer s old to_wake all_readers \<longleftrightarrow>
     old AND MU_ANY_LOCK \<noteq> 0 \<and> old AND MU_SPINLOCK = 0 \<and>
     (first_cant_acquire s old (hd to_wake) \<or> tl to_wake \<noteq> [] \<and> \<not> all_readers)"

text \<open>The steps of \<^verbatim>\<open>wake_waiters\<close>; its list is not empty on entry.\<close>

fun wake_waiters :: "tid \<Rightarrow> cv_pc \<Rightarrow> cv_sys \<Rightarrow> cv_sys" where
  "wake_waiters t (S_mu_load ps all_readers) s =
     (if nw_mucv s (hd ps) \<and> wt_cv_mu s (hd ps)
      then (let old = pmu_word s
            in if should_transfer s old ps all_readers then cgoto t (S_mu_cas old ps all_readers) s
               else cgoto t (S_wake ps) s)
      else cgoto t (S_wake ps) s)"
| "wake_waiters t (S_mu_cas old ps all_readers) s =
     (if pmu_word s = old
      then (let s = s\<lparr>pmu_word := (old OR MU_SPINLOCK OR MU_WAITING) AND NOT MU_ALL_FALSE\<rparr>;
                (s, keep, set_on_release) = wake_transfer s old (hd ps) (tl ps)
            in cgoto t (S_rel_load set_on_release keep) s)
      else cgoto t (S_wake ps) s)"
| "wake_waiters t (S_rel_load set_on_release ps) s = cgoto t (S_rel_cas (pmu_word s) set_on_release ps) s"
| "wake_waiters t (S_rel_cas old set_on_release ps) s =
     (if pmu_word s = old
      then cgoto t (S_wake ps) (s\<lparr>pmu_word := (old OR set_on_release) AND NOT MU_SPINLOCK\<rparr>)
      else cgoto t (S_rel_load set_on_release ps) s)"
| "wake_waiters t (S_wake ps) s =
     (case ps of
        [] \<Rightarrow> cgoto t Cv_client s
      | p # ps \<Rightarrow> cgoto t (S_post p ps) (s\<lparr>nw_waiting := (nw_waiting s)(p := False)\<rparr>))"
| "wake_waiters t (S_post p ps) s = cgoto t (S_wake ps) (s\<lparr>nw_sem := (nw_sem s)(p := nw_sem s p + 1)\<rparr>)"
| "wake_waiters t p s = s"

fun nsync_cv_signal :: "tid \<Rightarrow> cv_pc \<Rightarrow> cv_sys \<Rightarrow> cv_sys" where
  "nsync_cv_signal t S_load s =
     (if cv_word s AND CV_NON_EMPTY \<noteq> 0 then cgoto t S_detach s else cgoto t Cv_client s)"
| "nsync_cv_signal t S_detach s =
     (case cv_signal_detach s of
        (s, to_wake, all_readers) \<Rightarrow>
          if to_wake \<noteq> [] then cgoto t (S_mu_load to_wake all_readers) s else cgoto t Cv_client s)"
| "nsync_cv_signal t p s = s"

fun nsync_cv_broadcast :: "tid \<Rightarrow> cv_pc \<Rightarrow> cv_sys \<Rightarrow> cv_sys" where
  "nsync_cv_broadcast t B_load s =
     (if cv_word s AND CV_NON_EMPTY \<noteq> 0 then cgoto t B_detach s else cgoto t Cv_client s)"
| "nsync_cv_broadcast t B_detach s =
     (case cv_broadcast_detach s of
        (s, to_wake, all_readers) \<Rightarrow>
          if to_wake \<noteq> [] then cgoto t (S_mu_load to_wake all_readers) s else cgoto t Cv_client s)"
| "nsync_cv_broadcast t p s = s"

section \<open>Waiting\<close>

text \<open>
  \<^verbatim>\<open>nsync_cv_wait_with_deadline_generic\<close>.  \<open>W_prepare mu\<close> is the entry, where \<open>mu\<close>
  says whether the mutex is an \<^verbatim>\<open>nsync_mu\<close>; \<open>expire\<close> is what
  \<^verbatim>\<open>nsync_sem_wait_with_cancel_\<close> reports instead of a wakeup.
\<close>

definition cv_wait_start :: "bool \<Rightarrow> bool \<Rightarrow> cv_wait" where
  "cv_wait_start mu reader = \<lparr>v_mu = mu, v_reader = reader, v_remove_count = 0, v_sem_outcome = Cv_ok, v_outcome = Cv_ok\<rparr>"

fun nsync_cv_wait_with_deadline_generic :: "tid \<Rightarrow> cv_result option \<Rightarrow> cv_pc \<Rightarrow> cv_sys \<Rightarrow> cv_sys" where
  "nsync_cv_wait_with_deadline_generic t expire (W_prepare mu) s =
     (let s = s\<lparr>nw_waiting := (nw_waiting s)(t := True), wt_cv_mu := (wt_cv_mu s)(t := mu)\<rparr>
      in if mu then cgoto t W_mode s
         else cgoto t (W_enqueue (cv_wait_start False False)) (s\<lparr>wt_l_type := (wt_l_type s)(t := None)\<rparr>))"
| "nsync_cv_wait_with_deadline_generic t expire W_mode s =
     (let old_mu_word = pmu_word s;
          is_writer = (old_mu_word AND MU_WHELD_IF_NON_ZERO \<noteq> 0);
          is_reader = (old_mu_word AND MU_RHELD_IF_NON_ZERO \<noteq> 0)
      in if is_writer
         then (if is_reader then cgoto t (Cv_panicked ''mu held in reader and writer mode simultaneously on entry to nsync_cv_wait_with_deadline()'') s
               else cgoto t (W_enqueue (cv_wait_start True False)) (s\<lparr>wt_l_type := (wt_l_type s)(t := Some nsync_writer_type)\<rparr>))
         else if is_reader
         then cgoto t (W_enqueue (cv_wait_start True True)) (s\<lparr>wt_l_type := (wt_l_type s)(t := Some nsync_reader_type)\<rparr>)
         else cgoto t (Cv_panicked ''mu not held on entry to nsync_cv_wait_with_deadline()'') s)"
| "nsync_cv_wait_with_deadline_generic t expire (W_enqueue v) s =
     cgoto t (W_unlock (v\<lparr>v_remove_count := wt_remove_count s t\<rparr>))
       (s\<lparr>cv_waiters := cv_waiters s @ [t], cv_word := cv_word s OR CV_NON_EMPTY\<rparr>)"
| "nsync_cv_wait_with_deadline_generic t expire (W_unlock v) s = cgoto t (W_loop v) s"
| "nsync_cv_wait_with_deadline_generic t expire (W_loop v) s =
     (if nw_waiting s t then cgoto t (if v_sem_outcome v = Cv_ok then W_sem v else W_check v) s
      else cgoto t (W_relock v) s)"
| "nsync_cv_wait_with_deadline_generic t expire (W_sem v) s =
     (case expire of
        Some e \<Rightarrow> cgoto t (W_check (v\<lparr>v_sem_outcome := e\<rparr>)) s
      | None \<Rightarrow>
          if nw_sem s t = 0 then s
          else cgoto t (W_check v) (s\<lparr>nw_sem := (nw_sem s)(t := nw_sem s t - 1)\<rparr>))"
| "nsync_cv_wait_with_deadline_generic t expire (W_check v) s =
     (if v_sem_outcome v \<noteq> Cv_ok \<and> nw_waiting s t then cgoto t (W_confirm v) s else cgoto t (W_delay v) s)"
| "nsync_cv_wait_with_deadline_generic t expire (W_confirm v) s =
     (if nw_waiting s t \<and> v_remove_count v = wt_remove_count s t
      then (let ws = remove1 t (cv_waiters s)
            in cgoto t (W_delay (v\<lparr>v_outcome := v_sem_outcome v\<rparr>))
                 (s\<lparr>cv_waiters := ws, wt_remove_count := (wt_remove_count s)(t := wt_remove_count s t + 1),
                    cv_word := if ws = [] then cv_word s AND NOT CV_NON_EMPTY else cv_word s,
                    nw_waiting := (nw_waiting s)(t := False)\<rparr>))
      else cgoto t (W_delay v) s)"
| "nsync_cv_wait_with_deadline_generic t expire (W_delay v) s = cgoto t (W_loop v) s"
| "nsync_cv_wait_with_deadline_generic t expire (W_relock v) s = cgoto t (Cv_returned (v_outcome v)) s"
| "nsync_cv_wait_with_deadline_generic t expire p s = s"

text \<open>
  Whether the mutex is reacquired with \<^verbatim>\<open>nsync_mu_lock_slow_\<close>, as the designated waker, at
  \<open>W_relock\<close>: the waiter had been moved to the queue of the mutex.
\<close>

definition relock_slow :: "cv_sys \<Rightarrow> tid \<Rightarrow> cv_wait \<Rightarrow> bool" where
  "relock_slow s t v \<longleftrightarrow> v_mu v \<and> \<not> wt_cv_mu s t"

definition nsync_cv_wait_with_deadline :: "tid \<Rightarrow> cv_sys \<Rightarrow> cv_sys" where
  "nsync_cv_wait_with_deadline t s = cgoto t (W_prepare True) s"

text \<open>Without a deadline and without a note the semaphore never reports anything but a wakeup.\<close>

definition nsync_cv_wait :: "tid \<Rightarrow> cv_sys \<Rightarrow> cv_sys" where
  "nsync_cv_wait t s = nsync_cv_wait_with_deadline t s"

section \<open>Waiting through \<^verbatim>\<open>nsync_wait_n\<close>\<close>

text \<open>\<open>nw\<close> is a struct of \<^verbatim>\<open>nsync_wait_n\<close>, \<open>None\<close> is NULL.\<close>

definition cv_ready_time :: "cv_sys \<Rightarrow> nat option \<Rightarrow> nsync_time" where
  "cv_ready_time s nw =
     (case nw of None \<Rightarrow> nsync_time_no_deadline
      | Some nw \<Rightarrow> if nw_waiting s nw then nsync_time_no_deadline else nsync_time_zero)"

definition cv_enqueue :: "nat \<Rightarrow> cv_sys \<Rightarrow> cv_sys \<times> bool" where
  "cv_enqueue nw s =
     (s\<lparr>cv_waiters := cv_waiters s @ [nw], nw_waiting := (nw_waiting s)(nw := True),
        cv_word := cv_word s OR CV_NON_EMPTY\<rparr>, True)"

text \<open>
  \<^verbatim>\<open>cv_dequeue\<close> unlinks \<open>nw\<close>, if its flag is set, from whatever ring it is on: the queue
  of the condition variable, or the \<^verbatim>\<open>to_wake_list\<close> of a signaller that has detached it and not
  yet woken it.  The signaller then sees its list without \<open>nw\<close>, or \<open>nw\<close> alone when
  \<open>nw\<close> was last (lemma \<open>remove_elsewhere\<close> of theory \<open>Dll\<close>).  This second case is a data
  race, since the signaller walks its list without the spinlock and may already hold a pointer to
  \<open>nw\<close>; \<open>cv_raced\<close> records it, and what follows it is not described exactly.
\<close>

fun unlink_pc :: "nat \<Rightarrow> cv_pc \<Rightarrow> cv_pc" where
  "unlink_pc nw (S_mu_load ps all_readers) = S_mu_load (unlink nw ps) all_readers"
| "unlink_pc nw (S_mu_cas old ps all_readers) = S_mu_cas old (unlink nw ps) all_readers"
| "unlink_pc nw (S_rel_load set_on_release ps) = S_rel_load set_on_release (unlink nw ps)"
| "unlink_pc nw (S_rel_cas old set_on_release ps) = S_rel_cas old set_on_release (unlink nw ps)"
| "unlink_pc nw (S_wake ps) = S_wake (unlink nw ps)"
| "unlink_pc nw (S_post p ps) = S_post p (unlink nw ps)"
| "unlink_pc nw p = p"

definition cv_dequeue :: "nat \<Rightarrow> cv_sys \<Rightarrow> cv_sys \<times> bool" where
  "cv_dequeue nw s =
     (let was_queued = nw_waiting s nw;
          s = (if was_queued
               then s\<lparr>cv_waiters := remove1 nw (cv_waiters s), cv_pcs := (\<lambda>t. unlink_pc nw (cv_pcs s t)),
                      nw_waiting := (nw_waiting s)(nw := False),
                      cv_raced := cv_raced s \<or> nw \<notin> set (cv_waiters s)\<rparr>
               else s)
      in (s\<lparr>cv_word := if cv_waiters s = [] then cv_word s AND NOT CV_NON_EMPTY else cv_word s\<rparr>, was_queued))"

section \<open>The scans as filters\<close>

lemma signal_scan_all_readers: "list_all rd ps \<Longrightarrow> signal_scan rd ps w = ([], ps, w)"
  by (induction ps) auto

lemma signal_scan_woke: "signal_scan rd ps True = (filter (\<lambda>p. \<not> rd p) ps, filter rd ps, True)"
  by (induction ps) auto

lemma signal_scan_split:
  assumes "list_all rd as" "\<not> rd w"
  shows "signal_scan rd (as @ w # bs) False = (filter (\<lambda>p. \<not> rd p) bs, as @ w # filter rd bs, True)"
  using assms by (induction as) (auto simp: signal_scan_woke)

lemma readers_prefix:
  obtains "list_all rd ps" | as w bs where "ps = as @ w # bs" "list_all rd as" "\<not> rd w"
proof (cases "list_all rd ps")
  case False
  then obtain as w bs where "ps = as @ w # bs" "\<not> rd w" "\<forall>a\<in>set as. rd a"
    using split_list_first_prop [of ps "\<lambda>p. \<not> rd p"] by (auto simp: list_all_iff)
  then show thesis using that(2) by (auto simp: list_all_iff)
qed (use that(1) in blast)

definition transferred :: "cv_sys \<Rightarrow> bool \<Rightarrow> nat \<Rightarrow> bool" where
  "transferred s everyone p \<longleftrightarrow> nw_mucv s p \<and> (everyone \<or> wt_l_type s p = Some nsync_writer_type)"

lemma transfer_scan_filter:
  "transfer_scan s cant fw ps tw wr =
     (filter (\<lambda>p. \<not> transferred s (cant \<or> fw) p) ps, filter (transferred s (cant \<or> fw)) ps,
      tw \<or> (\<exists>p\<in>set ps. nw_mucv s p \<and> wt_l_type s p = Some nsync_writer_type),
      wr \<or> (\<exists>p\<in>set ps. nw_mucv s p \<and> \<not> transferred s (cant \<or> fw) p))"
  by (induction ps arbitrary: tw wr) (auto simp: transferred_def Let_def)

end
