(* ===== verification/Cv_Inv.thy ===== *)
theory Cv_Inv
  imports Cv
begin

text \<open>
  The threads of theory \<open>Cv\<close> as a step relation, for any number of threads and any
  interleaving, and its invariant: where every waiting struct is, which post is on its way to a
  thread that was woken, and how \<^verbatim>\<open>CV_NON_EMPTY\<close> describes the queue.
\<close>

section \<open>Steps\<close>

text \<open>
  A thread is a number \<open>t\<close> with \<open>nw_mucv\<close> set; all threads pass the same kind of mutex,
  as \<^verbatim>\<open>wake_waiters\<close> requires.  The mutex may change its word at any time, and take any
  waiter off its queue, clear its flag and post its semaphore.  \<^verbatim>\<open>nsync_wait_n\<close> may dequeue
  a struct of its own at any time, also one that a signaller has detached; the invariant below holds
  until it does the latter, which theory \<open>Cv_Props\<close> shows to strand another waiter.
\<close>

definition may_call :: "cv_pc \<Rightarrow> bool" where
  "may_call p = (case p of Cv_client \<Rightarrow> True | Cv_returned r \<Rightarrow> True | _ \<Rightarrow> False)"

inductive cv_step :: "bool \<Rightarrow> cv_sys \<Rightarrow> cv_sys \<Rightarrow> bool" for mu where
  call_wait: "nw_mucv s t \<Longrightarrow> may_call (cv_pcs s t) \<Longrightarrow> cv_step mu s (cgoto t (W_prepare mu) s)"
| call_signal: "nw_mucv s t \<Longrightarrow> may_call (cv_pcs s t) \<Longrightarrow> cv_step mu s (cgoto t S_load s)"
| call_broadcast: "nw_mucv s t \<Longrightarrow> may_call (cv_pcs s t) \<Longrightarrow> cv_step mu s (cgoto t B_load s)"
| wait: "nw_mucv s t \<Longrightarrow> expire \<noteq> Some Cv_ok \<Longrightarrow>
    cv_step mu s (nsync_cv_wait_with_deadline_generic t expire (cv_pcs s t) s)"
| signal: "nw_mucv s t \<Longrightarrow> cv_step mu s (nsync_cv_signal t (cv_pcs s t) s)"
| broadcast: "nw_mucv s t \<Longrightarrow> cv_step mu s (nsync_cv_broadcast t (cv_pcs s t) s)"
| wake: "nw_mucv s t \<Longrightarrow> cv_step mu s (wake_waiters t (cv_pcs s t) s)"
| enqueue: "\<not> nw_mucv s i \<Longrightarrow> \<not> nw_waiting s i \<Longrightarrow> cv_step mu s (fst (cv_enqueue i s))"
| dequeue: "\<not> nw_mucv s i \<Longrightarrow> cv_step mu s (fst (cv_dequeue i s))"
| mu_word: "cv_step mu s (s\<lparr>pmu_word := w\<rparr>)"
| mu_wake: "i \<in> set (pmu_waiters s) \<Longrightarrow>
    cv_step mu s (s\<lparr>pmu_waiters := remove1 i (pmu_waiters s), pmu_posts := i # pmu_posts s,
      nw_waiting := (nw_waiting s)(i := False)\<rparr>)"
| mu_post: "i \<in> set (pmu_posts s) \<Longrightarrow>
    cv_step mu s (s\<lparr>pmu_posts := remove1 i (pmu_posts s), nw_sem := (nw_sem s)(i := nw_sem s i + 1)\<rparr>)"

text \<open>\<open>native\<close> says which numbers are threads.\<close>

definition cv_start :: "(nat \<Rightarrow> bool) \<Rightarrow> cv_sys" where
  "cv_start native = nsync_cv_init\<lparr>nw_mucv := native\<rparr>"

definition cv_reach :: "bool \<Rightarrow> (nat \<Rightarrow> bool) \<Rightarrow> cv_sys \<Rightarrow> bool" where
  "cv_reach mu native = (cv_step mu)\<^sup>*\<^sup>* (cv_start native)"

section \<open>The invariant\<close>

text \<open>The waiters a signalling thread has detached and not yet woken.\<close>

fun detached :: "cv_pc \<Rightarrow> nat list" where
  "detached (S_mu_load ps a) = ps"
| "detached (S_mu_cas old ps a) = ps"
| "detached (S_rel_load r ps) = ps"
| "detached (S_rel_cas old r ps) = ps"
| "detached (S_wake ps) = ps"
| "detached (S_post p ps) = ps"
| "detached _ = []"

definition placed :: "cv_sys \<Rightarrow> nat \<Rightarrow> bool" where
  "placed s i \<longleftrightarrow> i \<in> set (cv_waiters s) \<or> i \<in> set (pmu_waiters s) \<or> (\<exists>t. i \<in> set (detached (cv_pcs s t)))"

definition post_pending :: "cv_sys \<Rightarrow> nat \<Rightarrow> bool" where
  "post_pending s i \<longleftrightarrow> i \<in> set (pmu_posts s) \<or> (\<exists>u ps. cv_pcs s u = S_post i ps)"

definition lists_ok :: "cv_sys \<Rightarrow> bool" where
  "lists_ok s \<longleftrightarrow>
     (\<forall>t. distinct (cv_waiters s @ pmu_waiters s @ detached (cv_pcs s t))) \<and>
     (\<forall>t u. t \<noteq> u \<longrightarrow> set (detached (cv_pcs s t)) \<inter> set (detached (cv_pcs s u)) = {}) \<and>
     (\<forall>i. placed s i \<longrightarrow> nw_waiting s i)"

text \<open>A thread inside the loop of its wait: while it waits it is in just one place, and its
  \<^verbatim>\<open>remove_count\<close> tells whether this is the queue of the condition variable.\<close>

definition waiting_ok :: "cv_sys \<Rightarrow> tid \<Rightarrow> cv_wait \<Rightarrow> bool" where
  "waiting_ok s t v \<longleftrightarrow>
     (nw_waiting s t \<longrightarrow> placed s t \<and> (t \<in> set (cv_waiters s) \<longleftrightarrow> wt_remove_count s t = v_remove_count v) \<and>
        v_outcome v = Cv_ok)"

fun wait_pc :: "cv_pc \<Rightarrow> cv_wait option" where
  "wait_pc (W_unlock v) = Some v"
| "wait_pc (W_loop v) = Some v"
| "wait_pc (W_sem v) = Some v"
| "wait_pc (W_check v) = Some v"
| "wait_pc (W_confirm v) = Some v"
| "wait_pc (W_delay v) = Some v"
| "wait_pc _ = None"

fun before_enqueue :: "cv_pc \<Rightarrow> bool" where
  "before_enqueue W_mode = True"
| "before_enqueue (W_enqueue v) = True"
| "before_enqueue (Cv_panicked m) = True"
| "before_enqueue _ = False"

fun to_wake_ok :: "cv_sys \<Rightarrow> cv_pc \<Rightarrow> bool" where
  "to_wake_ok s (S_mu_load ps a) \<longleftrightarrow> ps \<noteq> []"
| "to_wake_ok s (S_mu_cas old ps a) \<longleftrightarrow> ps \<noteq> [] \<and> nw_mucv s (hd ps)"
| "to_wake_ok s _ \<longleftrightarrow> True"

definition pc_ok :: "cv_sys \<Rightarrow> tid \<Rightarrow> cv_pc \<Rightarrow> bool" where
  "pc_ok s t p \<longleftrightarrow>
     (case wait_pc p of
        Some v \<Rightarrow> waiting_ok s t v \<and> (p = W_sem v \<longrightarrow> \<not> nw_waiting s t \<longrightarrow> 0 < nw_sem s t \<or> post_pending s t)
      | None \<Rightarrow> if before_enqueue p then nw_waiting s t \<and> \<not> placed s t else \<not> nw_waiting s t) \<and>
     (\<forall>v. p = W_enqueue v \<longrightarrow> v_outcome v = Cv_ok) \<and> to_wake_ok s p"

definition cv_inv :: "cv_sys \<Rightarrow> bool" where
  "cv_inv s \<longleftrightarrow>
     lists_ok s \<and>
     (\<forall>t. nw_mucv s t \<longrightarrow> pc_ok s t (cv_pcs s t)) \<and>
     (\<forall>i. \<not> nw_mucv s i \<longrightarrow> cv_pcs s i = Cv_client \<and> (nw_waiting s i \<longrightarrow> placed s i)) \<and>
     (\<forall>i\<in>set (pmu_waiters s). nw_mucv s i \<and> \<not> wt_cv_mu s i) \<and>
     cv_word s = (if cv_waiters s = [] then 0 else CV_NON_EMPTY)"

lemma cgoto_fields [simp]:
  "cv_pcs (cgoto t p s) = (cv_pcs s)(t := p)" "cv_word (cgoto t p s) = cv_word s"
  "cv_waiters (cgoto t p s) = cv_waiters s" "pmu_word (cgoto t p s) = pmu_word s"
  "pmu_waiters (cgoto t p s) = pmu_waiters s" "pmu_posts (cgoto t p s) = pmu_posts s"
  "nw_mucv (cgoto t p s) = nw_mucv s" "nw_waiting (cgoto t p s) = nw_waiting s"
  "nw_sem (cgoto t p s) = nw_sem s" "wt_l_type (cgoto t p s) = wt_l_type s"
  "wt_cv_mu (cgoto t p s) = wt_cv_mu s" "wt_remove_count (cgoto t p s) = wt_remove_count s"
  "cv_raced (cgoto t p s) = cv_raced s"
  by (simp_all add: cgoto_def)

section \<open>What a step of one thread may change\<close>

text \<open>
  \<open>T\<close> is empty or the thread that steps, and \<open>mine\<close> the structs on the shared lists and
  in its hands.  Structs may move within \<open>mine\<close>, enter it when they were nowhere, and leave it
  when their flag is cleared and a post is on its way.
\<close>

definition mine :: "tid set \<Rightarrow> cv_sys \<Rightarrow> nat set" where
  "mine T s = set (cv_waiters s) \<union> set (pmu_waiters s) \<union> (\<Union>t\<in>T. set (detached (cv_pcs s t)))"

definition counted :: "cv_sys \<Rightarrow> cv_sys \<Rightarrow> nat \<Rightarrow> bool" where
  "counted s s' i \<longleftrightarrow>
     (if i \<in> set (cv_waiters s) \<and> i \<notin> set (cv_waiters s')
      then wt_remove_count s' i = wt_remove_count s i + 1
      else wt_remove_count s' i = wt_remove_count s i \<and> (i \<in> set (cv_waiters s') \<longrightarrow> i \<in> set (cv_waiters s)))"

definition moves :: "tid set \<Rightarrow> cv_sys \<Rightarrow> cv_sys \<Rightarrow> bool" where
  "moves T s s' \<longleftrightarrow>
     (\<forall>u. u \<notin> T \<longrightarrow> cv_pcs s' u = cv_pcs s u) \<and> nw_mucv s' = nw_mucv s \<and>
     distinct (cv_waiters s' @ pmu_waiters s') \<and>
     (\<forall>t\<in>T. distinct (cv_waiters s' @ pmu_waiters s' @ detached (cv_pcs s' t))) \<and>
     (\<forall>i\<in>mine T s'. nw_waiting s' i \<and> (i \<in> mine T s \<or> \<not> placed s i)) \<and>
     (\<forall>i. i \<notin> T \<longrightarrow> i \<notin> mine T s' \<longrightarrow> nw_waiting s' i = (nw_waiting s i \<and> i \<notin> mine T s)) \<and>
     (\<forall>i. i \<notin> T \<longrightarrow> i \<in> mine T s \<longrightarrow> i \<notin> mine T s' \<longrightarrow> nw_mucv s i \<longrightarrow> post_pending s' i) \<and>
     (\<forall>i. i \<notin> T \<longrightarrow> post_pending s i \<longrightarrow> post_pending s' i \<or> 0 < nw_sem s' i) \<and>
     (\<forall>i. i \<notin> T \<longrightarrow> nw_sem s i \<le> nw_sem s' i) \<and>
     (\<forall>i. i \<notin> T \<longrightarrow> nw_mucv s i \<longrightarrow> i \<in> mine T s' \<longrightarrow> i \<in> mine T s \<and>
        counted s s' i) \<and>
     (\<forall>i. i \<notin> T \<longrightarrow> i \<notin> mine T s \<longrightarrow> wt_remove_count s' i = wt_remove_count s i) \<and>
     (\<forall>i\<in>set (pmu_waiters s'). nw_mucv s i \<and> \<not> wt_cv_mu s' i) \<and>
     cv_word s' = (if cv_waiters s' = [] then 0 else CV_NON_EMPTY)"

lemma placed_mine:
  assumes "T = {} \<or> T = {t}"
  shows "placed s i \<longleftrightarrow> i \<in> mine T s \<or> (\<exists>u. u \<notin> T \<and> i \<in> set (detached (cv_pcs s u)))"
  using assms unfolding placed_def mine_def by auto

lemma mine_cv: "i \<in> set (cv_waiters s) \<Longrightarrow> i \<in> mine T s"
  by (simp add: mine_def)

lemma mine_pmu: "i \<in> set (pmu_waiters s) \<Longrightarrow> i \<in> mine T s"
  by (simp add: mine_def)

lemma cv_invD:
  assumes "cv_inv s"
  shows "lists_ok s" "\<And>t. nw_mucv s t \<Longrightarrow> pc_ok s t (cv_pcs s t)" "\<And>i. \<not> nw_mucv s i \<Longrightarrow> cv_pcs s i = Cv_client"
    "\<And>i. \<not> nw_mucv s i \<Longrightarrow> nw_waiting s i \<Longrightarrow> placed s i"
    "\<And>i. i \<in> set (pmu_waiters s) \<Longrightarrow> nw_mucv s i \<and> \<not> wt_cv_mu s i"
    "cv_word s = (if cv_waiters s = [] then 0 else CV_NON_EMPTY)"
  using assms unfolding cv_inv_def by blast+

lemma lists_okD:
  assumes "lists_ok s"
  shows "distinct (cv_waiters s @ pmu_waiters s @ detached (cv_pcs s t))"
    "t \<noteq> u \<Longrightarrow> i \<in> set (detached (cv_pcs s t)) \<Longrightarrow> i \<notin> set (detached (cv_pcs s u))"
    "placed s i \<Longrightarrow> nw_waiting s i"
  using assms unfolding lists_ok_def by blast+

lemma mine_others:
  assumes "lists_ok s" "T = {} \<or> T = {t}" "u \<notin> T" "i \<in> mine T s"
  shows "i \<notin> set (detached (cv_pcs s u))"
  using assms lists_okD(1) [OF assms(1), of u] lists_okD(2) [OF assms(1), of t u i] unfolding mine_def by auto

lemma movesD:
  assumes "moves T s s'"
  shows "\<And>u. u \<notin> T \<Longrightarrow> cv_pcs s' u = cv_pcs s u" "nw_mucv s' = nw_mucv s"
    "distinct (cv_waiters s' @ pmu_waiters s')"
    "\<And>t. t \<in> T \<Longrightarrow> distinct (cv_waiters s' @ pmu_waiters s' @ detached (cv_pcs s' t))"
    "\<And>i. i \<in> mine T s' \<Longrightarrow> nw_waiting s' i" "\<And>i. i \<in> mine T s' \<Longrightarrow> i \<in> mine T s \<or> \<not> placed s i"
    "\<And>i. i \<notin> T \<Longrightarrow> i \<notin> mine T s' \<Longrightarrow> nw_waiting s' i = (nw_waiting s i \<and> i \<notin> mine T s)"
    "\<And>i. i \<notin> T \<Longrightarrow> i \<in> mine T s \<Longrightarrow> i \<notin> mine T s' \<Longrightarrow> nw_mucv s i \<Longrightarrow> post_pending s' i"
    "\<And>i. i \<notin> T \<Longrightarrow> post_pending s i \<Longrightarrow> post_pending s' i \<or> 0 < nw_sem s' i"
    "\<And>i. i \<notin> T \<Longrightarrow> nw_sem s i \<le> nw_sem s' i"
    "\<And>i. i \<notin> T \<Longrightarrow> nw_mucv s i \<Longrightarrow> i \<in> mine T s' \<Longrightarrow> i \<in> mine T s"
    "\<And>i. i \<notin> T \<Longrightarrow> nw_mucv s i \<Longrightarrow> i \<in> mine T s' \<Longrightarrow> counted s s' i"
    "\<And>i. i \<notin> T \<Longrightarrow> i \<notin> mine T s \<Longrightarrow> wt_remove_count s' i = wt_remove_count s i"
    "\<And>i. i \<in> set (pmu_waiters s') \<Longrightarrow> nw_mucv s i \<and> \<not> wt_cv_mu s' i"
    "cv_word s' = (if cv_waiters s' = [] then 0 else CV_NON_EMPTY)"
  using assms by (simp_all add: moves_def)

lemma moves_lists:
  assumes l: "lists_ok s" and T: "T = {} \<or> T = {t}" and m: "moves T s s'"
    and w: "\<And>t. t \<in> T \<Longrightarrow> placed s' t \<Longrightarrow> nw_waiting s' t"
  shows "lists_ok s'"
proof -
  note M = movesD [OF m]
  have sep: "i \<notin> set (detached (cv_pcs s u))" if "u \<notin> T" "i \<in> mine T s'" for u i
    using M(6) [OF that(2)] mine_others [OF l T that(1)] unfolding placed_def by blast
  have "distinct (cv_waiters s' @ pmu_waiters s' @ detached (cv_pcs s' u))" for u
  proof (cases "u \<in> T")
    case False
    then have "set (detached (cv_pcs s' u)) \<inter> mine T s' = {}" "distinct (detached (cv_pcs s' u))"
      using sep [OF False] M(1) lists_okD(1) [OF l, of u] by auto
    then show ?thesis using M(3) by (auto simp: mine_def)
  qed (use M(4) in blast)
  moreover have "set (detached (cv_pcs s' u)) \<inter> set (detached (cv_pcs s' v)) = {}" if "u \<noteq> v" for u v
  proof -
    have *: "set (detached (cv_pcs s' a)) \<inter> set (detached (cv_pcs s' b)) = {}" if "a \<noteq> b" "b \<notin> T" for a b
    proof (cases "a \<in> T")
      case True
      then have "set (detached (cv_pcs s' a)) \<subseteq> mine T s'" by (auto simp: mine_def)
      then show ?thesis using sep [OF that(2)] M(1) [OF that(2)] by auto
    next
      case False
      then show ?thesis using M(1) that lists_okD(2) [OF l that(1)] by auto
    qed
    from that T have "u \<notin> T \<or> v \<notin> T" by auto
    then show ?thesis using * [of u v] * [of v u] that by (auto simp: Int_commute)
  qed
  moreover have "nw_waiting s' i" if "placed s' i" for i
  proof (cases "i \<in> T \<or> i \<in> mine T s'")
    case False
    then obtain u where u: "u \<notin> T" "i \<in> set (detached (cv_pcs s u))"
      using placed_mine [OF T, of s' i] \<open>placed s' i\<close> M(1) by auto
    then have "nw_waiting s i" "i \<notin> mine T s"
      using lists_okD(3) [OF l, of i] mine_others [OF l T u(1)] unfolding placed_def by blast+
    then show ?thesis using M(7) False by blast
  qed (use w M(5) that in blast)
  ultimately show ?thesis unfolding lists_ok_def by blast
qed

lemma moves_placed:
  assumes "T = {} \<or> T = {t}" "moves T s s'" "u \<notin> mine T s" "u \<notin> mine T s'"
  shows "placed s' u \<longleftrightarrow> placed s u"
  using assms placed_mine [OF assms(1)] movesD(1) [OF assms(2)] by metis

lemma moves_waiting:
  assumes l: "lists_ok s" and T: "T = {} \<or> T = {t}" and m: "moves T s s'" and u: "u \<notin> T" "nw_mucv s u"
    and ok: "waiting_ok s u v"
  shows "waiting_ok s' u v"
proof -
  note M = movesD [OF m]
  consider "u \<in> mine T s'" | "u \<notin> mine T s'" "u \<in> mine T s" | "u \<notin> mine T s'" "u \<notin> mine T s" by blast
  then show ?thesis
  proof cases
    case 1
    then have "u \<in> mine T s" using M(11) [OF u] by blast
    then have "placed s u" "placed s' u" using 1 placed_mine [OF T] by blast+
    then show ?thesis using ok lists_okD(3) [OF l] M(12) [OF u 1]
      by (auto simp: waiting_ok_def counted_def split: if_splits)
  next
    case 2
    then show ?thesis using M(7) [OF u(1) 2(1)] by (simp add: waiting_ok_def)
  next
    case 3
    then have "u \<notin> set (cv_waiters s)" "u \<notin> set (cv_waiters s')" by (auto simp: mine_def)
    then show ?thesis using ok moves_placed [OF T m 3(2,1)] M(7) [OF u(1) 3(1)] M(13) [OF u(1) 3(2)]
      by (auto simp: waiting_ok_def)
  qed
qed

lemma moves_others:
  assumes l: "lists_ok s" and T: "T = {} \<or> T = {t}" and m: "moves T s s'" and u: "u \<notin> T" "nw_mucv s u"
    and ok: "pc_ok s u p"
  shows "pc_ok s' u p"
proof -
  note M = movesD [OF m]
  note pl = moves_placed [OF T m]
  have tw: "to_wake_ok s' p = to_wake_ok s p" using M(2) by (cases p) auto
  show ?thesis
  proof (cases "wait_pc p")
    case None
    show ?thesis
    proof (cases "before_enqueue p")
      case True
      then have a: "nw_waiting s u" "\<not> placed s u" using ok None by (auto simp: pc_ok_def)
      then have b: "u \<notin> mine T s" "u \<notin> mine T s'" using placed_mine [OF T] M(11) [OF u] by blast+
      show ?thesis using None True tw a ok pl [OF b] M(7) [OF u(1) b(2)] b by (simp add: pc_ok_def)
    next
      case False
      then have a: "\<not> nw_waiting s u" using ok None by (auto simp: pc_ok_def)
      then have b: "u \<notin> mine T s" "u \<notin> mine T s'"
        using lists_okD(3) [OF l] placed_mine [OF T] M(11) [OF u] by blast+
      show ?thesis using None False tw a ok M(7) [OF u(1) b(2)] by (simp add: pc_ok_def)
    qed
  next
    case (Some v)
    then have a: "waiting_ok s u v" "p = W_sem v \<Longrightarrow> \<not> nw_waiting s u \<Longrightarrow> 0 < nw_sem s u \<or> post_pending s u"
      using ok by (auto simp: pc_ok_def)
    have "waiting_ok s' u v" using moves_waiting [OF l T m u a(1)] .
    moreover have "0 < nw_sem s' u \<or> post_pending s' u" if "p = W_sem v" "\<not> nw_waiting s' u"
    proof (cases "nw_waiting s u")
      case True
      have n: "u \<notin> mine T s'" using M(5) that(2) by blast
      then have "u \<in> mine T s" using M(7) [OF u(1) n] True that(2) by simp
      then show ?thesis using M(8) [OF u(1) _ n u(2)] by simp
    next
      case False
      then show ?thesis using a(2) [OF that(1)] M(9,10) [OF u(1)] by auto
    qed
    ultimately show ?thesis using Some ok tw by (auto simp: pc_ok_def)
  qed
qed

lemma pc_ok_waiting: "pc_ok s t p \<Longrightarrow> wait_pc p = None \<Longrightarrow> placed s t \<Longrightarrow> nw_waiting s t \<Longrightarrow> False"
  by (auto simp: pc_ok_def split: if_splits)

lemma moves_inv:
  assumes inv: "cv_inv s" and T: "T = {} \<or> T = {t}" and m: "moves T s s'" and nat: "\<forall>t\<in>T. nw_mucv s t"
    and ok: "\<And>t. t \<in> T \<Longrightarrow> pc_ok s' t (cv_pcs s' t) \<and> (placed s' t \<longrightarrow> nw_waiting s' t)"
  shows "cv_inv s'"
proof -
  note I = cv_invD [OF inv] and M = movesD [OF m]
  have "lists_ok s'" using moves_lists [OF I(1) T m] ok by blast
  moreover have "pc_ok s' u (cv_pcs s' u)" if "nw_mucv s' u" for u
    using that ok M(1,2) I(2) [of u] moves_others [OF I(1) T m] by (cases "u \<in> T") auto
  moreover have "cv_pcs s' i = Cv_client \<and> (nw_waiting s' i \<longrightarrow> placed s' i)" if i: "\<not> nw_mucv s' i" for i
  proof -
    have n: "i \<notin> T" "\<not> nw_mucv s i" using i nat M(2) by auto
    then have "placed s' i" if "nw_waiting s' i"
      proof (cases "i \<in> mine T s'")
      case False
      then have "nw_waiting s i" "i \<notin> mine T s" using that M(7) [OF n(1)] by auto
      then obtain u where "u \<notin> T" "i \<in> set (detached (cv_pcs s u))"
        using I(4) [OF n(2)] placed_mine [OF T, of s i] by auto
      then show ?thesis using M(1) [of u] unfolding placed_def by metis
    qed (use placed_mine [OF T] in blast)
    then show ?thesis using I(3) [OF n(2)] M(1) [OF n(1)] by simp
  qed
  ultimately show ?thesis using M(2,14,15) unfolding cv_inv_def by simp
qed

section \<open>Steps that move no struct\<close>

definition quiet :: "tid \<Rightarrow> cv_pc \<Rightarrow> cv_sys \<Rightarrow> cv_sys \<Rightarrow> bool" where
  "quiet t q s s' \<longleftrightarrow>
     cv_pcs s' = (cv_pcs s)(t := q) \<and> detached q = detached (cv_pcs s t) \<and>
     (\<forall>i ps. q \<noteq> S_post i ps \<and> cv_pcs s t \<noteq> S_post i ps) \<and>
     cv_waiters s' = cv_waiters s \<and> pmu_waiters s' = pmu_waiters s \<and> pmu_posts s' = pmu_posts s \<and>
     nw_mucv s' = nw_mucv s \<and> cv_word s' = cv_word s \<and> wt_remove_count s' = wt_remove_count s \<and>
     (\<forall>i. i \<noteq> t \<longrightarrow> nw_waiting s' i = nw_waiting s i \<and> nw_sem s' i = nw_sem s i \<and> wt_cv_mu s' i = wt_cv_mu s i)"

lemma quiet_placed:
  assumes "quiet t q s s'"
  shows "placed s' i = placed s i" "post_pending s' i = post_pending s i"
proof -
  have "detached (cv_pcs s' u) = detached (cv_pcs s u)" for u using assms by (auto simp: quiet_def)
  then show "placed s' i = placed s i" using assms by (simp add: quiet_def placed_def)
  have "cv_pcs s' u = S_post i ps \<longleftrightarrow> cv_pcs s u = S_post i ps" for u ps
    using assms by (auto simp: quiet_def)
  then show "post_pending s' i = post_pending s i" using assms by (simp add: quiet_def post_pending_def)
qed

lemma quiet_inv:
  assumes inv: "cv_inv s" and t: "nw_mucv s t" and q: "quiet t q s s'" and ok: "pc_ok s' t q"
    and w: "placed s t \<Longrightarrow> nw_waiting s' t" "t \<in> set (pmu_waiters s) \<Longrightarrow> wt_cv_mu s' t = wt_cv_mu s t"
  shows "cv_inv s'"
proof (rule moves_inv [OF inv, of "{t}" t])
  note I = cv_invD [OF inv] and L = lists_okD [OF cv_invD(1) [OF inv]]
  have mm: "mine {t} s' = mine {t} s" using q by (simp add: mine_def quiet_def)
  have pl: "i \<in> mine {t} s \<Longrightarrow> placed s i" for i using placed_mine [of "{t}" t s i] by simp
  have nw: "nw_waiting s' i" if "i \<in> mine {t} s" for i
    using that pl [OF that] w(1) L(3) q by (cases "i = t") (auto simp: quiet_def)
  have lost: "nw_waiting s' i = (nw_waiting s i \<and> i \<notin> mine {t} s)" if "i \<noteq> t" "i \<notin> mine {t} s" for i
    using that q by (simp add: quiet_def)
  have "\<not> wt_cv_mu s' i" if "i \<in> set (pmu_waiters s)" for i
    using I(5) [OF that] w(2) q that by (cases "i = t") (auto simp: quiet_def)
  then show "moves {t} s s'"
    using L(1) [of t] nw lost quiet_placed(2) [OF q] I(5,6) q
    unfolding moves_def mm by (auto simp: quiet_def counted_def)
qed (use t ok w quiet_placed(1) [OF q] q in \<open>auto simp: quiet_def\<close>)

lemma wait_quiet:
  assumes inv: "cv_inv s" and t: "nw_mucv s t" and e: "expire \<noteq> Some Cv_ok"
    and p: "\<And>v. cv_pcs s t \<noteq> W_enqueue v" "\<And>v. cv_pcs s t \<noteq> W_confirm v"
  shows "cv_inv (nsync_cv_wait_with_deadline_generic t expire (cv_pcs s t) s)"
    (is "cv_inv ?s")
proof -
  have ok: "pc_ok s t (cv_pcs s t)" using cv_invD(2) [OF inv t] .
  have pl: "placed s t \<Longrightarrow> nw_waiting s t" using lists_okD(3) [OF cv_invD(1) [OF inv]] .
  have pm: "t \<in> set (pmu_waiters s) \<Longrightarrow> placed s t" by (simp add: placed_def)
  note * = quiet_inv [OF inv t] and d = quiet_def pc_ok_def waiting_ok_def Let_def cv_wait_start_def
  show ?thesis
  proof (cases "cv_pcs s t")
    case (W_prepare mu)
    let ?q = "if mu then W_mode else W_enqueue (cv_wait_start False False)"
    have q: "quiet t ?q s ?s" using W_prepare by (simp add: d)
    show ?thesis by (rule * [OF q]) (use ok pl pm quiet_placed [OF q] W_prepare in \<open>auto simp: d\<close>)
  next
    case W_mode
    have q: "quiet t (cv_pcs ?s t) s ?s" using W_mode by (simp add: d)
    show ?thesis by (rule * [OF q]) (use ok pl quiet_placed [OF q] W_mode in \<open>auto simp: d\<close>)
  next
    case (W_unlock v)
    then have q: "quiet t (W_loop v) s ?s" by (simp add: d)
    show ?thesis by (rule * [OF q]) (use ok pl quiet_placed [OF q] W_unlock in \<open>auto simp: d\<close>)
  next
    case (W_loop v)
    let ?q = "if nw_waiting s t then if v_sem_outcome v = Cv_ok then W_sem v else W_check v else W_relock v"
    have q: "quiet t ?q s ?s" using W_loop by (simp add: d)
    show ?thesis by (rule * [OF q]) (use ok pl quiet_placed [OF q] W_loop in \<open>auto simp: d\<close>)
  next
    case (W_sem v)
    show ?thesis
    proof (cases "expire = None \<and> nw_sem s t = 0")
      case False
      let ?q = "W_check (case expire of None \<Rightarrow> v | Some e \<Rightarrow> v\<lparr>v_sem_outcome := e\<rparr>)"
      have q: "quiet t ?q s ?s" using W_sem False by (auto simp: d split: option.split)
      show ?thesis by (rule * [OF q]) (use ok pl quiet_placed [OF q] W_sem False in \<open>auto simp: d split: option.splits\<close>)
    qed (use W_sem inv in simp)
  next
    case (W_check v)
    let ?q = "if v_sem_outcome v \<noteq> Cv_ok \<and> nw_waiting s t then W_confirm v else W_delay v"
    have q: "quiet t ?q s ?s" using W_check by (simp add: d)
    show ?thesis by (rule * [OF q]) (use ok pl quiet_placed [OF q] W_check in \<open>auto simp: d\<close>)
  next
    case (W_delay v)
    then have q: "quiet t (W_loop v) s ?s" by (simp add: d)
    show ?thesis by (rule * [OF q]) (use ok pl quiet_placed [OF q] W_delay in \<open>auto simp: d\<close>)
  next
    case (W_relock v)
    then have q: "quiet t (Cv_returned (v_outcome v)) s ?s" by (simp add: d)
    show ?thesis by (rule * [OF q]) (use ok pl quiet_placed [OF q] W_relock in \<open>auto simp: d\<close>)
  qed (use inv p in auto)
qed

section \<open>Entering and leaving the queue\<close>

lemma word_non_empty [simp]:
  "(if b then 0 else CV_NON_EMPTY) OR CV_NON_EMPTY = CV_NON_EMPTY"
  "(if b then 0 else CV_NON_EMPTY) AND NOT CV_NON_EMPTY = 0"
  "CV_NON_EMPTY AND NOT CV_NON_EMPTY = 0"
  by simp_all

lemma post_pending_goto:
  assumes "cv_pcs s' = (cv_pcs s)(t := q)" "pmu_posts s' = pmu_posts s"
    "\<And>i ps. cv_pcs s t \<noteq> S_post i ps" "\<And>i ps. q \<noteq> S_post i ps"
  shows "post_pending s' i = post_pending s i"
proof -
  have "cv_pcs s' u = S_post i ps \<longleftrightarrow> cv_pcs s u = S_post i ps" for u ps
    using assms(1,3,4) by (cases "u = t") auto
  then show ?thesis using assms(2) by (simp add: post_pending_def)
qed

lemma post_pending_keep:
  assumes "post_pending s i" "cv_pcs s' = (cv_pcs s)(t := q)" "pmu_posts s' = pmu_posts s" "\<And>ps. cv_pcs s t \<noteq> S_post i ps"
  shows "post_pending s' i"
proof -
  from assms(1) consider "i \<in> set (pmu_posts s)" | u ps where "cv_pcs s u = S_post i ps" by (auto simp: post_pending_def)
  then show ?thesis
  proof cases
    case 2
    then have "cv_pcs s' u = S_post i ps" using assms(2,4) by (cases "u = t") auto
    then show ?thesis unfolding post_pending_def by blast
  qed (simp add: post_pending_def assms(3))
qed

lemma wait_enqueue:
  assumes inv: "cv_inv s" and t: "nw_mucv s t" and p: "cv_pcs s t = W_enqueue v"
  shows "cv_inv (nsync_cv_wait_with_deadline_generic t expire (cv_pcs s t) s)"
    (is "cv_inv ?s")
proof (rule moves_inv [OF inv, of "{t}" t])
  note I = cv_invD [OF inv] and L = lists_okD [OF cv_invD(1) [OF inv]]
  have w: "nw_waiting s t" "\<not> placed s t" "v_outcome v = Cv_ok" using I(2) [OF t] p by (auto simp: pc_ok_def)
  have mm: "mine {t} ?s = insert t (mine {t} s)" using p by (auto simp: mine_def)
  have pp: "post_pending ?s i = post_pending s i" for i
    by (rule post_pending_goto [of _ _ t "cv_pcs ?s t"]) (use p in simp_all)
  show "moves {t} s ?s"
    using w p L(1) [of t] L(3) I(5,6) pp placed_mine [of "{t}" t s]
    unfolding moves_def mm by (auto simp: counted_def placed_def)
  show "pc_ok ?s u (cv_pcs ?s u) \<and> (placed ?s u \<longrightarrow> nw_waiting ?s u)" if "u \<in> {t}" for u
    using that p w by (auto simp: pc_ok_def waiting_ok_def placed_def)
qed (use t in auto)

lemma wait_confirm:
  assumes inv: "cv_inv s" and t: "nw_mucv s t" and p: "cv_pcs s t = W_confirm v"
  shows "cv_inv (nsync_cv_wait_with_deadline_generic t expire (cv_pcs s t) s)"
    (is "cv_inv ?s")
proof -
  note I = cv_invD [OF inv] and L = lists_okD [OF cv_invD(1) [OF inv]]
  have w: "waiting_ok s t v" using I(2) [OF t] p by (auto simp: pc_ok_def)
  show ?thesis
  proof (cases "nw_waiting s t \<and> v_remove_count v = wt_remove_count s t")
    case False
    then have q: "quiet t (W_delay v) s ?s" using p by (auto simp: quiet_def)
    show ?thesis
      by (rule quiet_inv [OF inv t q]) (use w False p L(3) quiet_placed [OF q] in \<open>auto simp: pc_ok_def waiting_ok_def\<close>)
  next
    case True
    then have c: "t \<in> set (cv_waiters s)" using w by (auto simp: waiting_ok_def)
    have d: "distinct (cv_waiters s)" "set (cv_waiters s) \<inter> set (pmu_waiters s) = {}" using L(1) [of t] by auto
    have mm: "mine {t} ?s = mine {t} s - {t}" using p True d c by (auto simp: mine_def Let_def)
    have pp: "post_pending ?s i = post_pending s i" for i
      by (rule post_pending_goto [of _ _ t "cv_pcs ?s t"]) (use p True in \<open>simp_all add: Let_def\<close>)
    have np: "\<not> placed ?s t"
    proof
      assume "placed ?s t"
      then obtain u where u: "u \<noteq> t" "t \<in> set (detached (cv_pcs ?s u))"
        using placed_mine [of "{t}" t ?s t] mm by auto
      then have "t \<in> set (detached (cv_pcs s u))" using p True by (simp add: Let_def)
      then show False using c L(1) [of u] by auto
    qed
    show ?thesis
    proof (rule moves_inv [OF inv, of "{t}" t])
      show "moves {t} s ?s"
        using True p L(1) [of t] L(3) I(5,6) pp placed_mine [of "{t}" t s] d
        unfolding moves_def mm by (auto simp: counted_def Let_def distinct_remove1)
      show "pc_ok ?s u (cv_pcs ?s u) \<and> (placed ?s u \<longrightarrow> nw_waiting ?s u)" if "u \<in> {t}" for u
        using that p True np by (auto simp: pc_ok_def waiting_ok_def Let_def)
    qed (use t in auto)
  qed
qed

section \<open>Signalling\<close>

text \<open>A critical section that detaches \<open>wake\<close> and leaves \<open>keep\<close>.\<close>

definition splits_queue :: "cv_sys \<Rightarrow> nat list \<Rightarrow> nat list \<Rightarrow> bool" where
  "splits_queue s keep wake \<longleftrightarrow>
     distinct keep \<and> distinct wake \<and> set keep \<inter> set wake = {} \<and> set keep \<union> set wake = set (cv_waiters s)"

lemma count_removed_fields [simp]:
  "cv_word (count_removed ps s) = cv_word s" "cv_waiters (count_removed ps s) = cv_waiters s"
  "nw_waiting (count_removed ps s) = nw_waiting s" "pmu_waiters (count_removed ps s) = pmu_waiters s"
  "pmu_word (count_removed ps s) = pmu_word s" "nw_mucv (count_removed ps s) = nw_mucv s"
  "wt_l_type (count_removed ps s) = wt_l_type s" "cv_pcs (count_removed ps s) = cv_pcs s"
  by (simp_all add: count_removed_def)

lemma signal_detach_splits:
  assumes "distinct (cv_waiters s)" "cv_waiters s \<noteq> []" "cv_signal_detach s = (s', wake, ar)"
  obtains keep where "splits_queue s keep wake" "wake \<noteq> []"
    "s' = (count_removed wake (s\<lparr>cv_waiters := keep\<rparr>))\<lparr>cv_word := if keep = [] then cv_word s AND NOT CV_NON_EMPTY else cv_word s\<rparr>"
proof -
  obtain first rest where w: "cv_waiters s = first # rest" using assms(2) by (cases "cv_waiters s") auto
  show thesis
  proof (cases "is_reader s first")
    case False
    then show thesis using that [of rest] assms w
      by (auto simp: cv_signal_detach_def Let_def splits_queue_def)
  next
    case r: True
    show thesis
    proof (cases rule: readers_prefix [of "is_reader s" rest])
      case 1
      then have "wake = first # rest"
        "s' = (count_removed (first # rest) (s\<lparr>cv_waiters := []\<rparr>))\<lparr>cv_word := cv_word s AND NOT CV_NON_EMPTY\<rparr>"
        using assms(3) w r by (auto simp: cv_signal_detach_def Let_def signal_scan_all_readers)
      then show thesis using that [of "[]"] assms(1) w by (simp add: splits_queue_def)
    next
      case (2 as p bs)
      then have "wake = first # as @ p # filter (is_reader s) bs"
        "s' = (let keep = filter (\<lambda>p. \<not> is_reader s p) bs
          in (count_removed wake (s\<lparr>cv_waiters := keep\<rparr>))\<lparr>cv_word := if keep = [] then cv_word s AND NOT CV_NON_EMPTY else cv_word s\<rparr>)"
        using assms(3) w r by (auto simp: cv_signal_detach_def Let_def signal_scan_split)
      moreover from this(1) have "splits_queue s (filter (\<lambda>p. \<not> is_reader s p) bs) wake"
        using assms(1) w 2(1) by (auto simp: splits_queue_def)
      ultimately show thesis using that by (simp add: Let_def)
    qed
  qed
qed

lemma detach_inv:
  assumes inv: "cv_inv s" and t: "nw_mucv s t" and p: "detached (cv_pcs s t) = []" "\<And>i ps. cv_pcs s t \<noteq> S_post i ps"
    "wait_pc (cv_pcs s t) = None" "\<not> before_enqueue (cv_pcs s t)"
    and sp: "splits_queue s keep wake" and wd: "word = (if keep = [] then 0 else CV_NON_EMPTY)"
    and q: "q = (if wake \<noteq> [] then S_mu_load wake ar else Cv_client)"
  shows "cv_inv (cgoto t q ((count_removed wake (s\<lparr>cv_waiters := keep\<rparr>))\<lparr>cv_word := word\<rparr>))" (is "cv_inv ?s")
proof (rule moves_inv [OF inv, of "{t}" t])
  note I = cv_invD [OF inv] and L = lists_okD [OF cv_invD(1) [OF inv]]
  have w: "\<not> nw_waiting s t" using I(2) [OF t] p by (auto simp: pc_ok_def split: if_splits)
  then have np: "\<not> placed s t" using L(3) by blast
  have mm: "mine {t} ?s = mine {t} s" using p sp q by (auto simp: mine_def count_removed_def splits_queue_def)
  have pp: "post_pending ?s i = post_pending s i" for i
    by (rule post_pending_goto [of _ _ t q]) (use p q in \<open>auto simp: count_removed_def\<close>)
  have np': "\<not> placed ?s t" using np mm placed_mine [of "{t}" t s t] placed_mine [of "{t}" t ?s t] by auto
  show "moves {t} s ?s"
    using sp q wd p L(1) [of t] L(3) I(5,6) pp placed_mine [of "{t}" t s] np mine_cv [of _ s "{t}"]
    unfolding moves_def mm by (auto simp: counted_def count_removed_def splits_queue_def split: if_splits)
  show "pc_ok ?s u (cv_pcs ?s u) \<and> (placed ?s u \<longrightarrow> nw_waiting ?s u)" if "u \<in> {t}" for u
    using that w np' q by (auto simp: pc_ok_def count_removed_def)
qed (use t in auto)

section \<open>Waking\<close>

text \<open>The steps of \<^verbatim>\<open>wake_waiters\<close> that may move structs to the mutex's queue.\<close>

lemma transfer_inv:
  assumes inv: "cv_inv s" and t: "nw_mucv s t" and p: "detached (cv_pcs s t) = ps" "\<And>i ps. cv_pcs s t \<noteq> S_post i ps"
    "wait_pc (cv_pcs s t) = None" "\<not> before_enqueue (cv_pcs s t)"
    and km: "set keep \<union> set move = set ps" "set keep \<inter> set move = {}" "distinct keep" "distinct move"
    and mv: "\<And>i. i \<in> set move \<Longrightarrow> nw_mucv s i"
    and q: "detached q = keep" "\<And>i ps. q \<noteq> S_post i ps" "wait_pc q = None" "\<not> before_enqueue q" "to_wake_ok s q"
  shows "cv_inv (cgoto t q (s\<lparr>pmu_word := word, pmu_waiters := pmu_waiters s @ move,
    wt_cv_mu := (\<lambda>p. if p \<in> set move then False else wt_cv_mu s p)\<rparr>))" (is "cv_inv ?s")
proof (rule moves_inv [OF inv, of "{t}" t])
  note I = cv_invD [OF inv] and L = lists_okD [OF cv_invD(1) [OF inv]]
  have w: "\<not> nw_waiting s t" using I(2) [OF t] p by (auto simp: pc_ok_def split: if_splits)
  then have np: "\<not> placed s t" using L(3) by blast
  have mm: "mine {t} ?s = mine {t} s" using p q km by (auto simp: mine_def)
  have pp: "post_pending ?s i = post_pending s i" for i
    by (rule post_pending_goto [of _ _ t q]) (use p q in auto)
  have np': "\<not> placed ?s t" using np mm placed_mine [of "{t}" t s t] placed_mine [of "{t}" t ?s t] by auto
  have "set move \<subseteq> set ps" "set keep \<subseteq> set ps" using km(1) by auto
  then have d: "distinct (cv_waiters s @ pmu_waiters s @ move)" "distinct (cv_waiters s @ (pmu_waiters s @ move) @ keep)"
    using L(1) [of t] km(2-) p(1) by auto
  have tw: "to_wake_ok ?s q" using q(5) by (cases q) auto
  show "moves {t} s ?s"
    using d p q L(3) I(5,6) pp placed_mine [of "{t}" t s] mv mine_cv [of _ s "{t}"]
    unfolding moves_def mm by (auto simp: counted_def)
  show "pc_ok ?s u (cv_pcs ?s u) \<and> (placed ?s u \<longrightarrow> nw_waiting ?s u)" if "u \<in> {t}" for u
    using that w np' q tw by (auto simp: pc_ok_def)
qed (use t in auto)

text \<open>Clearing the flag of the first struct in hand; its post is then on its way.\<close>

lemma wake_first_inv:
  assumes inv: "cv_inv s" and t: "nw_mucv s t" and p: "cv_pcs s t = S_wake (i # ps)"
  shows "cv_inv (cgoto t (S_post i ps) (s\<lparr>nw_waiting := (nw_waiting s)(i := False)\<rparr>))" (is "cv_inv ?s")
proof (rule moves_inv [OF inv, of "{t}" t])
  note I = cv_invD [OF inv] and L = lists_okD [OF cv_invD(1) [OF inv]]
  have w: "\<not> nw_waiting s t" using I(2) [OF t] p by (simp add: pc_ok_def)
  then have np: "\<not> placed s t" using L(3) by blast
  have d: "distinct (cv_waiters s @ pmu_waiters s @ i # ps)" using L(1) [of t] p by simp
  have mm: "mine {t} s = insert i (mine {t} ?s)" "i \<notin> mine {t} ?s" using p d by (auto simp: mine_def)
  then have it: "i \<noteq> t" using np placed_mine [of "{t}" t s t] by auto
  have pp: "post_pending ?s i" unfolding post_pending_def by (auto intro!: exI [of _ t])
  have pk: "post_pending ?s k" if "post_pending s k" for k
    by (rule post_pending_keep [OF that, of _ t]) (use p in simp_all)
  have np': "\<not> placed ?s t" using np mm placed_mine [of "{t}" t s t] placed_mine [of "{t}" t ?s t] by auto
  have pl: "k \<in> mine {t} ?s \<Longrightarrow> nw_waiting s k" for k using mm(1) placed_mine [of "{t}" t s k] L(3) by simp
  show "moves {t} s ?s"
    using d p pp pk pl I(5,6) it mm(2)
    unfolding moves_def mm(1) by (auto simp: counted_def)
  show "pc_ok ?s u (cv_pcs ?s u) \<and> (placed ?s u \<longrightarrow> nw_waiting ?s u)" if "u \<in> {t}" for u
    using that w np' by (auto simp: pc_ok_def)
qed (use t in auto)

lemma post_inv:
  assumes inv: "cv_inv s" and t: "nw_mucv s t" and p: "cv_pcs s t = S_post i ps"
  shows "cv_inv (cgoto t (S_wake ps) (s\<lparr>nw_sem := (nw_sem s)(i := nw_sem s i + 1)\<rparr>))" (is "cv_inv ?s")
proof (rule moves_inv [OF inv, of "{t}" t])
  note I = cv_invD [OF inv] and L = lists_okD [OF cv_invD(1) [OF inv]]
  have w: "\<not> nw_waiting s t" using I(2) [OF t] p by (simp add: pc_ok_def)
  then have np: "\<not> placed s t" using L(3) by blast
  have mm: "mine {t} ?s = mine {t} s" using p by (auto simp: mine_def)
  have pk: "post_pending ?s k" if "post_pending s k" "k \<noteq> i" for k
    by (rule post_pending_keep [OF that(1), of _ t]) (use p that(2) in simp_all)
  have np': "\<not> placed ?s t" using np mm placed_mine [of "{t}" t s t] placed_mine [of "{t}" t ?s t] by auto
  show "moves {t} s ?s"
    using L(1) [of t] p pk L(3) I(5,6) placed_mine [of "{t}" t s]
    unfolding moves_def mm by (auto simp: counted_def)
  show "pc_ok ?s u (cv_pcs ?s u) \<and> (placed ?s u \<longrightarrow> nw_waiting ?s u)" if "u \<in> {t}" for u
    using that w np' by (auto simp: pc_ok_def)
qed (use t in auto)

lemma cv_goto_inv:
  assumes "cv_inv s" "nw_mucv s t" "detached q = detached (cv_pcs s t)" "\<And>i ps. cv_pcs s t \<noteq> S_post i ps"
    "wait_pc (cv_pcs s t) = None" "\<not> before_enqueue (cv_pcs s t)" "\<And>i ps. q \<noteq> S_post i ps" "wait_pc q = None"
    "\<not> before_enqueue q" "to_wake_ok s q"
  shows "cv_inv (cgoto t q s)" "cv_inv (cgoto t q (s\<lparr>pmu_word := word\<rparr>))"
proof -
  have "distinct (detached q)" using lists_okD(1) [OF cv_invD(1) [OF assms(1)], of t] assms(3) by simp
  then have "cv_inv (cgoto t q (s\<lparr>pmu_word := word, pmu_waiters := pmu_waiters s @ [],
    wt_cv_mu := (\<lambda>p. if p \<in> set [] then False else wt_cv_mu s p)\<rparr>))" for word
    using transfer_inv [OF assms(1,2) _ assms(4-6), of "detached q" "detached q" "[]" q word] assms by simp
  then have *: "cv_inv (cgoto t q (s\<lparr>pmu_word := word\<rparr>))" for word by simp
  then show "cv_inv (cgoto t q (s\<lparr>pmu_word := word\<rparr>))" .
  show "cv_inv (cgoto t q s)" using * [of "pmu_word s"] by simp
qed

lemma signal_inv:
  assumes inv: "cv_inv s" and t: "nw_mucv s t"
  shows "cv_inv (nsync_cv_signal t (cv_pcs s t) s)" "cv_inv (nsync_cv_broadcast t (cv_pcs s t) s)"
proof -
  note I = cv_invD [OF inv]
  have d: "distinct (cv_waiters s)" using lists_okD(1) [OF I(1), of t] by auto
  note go = cv_goto_inv [OF inv t]
  show "cv_inv (nsync_cv_signal t (cv_pcs s t) s)"
  proof (cases "cv_pcs s t")
    case S_detach
    show ?thesis
    proof (cases "cv_waiters s = []")
      case True
      then show ?thesis using S_detach go [of Cv_client] by (simp add: cv_signal_detach_def)
    next
      case False
      obtain s' wake ar where sd: "cv_signal_detach s = (s', wake, ar)" by (metis prod_cases3)
      obtain keep where k: "splits_queue s keep wake" "wake \<noteq> []"
        "s' = (count_removed wake (s\<lparr>cv_waiters := keep\<rparr>))\<lparr>cv_word := if keep = [] then cv_word s AND NOT CV_NON_EMPTY else cv_word s\<rparr>"
        by (rule signal_detach_splits [OF d False sd])
      have "(if keep = [] then cv_word s AND NOT CV_NON_EMPTY else cv_word s) = (if keep = [] then 0 else CV_NON_EMPTY)"
        using I(6) False by simp
      then show ?thesis using S_detach sd k detach_inv [OF inv t _ _ _ _ k(1), of _ _ ar] by simp
    qed
  qed (use inv go [of S_detach] go [of Cv_client] in simp_all)
  show "cv_inv (nsync_cv_broadcast t (cv_pcs s t) s)"
  proof (cases "cv_pcs s t")
    case B_detach
    have "splits_queue s [] (cv_waiters s)" using d by (simp add: splits_queue_def)
    then show ?thesis
      using B_detach detach_inv [OF inv t _ _ _ _, of "[]" "cv_waiters s" 0 _ "list_all (is_reader s) (cv_waiters s)"]
      by (cases "cv_waiters s = []") (simp_all add: cv_broadcast_detach_def Let_def)
  qed (use inv go [of B_detach] go [of Cv_client] in simp_all)
qed

lemma wake_transfer_splits:
  assumes "wake_transfer s old f rest = (s', keep, sor)" "distinct (f # rest)" "nw_mucv s f"
  obtains move where "set keep \<union> set move = set (f # rest)" "set keep \<inter> set move = {}" "distinct keep" "distinct move"
    "\<forall>i\<in>set move. nw_mucv s i" "s' = s\<lparr>pmu_waiters := pmu_waiters s @ move,
      wt_cv_mu := (\<lambda>p. if p \<in> set move then False else wt_cv_mu s p)\<rparr>"
proof -
  define cant where "cant = first_cant_acquire s old f"
  define mv where "mv = transferred s (cant \<or> wt_l_type s f = Some nsync_writer_type)"
  let ?move = "if cant then f # filter mv rest else filter mv rest"
  have k: "keep = (if cant then filter (\<lambda>p. \<not> mv p) rest else f # filter (\<lambda>p. \<not> mv p) rest)"
    and s': "s' = s\<lparr>pmu_waiters := pmu_waiters s @ ?move, wt_cv_mu := (\<lambda>p. if p \<in> set ?move then False else wt_cv_mu s p)\<rparr>"
    using assms(1) unfolding wake_transfer_def Let_def transfer_scan_filter cant_def [symmetric] mv_def [symmetric] by auto
  show thesis by (rule that [OF _ _ _ _ _ s'])
    (use assms(2,3) k in \<open>auto simp: mv_def transferred_def\<close>)
qed

lemma wake_inv:
  assumes inv: "cv_inv s" and t: "nw_mucv s t"
  shows "cv_inv (wake_waiters t (cv_pcs s t) s)"
proof -
  note I = cv_invD [OF inv]
  have ok: "to_wake_ok s (cv_pcs s t)" using I(2) [OF t] by (simp add: pc_ok_def)
  note go = cv_goto_inv [OF inv t]
  show ?thesis
  proof (cases "cv_pcs s t")
    case (S_mu_load ps a)
    then show ?thesis using ok go(1) [of "S_mu_cas (pmu_word s) ps a"] go(1) [of "S_wake ps"] by (simp add: Let_def)
  next
    case (S_mu_cas old ps a)
    show ?thesis
    proof (cases "pmu_word s = old")
      case True
      define s1 where "s1 = s\<lparr>pmu_word := (old OR MU_SPINLOCK OR MU_WAITING) AND NOT MU_ALL_FALSE\<rparr>"
      obtain s2 keep sor where w: "wake_transfer s1 old (hd ps) (tl ps) = (s2, keep, sor)" by (metis prod_cases3)
      have f: "pmu_waiters s1 = pmu_waiters s" "wt_cv_mu s1 = wt_cv_mu s" "nw_mucv s1 = nw_mucv s"
        by (simp_all add: s1_def)
      have ps: "hd ps # tl ps = ps" "nw_mucv s (hd ps)" "distinct ps"
        using ok S_mu_cas lists_okD(1) [OF I(1), of t] by auto
      obtain move where m: "set keep \<union> set move = set ps" "set keep \<inter> set move = {}" "distinct keep" "distinct move"
        "\<forall>i\<in>set move. nw_mucv s i" "s2 = s1\<lparr>pmu_waiters := pmu_waiters s @ move,
          wt_cv_mu := (\<lambda>p. if p \<in> set move then False else wt_cv_mu s p)\<rparr>"
        by (rule wake_transfer_splits [OF w]) (use ps f in auto)
      show ?thesis
        using transfer_inv [OF inv t, of ps keep move "S_rel_load sor keep" "(old OR MU_SPINLOCK OR MU_WAITING) AND NOT MU_ALL_FALSE"]
          m(1-5) S_mu_cas True w m(6) by (simp add: Let_def s1_def)
    qed (use S_mu_cas go(1) [of "S_wake ps"] in simp)
  next
    case (S_rel_load r ps)
    then show ?thesis using go(1) by simp
  next
    case (S_rel_cas old r ps)
    then show ?thesis using go(1) [of "S_rel_load r ps"] go(2) [of "S_wake ps"] by simp
  next
    case (S_wake ps)
    then show ?thesis using go(1) [of Cv_client] wake_first_inv [OF inv t] by (cases ps) simp_all
  next
    case (S_post i ps)
    then show ?thesis using post_inv [OF inv t] by simp
  qed (use inv in simp_all)
qed

section \<open>Other steps, and all reachable states\<close>

lemma unlink_pc_id [simp]: "i \<notin> set (detached p) \<Longrightarrow> unlink_pc i p = p"
  by (cases p) auto

lemma detached_unlink [simp]: "detached (unlink_pc i p) = unlink i (detached p)"
  by (cases p) auto

lemma wait_pc_unlink [simp]: "wait_pc (unlink_pc i p) = wait_pc p"
  by (cases p) auto

lemma wait_n_inv:
  assumes inv: "cv_inv s" and i: "\<not> nw_mucv s i"
  shows "\<not> nw_waiting s i \<Longrightarrow> cv_inv (fst (cv_enqueue i s))"
    "i \<in> set (cv_waiters s) \<or> \<not> nw_waiting s i \<Longrightarrow> cv_inv (fst (cv_dequeue i s))"
proof -
  note I = cv_invD [OF inv] and L = lists_okD [OF cv_invD(1) [OF inv]]
  show "cv_inv (fst (cv_enqueue i s))" (is "cv_inv ?s") if nw: "\<not> nw_waiting s i"
  proof (rule moves_inv [OF inv, of "{}"])
    have mm: "mine {} ?s = insert i (mine {} s)" by (auto simp: mine_def cv_enqueue_def)
    have np: "\<not> placed s i" using L(3) nw by blast
    have pl: "k \<in> mine {} s \<Longrightarrow> nw_waiting s k" for k using placed_mine [of "{}" undefined s k] L(3) by simp
    have pp: "post_pending ?s k = post_pending s k" for k by (simp add: post_pending_def cv_enqueue_def)
    show "moves {} s ?s"
      using i L(1) I(5,6) pp np pl
      unfolding moves_def mm by (auto simp: counted_def cv_enqueue_def placed_def)
  qed auto
  show "cv_inv (fst (cv_dequeue i s))" (is "cv_inv ?s") if q: "i \<in> set (cv_waiters s) \<or> \<not> nw_waiting s i"
  proof (rule moves_inv [OF inv, of "{}"])
    have w: "nw_waiting s i \<longleftrightarrow> i \<in> set (cv_waiters s)" using q L(3) [of i] by (auto simp: placed_def)
    then have un: "nw_waiting s i \<Longrightarrow> unlink_pc i (cv_pcs s t) = cv_pcs s t" for t using L(1) [of t] by auto
    have d: "distinct (cv_waiters s)" "set (cv_waiters s) \<inter> set (pmu_waiters s) = {}" using L(1) by auto
    have np: "i \<notin> mine {} s" if "i \<notin> set (cv_waiters s)" using L(3) w that by (auto simp: placed_def mine_def)
    have mm: "mine {} ?s = mine {} s - {i}" using d w np by (auto simp: mine_def cv_dequeue_def Let_def)
    have pl: "k \<in> mine {} s \<Longrightarrow> nw_waiting s k" for k using placed_mine [of "{}" undefined s k] L(3) by simp
    have pp: "post_pending ?s k = post_pending s k" for k using un by (simp add: post_pending_def cv_dequeue_def Let_def)
    show "moves {} s ?s"
      using i L(1) I(5,6) pp d w un pl mine_cv [of i s "{}"]
      unfolding moves_def mm by (auto simp: counted_def cv_dequeue_def Let_def distinct_remove1)
  qed auto
qed

lemma mu_wake_inv:
  assumes inv: "cv_inv s" and i: "i \<in> set (pmu_waiters s)"
  shows "cv_inv (s\<lparr>pmu_waiters := remove1 i (pmu_waiters s), pmu_posts := i # pmu_posts s,
      nw_waiting := (nw_waiting s)(i := False)\<rparr>)" (is "cv_inv ?s")
proof (rule moves_inv [OF inv, of "{}"])
  note I = cv_invD [OF inv] and L = lists_okD [OF cv_invD(1) [OF inv]]
  have d: "distinct (cv_waiters s @ pmu_waiters s)" using L(1) by auto
  have mm: "mine {} ?s = mine {} s - {i}" using d i by (auto simp: mine_def)
  have pl: "k \<in> mine {} s \<Longrightarrow> nw_waiting s k" for k using placed_mine [of "{}" undefined s k] L(3) by simp
  have pp: "post_pending ?s k \<longleftrightarrow> k = i \<or> post_pending s k" for k by (auto simp: post_pending_def)
  show "moves {} s ?s"
    using i I(5,6) pp d pl mine_pmu [OF i, of "{}"] unfolding moves_def mm by (auto simp: counted_def distinct_remove1)
qed auto

lemma mu_post_inv:
  assumes inv: "cv_inv s"
  shows "cv_inv (s\<lparr>pmu_posts := remove1 i (pmu_posts s), nw_sem := (nw_sem s)(i := nw_sem s i + 1)\<rparr>)" (is "cv_inv ?s")
proof (rule moves_inv [OF inv, of "{}"])
  note I = cv_invD [OF inv] and L = lists_okD [OF cv_invD(1) [OF inv]]
  have d: "distinct (cv_waiters s @ pmu_waiters s)" using L(1) by auto
  have mm: "mine {} ?s = mine {} s" by (auto simp: mine_def)
  have pl: "k \<in> mine {} s \<Longrightarrow> nw_waiting s k" for k using placed_mine [of "{}" undefined s k] L(3) by simp
  have pp: "k = i \<or> post_pending ?s k" if "post_pending s k" for k using that by (auto simp: post_pending_def in_set_remove1)
  show "moves {} s ?s"
    using I(5,6) pp d pl unfolding moves_def mm by (auto simp: counted_def)
qed auto

lemma mu_word_inv:
  assumes inv: "cv_inv s"
  shows "cv_inv (s\<lparr>pmu_word := w\<rparr>)" (is "cv_inv ?s")
proof (rule moves_inv [OF inv, of "{}"])
  note I = cv_invD [OF inv] and L = lists_okD [OF cv_invD(1) [OF inv]]
  have "mine {} ?s = mine {} s" "post_pending ?s k = post_pending s k" for k
    by (simp_all add: mine_def post_pending_def)
  moreover have "k \<in> mine {} s \<Longrightarrow> nw_waiting s k" for k using placed_mine [of "{}" undefined s k] L(3) by simp
  moreover have "distinct (cv_waiters s @ pmu_waiters s)" using L(1) by auto
  ultimately show "moves {} s ?s" using I(5,6) unfolding moves_def by (auto simp: counted_def)
qed auto

lemma call_inv:
  assumes inv: "cv_inv s" and t: "nw_mucv s t" and c: "may_call (cv_pcs s t)" and q: "q \<in> {W_prepare mu, S_load, B_load}"
  shows "cv_inv (cgoto t q s)"
  using cv_goto_inv(1) [OF inv t, of q] c q by (cases "cv_pcs s t") (auto simp: may_call_def)

lemma wait_raced: "cv_raced (nsync_cv_wait_with_deadline_generic t e p s) = cv_raced s"
  by (cases p) (auto simp: Let_def split: option.split)

lemma signal_raced:
  "cv_raced (nsync_cv_signal t p s) = cv_raced s" "cv_raced (nsync_cv_broadcast t p s) = cv_raced s"
proof -
  have "cv_raced (fst (cv_signal_detach s)) = cv_raced s" "cv_raced (fst (cv_broadcast_detach s)) = cv_raced s"
    by (auto simp: cv_signal_detach_def cv_broadcast_detach_def count_removed_def Let_def split: list.split prod.split)
  then show "cv_raced (nsync_cv_signal t p s) = cv_raced s" "cv_raced (nsync_cv_broadcast t p s) = cv_raced s"
    by (cases p; auto split: prod.split)+
qed

lemma wake_raced: "cv_raced (wake_waiters t p s) = cv_raced s"
  by (cases p) (auto simp: Let_def wake_transfer_def split: list.split prod.split)

lemma cv_step_raced: "cv_step mu s s' \<Longrightarrow> cv_raced s \<Longrightarrow> cv_raced s'"
  by (induction rule: cv_step.induct)
     (auto simp: wait_raced signal_raced wake_raced cv_enqueue_def cv_dequeue_def Let_def)

lemma dequeue_raced: "\<not> cv_raced (fst (cv_dequeue i s)) \<Longrightarrow> i \<in> set (cv_waiters s) \<or> \<not> nw_waiting s i"
  by (auto simp: cv_dequeue_def Let_def split: if_splits)

lemma cv_step_inv: "cv_step mu s s' \<Longrightarrow> cv_inv s \<Longrightarrow> \<not> cv_raced s' \<Longrightarrow> cv_inv s'"
proof (induction rule: cv_step.cases)
  case (wait s t expire)
  then show ?case using wait_quiet wait_enqueue wait_confirm by (metis (no_types))
next
  case (dequeue s i)
  then show ?case using wait_n_inv(2) dequeue_raced by blast
next
  case (mu_post i s)
  then show ?case using mu_post_inv by simp
qed (auto intro: call_inv signal_inv wake_inv wait_n_inv mu_word_inv mu_wake_inv)

lemma cv_start_inv: "cv_inv (cv_start native)"
  by (auto simp: cv_inv_def cv_start_def nsync_cv_init_def lists_ok_def placed_def pc_ok_def)

lemma cv_reach_inv: "cv_reach mu native s \<Longrightarrow> \<not> cv_raced s \<Longrightarrow> cv_inv s"
  unfolding cv_reach_def
  by (induction rule: rtranclp_induct) (auto intro: cv_step_inv cv_start_inv dest: cv_step_raced)

end
