(* ===== verification/Cv_Props.thy ===== *)
theory Cv_Props
  imports Cv_Inv "HOL-Library.Multiset"
begin

text \<open>
  The properties of condition variables: what a signal and a broadcast choose, what
  \<^verbatim>\<open>wake_waiters\<close> does with the chosen waiters, and that over all interleavings no
  wakeup is lost and none is consumed by a wait that timed out.  \<open>cv_exec\<close> executes a given
  interleaving, for concrete states.
\<close>

section \<open>Concrete runs\<close>

datatype cv_event =
    Call_wait tid | Call_signal tid | Call_broadcast tid | Run_wait tid "cv_result option"
  | Run_signal tid | Run_broadcast tid | Run_wake tid | Wait_n_enqueue nat | Mu_word u32

fun cv_event_ok :: "cv_event \<Rightarrow> cv_sys \<Rightarrow> bool" where
  "cv_event_ok (Call_wait t) s = (nw_mucv s t \<and> may_call (cv_pcs s t))"
| "cv_event_ok (Call_signal t) s = (nw_mucv s t \<and> may_call (cv_pcs s t))"
| "cv_event_ok (Call_broadcast t) s = (nw_mucv s t \<and> may_call (cv_pcs s t))"
| "cv_event_ok (Run_wait t e) s = (nw_mucv s t \<and> e \<noteq> Some Cv_ok)"
| "cv_event_ok (Run_signal t) s = nw_mucv s t"
| "cv_event_ok (Run_broadcast t) s = nw_mucv s t"
| "cv_event_ok (Run_wake t) s = nw_mucv s t"
| "cv_event_ok (Wait_n_enqueue i) s = (\<not> nw_mucv s i \<and> \<not> nw_waiting s i)"
| "cv_event_ok (Mu_word w) s = True"

fun cv_event_do :: "bool \<Rightarrow> cv_event \<Rightarrow> cv_sys \<Rightarrow> cv_sys" where
  "cv_event_do mu (Call_wait t) s = cgoto t (W_prepare mu) s"
| "cv_event_do mu (Call_signal t) s = cgoto t S_load s"
| "cv_event_do mu (Call_broadcast t) s = cgoto t B_load s"
| "cv_event_do mu (Run_wait t e) s = nsync_cv_wait_with_deadline_generic t e (cv_pcs s t) s"
| "cv_event_do mu (Run_signal t) s = nsync_cv_signal t (cv_pcs s t) s"
| "cv_event_do mu (Run_broadcast t) s = nsync_cv_broadcast t (cv_pcs s t) s"
| "cv_event_do mu (Run_wake t) s = wake_waiters t (cv_pcs s t) s"
| "cv_event_do mu (Wait_n_enqueue i) s = fst (cv_enqueue i s)"
| "cv_event_do mu (Mu_word w) s = s\<lparr>pmu_word := w\<rparr>"

fun cv_exec :: "bool \<Rightarrow> cv_event list \<Rightarrow> cv_sys \<Rightarrow> cv_sys option" where
  "cv_exec mu [] s = Some s"
| "cv_exec mu (x # xs) s = (if cv_event_ok x s then cv_exec mu xs (cv_event_do mu x s) else None)"

lemma cv_event_step: "cv_event_ok x s \<Longrightarrow> cv_step mu s (cv_event_do mu x s)"
  by (cases x) (auto intro: cv_step.intros)

lemma cv_exec_reach: "cv_reach mu native s \<Longrightarrow> cv_exec mu xs s = Some s' \<Longrightarrow> cv_reach mu native s'"
proof (induction xs arbitrary: s)
  case (Cons x xs)
  then have "cv_reach mu native (cv_event_do mu x s)"
    unfolding cv_reach_def by (auto intro: rtranclp.rtrancl_into_rtrancl cv_event_step split: if_splits)
  then show ?case using Cons by (auto split: if_splits)
qed simp

lemma cv_exec_start: "cv_exec mu xs (cv_start native) = Some s \<Longrightarrow> cv_reach mu native s"
  by (rule cv_exec_reach) (simp_all add: cv_reach_def)

text \<open>Thread \<open>t\<close> sleeps in a wait with the mutex word \<open>w\<close>.\<close>

definition sleep_events :: "tid \<Rightarrow> u32 \<Rightarrow> cv_event list" where
  "sleep_events t w =
     [Mu_word w, Call_wait t, Run_wait t None, Run_wait t None, Run_wait t None, Run_wait t None, Run_wait t None]"

definition is_thread :: "nat \<Rightarrow> bool" where
  "is_thread i \<longleftrightarrow> i < 8"

section \<open>Running \<^verbatim>\<open>wake_waiters\<close> to its end\<close>

primrec wake_run :: "tid \<Rightarrow> nat \<Rightarrow> cv_sys \<Rightarrow> cv_sys" where
  "wake_run t 0 s = s"
| "wake_run t (Suc n) s = wake_run t n (wake_waiters t (cv_pcs s t) s)"

lemma wake_run_add: "wake_run t (m + n) s = wake_run t n (wake_run t m s)"
  by (induction m arbitrary: s) auto

lemma wake_list_run:
  assumes "cv_pcs s t = S_wake ps" "distinct ps"
  shows "cv_pcs (wake_run t (2 * length ps + 1) s) t = Cv_client \<and>
    pmu_waiters (wake_run t (2 * length ps + 1) s) = pmu_waiters s \<and>
    (\<forall>i. nw_waiting (wake_run t (2 * length ps + 1) s) i = (nw_waiting s i \<and> i \<notin> set ps)) \<and>
    (\<forall>i. nw_sem (wake_run t (2 * length ps + 1) s) i = nw_sem s i + (if i \<in> set ps then 1 else 0))"
  using assms
proof (induction ps arbitrary: s)
  case (Cons p ps)
  define s2 where "s2 = wake_run t 2 s"
  have s2: "s2 = cgoto t (S_wake ps) (s\<lparr>nw_waiting := (nw_waiting s)(p := False), nw_sem := (nw_sem s)(p := nw_sem s p + 1)\<rparr>)"
    unfolding s2_def numeral_2_eq_2 using Cons.prems by (simp add: cgoto_def)
  have r: "wake_run t (2 * length (p # ps) + 1) s = wake_run t (2 * length ps + 1) s2"
    unfolding s2_def numeral_2_eq_2 by simp
  show ?case using Cons.IH [of s2] Cons.prems unfolding r by (auto simp: s2)
qed simp

lemma wake_transfer_run:
  assumes p: "cv_pcs s t = S_mu_load ps a" and ps: "ps \<noteq> []" "distinct ps"
  obtains n keep move where "n \<le> 4" "cv_pcs (wake_run t n s) t = S_wake keep"
    "set keep \<union> set move = set ps" "set keep \<inter> set move = {}" "distinct keep"
    "pmu_waiters (wake_run t n s) = pmu_waiters s @ move" "nw_waiting (wake_run t n s) = nw_waiting s"
    "nw_sem (wake_run t n s) = nw_sem s"
proof (cases "nw_mucv s (hd ps) \<and> wt_cv_mu s (hd ps) \<and> should_transfer s (pmu_word s) ps a")
  case False
  then show thesis using that [of 1 ps "[]"] p ps(2) by (auto simp: Let_def)
next
  case True
  let ?word = "(pmu_word s OR MU_SPINLOCK OR MU_WAITING) AND NOT MU_ALL_FALSE"
  define s1 where "s1 = (cgoto t (S_mu_cas (pmu_word s) ps a) s)\<lparr>pmu_word := ?word\<rparr>"
  obtain s2 keep sor where w: "wake_transfer s1 (pmu_word s) (hd ps) (tl ps) = (s2, keep, sor)" by (metis prod_cases3)
  obtain move where m: "set keep \<union> set move = set ps" "set keep \<inter> set move = {}" "distinct keep" "distinct move"
    "s2 = s1\<lparr>pmu_waiters := pmu_waiters s @ move, wt_cv_mu := (\<lambda>p. if p \<in> set move then False else wt_cv_mu s p)\<rparr>"
    by (rule wake_transfer_splits [OF w]) (use ps True in \<open>simp_all add: s1_def\<close>)
  have "wake_run t 2 s = cgoto t (S_rel_load sor keep) s2"
    unfolding numeral_2_eq_2 using True p w by (simp add: Let_def s1_def)
  then have "wake_run t 4 s = wake_run t 2 (cgoto t (S_rel_load sor keep) s2)"
    by (simp add: numeral_eq_Suc)
  moreover have "wake_run t 2 (cgoto t (S_rel_load sor keep) s2) =
    cgoto t (S_wake keep) ((cgoto t (S_rel_cas (pmu_word s2) sor keep) (cgoto t (S_rel_load sor keep) s2))\<lparr>pmu_word := (pmu_word s2 OR sor) AND NOT MU_SPINLOCK\<rparr>)"
    unfolding numeral_2_eq_2 by simp
  ultimately show thesis using that [of 4 keep move] m by (simp add: s1_def)
qed

lemma wake_ends:
  assumes "cv_pcs s t = S_mu_load ps a" "ps \<noteq> []" "distinct ps"
  obtains n s' where "n \<le> 2 * length ps + 5" "wake_run t n s = s'" "cv_pcs s' t = Cv_client"
    "\<And>i. i \<in> set ps \<Longrightarrow> i \<in> set (pmu_waiters s') \<or> \<not> nw_waiting s' i \<and> nw_sem s' i = nw_sem s i + 1"
    "\<And>i. i \<notin> set ps \<Longrightarrow> nw_waiting s' i = nw_waiting s i \<and> nw_sem s' i = nw_sem s i"
proof -
  obtain n keep move where n: "n \<le> 4" "cv_pcs (wake_run t n s) t = S_wake keep"
    "set keep \<union> set move = set ps" "set keep \<inter> set move = {}" "distinct keep"
    "pmu_waiters (wake_run t n s) = pmu_waiters s @ move" "nw_waiting (wake_run t n s) = nw_waiting s"
    "nw_sem (wake_run t n s) = nw_sem s"
    by (rule wake_transfer_run [OF assms])
  define k where "k = 2 * length keep + 1"
  define s' where "s' = wake_run t k (wake_run t n s)"
  have "card (set keep) \<le> card (set ps)" using n(3) by (intro card_mono) auto
  then have k: "n + k \<le> 2 * length ps + 5" using n(1,5) assms(3) by (simp add: distinct_card k_def)
  note r = wake_list_run [OF n(2,5), folded k_def, folded s'_def]
  show thesis
  proof (rule that [OF k])
    show "wake_run t (n + k) s = s'" by (simp add: wake_run_add s'_def)
  qed (use r n(3,4,6-8) in auto)
qed

section \<open>Which waiters a signal chooses\<close>

lemma signal_choice:
  assumes "cv_waiters s = first # rest" "cv_signal_detach s = (s', wake, ar)"
  shows "hd wake = first" "mset (cv_waiters s') + mset wake = mset (cv_waiters s)"
    "\<not> is_reader s first \<Longrightarrow> wake = [first] \<and> cv_waiters s' = rest"
    "is_reader s first \<Longrightarrow> filter (is_reader s) wake = filter (is_reader s) (cv_waiters s) \<and>
       length (filter (\<lambda>p. \<not> is_reader s p) wake) = min 1 (length (filter (\<lambda>p. \<not> is_reader s p) (cv_waiters s)))"
    "ar \<longleftrightarrow> list_all (is_reader s) wake"
proof -
  have "hd wake = first \<and> mset (cv_waiters s') + mset wake = mset (cv_waiters s) \<and>
    (\<not> is_reader s first \<longrightarrow> wake = [first] \<and> cv_waiters s' = rest) \<and>
    (is_reader s first \<longrightarrow> filter (is_reader s) wake = filter (is_reader s) (cv_waiters s) \<and>
       length (filter (\<lambda>p. \<not> is_reader s p) wake) = min 1 (length (filter (\<lambda>p. \<not> is_reader s p) (cv_waiters s)))) \<and>
    (ar \<longleftrightarrow> list_all (is_reader s) wake)"
  proof (cases "is_reader s first")
    case False
    then show ?thesis using assms by (auto simp: cv_signal_detach_def Let_def)
  next
    case r: True
    show ?thesis
    proof (cases rule: readers_prefix [of "is_reader s" rest])
      case 1
      then have e: "wake = first # rest" "cv_waiters s' = []" "ar"
        using assms r by (auto simp: cv_signal_detach_def Let_def signal_scan_all_readers)
      show ?thesis unfolding e assms(1) using r 1 e(3) by (simp add: list_all_iff filter_empty_conv)
    next
      case (2 as p bs)
      then have "filter (\<lambda>p. \<not> is_reader s p) as = []" "filter (is_reader s) as = as"
        by (auto simp: list_all_iff filter_empty_conv filter_id_conv)
      then show ?thesis using assms r 2
        by (auto simp: cv_signal_detach_def Let_def signal_scan_split)
    qed
  qed
  then show "hd wake = first" "mset (cv_waiters s') + mset wake = mset (cv_waiters s)"
    "\<not> is_reader s first \<Longrightarrow> wake = [first] \<and> cv_waiters s' = rest"
    "is_reader s first \<Longrightarrow> filter (is_reader s) wake = filter (is_reader s) (cv_waiters s) \<and>
       length (filter (\<lambda>p. \<not> is_reader s p) wake) = min 1 (length (filter (\<lambda>p. \<not> is_reader s p) (cv_waiters s)))"
    "ar \<longleftrightarrow> list_all (is_reader s) wake" by blast+
qed

section \<open>A step changes the program counter of one thread\<close>

lemma wait_other_pcs: "u \<noteq> t \<Longrightarrow> cv_pcs (nsync_cv_wait_with_deadline_generic t e p s) u = cv_pcs s u"
  by (cases p) (auto simp: Let_def split: option.split)

lemma signal_other_pcs:
  assumes "u \<noteq> t"
  shows "cv_pcs (nsync_cv_signal t p s) u = cv_pcs s u" "cv_pcs (nsync_cv_broadcast t p s) u = cv_pcs s u"
proof -
  have "cv_pcs (fst (cv_signal_detach s)) = cv_pcs s" "cv_pcs (fst (cv_broadcast_detach s)) = cv_pcs s"
    by (auto simp: cv_signal_detach_def cv_broadcast_detach_def Let_def split: list.split prod.split)
  then show "cv_pcs (nsync_cv_signal t p s) u = cv_pcs s u" "cv_pcs (nsync_cv_broadcast t p s) u = cv_pcs s u"
    using assms by (cases p; auto split: prod.split)+
qed

lemma wake_other_pcs: "u \<noteq> t \<Longrightarrow> cv_pcs (wake_waiters t p s) u = cv_pcs s u"
  by (cases p) (auto simp: Let_def wake_transfer_def split: list.split prod.split)

lemma wait_n_pcs: "cv_pcs (fst (cv_enqueue i s)) = cv_pcs s" "wait_pc (cv_pcs (fst (cv_dequeue i s)) t) = wait_pc (cv_pcs s t)"
  by (simp_all add: cv_enqueue_def cv_dequeue_def Let_def)

lemma not_in_wait:
  assumes "wait_pc p = Some v"
  shows "nsync_cv_signal t p s = s" "nsync_cv_broadcast t p s = s" "wake_waiters t p s = s" "\<not> may_call p"
  using assms by (cases p; simp add: may_call_def)+

lemma outcome_step:
  assumes st: "cv_step mu s s'" and v: "wait_pc (cv_pcs s t) = Some v" "wait_pc (cv_pcs s' t) = Some v'" "v_outcome v' \<noteq> v_outcome v"
  obtains e where "s' = nsync_cv_wait_with_deadline_generic t e (cv_pcs s t) s"
  using st
proof cases
  case (wait u e)
  then show thesis using that wait_other_pcs [of t u e "cv_pcs s u" s] v by (cases "u = t") auto
next
  case (signal u)
  then show thesis using that signal_other_pcs(1) [of t u "cv_pcs s u" s] v not_in_wait(1) [OF v(1), of u s] by (cases "u = t") auto
next
  case (broadcast u)
  then show thesis using that signal_other_pcs(2) [of t u "cv_pcs s u" s] v not_in_wait(2) [OF v(1), of u s] by (cases "u = t") auto
next
  case (wake u)
  then show thesis using that wake_other_pcs [of t u "cv_pcs s u" s] v not_in_wait(3) [OF v(1), of u s] by (cases "u = t") auto
next
  case (call_wait u)
  then show thesis using v by (cases "u = t") auto
next
  case (call_signal u)
  then show thesis using v by (cases "u = t") auto
next
  case (call_broadcast u)
  then show thesis using v by (cases "u = t") auto
qed (use v wait_n_pcs in auto)

lemma timeout_step:
  assumes inv: "cv_inv s" and raced: "\<not> cv_raced s" and t: "nw_mucv s t" and st: "cv_step mu s s'"
    and v: "wait_pc (cv_pcs s t) = Some v" "wait_pc (cv_pcs s' t) = Some v'" "v_outcome v' \<noteq> v_outcome v"
  shows "t \<in> set (cv_waiters s) \<and> cv_waiters s' = remove1 t (cv_waiters s) \<and> \<not> nw_waiting s' t \<and> \<not> placed s' t \<and>
    v_outcome v' = v_sem_outcome v"
proof -
  obtain e where s': "s' = nsync_cv_wait_with_deadline_generic t e (cv_pcs s t) s"
    by (rule outcome_step [OF st v])
  have inv': "cv_inv s'" using cv_step_inv [OF st inv] raced by (simp add: s' wait_raced)
  have c: "cv_pcs s t = W_confirm v" "nw_waiting s t" "v_remove_count v = wt_remove_count s t"
    using v unfolding s' by (cases "cv_pcs s t"; auto split: if_splits option.splits)+
  then have "t \<in> set (cv_waiters s)" using cv_invD(2) [OF inv t] by (auto simp: pc_ok_def waiting_ok_def)
  moreover have "\<not> nw_waiting s' t" "v_outcome v' = v_sem_outcome v" "cv_waiters s' = remove1 t (cv_waiters s)"
    using c v(2) by (auto simp: s' Let_def)
  ultimately show ?thesis using lists_okD(3) [OF cv_invD(1) [OF inv'], of t] by blast
qed

section \<open>Properties\<close>

text \<open>C12. In every reachable state of any number of threads in which \<^verbatim>\<open>cv_dequeue\<close> has not
  unlinked a struct from a signaller's list, every waiter struct, of a thread in a wait or of
  \<^verbatim>\<open>nsync_wait_n\<close>, is marked as waiting exactly while it is in the condition variable's queue, in
  the mutex's queue or in the hands of a signaller, or while its thread is about to enqueue it; it is
  in one of these places only, and once; and \<^verbatim>\<open>CV_NON_EMPTY\<close> is set exactly while the queue is
  not empty.\<close>

theorem cv_waiters_placed:
  assumes "cv_reach mu native s" "\<not> cv_raced s"
  shows "(\<forall>i. nw_waiting s i \<longleftrightarrow>
      i \<in> set (cv_waiters s) \<or> i \<in> set (pmu_waiters s) \<or> (\<exists>t. i \<in> set (detached (cv_pcs s t))) \<or>
      nw_mucv s i \<and> before_enqueue (cv_pcs s i)) \<and>
    (\<forall>t. distinct (cv_waiters s @ pmu_waiters s @ detached (cv_pcs s t)) \<and>
      (nw_mucv s t \<and> before_enqueue (cv_pcs s t) \<longrightarrow> \<not> placed s t)) \<and>
    (\<forall>t u. t \<noteq> u \<longrightarrow> set (detached (cv_pcs s t)) \<inter> set (detached (cv_pcs s u)) = {}) \<and>
    cv_word s = (if cv_waiters s = [] then 0 else CV_NON_EMPTY)"
proof -
  note I = cv_invD [OF cv_reach_inv [OF assms]]
  have "nw_waiting s i \<longleftrightarrow> placed s i \<or> nw_mucv s i \<and> before_enqueue (cv_pcs s i)" for i
  proof (cases "nw_mucv s i")
    case True
    have "wait_pc (cv_pcs s i) = Some v \<Longrightarrow> \<not> before_enqueue (cv_pcs s i)" for v by (cases "cv_pcs s i") auto
    then show ?thesis using I(2) [OF True] True lists_okD(3) [OF I(1), of i]
      by (auto simp: pc_ok_def waiting_ok_def split: option.splits if_splits)
  qed (use I(4) [of i] lists_okD(3) [OF I(1), of i] in blast)
  moreover have "\<not> placed s t" if "nw_mucv s t" "before_enqueue (cv_pcs s t)" for t
    using I(2) [OF that(1)] that(2) by (cases "cv_pcs s t") (auto simp: pc_ok_def)
  ultimately show ?thesis using I(1,6) unfolding lists_ok_def placed_def by blast
qed

text \<open>Thread 0 sleeps as a writer, thread 1 as a reader.\<close>

definition two_sleep :: "cv_event list" where
  "two_sleep = sleep_events 0 MU_WLOCK @ sleep_events 1 MU_RLOCK"

lemma two_sleep_run:
  "\<exists>s. cv_exec True two_sleep (cv_start is_thread) = Some s \<and> cv_waiters s = [0, 1] \<and> pmu_waiters s = [] \<and>
     nw_waiting s 0 \<and> nw_waiting s 1 \<and> \<not> cv_raced s \<and> nw_mucv s = is_thread \<and> nw_sem s 0 = 0 \<and> nw_sem s 1 = 0 \<and>
     cv_pcs s 0 = W_sem (cv_wait_start True False) \<and> cv_pcs s 1 = W_sem (cv_wait_start True True) \<and>
     cv_pcs s 2 = Cv_client \<and> cv_word s = CV_NON_EMPTY \<and> pmu_word s = MU_RLOCK \<and>
     wt_l_type s 0 = Some nsync_writer_type \<and> wt_l_type s 1 = Some nsync_reader_type \<and> wt_cv_mu s 0 \<and> wt_cv_mu s 1"
  unfolding two_sleep_def sleep_events_def
  by (simp add: cv_start_def nsync_cv_init_def is_thread_def may_call_def Let_def cv_wait_start_def cgoto_def
      MU_WLOCK_def MU_RLOCK_def MU_WHELD_IF_NON_ZERO_def MU_RHELD_IF_NON_ZERO_def MU_RLOCK_FIELD_def)

theorem cv_waiters_placed_witness:
  "\<exists>s :: cv_sys. cv_waiters s = [0, 1] \<and> nw_waiting s 0 \<and> \<not> cv_raced s \<and> cv_word s = CV_NON_EMPTY \<and>
     (\<forall>t. 0 \<notin> set (detached (cv_pcs s t)))"
proof -
  obtain s where s: "cv_exec True two_sleep (cv_start is_thread) = Some s" "cv_waiters s = [0, 1]"
    "nw_waiting s 0" "\<not> cv_raced s"
    using two_sleep_run by blast
  show ?thesis using cv_waiters_placed [OF cv_exec_start [OF s(1)] s(4)] s by (intro exI [of _ s]) auto
qed

text \<open>C11. No wakeup is lost, unless \<^verbatim>\<open>cv_dequeue\<close> has unlinked a struct of
  \<^verbatim>\<open>nsync_wait_n\<close> from a signaller's list (which loses one, as C15 shows): in every reachable
  state in which that has not happened, a thread that sleeps on its semaphore with nothing to take is
  either still on the queue of the condition variable, whose word then says that it is not empty, or on the
  queue of the mutex, or in the hands of a signaller that has not yet woken it, or a post to its
  semaphore is on its way.\<close>

theorem cv_no_lost_wakeup:
  assumes "cv_reach mu native s" "\<not> cv_raced s" "nw_mucv s t" "cv_pcs s t = W_sem v" "nw_sem s t = 0"
  shows "t \<in> set (cv_waiters s) \<and> cv_word s AND CV_NON_EMPTY \<noteq> 0 \<or> t \<in> set (pmu_waiters s) \<or>
    (\<exists>u. t \<in> set (detached (cv_pcs s u))) \<or> post_pending s t"
proof -
  note I = cv_invD [OF cv_reach_inv [OF assms(1,2)]]
  have "CV_NON_EMPTY AND CV_NON_EMPTY \<noteq> 0" by (simp add: CV_NON_EMPTY_def)
  then show ?thesis using I(2) [OF assms(3)] I(6) assms(4,5)
    by (cases "cv_waiters s") (auto simp: pc_ok_def waiting_ok_def placed_def)
qed

theorem cv_no_lost_wakeup_witness:
  "\<exists>s :: cv_sys. cv_pcs s 1 = W_sem (cv_wait_start True True) \<and> nw_sem s 1 = 0 \<and> cv_word s AND CV_NON_EMPTY \<noteq> 0"
proof -
  obtain s where s: "cv_exec True two_sleep (cv_start is_thread) = Some s" "cv_waiters s = [0, 1]" "pmu_waiters s = []"
    "nw_mucv s = is_thread" "cv_pcs s 1 = W_sem (cv_wait_start True True)" "nw_sem s 1 = 0" "nw_waiting s 1" "\<not> cv_raced s"
    using two_sleep_run by blast
  note r = cv_exec_start [OF s(1)] and I = cv_invD [OF cv_reach_inv [OF cv_exec_start [OF s(1)] s(8)]]
  have "nw_mucv s 1" using s by (simp add: is_thread_def)
  note w = cv_no_lost_wakeup [OF r s(8) this s(5,6)]
  have "\<not> (\<exists>u. 1 \<in> set (detached (cv_pcs s u)))" using lists_okD(1) [OF I(1)] s(2) by auto
  moreover have "\<not> post_pending s 1" if "cv_word s AND CV_NON_EMPTY = 0"
    using that I(6) s(2) by (simp add: CV_NON_EMPTY_def)
  ultimately show ?thesis using w s by (intro exI [of _ s]) auto
qed

text \<open>C13. \<^verbatim>\<open>nsync_cv_signal\<close> on a queue that is not empty detaches the waiter that came
  first.  If this is no reader of an \<^verbatim>\<open>nsync_mu\<close> it detaches nobody else; if it is one, it
  detaches every such reader, in their order, and one other waiter if there is one.  Every waiter is
  either detached or still queued, exactly once, and \<^verbatim>\<open>all_readers\<close> says whether only readers were
  detached.\<close>

theorem cv_signal_chooses:
  assumes "cv_waiters s = first # rest" "cv_signal_detach s = (s', wake, all_readers)"
  shows "hd wake = first \<and> mset (cv_waiters s') + mset wake = mset (cv_waiters s) \<and>
    (if is_reader s first
     then filter (is_reader s) wake = filter (is_reader s) (cv_waiters s) \<and>
       length (filter (\<lambda>p. \<not> is_reader s p) wake) = min 1 (length (filter (\<lambda>p. \<not> is_reader s p) (cv_waiters s)))
     else wake = [first] \<and> cv_waiters s' = rest) \<and>
    (all_readers \<longleftrightarrow> list_all (is_reader s) wake)"
  using signal_choice [OF assms] by simp

definition demo_queue :: cv_sys where
  "demo_queue = nsync_cv_init\<lparr>cv_waiters := [4, 5, 6, 7], cv_word := CV_NON_EMPTY,
     wt_l_type := (\<lambda>i. Some (if i = 4 \<or> i = 7 then nsync_reader_type else nsync_writer_type))\<rparr>"

theorem cv_signal_chooses_witness:
  "fst (snd (cv_signal_detach demo_queue)) = [4, 5, 7] \<and> length (filter (\<lambda>p. \<not> is_reader demo_queue p) [4, 5, 7]) = 1"
proof -
  have q: "cv_waiters demo_queue = 4 # [5, 6, 7]" "is_reader demo_queue 4" "\<not> is_reader demo_queue 5" "\<not> is_reader demo_queue 6"
    by (simp_all add: demo_queue_def is_reader_def nsync_cv_init_def)
  have w: "fst (snd (cv_signal_detach demo_queue)) = [4, 5, 7]" by code_simp
  obtain s' wake ar where d: "cv_signal_detach demo_queue = (s', wake, ar)" by (metis prod_cases3)
  then show ?thesis using cv_signal_chooses [OF q(1) d] q w by simp
qed

text \<open>C16. Once a signaller or broadcaster holds a list of detached waiters, \<^verbatim>\<open>wake_waiters\<close>
  ends, when it runs alone, after at most two steps for each waiter and five more; by then each
  waiter on the list is on the queue of the mutex, or its flag is clear and its semaphore has been
  posted once, and nobody else is disturbed.\<close>

theorem cv_wake_waiters_ends:
  assumes "cv_pcs s t = S_mu_load to_wake all_readers" "to_wake \<noteq> []" "distinct to_wake"
  shows "\<exists>n \<le> 2 * length to_wake + 5. cv_pcs (wake_run t n s) t = Cv_client \<and>
    (\<forall>i. i \<in> set to_wake \<longrightarrow> i \<in> set (pmu_waiters (wake_run t n s)) \<or>
       \<not> nw_waiting (wake_run t n s) i \<and> nw_sem (wake_run t n s) i = nw_sem s i + 1) \<and>
    (\<forall>i. i \<notin> set to_wake \<longrightarrow> nw_waiting (wake_run t n s) i = nw_waiting s i \<and> nw_sem (wake_run t n s) i = nw_sem s i)"
  by (rule wake_ends [OF assms]) blast

definition demo_wake :: cv_sys where
  "demo_wake = demo_queue\<lparr>cv_waiters := [], nw_waiting := (\<lambda>i. i = 4 \<or> i = 5),
     cv_pcs := (\<lambda>_. Cv_client)(0 := S_mu_load [4, 5] False)\<rparr>"

theorem cv_wake_waiters_ends_witness:
  "\<exists>n. cv_pcs (wake_run 0 n demo_wake) 0 = Cv_client \<and>
     nw_waiting (wake_run 0 n demo_wake) 6 = nw_waiting demo_wake 6"
  using cv_wake_waiters_ends [of demo_wake 0 "[4, 5]" False] by (auto simp: demo_wake_def)



text \<open>C14. A wait that gives up consumes no wakeup: in a state in which \<^verbatim>\<open>cv_dequeue\<close> has not
  unlinked a struct from a signaller's list, the only step that turns the outcome of a wait into a
  timeout or cancellation finds its thread still on the queue of the condition variable, so that no
  signaller has chosen it, and takes it, and nobody else, off that queue.\<close>

theorem cv_timeout_consumes_no_wakeup:
  assumes "cv_reach mu native s" "\<not> cv_raced s" "nw_mucv s t" "cv_step mu s s'"
    "wait_pc (cv_pcs s t) = Some v" "wait_pc (cv_pcs s' t) = Some v'" "v_outcome v' \<noteq> v_outcome v"
  shows "t \<in> set (cv_waiters s) \<and> cv_waiters s' = remove1 t (cv_waiters s) \<and> \<not> nw_waiting s' t \<and> \<not> placed s' t \<and>
    v_outcome v' = v_sem_outcome v"
  by (rule timeout_step [OF cv_reach_inv [OF assms(1,2)] assms(2-)])

text \<open>Thread 0 has timed out and is about to take the spinlock.\<close>

definition timed_out :: "cv_event list" where
  "timed_out = two_sleep @ [Run_wait 0 (Some Cv_ETIMEDOUT), Run_wait 0 None]"

lemma cv_exec_append:
  "cv_exec mu (xs @ ys) s = (case cv_exec mu xs s of None \<Rightarrow> None | Some s \<Rightarrow> cv_exec mu ys s)"
  by (induction xs arbitrary: s) auto

theorem cv_timeout_consumes_no_wakeup_witness:
  "\<exists>s v. cv_waiters s = [1 :: nat] \<and> cv_pcs s 0 = W_delay v \<and> v_outcome v = Cv_ETIMEDOUT \<and> \<not> placed s 0"
proof -
  obtain s0 where s0: "cv_exec True two_sleep (cv_start is_thread) = Some s0" "cv_waiters s0 = [0, 1]"
    "nw_waiting s0 0" "nw_mucv s0 = is_thread" "cv_pcs s0 0 = W_sem (cv_wait_start True False)" "\<not> cv_raced s0"
    using two_sleep_run by blast
  let ?v = "(cv_wait_start True False)\<lparr>v_sem_outcome := Cv_ETIMEDOUT\<rparr>"
  obtain s where s: "cv_exec True timed_out (cv_start is_thread) = Some s" "cv_waiters s = [0, 1]" "nw_waiting s 0"
    "nw_mucv s = is_thread" "cv_pcs s 0 = W_confirm ?v" "\<not> cv_raced s"
    using s0 by (auto simp: timed_out_def cv_exec_append is_thread_def cv_wait_start_def)
  note r = cv_exec_start [OF s(1)]
  have t: "nw_mucv s 0" using s by (simp add: is_thread_def)
  have c: "v_remove_count ?v = wt_remove_count s 0"
    using cv_invD(2) [OF cv_reach_inv [OF r s(6)] t] s by (simp add: pc_ok_def waiting_ok_def)
  let ?s = "nsync_cv_wait_with_deadline_generic 0 None (cv_pcs s 0) s"
  have p: "cv_pcs ?s 0 = W_delay (?v\<lparr>v_outcome := Cv_ETIMEDOUT\<rparr>)" using s c by (simp add: Let_def)
  have "cv_step True s ?s" by (rule cv_step.wait [OF t]) simp
  then show ?thesis
    using cv_timeout_consumes_no_wakeup [OF r s(6) t, of ?s ?v "?v\<lparr>v_outcome := Cv_ETIMEDOUT\<rparr>"] s(2,5) p
    by (intro exI [of _ ?s] exI [of _ "?v\<lparr>v_outcome := Cv_ETIMEDOUT\<rparr>"]) (simp add: cv_wait_start_def)
qed

text \<open>Thread 0 sleeps as a reader, struct 9 of \<^verbatim>\<open>nsync_wait_n\<close> is enqueued behind it, and thread 1
  broadcasts and detaches both.\<close>

definition broadcast_both :: "cv_event list" where
  "broadcast_both = sleep_events 0 MU_RLOCK @ [Wait_n_enqueue 9, Call_broadcast 1, Run_broadcast 1, Run_broadcast 1]"

lemma broadcast_both_run:
  "\<exists>s. cv_exec True broadcast_both (cv_start is_thread) = Some s \<and> cv_waiters s = [] \<and> pmu_waiters s = [] \<and>
     pmu_posts s = [] \<and> nw_waiting s 0 \<and> nw_waiting s 9 \<and> nw_mucv s = is_thread \<and> nw_sem s 0 = 0 \<and>
     cv_pcs s = (\<lambda>_. Cv_client)(0 := W_sem (cv_wait_start True True), 1 := S_mu_load [0, 9] False)"
  unfolding broadcast_both_def sleep_events_def
  by (simp add: cv_start_def nsync_cv_init_def is_thread_def may_call_def Let_def cv_wait_start_def cgoto_def
      cv_enqueue_def cv_broadcast_detach_def count_removed_def is_reader_def CV_NON_EMPTY_def
      MU_WLOCK_def MU_RLOCK_def MU_WHELD_IF_NON_ZERO_def MU_RHELD_IF_NON_ZERO_def MU_RLOCK_FIELD_def)

text \<open>C15. A defect: \<^verbatim>\<open>cv_dequeue\<close> can lose the wakeup of another thread.  A broadcaster has
  detached the sleeping thread 0 and, behind it, a struct of \<^verbatim>\<open>nsync_wait_n\<close>; before it wakes them
  \<^verbatim>\<open>nsync_wait_n\<close> gives up and dequeues its struct.  \<^verbatim>\<open>cv_dequeue\<close> reports that the
  struct was still queued, although the queue is empty, and unlinks it from the broadcaster's list,
  whose pointer points to it.  The broadcaster now sees that struct only: thread 0 sleeps, marked as
  waiting, on no list, and nobody is about to post its semaphore.\<close>

theorem cv_dequeue_strands_waiter:
  "\<exists>s s'. cv_reach True is_thread s \<and> detached (cv_pcs s 1) = [0, 9] \<and> cv_waiters s = [] \<and>
     cv_dequeue 9 s = (s', True) \<and> cv_step True s s' \<and> detached (cv_pcs s' 1) = [9] \<and>
     cv_pcs s' 0 = W_sem (cv_wait_start True True) \<and> nw_waiting s' 0 \<and> nw_sem s' 0 = 0 \<and>
     \<not> placed s' 0 \<and> \<not> post_pending s' 0"
proof -
  obtain s where s: "cv_exec True broadcast_both (cv_start is_thread) = Some s" "cv_waiters s = []" "pmu_waiters s = []"
    "pmu_posts s = []" "nw_waiting s 0" "nw_waiting s 9" "nw_mucv s = is_thread" "nw_sem s 0 = 0"
    "cv_pcs s = (\<lambda>_. Cv_client)(0 := W_sem (cv_wait_start True True), 1 := S_mu_load [0, 9] False)"
    using broadcast_both_run by blast
  obtain s' where d: "cv_dequeue 9 s = (s', True)" using s(6) by (simp add: cv_dequeue_def Let_def)
  have p: "cv_pcs s' = (\<lambda>_. Cv_client)(0 := W_sem (cv_wait_start True True), 1 := S_mu_load [9] False)"
    using d s(6,9) by (auto simp: cv_dequeue_def Let_def unlink_def fun_eq_iff)
  have "cv_step True s s'" using cv_step.dequeue [of s 9 True] s(7) d by (simp add: is_thread_def)
  moreover have "\<not> placed s' 0" "\<not> post_pending s' 0" "nw_waiting s' 0" "nw_sem s' 0 = 0"
    using d p s by (auto simp: placed_def post_pending_def cv_dequeue_def Let_def)
  ultimately show ?thesis using cv_exec_start [OF s(1)] s(2,9) d p by (intro exI [of _ s] exI [of _ s']) simp
qed

end
