(* ===== verification/Waitable.thy ===== *)
theory Waitable
  imports Dll
begin

text \<open>
  Waiter structs on the lists of counters and notes (\<^verbatim>\<open>struct nsync_waiter_s\<close> of
  \<^verbatim>\<open>public/nsync_waiter.h\<close>) and the loop that wakes all of them, which
  \<^verbatim>\<open>nsync_counter_add\<close> and \<^verbatim>\<open>note_notify_child\<close> both contain.  A list element is
  the \<^verbatim>\<open>q\<close> field of a struct, whose address is the element's container; several structs
  may share a semaphore.  The interface of the lists, as the loop uses it, is the locale
  \<open>removable_list\<close>, provided by theory \<open>Dll\<close>.
\<close>

record nws =
  nw_heap :: dll_heap
  nw_waiting :: "addr \<Rightarrow> bool"
  nw_sem :: "addr \<Rightarrow> addr"
  sem_count :: "addr \<Rightarrow> nat"

text \<open>\<^verbatim>\<open>DLL_NSYNC_WAITER\<close>\<close>

definition dll_nsync_waiter :: "nws \<Rightarrow> addr \<Rightarrow> addr" where
  "dll_nsync_waiter s e = container (nw_heap s) e"

text \<open>The body of the loop: take the first element off, clear its flag, post its semaphore.\<close>

definition wake_first :: "nws \<Rightarrow> dll_list \<Rightarrow> addr \<Rightarrow> nws \<times> dll_list" where
  "wake_first s l p =
     (let nw = dll_nsync_waiter s p;
          (h, l) = nsync_dll_remove (nw_heap s) l p
      in (s\<lparr>nw_heap := h, nw_waiting := (nw_waiting s)(nw := False),
            sem_count := (sem_count s)(nw_sem s nw := sem_count s (nw_sem s nw) + 1)\<rparr>, l))"

partial_function (option) wake_all :: "nws \<Rightarrow> dll_list \<Rightarrow> (nws \<times> dll_list) option" where
  "wake_all s l =
     (case nsync_dll_first (nw_heap s) l of
        None \<Rightarrow> Some (s, l)
      | Some p \<Rightarrow> wake_all (fst (wake_first s l p)) (snd (wake_first s l p)))"

section \<open>The interface of a list that is emptied from the front\<close>

locale removable_list =
  fixes rep :: "'h \<Rightarrow> 'l \<Rightarrow> 'a list \<Rightarrow> bool"
    and first :: "'h \<Rightarrow> 'l \<Rightarrow> 'a option" and remove :: "'h \<Rightarrow> 'l \<Rightarrow> 'a \<Rightarrow> 'h \<times> 'l"
  assumes first_rep: "rep h l xs \<Longrightarrow> first h l = (if xs = [] then None else Some (hd xs))"
    and remove_rep: "rep h l xs \<Longrightarrow> x \<in> set xs \<Longrightarrow>
      rep (fst (remove h l x)) (snd (remove h l x)) (remove1 x xs)"
begin

text \<open>One round of a loop that empties the list from the front, and its end.\<close>

lemma round:
  assumes "rep h l (x # xs)"
  shows "first h l = Some x" "rep (fst (remove h l x)) (snd (remove h l x)) xs"
  using first_rep [OF assms] remove_rep [OF assms, of x] by simp_all

lemma finished: "rep h l [] \<Longrightarrow> first h l = None"
  using first_rep by simp

end

interpretation dll: removable_list is_dll nsync_dll_first nsync_dll_remove
proof unfold_locales
  fix h l xs
  assume d: "is_dll h l xs"
  show "nsync_dll_first h l = (if xs = [] then None else Some (hd xs))" using first_list [OF d] .
  fix x assume "x \<in> set xs"
  then show "is_dll (fst (nsync_dll_remove h l x)) (snd (nsync_dll_remove h l x)) (remove1 x xs)"
    using remove_list(1) [OF d] by (metis prod.collapse)
qed

section \<open>Waking all waiters\<close>

lemma wake_first_fields:
  "nw_heap (fst (wake_first s l p)) = fst (nsync_dll_remove (nw_heap s) l p)"
  "snd (wake_first s l p) = snd (nsync_dll_remove (nw_heap s) l p)"
  "nw_waiting (fst (wake_first s l p)) = (nw_waiting s)(dll_nsync_waiter s p := False)"
  "nw_sem (fst (wake_first s l p)) = nw_sem s"
  "sem_count (fst (wake_first s l p)) k =
     sem_count s k + (if nw_sem s (dll_nsync_waiter s p) = k then 1 else 0)"
  by (auto simp: wake_first_def Let_def split: prod.split)

text \<open>
  The loop ends, for a well-formed list; it leaves the list empty and every element unlinked,
  clears exactly the flags of the structs on the list, and posts the semaphore of each once.
\<close>

lemma wake_all_spec:
  assumes "is_dll (nw_heap s) l xs"
  shows "\<exists>s'. wake_all s l = Some (s', None) \<and>
    nw_waiting s' = (\<lambda>a. nw_waiting s a \<and> a \<notin> container (nw_heap s) ` set xs) \<and>
    (\<forall>k. sem_count s' k = sem_count s k +
       length (filter (\<lambda>e. nw_sem s (container (nw_heap s) e) = k) xs)) \<and>
    (\<forall>e\<in>set xs. ring (nw_heap s') [e]) \<and> same_links (- set xs) (nw_heap s) (nw_heap s') \<and>
    nw_sem s' = nw_sem s \<and> container (nw_heap s') = container (nw_heap s)"
  using assms
proof (induction xs arbitrary: s l)
  case Nil
  then show ?case using dll.finished [OF Nil] by (subst wake_all.simps) (auto simp: same_links_def)
next
  case (Cons x xs)
  define s1 where "s1 = fst (wake_first s l x)"
  define l1 where "l1 = snd (wake_first s l x)"
  have rm: "nsync_dll_remove (nw_heap s) l x = (nw_heap s1, l1)"
    by (simp add: s1_def l1_def wake_first_fields)
  note r = remove_list [OF Cons.prems _ rm]
  have d: "is_dll (nw_heap s1) l1 xs" using dll.round(2) [OF Cons.prems] rm by simp
  have x: "ring (nw_heap s1) [x]" "same_links (- set (x # xs)) (nw_heap s) (nw_heap s1)"
    and c: "container (nw_heap s1) = container (nw_heap s)" using r by auto
  have dx: "x \<notin> set xs" using is_dll_distinct [OF Cons.prems] by simp
  have step: "wake_all s l = wake_all s1 l1"
    using dll.round(1) [OF Cons.prems] by (subst wake_all.simps) (simp add: s1_def l1_def)
  obtain s' where s': "wake_all s1 l1 = Some (s', None)"
    "nw_waiting s' = (\<lambda>a. nw_waiting s1 a \<and> a \<notin> container (nw_heap s1) ` set xs)"
    "\<forall>k. sem_count s' k = sem_count s1 k + length (filter (\<lambda>e. nw_sem s1 (container (nw_heap s1) e) = k) xs)"
    "\<forall>e\<in>set xs. ring (nw_heap s') [e]" "same_links (- set xs) (nw_heap s1) (nw_heap s')"
    "nw_sem s' = nw_sem s1" "container (nw_heap s') = container (nw_heap s1)"
    using Cons.IH [OF d] by blast
  have w: "nw_waiting s' = (\<lambda>a. nw_waiting s a \<and> a \<notin> container (nw_heap s) ` set (x # xs))"
    using s'(2) c by (auto simp: s1_def wake_first_fields dll_nsync_waiter_def)
  have k: "sem_count s' k = sem_count s k + length (filter (\<lambda>e. nw_sem s (container (nw_heap s) e) = k) (x # xs))" for k
    using s'(3) c by (simp add: s1_def wake_first_fields dll_nsync_waiter_def)
  have rx: "ring (nw_heap s') [x]"
    using s'(5) x(1) dx by (auto intro: ring_cong simp: same_links_def)
  have sl: "same_links (- set (x # xs)) (nw_heap s) (nw_heap s')"
    using x(2) s'(5) by (auto simp: same_links_def)
  show ?case using step s' w k rx sl c
    by (intro exI [of _ s']) (simp add: s1_def wake_first_fields)
qed

end
