(* ===== verification/Counter.thy ===== *)
theory Counter
  imports Waitable Time
begin

text \<open>
  \<^verbatim>\<open>internal/counter.c\<close>.  Every operation but a read of the value runs under
  \<^verbatim>\<open>counter_mu\<close> (whose mutual exclusion is the subject of theory \<open>Mu_Props\<close>), so an
  operation is one step on the state; the compare-and-swap on the value then succeeds at once.
  \<open>None\<close> is a failed assertion.  The one write outside the lock is that of \<^verbatim>\<open>waited\<close> in
  \<^verbatim>\<open>counter_ready_time\<close>: the model places it before or after an addition, never between the
  compare-and-swap and the assertion that follows it.
\<close>

record nsync_counter =
  c_waited :: bool
  c_value :: u32
  c_waiters :: dll_list
  c_nws :: nws

text \<open>\<open>alloc\<close> is whether \<^verbatim>\<open>malloc\<close> returns a block; \<open>s\<close> is the rest of memory.\<close>

definition nsync_counter_new :: "bool \<Rightarrow> nws \<Rightarrow> u32 \<Rightarrow> nsync_counter option" where
  "nsync_counter_new alloc s v =
     (if alloc then Some \<lparr>c_waited = False, c_value = v, c_waiters = None, c_nws = s\<rparr> else None)"

definition nsync_counter_free :: "nsync_counter \<Rightarrow> unit option" where
  "nsync_counter_free c = (if nsync_dll_is_empty (c_waiters c) then Some () else None)"

text \<open>\<^verbatim>\<open>delta\<close> is an \<^verbatim>\<open>int32_t\<close>; it is added to the \<^verbatim>\<open>uint32_t\<close> modulo \<open>2 ^ 32\<close>.\<close>

definition nsync_counter_add :: "nsync_counter \<Rightarrow> int \<Rightarrow> (nsync_counter \<times> u32) option" where
  "nsync_counter_add c delta =
     (if delta = 0 then Some (c, c_value c)
      else
        (let v = c_value c + word_of_int delta;
             c = c\<lparr>c_value := v\<rparr>
         in if (if delta > 0
                then (v \<noteq> word_of_int delta \<or> \<not> c_waited c) \<and> v > v - word_of_int delta
                else v < v - word_of_int delta)
            then (if v = 0
                  then (case wake_all (c_nws c) (c_waiters c) of
                          None \<Rightarrow> None
                        | Some (s, l) \<Rightarrow> Some (c\<lparr>c_nws := s, c_waiters := l\<rparr>, v))
                  else Some (c, v))
            else None))"

definition nsync_counter_value :: "nsync_counter \<Rightarrow> u32" where
  "nsync_counter_value c = c_value c"

definition counter_ready_time :: "nsync_counter \<Rightarrow> nsync_counter \<times> nsync_time" where
  "counter_ready_time c =
     (let c = c\<lparr>c_waited := True\<rparr>
      in (c, if c_value c = 0 then nsync_time_zero else nsync_time_no_deadline))"

text \<open>\<open>e\<close> is the \<^verbatim>\<open>q\<close> field of the waiter struct.\<close>

definition set_waiting :: "addr \<Rightarrow> bool \<Rightarrow> nws \<Rightarrow> nws" where
  "set_waiting e b s = s\<lparr>nw_waiting := (nw_waiting s)(dll_nsync_waiter s e := b)\<rparr>"

definition counter_enqueue :: "nsync_counter \<Rightarrow> addr \<Rightarrow> nsync_counter \<times> bool" where
  "counter_enqueue c e =
     (if c_value c \<noteq> 0
      then (case nsync_dll_make_last_in_list (nw_heap (c_nws c)) (c_waiters c) (Some e) of
              (h, l) \<Rightarrow>
                (c\<lparr>c_waiters := l, c_nws := set_waiting e True ((c_nws c)\<lparr>nw_heap := h\<rparr>)\<rparr>, True))
      else (c\<lparr>c_nws := set_waiting e False (c_nws c)\<rparr>, False))"

definition counter_dequeue :: "nsync_counter \<Rightarrow> addr \<Rightarrow> nsync_counter \<times> bool" where
  "counter_dequeue c e =
     (if nw_waiting (c_nws c) (dll_nsync_waiter (c_nws c) e)
      then (case nsync_dll_remove (nw_heap (c_nws c)) (c_waiters c) e of
              (h, l) \<Rightarrow>
                (c\<lparr>c_waiters := l, c_nws := set_waiting e False ((c_nws c)\<lparr>nw_heap := h\<rparr>)\<rparr>, c_value c \<noteq> 0))
      else (c, c_value c \<noteq> 0))"

text \<open>
  The invariant: the list is well-formed, the structs on it are just those in \<open>es\<close> that
  are marked as waiting, and nobody is on the list of a counter that is 0.
\<close>

definition counter_inv :: "addr set \<Rightarrow> nsync_counter \<Rightarrow> bool" where
  "counter_inv es c \<longleftrightarrow>
     (\<exists>xs. is_dll (nw_heap (c_nws c)) (c_waiters c) xs \<and> set xs \<subseteq> es \<and>
        inj_on (container (nw_heap (c_nws c))) es \<and>
        (\<forall>e\<in>es. nw_waiting (c_nws c) (dll_nsync_waiter (c_nws c) e) \<longleftrightarrow> e \<in> set xs) \<and>
        (\<forall>e\<in>es. e \<notin> set xs \<longrightarrow> ring (nw_heap (c_nws c)) [e]) \<and>
        (c_value c = 0 \<longrightarrow> xs = []))"

text \<open>The operations that other threads may apply, in any order.\<close>

datatype counter_op = Add int | Enqueue addr | Dequeue addr | Ready_time

text \<open>A struct is enqueued only when it is not on a list; \<^verbatim>\<open>delta\<close> is an \<^verbatim>\<open>int32_t\<close>.\<close>

definition counter_op_ok :: "addr set \<Rightarrow> counter_op \<Rightarrow> nsync_counter \<Rightarrow> bool" where
  "counter_op_ok es x c =
     (case x of
        Enqueue e \<Rightarrow> e \<in> es \<and> \<not> nw_waiting (c_nws c) (dll_nsync_waiter (c_nws c) e)
      | Dequeue e \<Rightarrow> e \<in> es
      | Add d \<Rightarrow> - (2 ^ 31) \<le> d \<and> d < 2 ^ 31
      | Ready_time \<Rightarrow> True)"

definition counter_do :: "counter_op \<Rightarrow> nsync_counter \<Rightarrow> nsync_counter option" where
  "counter_do x c =
     (case x of
        Add d \<Rightarrow> map_option fst (nsync_counter_add c d)
      | Enqueue e \<Rightarrow> Some (fst (counter_enqueue c e))
      | Dequeue e \<Rightarrow> Some (fst (counter_dequeue c e))
      | Ready_time \<Rightarrow> Some (fst (counter_ready_time c)))"

inductive counter_reach :: "addr set \<Rightarrow> nsync_counter \<Rightarrow> nsync_counter \<Rightarrow> bool" for es c0 where
  start: "counter_reach es c0 c0"
| step: "counter_reach es c0 c \<Longrightarrow> counter_op_ok es x c \<Longrightarrow> counter_do x c = Some c' \<Longrightarrow> counter_reach es c0 c'"

section \<open>The invariant is kept\<close>

lemma counter_invE:
  assumes "counter_inv es c"
  obtains xs where "is_dll (nw_heap (c_nws c)) (c_waiters c) xs" "set xs \<subseteq> es"
    "inj_on (container (nw_heap (c_nws c))) es"
    "\<And>e. e \<in> es \<Longrightarrow> nw_waiting (c_nws c) (dll_nsync_waiter (c_nws c) e) \<longleftrightarrow> e \<in> set xs"
    "\<And>e. e \<in> es \<Longrightarrow> e \<notin> set xs \<Longrightarrow> ring (nw_heap (c_nws c)) [e]" "c_value c = 0 \<Longrightarrow> xs = []"
  using assms unfolding counter_inv_def by blast

lemma set_waiting_fields [simp]:
  "nw_heap (set_waiting e b s) = nw_heap s" "nw_sem (set_waiting e b s) = nw_sem s"
  "sem_count (set_waiting e b s) = sem_count s"
  "nw_waiting (set_waiting e b s) = (nw_waiting s)(container (nw_heap s) e := b)"
  by (simp_all add: set_waiting_def dll_nsync_waiter_def)

lemma enqueue_inv:
  assumes inv: "counter_inv es c" and e: "e \<in> es" "\<not> nw_waiting (c_nws c) (dll_nsync_waiter (c_nws c) e)"
  shows "counter_inv es (fst (counter_enqueue c e)) \<and> snd (counter_enqueue c e) = (c_value c \<noteq> 0)"
  using inv
proof (rule counter_invE)
  fix xs
  assume d: "is_dll (nw_heap (c_nws c)) (c_waiters c) xs" "set xs \<subseteq> es"
    and inj: "inj_on (container (nw_heap (c_nws c))) es"
    and w: "\<And>e. e \<in> es \<Longrightarrow> nw_waiting (c_nws c) (dll_nsync_waiter (c_nws c) e) \<longleftrightarrow> e \<in> set xs"
    and r: "\<And>e. e \<in> es \<Longrightarrow> e \<notin> set xs \<Longrightarrow> ring (nw_heap (c_nws c)) [e]" and z: "c_value c = 0 \<Longrightarrow> xs = []"
  have ne: "e \<notin> set xs" using w e by blast
  show ?thesis
  proof (cases "c_value c = 0")
    case True
    have "nw_waiting (set_waiting e False (c_nws c)) = nw_waiting (c_nws c)"
      using e by (simp add: dll_nsync_waiter_def fun_upd_idem_iff)
    then show ?thesis using True inv unfolding counter_inv_def by (auto simp: counter_enqueue_def dll_nsync_waiter_def)
  next
    case False
    obtain h l where mk: "nsync_dll_make_last_in_list (nw_heap (c_nws c)) (c_waiters c) (Some e) = (h, l)" by fastforce
    have m: "is_dll h l (xs @ [e])" "same_links (- (set xs \<union> {e})) (nw_heap (c_nws c)) h"
      "container h = container (nw_heap (c_nws c))"
      using make_last_list [of "nw_heap (c_nws c)" "c_waiters c" xs "[]" e h l] d(1) r [OF e(1) ne] ne mk by auto
    have "ring h [f]" if "f \<in> es" "f \<notin> set (xs @ [e])" for f
      using r [OF that(1)] that(2) m(2) by (intro ring_cong [of "[f]" "nw_heap (c_nws c)" h]) (auto simp: same_links_def)
    then show ?thesis
      using False mk m d(2) e inj w
      by (auto simp: counter_enqueue_def counter_inv_def dll_nsync_waiter_def inj_on_eq_iff [OF inj] intro!: exI [of _ "xs @ [e]"])
  qed
qed

lemma dequeue_inv:
  assumes inv: "counter_inv es c" and e: "e \<in> es"
  shows "counter_inv es (fst (counter_dequeue c e)) \<and>
    \<not> nw_waiting (c_nws (fst (counter_dequeue c e))) (dll_nsync_waiter (c_nws (fst (counter_dequeue c e))) e)"
  using inv
proof (rule counter_invE)
  fix xs
  assume d: "is_dll (nw_heap (c_nws c)) (c_waiters c) xs" "set xs \<subseteq> es"
    and inj: "inj_on (container (nw_heap (c_nws c))) es"
    and w: "\<And>e. e \<in> es \<Longrightarrow> nw_waiting (c_nws c) (dll_nsync_waiter (c_nws c) e) \<longleftrightarrow> e \<in> set xs"
    and r: "\<And>e. e \<in> es \<Longrightarrow> e \<notin> set xs \<Longrightarrow> ring (nw_heap (c_nws c)) [e]" and z: "c_value c = 0 \<Longrightarrow> xs = []"
  show ?thesis
  proof (cases "nw_waiting (c_nws c) (dll_nsync_waiter (c_nws c) e)")
    case False
    then show ?thesis using inv by (simp add: counter_dequeue_def)
  next
    case True
    then have ex: "e \<in> set xs" using w e by blast
    obtain h l where mk: "nsync_dll_remove (nw_heap (c_nws c)) (c_waiters c) e = (h, l)" by fastforce
    note m = remove_list [OF d(1) ex mk]
    have dx: "distinct xs" using is_dll_distinct [OF d(1)] .
    have "ring h [f]" if "f \<in> es" "f \<notin> set (remove1 e xs)" for f
    proof (cases "f = e")
      case False
      then have "f \<notin> set xs" using that(2) dx by simp
      then show ?thesis using r [OF that(1)] m(3)
        by (intro ring_cong [of "[f]" "nw_heap (c_nws c)" h]) (auto simp: same_links_def)
    qed (use m(2) in simp)
    then have "counter_inv es (fst (counter_dequeue c e))"
      unfolding counter_inv_def
      using True mk m(1,4) d(2) e inj w dx z set_remove1_subset [of e xs]
      by (intro exI [of _ "remove1 e xs"])
         (auto simp: counter_dequeue_def dll_nsync_waiter_def inj_on_eq_iff [OF inj])
    moreover have "\<not> nw_waiting (c_nws (fst (counter_dequeue c e))) (dll_nsync_waiter (c_nws (fst (counter_dequeue c e))) e)"
      using True mk m(4) by (simp add: counter_dequeue_def dll_nsync_waiter_def)
    ultimately show ?thesis by blast
  qed
qed


section \<open>Adding\<close>

lemma uint_add_delta: "uint (w + word_of_int d) = (uint w + d) mod 2 ^ 32" for w :: u32
  by (simp add: uint_word_ariths uint_word_of_int mod_simps)

lemma no_wrap:
  fixes w :: u32
  assumes "- (2 ^ 31) \<le> d" "d < 2 ^ 31"
  shows "0 < d \<Longrightarrow> w + word_of_int d > w \<longleftrightarrow> uint w + d < 2 ^ 32"
    "d < 0 \<Longrightarrow> w + word_of_int d < w \<longleftrightarrow> 0 \<le> uint w + d"
    "0 \<le> uint w + d \<Longrightarrow> uint w + d < 2 ^ 32 \<Longrightarrow> uint (w + word_of_int d) = uint w + d"
proof -
  have b: "0 \<le> uint w" "uint w < 2 ^ 32" using uint_bounded [of w] by simp_all
  show "uint (w + word_of_int d) = uint w + d" if "0 \<le> uint w + d" "uint w + d < 2 ^ 32"
    using that by (simp add: uint_add_delta)
  show "w + word_of_int d > w \<longleftrightarrow> uint w + d < 2 ^ 32" if "0 < d"
  proof (cases "uint w + d < 2 ^ 32")
    case True
    then show ?thesis using b that by (simp add: word_less_def uint_add_delta)
  next
    case False
    have "(uint w + d) mod 2 ^ 32 = (uint w + d - 2 ^ 32) mod 2 ^ 32" by (metis minus_mod_self2)
    also have "\<dots> = uint w + d - 2 ^ 32" using False b assms by (intro mod_pos_pos_trivial) auto
    finally show ?thesis using False b assms by (simp add: word_less_def uint_add_delta)
  qed
  show "w + word_of_int d < w \<longleftrightarrow> 0 \<le> uint w + d" if "d < 0"
  proof (cases "0 \<le> uint w + d")
    case True
    then have "(uint w + d) mod 2 ^ 32 = uint w + d" using b that by (intro mod_pos_pos_trivial) auto
    then show ?thesis using True that by (simp add: word_less_def uint_add_delta)
  next
    case False
    have "(uint w + d) mod 2 ^ 32 = (uint w + d + 2 ^ 32) mod 2 ^ 32" by simp
    also have "\<dots> = uint w + d + 2 ^ 32"
    proof (rule mod_pos_pos_trivial)
      have "- 2147483648 \<le> d" using assms(1) by simp
      then have "0 \<le> uint w + d + 4294967296" using b(1) by linarith
      then show "0 \<le> uint w + d + 2 ^ 32" by simp
      show "uint w + d + 2 ^ 32 < 2 ^ 32" using False by linarith
    qed
    finally show ?thesis using False b assms by (simp add: word_less_def uint_add_delta)
  qed
qed

text \<open>When the assertions of the code pass: no wrap-around, and not from 0 after a wait, as the
  comment in \<^verbatim>\<open>counter.c\<close> and that on \<^verbatim>\<open>nsync_counter_wait\<close> in \<^verbatim>\<open>nsync_counter.h\<close> have it.  The
  comment on \<^verbatim>\<open>nsync_counter_add\<close> in \<^verbatim>\<open>nsync_counter.h\<close> is stricter: it makes every increment after
  a wait an error, which the code does not check.\<close>

definition add_allowed :: "nsync_counter \<Rightarrow> int \<Rightarrow> bool" where
  "add_allowed c d \<longleftrightarrow>
     d = 0 \<or> 0 \<le> uint (c_value c) + d \<and> uint (c_value c) + d < 2 ^ 32 \<and>
       \<not> (0 < d \<and> c_value c = 0 \<and> c_waited c)"

lemma add_cases:
  assumes "- (2 ^ 31) \<le> d" "d < 2 ^ 31" "d \<noteq> 0"
  shows "nsync_counter_add c d =
    (if add_allowed c d
     then (let v = c_value c + word_of_int d
           in if v = 0
              then (case wake_all (c_nws c) (c_waiters c) of
                      None \<Rightarrow> None
                    | Some (s, l) \<Rightarrow> Some (c\<lparr>c_value := v, c_nws := s, c_waiters := l\<rparr>, v))
              else Some (c\<lparr>c_value := v\<rparr>, v))
     else None)"
proof -
  have b: "0 \<le> uint (c_value c)" "uint (c_value c) < 2 ^ 32" using uint_bounded [of "c_value c"] by simp_all
  show ?thesis
  proof (cases "0 < d")
    case True
    then show ?thesis using assms no_wrap(1) [OF assms(1,2) True, of "c_value c"] b
      by (auto simp: nsync_counter_add_def add_allowed_def Let_def)
  next
    case False
    then have d: "d < 0" using assms(3) by simp
    then show ?thesis using assms no_wrap(2) [OF assms(1,2) d, of "c_value c"] b
      by (auto simp: nsync_counter_add_def add_allowed_def Let_def)
  qed
qed

text \<open>When the value reaches 0, every waiter is woken and its struct is unlinked.\<close>

lemma wake_at_zero:
  assumes "counter_inv es c"
  obtains s where "wake_all (c_nws c) (c_waiters c) = Some (s, None)"
    "counter_inv es (c\<lparr>c_value := 0, c_nws := s, c_waiters := None\<rparr>)"
    "\<And>e. e \<in> es \<Longrightarrow> nw_waiting (c_nws c) (dll_nsync_waiter (c_nws c) e) \<Longrightarrow>
       \<not> nw_waiting s (dll_nsync_waiter s e) \<and> 0 < sem_count s (nw_sem (c_nws c) (dll_nsync_waiter (c_nws c) e))"
proof -
  from assms obtain xs where dl: "is_dll (nw_heap (c_nws c)) (c_waiters c) xs" "set xs \<subseteq> es"
    and inj: "inj_on (container (nw_heap (c_nws c))) es"
    and w: "\<And>e. e \<in> es \<Longrightarrow> nw_waiting (c_nws c) (dll_nsync_waiter (c_nws c) e) \<longleftrightarrow> e \<in> set xs"
    and r: "\<And>e. e \<in> es \<Longrightarrow> e \<notin> set xs \<Longrightarrow> ring (nw_heap (c_nws c)) [e]"
    by (rule counter_invE) blast
  obtain s where s: "wake_all (c_nws c) (c_waiters c) = Some (s, None)"
    "nw_waiting s = (\<lambda>a. nw_waiting (c_nws c) a \<and> a \<notin> container (nw_heap (c_nws c)) ` set xs)"
    "\<forall>k. sem_count s k = sem_count (c_nws c) k +
       length (filter (\<lambda>e. nw_sem (c_nws c) (container (nw_heap (c_nws c)) e) = k) xs)"
    "\<forall>e\<in>set xs. ring (nw_heap s) [e]" "same_links (- set xs) (nw_heap (c_nws c)) (nw_heap s)"
    "nw_sem s = nw_sem (c_nws c)" "container (nw_heap s) = container (nw_heap (c_nws c))"
    using wake_all_spec [OF dl(1)] by blast
  have off: "\<not> nw_waiting s (container (nw_heap s) e)" if "e \<in> es" for e
    using w [OF that] s(2,7) that by (auto simp: dll_nsync_waiter_def)
  have rs: "ring (nw_heap s) [e]" if e: "e \<in> es" for e
  proof (cases "e \<in> set xs")
    case False
    then show ?thesis using ring_cong [OF _ r [OF e]] s(5) by (simp add: same_links_def)
  qed (use s(4) in blast)
  have "is_dll (nw_heap s) None []" by simp
  then have "counter_inv es (c\<lparr>c_value := 0, c_nws := s, c_waiters := None\<rparr>)"
    unfolding counter_inv_def using off rs inj s(7) by (intro exI [of _ "[]"]) (simp add: dll_nsync_waiter_def)
  moreover have "0 < sem_count s (nw_sem (c_nws c) (dll_nsync_waiter (c_nws c) e))"
    if "e \<in> es" "nw_waiting (c_nws c) (dll_nsync_waiter (c_nws c) e)" for e
    using w [OF that(1)] that(2) s(3) by (auto simp: dll_nsync_waiter_def filter_empty_conv)
  ultimately show ?thesis using that s(1) off by (simp add: dll_nsync_waiter_def)
qed

lemma add_spec:
  assumes inv: "counter_inv es c" and d: "- (2 ^ 31) \<le> d" "d < 2 ^ 31"
  shows "if add_allowed c d
    then \<exists>c' v. nsync_counter_add c d = Some (c', v) \<and> uint v = uint (c_value c) + d \<and> c_value c' = v \<and>
      counter_inv es c' \<and>
      (v = 0 \<and> d \<noteq> 0 \<longrightarrow> (\<forall>e\<in>es. nw_waiting (c_nws c) (dll_nsync_waiter (c_nws c) e) \<longrightarrow>
         \<not> nw_waiting (c_nws c') (dll_nsync_waiter (c_nws c') e) \<and>
         0 < sem_count (c_nws c') (nw_sem (c_nws c) (dll_nsync_waiter (c_nws c) e))))
    else nsync_counter_add c d = None"
proof (cases "d = 0 \<or> \<not> add_allowed c d")
  case True
  then show ?thesis using inv add_cases [OF d, of c] by (auto simp: nsync_counter_add_def add_allowed_def)
next
  case False
  then have d0: "d \<noteq> 0" and al: "add_allowed c d" by auto
  define v where "v = c_value c + word_of_int d"
  have uv: "uint v = uint (c_value c) + d" unfolding v_def using d0 al no_wrap(3) [OF d] by (auto simp: add_allowed_def)
  show ?thesis
  proof (cases "v = 0")
    case False
    then have "nsync_counter_add c d = Some (c\<lparr>c_value := v\<rparr>, v)"
      using add_cases [OF d d0, of c] al by (simp add: v_def Let_def)
    moreover have "counter_inv es (c\<lparr>c_value := v\<rparr>)" using inv False unfolding counter_inv_def by auto
    ultimately show ?thesis using al uv False by simp
  next
    case True
    obtain s where s: "wake_all (c_nws c) (c_waiters c) = Some (s, None)"
      "counter_inv es (c\<lparr>c_value := 0, c_nws := s, c_waiters := None\<rparr>)"
      "\<And>e. e \<in> es \<Longrightarrow> nw_waiting (c_nws c) (dll_nsync_waiter (c_nws c) e) \<Longrightarrow>
         \<not> nw_waiting s (dll_nsync_waiter s e) \<and> 0 < sem_count s (nw_sem (c_nws c) (dll_nsync_waiter (c_nws c) e))"
      by (rule wake_at_zero [OF inv]) blast
    then have "nsync_counter_add c d = Some (c\<lparr>c_value := 0, c_nws := s, c_waiters := None\<rparr>, 0)"
      using add_cases [OF d d0, of c] al True by (simp add: v_def Let_def)
    then show ?thesis using al uv True s(2,3) by simp
  qed
qed


section \<open>Every sequence of operations\<close>

text \<open>Structs prepared by \<^verbatim>\<open>nsync_wait_n\<close>: unlinked, distinct and not waiting.\<close>

definition fresh_structs :: "addr set \<Rightarrow> nws \<Rightarrow> bool" where
  "fresh_structs es s \<longleftrightarrow>
     inj_on (container (nw_heap s)) es \<and>
     (\<forall>e\<in>es. ring (nw_heap s) [e] \<and> \<not> nw_waiting s (dll_nsync_waiter s e))"

lemma new_inv: "fresh_structs es s \<Longrightarrow> nsync_counter_new True s v = Some c \<Longrightarrow> counter_inv es c"
  unfolding counter_inv_def fresh_structs_def
  by (intro exI [of _ "[]"]) (auto simp: nsync_counter_new_def dll_nsync_waiter_def)

lemma counter_do_inv:
  assumes "counter_inv es c" "counter_op_ok es x c" "counter_do x c = Some c'"
  shows "counter_inv es c'"
proof (cases x)
  case (Add d)
  then show ?thesis using assms add_spec [OF assms(1), of d]
    by (auto simp: counter_op_ok_def counter_do_def split: if_splits)
next
  case (Enqueue e)
  then show ?thesis using assms enqueue_inv [OF assms(1), of e] by (auto simp: counter_op_ok_def counter_do_def)
next
  case (Dequeue e)
  then show ?thesis using assms dequeue_inv [OF assms(1), of e] by (auto simp: counter_op_ok_def counter_do_def)
next
  case Ready_time
  then show ?thesis using assms by (auto simp: counter_do_def counter_ready_time_def counter_inv_def)
qed

lemma counter_reach_inv: "counter_reach es c0 c \<Longrightarrow> counter_inv es c0 \<Longrightarrow> counter_inv es c"
  by (induction rule: counter_reach.induct) (auto intro: counter_do_inv)

lemma counter_inv_zero:
  assumes "counter_inv es c" "c_value c = 0"
  shows "nsync_dll_is_empty (c_waiters c) \<and> (\<forall>e\<in>es. \<not> nw_waiting (c_nws c) (dll_nsync_waiter (c_nws c) e))"
  using assms(1)
proof (rule counter_invE)
  fix xs
  assume "is_dll (nw_heap (c_nws c)) (c_waiters c) xs"
    "\<And>e. e \<in> es \<Longrightarrow> nw_waiting (c_nws c) (dll_nsync_waiter (c_nws c) e) \<longleftrightarrow> e \<in> set xs"
    "c_value c = 0 \<Longrightarrow> xs = []"
  then show ?thesis using assms(2) is_empty_list by auto
qed

section \<open>A concrete counter\<close>

definition demo_nws :: nws where
  "demo_nws = \<lparr>nw_heap = \<lparr>nxt = id, prv = id, container = id\<rparr>, nw_waiting = \<lambda>_. False, nw_sem = \<lambda>_. 0,
     sem_count = \<lambda>_. 0\<rparr>"

definition demo_counter :: nsync_counter where
  "demo_counter = \<lparr>c_waited = True, c_value = 1, c_waiters = None, c_nws = demo_nws\<rparr>"

lemma demo_fresh: "fresh_structs es demo_nws"
  by (auto simp: fresh_structs_def demo_nws_def dll_nsync_waiter_def ring_def inj_on_def)

lemma demo_counter_inv: "counter_inv es demo_counter"
  using new_inv [OF demo_fresh [of es], of 1 "demo_counter\<lparr>c_waited := False\<rparr>"]
  by (simp add: nsync_counter_new_def demo_counter_def counter_inv_def)

lemma demo_waiting: "counter_inv {5, 6} (fst (counter_enqueue demo_counter 5))"
  using enqueue_inv [OF demo_counter_inv, of 5 "{5, 6}"]
  by (simp add: demo_counter_def demo_nws_def dll_nsync_waiter_def)

section \<open>Properties\<close>

text \<open>C21. \<^verbatim>\<open>nsync_counter_add\<close> as the code has it, with an \<^verbatim>\<open>int32_t\<close> argument on a
  counter in a good state: it fails an assertion just when the sum leaves the range of a
  \<^verbatim>\<open>uint32_t\<close> or the counter is raised from 0 after a wait.  Otherwise it ends and returns the
  exact sum; when it brings the counter to 0 every waiter's flag is clear and its semaphore posted,
  and the state is good again.  In particular, raising a counter that is not 0 after a wait succeeds,
  although \<^verbatim>\<open>nsync_counter.h\<close> calls it a checkable runtime error in its comment on
  \<^verbatim>\<open>nsync_counter_add\<close>: the code does not detect that misuse.\<close>

theorem counter_add_correct:
  assumes "counter_inv es c" "- (2 ^ 31) \<le> d" "d < 2 ^ 31"
  shows "(if add_allowed c d
      then \<exists>c' v. nsync_counter_add c d = Some (c', v) \<and> uint v = uint (c_value c) + d \<and> c_value c' = v \<and>
        counter_inv es c' \<and>
        (v = 0 \<and> d \<noteq> 0 \<longrightarrow> (\<forall>e\<in>es. nw_waiting (c_nws c) (dll_nsync_waiter (c_nws c) e) \<longrightarrow>
           \<not> nw_waiting (c_nws c') (dll_nsync_waiter (c_nws c') e) \<and>
           0 < sem_count (c_nws c') (nw_sem (c_nws c) (dll_nsync_waiter (c_nws c) e))))
      else nsync_counter_add c d = None) \<and>
    (c_waited c \<and> 0 < d \<and> c_value c \<noteq> 0 \<and> uint (c_value c) + d < 2 ^ 32 \<longrightarrow> nsync_counter_add c d \<noteq> None)"
proof -
  have "add_allowed c d" if "0 < d" "c_value c \<noteq> 0" "uint (c_value c) + d < 2 ^ 32"
    using that by (simp add: add_allowed_def)
  then show ?thesis using add_spec [OF assms] by auto
qed

theorem counter_add_correct_witness:
  "\<exists>c' v. nsync_counter_add (fst (counter_enqueue demo_counter 5)) (- 1) = Some (c', v) \<and> uint v = 0 \<and>
     \<not> nw_waiting (c_nws c') (dll_nsync_waiter (c_nws c') 5) \<and> 0 < sem_count (c_nws c') 0"
proof -
  let ?c = "fst (counter_enqueue demo_counter 5)"
  have f: "c_value ?c = 1" "nw_waiting (c_nws ?c) (dll_nsync_waiter (c_nws ?c) 5)"
    "nw_sem (c_nws ?c) (dll_nsync_waiter (c_nws ?c) 5) = 0"
    by code_simp+
  have "add_allowed ?c (- 1)" by (simp add: add_allowed_def f)
  then show ?thesis using counter_add_correct [OF demo_waiting, of "- 1"] f by (auto simp: uint_0_iff)
qed

text \<open>In every state reached from a new counter by additions, enqueues, dequeues and reads in
  any order, the list of waiters is well-formed and holds exactly the structs marked as waiting,
  and a counter that is 0 has no waiter: nobody sleeps on a counter that is already 0.\<close>

theorem counter_no_waiter_at_zero:
  assumes "fresh_structs es s" "nsync_counter_new True s v = Some c0" "counter_reach es c0 c"
  shows "counter_inv es c \<and>
    (c_value c = 0 \<longrightarrow> nsync_dll_is_empty (c_waiters c) \<and>
      (\<forall>e\<in>es. \<not> nw_waiting (c_nws c) (dll_nsync_waiter (c_nws c) e)))"
  using counter_reach_inv [OF assms(3) new_inv [OF assms(1,2)]] counter_inv_zero by blast

theorem counter_no_waiter_at_zero_witness:
  "nsync_dll_is_empty (c_waiters (the (counter_do (Add (- 1)) (fst (counter_enqueue demo_counter 5)))))"
proof -
  let ?new = "demo_counter\<lparr>c_waited := False\<rparr>"
  let ?c = "fst (counter_enqueue demo_counter 5)"
  have "add_allowed ?c (- 1)" by code_simp
  then obtain d where d: "counter_do (Add (- 1)) ?c = Some d" "c_value d = 0"
    using add_spec [OF demo_waiting, of "- 1"]
    by (fastforce simp: counter_do_def counter_enqueue_def demo_counter_def uint_0_iff split: prod.splits)
  have n: "nsync_counter_new True demo_nws 1 = Some ?new"
    by (simp add: nsync_counter_new_def demo_counter_def)
  have "counter_reach {5} ?new demo_counter"
    by (rule counter_reach.step [OF counter_reach.start, of _ Ready_time])
       (simp_all add: counter_op_ok_def counter_do_def counter_ready_time_def demo_counter_def)
  then have "counter_reach {5} ?new ?c"
    by (rule counter_reach.step [of _ _ _ "Enqueue 5"])
       (simp_all add: counter_op_ok_def counter_do_def demo_counter_def demo_nws_def)
  then have "counter_reach {5} ?new d"
    by (rule counter_reach.step [of _ _ _ "Add (- 1)"]) (simp_all add: counter_op_ok_def d)
  then show ?thesis using counter_no_waiter_at_zero [OF demo_fresh n] d by simp
qed

end
