(* ===== verification/Wait.thy ===== *)
theory Wait
  imports Time
begin

text \<open>
  \<^verbatim>\<open>internal/wait.c\<close>: waiting for one of several objects.  The objects are given by their
  functions (\<^verbatim>\<open>struct nsync_waitable_funcs_s\<close>), and the state \<open>'s\<close> is all that these functions
  and other threads may change; what other threads do between two calls is part of the calls.  The
  struct \<^verbatim>\<open>nw[j]\<close> is named by \<open>j\<close>.  The contract of the functions is the locale
  \<open>waitable_objects\<close>, in which the properties of \<^verbatim>\<open>nsync_wait_n\<close> are proved.
\<close>

record 's waitable =
  ready_time :: "nat option \<Rightarrow> 's \<Rightarrow> 's \<times> nsync_time"
  enqueue :: "nat \<Rightarrow> 's \<Rightarrow> 's \<times> bool"
  dequeue :: "nat \<Rightarrow> 's \<Rightarrow> 's \<times> bool"

text \<open>
  The other functions that \<^verbatim>\<open>nsync_wait_n\<close> calls.  \<open>semaphore_p\<close> is
  \<^verbatim>\<open>nsync_mu_semaphore_p_with_deadline\<close>: it returns 0, or \<^verbatim>\<open>ETIMEDOUT\<close>, or never.
\<close>

datatype 's sleep = Woken 's | Expired 's | Stuck 's

record 's wait_calls =
  lock_mu :: "'s \<Rightarrow> 's"
  unlock_mu :: "'s \<Rightarrow> 's"
  waiter_new :: "'s \<Rightarrow> 's"
  waiter_free :: "'s \<Rightarrow> 's"
  init_nw :: "nat \<Rightarrow> 's \<Rightarrow> 's"
  semaphore_p :: "nsync_time \<Rightarrow> 's \<Rightarrow> 's sleep"

text \<open>A call returns, or sleeps for ever in a state, or needs more rounds than are allowed for.\<close>

datatype ('s, 'a) wait_run = Returns 'a | Sleeps_forever 's | More_rounds

fun first_ready :: "'s waitable list \<Rightarrow> nat \<Rightarrow> 's \<Rightarrow> 's \<times> nat" where
  "first_ready [] i s = (s, i)"
| "first_ready (w # ws) i s =
     (case ready_time w None s of
        (s, t) \<Rightarrow> if nsync_time_cmp t nsync_time_zero > 0 then first_ready ws (i + 1) s else (s, i))"

text \<open>The loop ends after the first object that refuses; its index counts as tried.\<close>

fun enqueue_all :: "'s wait_calls \<Rightarrow> 's waitable list \<Rightarrow> nat \<Rightarrow> 's \<Rightarrow> 's \<times> nat" where
  "enqueue_all f [] i s = (s, i)"
| "enqueue_all f (w # ws) i s =
     (case enqueue w i (init_nw f i s) of
        (s, enqueued) \<Rightarrow> if enqueued then enqueue_all f ws (i + 1) s else (s, i + 1))"

fun min_ready_time :: "'s waitable list \<Rightarrow> nat \<Rightarrow> nsync_time \<Rightarrow> 's \<Rightarrow> 's \<times> nsync_time" where
  "min_ready_time [] j min_ntime s = (s, min_ntime)"
| "min_ready_time (w # ws) j min_ntime s =
     (case ready_time w (Some j) s of
        (s, ntime) \<Rightarrow> min_ready_time ws (j + 1) (if nsync_time_cmp ntime min_ntime < 0 then ntime else min_ntime) s)"

text \<open>The \<^verbatim>\<open>do\<close> loop; the first argument bounds its rounds.\<close>

primrec wait_loop :: "nat \<Rightarrow> 's wait_calls \<Rightarrow> 's waitable list \<Rightarrow> nsync_time \<Rightarrow> 's \<Rightarrow> ('s, 's) wait_run" where
  "wait_loop 0 f ws abs_deadline s = More_rounds"
| "wait_loop (Suc k) f ws abs_deadline s =
     (case min_ready_time ws 0 abs_deadline s of
        (s, min_ntime) \<Rightarrow>
          if nsync_time_cmp min_ntime nsync_time_zero > 0
          then (case semaphore_p f min_ntime s of
                  Woken s \<Rightarrow> wait_loop k f ws abs_deadline s
                | Expired s \<Rightarrow> Returns s
                | Stuck s \<Rightarrow> Sleeps_forever s)
          else Returns s)"

fun dequeue_all :: "'s waitable list \<Rightarrow> nat \<Rightarrow> nat \<Rightarrow> nat \<Rightarrow> 's \<Rightarrow> 's \<times> nat" where
  "dequeue_all [] j count ready s = (s, ready)"
| "dequeue_all (w # ws) j count ready s =
     (case dequeue w j s of
        (s, was_still_enqueued) \<Rightarrow>
          dequeue_all ws (j + 1) count (if \<not> was_still_enqueued \<and> ready = count then j else ready) s)"

text \<open>\<open>mu\<close>: whether a mutex is given.\<close>

definition nsync_wait_n :: "nat \<Rightarrow> 's wait_calls \<Rightarrow> bool \<Rightarrow> nsync_time \<Rightarrow> 's waitable list \<Rightarrow> 's \<Rightarrow> ('s, 's \<times> nat) wait_run" where
  "nsync_wait_n k f mu abs_deadline ws s =
     (let count = length ws;
          (s, ready) = first_ready ws 0 s
      in if ready = count \<and> nsync_time_cmp abs_deadline nsync_time_zero > 0
         then
           (let s = waiter_new f s;
                (s, i) = enqueue_all f ws 0 s;
                unlocked = (i = count \<and> mu);
                s = (if unlocked then unlock_mu f s else s)
            in case (if i = count then wait_loop k f ws abs_deadline s else Returns s) of
                 Returns s \<Rightarrow>
                   (let (s, ready) = dequeue_all (take i ws) 0 count ready s;
                        s = waiter_free f s;
                        s = (if unlocked then lock_mu f s else s)
                    in Returns (s, ready))
               | Sleeps_forever s \<Rightarrow> Sleeps_forever s
               | More_rounds \<Rightarrow> More_rounds)
         else Returns (s, ready))"

section \<open>The contract of waitable objects\<close>

text \<open>
  \<open>inv\<close>: the objects are in a good state; \<open>later\<close>: other threads may lead from one state to
  the other; \<open>queued j s\<close>: the struct \<^verbatim>\<open>nw[j]\<close> is on the list of its object;
  \<open>polled j\<close>: its ready time has been asked for; \<open>ready j\<close>: it is ready, and stays so once it
  was polled; \<open>due j t\<close>: it is ready now, or it becomes ready when time \<open>t\<close> has passed; \<open>past t\<close>: this is so;
  \<open>work\<close>: a bound on the number of wakeups still to come; \<open>posted\<close>: the semaphore has been
  posted.  Other threads take a struct off its list only after they made the object ready, and post
  the semaphore (\<open>kept\<close>).
\<close>

definition onward :: "('s \<Rightarrow> 's \<Rightarrow> bool) \<Rightarrow> ('s \<Rightarrow> nat) \<Rightarrow> (nat \<Rightarrow> 's \<Rightarrow> bool) \<Rightarrow> 's \<Rightarrow> 's \<Rightarrow> bool" where
  "onward later work queued s s' \<longleftrightarrow> later s s' \<and> work s' \<le> work s \<and> (\<forall>j. queued j s' \<longrightarrow> queued j s)"

definition kept :: "('s \<Rightarrow> bool) \<Rightarrow> (nat \<Rightarrow> 's \<Rightarrow> bool) \<Rightarrow> (nat \<Rightarrow> 's \<Rightarrow> bool) \<Rightarrow> 's \<Rightarrow> 's \<Rightarrow> bool" where
  "kept posted ready queued s s' \<longleftrightarrow>
     (posted s \<longrightarrow> posted s') \<and> (\<forall>j. queued j s \<longrightarrow> queued j s' \<or> posted s' \<and> ready j s')"

locale waitable_objects =
  fixes f :: "'s wait_calls" and ws :: "'s waitable list" and inv :: "'s \<Rightarrow> bool" and later :: "'s \<Rightarrow> 's \<Rightarrow> bool"
    and queued :: "nat \<Rightarrow> 's \<Rightarrow> bool" and polled :: "nat \<Rightarrow> 's \<Rightarrow> bool" and ready :: "nat \<Rightarrow> 's \<Rightarrow> bool"
    and due :: "nat \<Rightarrow> nsync_time \<Rightarrow> 's \<Rightarrow> bool" and past :: "nsync_time \<Rightarrow> 's \<Rightarrow> bool" and work :: "'s \<Rightarrow> nat"
    and posted :: "'s \<Rightarrow> bool"
  assumes later_refl: "inv s \<Longrightarrow> later s s"
    and later_inv: "later s s' \<Longrightarrow> inv s'"
    and later_trans: "later s s' \<Longrightarrow> later s' s'' \<Longrightarrow> later s s''"
    and later_polled: "later s s' \<Longrightarrow> polled j s \<Longrightarrow> polled j s'"
    and later_ready: "later s s' \<Longrightarrow> polled j s \<Longrightarrow> ready j s \<Longrightarrow> ready j s'"
    and later_due: "later s s' \<Longrightarrow> due j t s \<Longrightarrow> due j t s'"
    and later_past: "later s s' \<Longrightarrow> past t s \<Longrightarrow> past t s'"
    and past_zero: "inv s \<Longrightarrow> nsync_time_cmp t nsync_time_zero \<le> 0 \<Longrightarrow> past t s"
    and due_ready: "inv s \<Longrightarrow> due j t s \<Longrightarrow> past t s \<Longrightarrow> ready j s"
    and plain_calls: "inv s \<Longrightarrow> c \<in> {lock_mu f, unlock_mu f, waiter_new f, waiter_free f} \<Longrightarrow>
      onward later work queued s (c s) \<and> kept posted ready queued s (c s)"
    and ready_time_law: "inv s \<Longrightarrow> j < length ws \<Longrightarrow> ready_time (ws ! j) x s = (s', t) \<Longrightarrow>
      onward later work queued s s' \<and> polled j s' \<and> due j t s' \<and> kept posted ready queued s s' \<and>
      (polled j s \<longrightarrow> ready j s \<longrightarrow> \<not> nsync_time_zero < t)"
    and enqueue_law: "inv s \<Longrightarrow> j < length ws \<Longrightarrow> polled j s \<Longrightarrow> \<not> queued j s \<Longrightarrow> enqueue (ws ! j) j (init_nw f j s) = (s', b) \<Longrightarrow>
      later s s' \<and> work s' \<le> work s + 1 \<and> (\<forall>i. i \<noteq> j \<longrightarrow> queued i s' \<longrightarrow> queued i s) \<and> (\<not> b \<longrightarrow> ready j s') \<and>
      (queued j s' \<or> ready j s') \<and> (\<forall>i. queued i s \<longrightarrow> queued i s' \<or> ready i s')"
    and dequeue_law: "inv s \<Longrightarrow> j < length ws \<Longrightarrow> polled j s \<Longrightarrow> dequeue (ws ! j) j s = (s', b) \<Longrightarrow>
      onward later work queued s s' \<and> \<not> queued j s' \<and> (\<not> b \<longrightarrow> ready j s') \<and> (ready j s \<longrightarrow> \<not> b)"
    and semaphore_woken: "inv s \<Longrightarrow> semaphore_p f d s = Woken s' \<Longrightarrow>
      onward later work queued s s' \<and> work s' < work s \<and> (\<forall>j. queued j s \<longrightarrow> queued j s' \<or> ready j s')"
    and semaphore_expired: "inv s \<Longrightarrow> semaphore_p f d s = Expired s' \<Longrightarrow> onward later work queued s s' \<and> past d s'"
    and semaphore_stuck: "inv s \<Longrightarrow> semaphore_p f d s = Stuck s' \<Longrightarrow>
      onward later work queued s s' \<and> \<not> d < nsync_time_no_deadline \<and> \<not> posted s \<and>
      (\<forall>j t. queued j s \<longrightarrow> due j t s \<longrightarrow> \<not> t < nsync_time_no_deadline \<longrightarrow> \<not> ready j s')"
begin

abbreviation on :: "'s \<Rightarrow> 's \<Rightarrow> bool" where
  "on \<equiv> onward later work queued"

abbreviation registered :: "'s \<Rightarrow> bool" where
  "registered s \<equiv> \<forall>j < length ws. polled j s \<and> (queued j s \<or> ready j s)"

lemma on_refl: "inv s \<Longrightarrow> on s s"
  by (simp add: onward_def later_refl)

lemma on_trans: "on s s' \<Longrightarrow> on s' s'' \<Longrightarrow> on s s''"
  using later_trans [of s s' s''] by (auto simp: onward_def)

lemma onD: "on s s' \<Longrightarrow> later s s'" "on s s' \<Longrightarrow> inv s'" "on s s' \<Longrightarrow> work s' \<le> work s" "on s s' \<Longrightarrow> queued j s' \<Longrightarrow> queued j s"
  "on s s' \<Longrightarrow> polled j s \<Longrightarrow> polled j s'" "on s s' \<Longrightarrow> due j t s \<Longrightarrow> due j t s'"
  using later_inv later_polled later_due unfolding onward_def by blast+

lemma registered_step:
  "registered s \<Longrightarrow> later s s' \<Longrightarrow> (\<And>j. queued j s \<Longrightarrow> queued j s' \<or> ready j s') \<Longrightarrow> registered s'"
  using later_polled later_ready by blast

lemma kept_registered: "registered s \<Longrightarrow> later s s' \<Longrightarrow> kept posted ready queued s s' \<Longrightarrow> registered s'"
  by (rule registered_step) (auto simp: kept_def)

lemma cmp_zero: "nsync_time_cmp t nsync_time_zero > 0 \<longleftrightarrow> nsync_time_zero < t" "nsync_time_cmp a b < 0 \<longleftrightarrow> a < b"
  by (auto simp: cmp_order_time)

lemma first_ready_spec:
  assumes "inv s" "first_ready (drop i ws) i s = (s', r)" "i \<le> length ws" "\<And>j. j < i \<Longrightarrow> polled j s"
  shows "on s s' \<and> r \<le> length ws \<and> (r < length ws \<longrightarrow> ready r s') \<and> (r = length ws \<longrightarrow> (\<forall>j < length ws. polled j s'))"
  using assms
proof (induction "length ws - i" arbitrary: i s)
  case 0
  then show ?case using on_refl by auto
next
  case (Suc n)
  then have i: "i < length ws" by simp
  then have d: "drop i ws = ws ! i # drop (Suc i) ws" by (simp add: Cons_nth_drop_Suc)
  obtain s1 t where c: "ready_time (ws ! i) None s = (s1, t)" by fastforce
  have L: "on s s1" "polled i s1" "due i t s1" using ready_time_law [OF Suc.prems(1) i c] by blast+
  note i1 = onD(2) [OF L(1)]
  show ?case
  proof (cases "nsync_time_cmp t nsync_time_zero > 0")
    case False
    then have r: "s' = s1" "r = i" using Suc.prems(2) d c by auto
    have "ready i s1" using due_ready [OF i1 L(3)] past_zero [OF i1, of t] False by simp
    then show ?thesis using L(1) r i by simp
  next
    case True
    then have n: "first_ready (drop (Suc i) ws) (Suc i) s1 = (s', r)" using Suc.prems(2) d c by simp
    have "polled j s1" if "j < Suc i" for j
      using L(2) onD(5) [OF L(1)] Suc.prems(4) [of j] that by (cases "j = i") auto
    then show ?thesis using Suc.hyps(1) [OF _ i1 n] Suc.hyps(2) i on_trans [OF L(1)] by auto
  qed
qed

lemma enqueue_all_spec:
  assumes "inv s" "enqueue_all f (drop i ws) i s = (s', r)" "i \<le> length ws" "\<And>j. i \<le> j \<Longrightarrow> j < length ws \<Longrightarrow> \<not> queued j s"
    "\<And>j. j < length ws \<Longrightarrow> polled j s" "\<And>j. j < i \<Longrightarrow> queued j s \<or> ready j s"
  shows "later s s' \<and> work s' \<le> work s + (length ws - i) \<and>
    (\<forall>j. r \<le> j \<longrightarrow> j < length ws \<longrightarrow> \<not> queued j s') \<and> i \<le> r \<and> r \<le> length ws \<and>
    (r < length ws \<longrightarrow> i < r \<and> ready (r - 1) s') \<and> (r = length ws \<longrightarrow> registered s')"
  using assms
proof (induction "length ws - i" arbitrary: i s)
  case 0
  then show ?case using later_refl by auto
next
  case (Suc n)
  then have i: "i < length ws" by simp
  then have d: "drop i ws = ws ! i # drop (Suc i) ws" by (simp add: Cons_nth_drop_Suc)
  obtain s1 b where c: "enqueue (ws ! i) i (init_nw f i s) = (s1, b)" by fastforce
  have nq: "\<not> queued i s" using Suc.prems(4) [of i] i by blast
  have L: "later s s1" "work s1 \<le> work s + 1" "\<And>k. k \<noteq> i \<Longrightarrow> queued k s1 \<Longrightarrow> queued k s"
    "\<not> b \<Longrightarrow> ready i s1" "queued i s1 \<or> ready i s1" "\<And>k. queued k s \<Longrightarrow> queued k s1 \<or> ready k s1"
    using enqueue_law [OF Suc.prems(1) i Suc.prems(5) [OF i] nq c] by blast+
  note l1 = L(1) later_inv [OF L(1)]
  have q1: "\<not> queued j s1" if "Suc i \<le> j" "j < length ws" for j
    using L(3) [of j] Suc.prems(4) [of j] that by auto
  have po1: "polled j s1" if "j < length ws" for j
    using Suc.prems(5) [OF that] later_polled [OF l1(1)] by blast
  have g1: "queued j s1 \<or> ready j s1" if j: "j < Suc i" for j
  proof (cases "j = i")
    case False
    then have "queued j s \<or> ready j s" "j < length ws" using Suc.prems(6) [of j] j i by simp_all
    then show ?thesis using L(6) later_ready [OF L(1) Suc.prems(5) [of j]] by blast
  qed (use L(5) in simp)
  show ?case
  proof (cases b)
    case False
    then have r: "s' = s1" "r = Suc i" using Suc.prems(2) d c by auto
    then show ?thesis using l1 q1 L(2) i L(4) [OF False] g1 po1 by auto
  next
    case True
    then have n: "enqueue_all f (drop (Suc i) ws) (Suc i) s1 = (s', r)" using Suc.prems(2) d c by simp
    have "n = length ws - Suc i" "Suc i \<le> length ws" using Suc.hyps(2) i by simp_all
    note R = Suc.hyps(1) [OF this(1) l1(2) n this(2) q1 po1 g1]
    have "work s' \<le> work s + (length ws - i)" using R L(2) i by linarith
    moreover have "later s s'" using R later_trans [OF l1(1)] by blast
    ultimately show ?thesis using R by simp
  qed
qed

lemma min_ready_time_spec:
  assumes "inv s" "min_ready_time (drop i ws) i m s = (s', t)" "i \<le> length ws"
    "registered s" "\<And>j. nsync_time_zero < m \<Longrightarrow> j < i \<Longrightarrow> queued j s \<or> posted s" "\<And>j. j < i \<Longrightarrow> \<exists>u\<ge>m. due j u s"
  shows "on s s' \<and> t \<le> m \<and> (t = m \<or> (\<exists>j < length ws. due j t s' \<and> polled j s')) \<and> registered s' \<and>
    (nsync_time_zero < t \<longrightarrow> (\<forall>j < length ws. queued j s' \<or> posted s')) \<and> (\<forall>j < length ws. \<exists>u\<ge>t. due j u s')"
  using assms
proof (induction "length ws - i" arbitrary: i m s)
  case 0
  then show ?case using on_refl by auto
next
  case (Suc n)
  then have i: "i < length ws" by simp
  then have d: "drop i ws = ws ! i # drop (Suc i) ws" by (simp add: Cons_nth_drop_Suc)
  obtain s1 u where c: "ready_time (ws ! i) (Some i) s = (s1, u)" by fastforce
  have L: "on s s1" "polled i s1" "due i u s1" "kept posted ready queued s s1" "polled i s \<Longrightarrow> ready i s \<Longrightarrow> \<not> nsync_time_zero < u" using ready_time_law [OF Suc.prems(1) i c] by blast+
  define m1 where "m1 = (if nsync_time_cmp u m < 0 then u else m)"
  have m1: "m1 \<le> m" "m1 = m \<or> m1 = u" by (auto simp: m1_def cmp_zero)
  have g1: "registered s1" using kept_registered [OF Suc.prems(4) onD(1) [OF L(1)] L(4)] .
  have a1: "queued j s1 \<or> posted s1" if z: "nsync_time_zero < m1" and j: "j < Suc i" for j
  proof (cases "j = i")
    case True
    have "nsync_time_zero < u" using z by (auto simp: m1_def cmp_zero split: if_splits)
    then have "queued i s" using L(5) Suc.prems(4) i by blast
    then show ?thesis using True L(4) by (auto simp: kept_def)
  next
    case False
    then show ?thesis using Suc.prems(5) [of j] L(4) z j m1(1) by (auto simp: kept_def)
  qed
  have b1: "\<exists>u\<ge>m1. due j u s1" if j: "j < Suc i" for j
  proof (cases "j = i")
    case True
    have "m1 \<le> u" by (auto simp: m1_def cmp_zero)
    then show ?thesis using L(3) True by blast
  next
    case False
    then show ?thesis using Suc.prems(6) [of j] onD(6) [OF L(1)] m1(1) j order_trans by (metis less_antisym)
  qed
  have "min_ready_time (drop (Suc i) ws) (Suc i) m1 s1 = (s', t)" using Suc.prems(2) d c by (simp add: m1_def)
  then have R: "on s1 s'" "t \<le> m1" "t = m1 \<or> (\<exists>j < length ws. due j t s' \<and> polled j s')"
    "registered s'" "nsync_time_zero < t \<longrightarrow> (\<forall>j < length ws. queued j s' \<or> posted s')" "\<forall>j < length ws. \<exists>u\<ge>t. due j u s'"
    using Suc.hyps(1) [of "Suc i" s1 m1] Suc.hyps(2) i onD(2) [OF L(1)] g1 a1 b1 by simp_all
  have "due i u s'" "polled i s'" using L(2,3) onD(5,6) [OF R(1)] by blast+
  moreover have "on s s'" using on_trans [OF L(1) R(1)] .
  ultimately show ?case using R(2-6) m1 i by auto
qed

text \<open>
  The loop ends within as many rounds as there are wakeups to come; it ends because some object is
  ready, or because the deadline has passed.
\<close>

lemma wait_loop_spec:
  assumes "inv s" "nsync_time_zero < d" "work s < k" "registered s"
  shows "(\<exists>s'. wait_loop k f ws d s = Returns s' \<and> on s s' \<and> (past d s' \<or> (\<exists>j < length ws. ready j s' \<and> polled j s'))) \<or>
    (\<exists>s'. wait_loop k f ws d s = Sleeps_forever s' \<and> on s s' \<and> \<not> d < nsync_time_no_deadline \<and> (\<forall>j < length ws. \<not> ready j s'))"
  using assms(1,3,4)
proof (induction k arbitrary: s)
  case (Suc k)
  obtain s1 t where m: "min_ready_time ws 0 d s = (s1, t)" by fastforce
  have M: "on s s1" "t \<le> d" "t = d \<or> (\<exists>j < length ws. due j t s1 \<and> polled j s1)"
    "registered s1" "nsync_time_zero < t \<longrightarrow> (\<forall>j < length ws. queued j s1 \<or> posted s1)" "\<forall>j < length ws. \<exists>u\<ge>t. due j u s1"
    using min_ready_time_spec [of s 0 d s1 t] Suc.prems(1,3) m by simp_all
  note i1 = onD(2) [OF M(1)]
  show ?case
  proof (cases "nsync_time_zero < t")
    case False
    then have "past t s1" "t \<noteq> d" using past_zero [OF i1, of t] assms(2) by (auto simp: cmp_order_time)
    then obtain j where "j < length ws" "ready j s1" "polled j s1" using M(3) due_ready [OF i1] by blast
    then show ?thesis using m M(1) False by (auto simp: cmp_zero)
  next
    case True
    show ?thesis
    proof (cases "semaphore_p f t s1")
      case (Stuck s2)
      note S = semaphore_stuck [OF i1 Stuck]
      have "\<not> ready j s2" if j: "j < length ws" for j
      proof -
        have q: "queued j s1" using S M(5) True j by blast
        obtain u where u: "t \<le> u" "due j u s1" using M(6) j by blast
        have "\<not> u < nsync_time_no_deadline" using u(1) S order_le_less_trans by blast
        then show ?thesis using S q u(2) by blast
      qed
      moreover have "\<not> d < nsync_time_no_deadline" using S M(2) order_le_less_trans by blast
      ultimately have "\<not> d < nsync_time_no_deadline" "\<forall>j < length ws. \<not> ready j s2" by blast+
      then show ?thesis using m Stuck True S on_trans [OF M(1)] by (simp add: cmp_zero)
    next
      case (Expired s2)
      note S = semaphore_expired [OF i1 Expired]
      then have "past d s2 \<or> (\<exists>j < length ws. ready j s2 \<and> polled j s2)"
        using M(3) onD(5,6) due_ready [OF onD(2)] by blast
      then show ?thesis using m Expired True on_trans [OF M(1)] S by (simp add: cmp_zero)
    next
      case (Woken s2)
      note S = semaphore_woken [OF i1 Woken]
      have on2: "on s s2" using on_trans [OF M(1)] S by blast
      have w: "work s2 < k" using S onD(3) [OF M(1)] Suc.prems(2) by simp
      have "registered s2" by (rule registered_step [OF M(4)]) (use S onD(1) in blast)+
      then show ?thesis using Suc.IH [OF onD(2) [OF on2] w] m Woken True on_trans [OF on2] by (auto simp: cmp_zero)
    qed
  qed
qed simp

lemma dequeue_all_spec:
  assumes "inv s" "dequeue_all (take (r - i) (drop i ws)) i (length ws) rd s = (s', rd')" "i \<le> r" "r \<le> length ws"
    "\<And>j. j < length ws \<Longrightarrow> polled j s" "\<And>j. j < i \<or> r \<le> j \<Longrightarrow> j < length ws \<Longrightarrow> \<not> queued j s"
    "rd < length ws \<Longrightarrow> ready rd s" "rd \<le> length ws"
  shows "on s s' \<and> (\<forall>j < length ws. \<not> queued j s') \<and> rd' \<le> length ws \<and> (rd' < length ws \<longrightarrow> ready rd' s') \<and>
    (rd' = length ws \<longrightarrow> rd = length ws \<and> (\<forall>j. i \<le> j \<longrightarrow> j < r \<longrightarrow> \<not> ready j s))"
  using assms
proof (induction "r - i" arbitrary: i s rd)
  case 0
  then have "r = i" "s' = s" "rd' = rd" by auto
  moreover have "\<not> queued j s" if "j < length ws" for j
    using 0 that \<open>r = i\<close> by (cases "j < i") auto
  ultimately show ?case using 0 on_refl [OF 0(2)] by auto
next
  case (Suc n)
  then have i: "i < r" "i < length ws" by auto
  then have d: "take (r - i) (drop i ws) = ws ! i # take (r - Suc i) (drop (Suc i) ws)"
    by (simp add: Cons_nth_drop_Suc [symmetric] take_Cons' )
  obtain s1 b where c: "dequeue (ws ! i) i s = (s1, b)" by fastforce
  have L: "on s s1" "\<not> queued i s1" "\<not> b \<Longrightarrow> ready i s1" "ready i s \<Longrightarrow> \<not> b"
    using dequeue_law [OF Suc.prems(1) i(2) Suc.prems(5) [OF i(2)] c] by blast+
  define rd1 where "rd1 = (if \<not> b \<and> rd = length ws then i else rd)"
  have n: "dequeue_all (take (r - Suc i) (drop (Suc i) ws)) (Suc i) (length ws) rd1 s1 = (s', rd')"
    using Suc.prems(2) d c by (simp add: rd1_def)
  have keep: "ready j s1" if "j < length ws" "ready j s" for j
    using later_ready [OF onD(1) [OF L(1)] Suc.prems(5) [OF that(1)] that(2)] .
  have "\<not> queued j s1" if "j < Suc i \<or> r \<le> j" "j < length ws" for j
    using that L(2) onD(4) [OF L(1), of j] Suc.prems(6) [of j] by (cases "j = i") auto
  moreover have "rd1 < length ws \<Longrightarrow> ready rd1 s1" "rd1 \<le> length ws"
    using keep L(3) Suc.prems(7,8) i by (auto simp: rd1_def)
  ultimately have R: "on s1 s'" "\<forall>j < length ws. \<not> queued j s'" "rd' \<le> length ws" "rd' < length ws \<longrightarrow> ready rd' s'"
    "rd' = length ws \<longrightarrow> rd1 = length ws \<and> (\<forall>j. Suc i \<le> j \<longrightarrow> j < r \<longrightarrow> \<not> ready j s1)"
    using Suc.hyps(1) [OF _ onD(2) [OF L(1)] n] Suc.hyps(2) Suc.prems(4,5) i onD(5) [OF L(1)] by auto
  have "rd = length ws \<and> (\<forall>j. i \<le> j \<longrightarrow> j < r \<longrightarrow> \<not> ready j s)" if "rd' = length ws"
  proof -
    have a: "rd1 = length ws" "\<And>j. Suc i \<le> j \<Longrightarrow> j < r \<Longrightarrow> \<not> ready j s1" using R(5) that by blast+
    have "\<not> ready j s" if "i \<le> j" "j < r" for j
    proof (cases "j = i")
      case True
      then show ?thesis using a(1) L(4) i by (auto simp: rd1_def split: if_splits)
    next
      case False
      then show ?thesis using a(2) [of j] keep [of j] that Suc.prems(4) by auto
    qed
    then show ?thesis using a(1) i by (auto simp: rd1_def split: if_splits)
  qed
  then show ?case using R(2-4) on_trans [OF L(1) R(1)] by blast
qed

lemma leave_spec:
  fixes u :: bool
  assumes "inv s5" "\<And>j. j < length ws \<Longrightarrow> polled j s5" "\<And>j. i \<le> j \<Longrightarrow> j < length ws \<Longrightarrow> \<not> queued j s5" "i \<le> length ws"
    "dequeue_all (take i ws) 0 (length ws) (length ws) s5 = (s6, r)" "past d s5 \<or> (\<exists>j < i. ready j s5)"
  shows "later s5 (if u then lock_mu f (waiter_free f s6) else waiter_free f s6) \<and>
    (\<forall>j < length ws. \<not> queued j (if u then lock_mu f (waiter_free f s6) else waiter_free f s6)) \<and> r \<le> length ws \<and>
    (r < length ws \<longrightarrow> ready r (if u then lock_mu f (waiter_free f s6) else waiter_free f s6)) \<and>
    (r = length ws \<longrightarrow> past d (if u then lock_mu f (waiter_free f s6) else waiter_free f s6))"
proof -
  have D: "on s5 s6" "\<forall>j < length ws. \<not> queued j s6" "r \<le> length ws" "r < length ws \<longrightarrow> ready r s6"
    "r = length ws \<longrightarrow> (\<forall>j < i. \<not> ready j s5)"
    using dequeue_all_spec [of s5 i 0 "length ws" s6 r] assms(1-5) by simp_all
  have pd: "past d s6" if "r = length ws" using later_past [OF onD(1) [OF D(1)]] that D(5) assms(6) by blast
  define s7 where "s7 = waiter_free f s6"
  have o7: "on s6 s7" unfolding s7_def using plain_calls [OF onD(2) [OF D(1)], of "waiter_free f"] by simp
  define s8 where "s8 = (if u then lock_mu f s7 else s7)"
  have o8: "on s7 s8" using plain_calls [OF onD(2) [OF o7], of "lock_mu f"] on_refl [OF onD(2) [OF o7]] by (auto simp: s8_def)
  note o68 = on_trans [OF o7 o8]
  have "polled j s6" if "j < length ws" for j using later_polled [OF onD(1) [OF D(1)]] assms(2) that by blast
  then have "later s5 s8 \<and> (\<forall>j < length ws. \<not> queued j s8) \<and> r \<le> length ws \<and> (r < length ws \<longrightarrow> ready r s8) \<and> (r = length ws \<longrightarrow> past d s8)"
    using D pd onD(1,4) [OF o68] later_trans [OF onD(1) [OF D(1)]] later_ready [OF onD(1) [OF o68]] later_past [OF onD(1) [OF o68]] by blast
  then show ?thesis unfolding s8_def s7_def by simp
qed

text \<open>The sleep after the registration of \<open>i\<close> structs, all of them unless an object was found ready.\<close>

lemma sleep_spec:
  assumes s: "inv s" "work s < k" "\<And>j. j < length ws \<Longrightarrow> polled j s" and d: "nsync_time_zero < d"
    and i: "i \<le> length ws" "i < length ws \<longrightarrow> 0 < i \<and> ready (i - 1) s" "i = length ws \<longrightarrow> registered s"
    and l: "l = (if i = length ws then wait_loop k f ws d s else Returns s)"
  shows "(\<exists>s'. l = Returns s' \<and> on s s' \<and> (past d s' \<or> (\<exists>j < i. ready j s'))) \<or>
    (\<exists>s'. l = Sleeps_forever s' \<and> on s s' \<and> \<not> d < nsync_time_no_deadline \<and> (\<forall>j < length ws. \<not> ready j s'))"
proof (cases "i = length ws")
  case True
  then show ?thesis using wait_loop_spec [OF s(1) d s(2)] i(3) l by auto
next
  case False
  then have "i - 1 < i" "ready (i - 1) s" using i by auto
  then have "\<exists>j < i. ready j s" by blast
  then show ?thesis using False l on_refl [OF s(1)] by simp
qed

text \<open>
  What \<^verbatim>\<open>nsync_wait_n\<close> promises.  No struct is left on a list, an index below the number of
  objects is that of a ready object, and the number itself means that the deadline has passed.
\<close>

lemma wait_n_spec:
  assumes "inv s" "\<And>j. j < length ws \<Longrightarrow> \<not> queued j s" "work s + length ws < k"
  shows "(\<exists>s' r. nsync_wait_n k f mu d ws s = Returns (s', r) \<and> later s s' \<and> (\<forall>j < length ws. \<not> queued j s') \<and>
      r \<le> length ws \<and> (r < length ws \<longrightarrow> ready r s') \<and> (r = length ws \<longrightarrow> past d s')) \<or>
    (\<exists>s'. nsync_wait_n k f mu d ws s = Sleeps_forever s' \<and> later s s' \<and> \<not> d < nsync_time_no_deadline \<and>
      (\<forall>j < length ws. \<not> ready j s'))"
proof -
  obtain s1 r1 where f1: "first_ready ws 0 s = (s1, r1)" by fastforce
  have F: "on s s1" "r1 \<le> length ws" "r1 < length ws \<longrightarrow> ready r1 s1" "r1 = length ws \<longrightarrow> (\<forall>j < length ws. polled j s1)"
    using first_ready_spec [of s 0 s1 r1] assms(1) f1 by simp_all
  note i1 = onD(2) [OF F(1)]
  show ?thesis
  proof (cases "r1 = length ws \<and> nsync_time_zero < d")
    case False
    then have "nsync_wait_n k f mu d ws s = Returns (s1, r1)" using f1 by (auto simp: nsync_wait_n_def Let_def cmp_zero)
    moreover have "past d s1" if "r1 = length ws" using False that past_zero [OF i1, of d] by (auto simp: cmp_order_time)
    ultimately show ?thesis using F(1-3) onD(1,4) assms(2) by blast
  next
    case True
    define s2 where "s2 = waiter_new f s1"
    have o2: "on s s2" unfolding s2_def using on_trans [OF F(1)] plain_calls [OF i1, of "waiter_new f"] by simp
    have po: "\<And>j. j < length ws \<Longrightarrow> polled j s2"
      unfolding s2_def using F(4) True later_polled onD(1) plain_calls [OF i1, of "waiter_new f"] by blast
    obtain s3 i where e: "enqueue_all f ws 0 s2 = (s3, i)" by fastforce
    have "\<not> queued j s2" if "j < length ws" for j using onD(4) [OF o2] assms(2) that by blast
    then have E: "later s2 s3" "work s3 \<le> work s2 + length ws" "\<forall>j. i \<le> j \<longrightarrow> j < length ws \<longrightarrow> \<not> queued j s3" "i \<le> length ws"
      "i < length ws \<longrightarrow> 0 < i \<and> ready (i - 1) s3" "i = length ws \<longrightarrow> registered s3"
      using enqueue_all_spec [of s2 0 s3 i] onD(2) [OF o2] po e by simp_all
    define unlocked where "unlocked \<longleftrightarrow> i = length ws \<and> mu"
    define s4 where "s4 = (if unlocked then unlock_mu f s3 else s3)"
    note i3 = later_inv [OF E(1)]
    have o4: "on s3 s4" "kept posted ready queued s3 s4"
      using plain_calls [OF i3, of "unlock_mu f"] on_refl [OF i3] by (auto simp: s4_def kept_def)
    note l4 = onD(1) [OF o4(1)] and l24 = later_trans [OF E(1) onD(1) [OF o4(1)]]
    have p3: "polled j s3" and p4: "polled j s4" if "j < length ws" for j using later_polled E(1) l24 po that by blast+
    define l where "l = (if i = length ws then wait_loop k f ws d s4 else Returns s4)"
    have w4: "work s4 < k" using onD(3) [OF o4(1)] E(2) onD(3) [OF o2] assms(3) by simp
    have r4: "i < length ws \<longrightarrow> 0 < i \<and> ready (i - 1) s4" using E(5) later_ready [OF l4 p3, of "i - 1"] by auto
    have g4: "i = length ws \<longrightarrow> registered s4" using kept_registered [OF _ l4 o4(2)] E(6) by blast
    have w: "nsync_wait_n k f mu d ws s =
      (case l of Returns s \<Rightarrow> (case dequeue_all (take i ws) 0 (length ws) (length ws) s of
           (s, ready) \<Rightarrow> Returns (if unlocked then lock_mu f (waiter_free f s) else waiter_free f s, ready))
         | Sleeps_forever s \<Rightarrow> Sleeps_forever s | More_rounds \<Rightarrow> More_rounds)"
      using True f1 unfolding nsync_wait_n_def Let_def
      by (simp add: cmp_zero s2_def [symmetric] e l_def s4_def unlocked_def del: wait_loop.simps cong: wait_run.case_cong prod.case_cong)
    consider s5 where "l = Returns s5" "on s4 s5" "past d s5 \<or> (\<exists>j < i. ready j s5)"
      | s5 where "l = Sleeps_forever s5" "on s4 s5" "\<not> d < nsync_time_no_deadline" "\<forall>j < length ws. \<not> ready j s5"
      using sleep_spec [OF onD(2) [OF o4(1)] w4 p4 _ E(4) r4 g4 l_def] True by blast
    then show ?thesis
    proof cases
      case (1 s5)
      obtain s6 r where d6: "dequeue_all (take i ws) 0 (length ws) (length ws) s5 = (s6, r)" by fastforce
      have q5: "\<not> queued j s5" if "i \<le> j" "j < length ws" for j using E(3) onD(4) o4(1) 1(2) that by blast
      show ?thesis
        using leave_spec [OF onD(2) [OF 1(2)] later_polled [OF onD(1) [OF 1(2)] p4] q5 E(4) d6 1(3), of unlocked]
          later_trans [OF later_trans [OF onD(1) [OF o2] later_trans [OF l24 onD(1) [OF 1(2)]]]] w 1(1) d6 by auto
    next
      case (2 s5)
      then show ?thesis using w later_trans [OF onD(1) [OF o2] later_trans [OF l24 onD(1) [OF 2(2)]]] by auto
    qed
  qed
qed

end

end
