(* ===== verification/Counter_Wait.thy ===== *)
theory Counter_Wait
  imports Counter Wait
begin

text \<open>
  \<^verbatim>\<open>nsync_counter_wait\<close> of \<^verbatim>\<open>internal/counter.c\<close>: the counter as an object of
  \<^verbatim>\<open>nsync_wait_n\<close>.  What other threads and the clock do is a list of events.  Before each call
  of the waiting thread the events up to the next \<open>Switch\<close> happen; while it sleeps on its
  semaphore they happen one by one.  An event that breaks the rules of the counter (a struct
  enqueued twice, a failed assertion) does not happen.  The laws of \<open>waitable_objects\<close> are
  proved for the counter, whatever the events.
\<close>

datatype counter_event = Others counter_op | Tick nsync_time | Switch

record counter_world =
  w_counter :: nsync_counter
  w_now :: nsync_time
  w_events :: "counter_event list"

text \<open>\<open>es\<close>: the list elements of the other threads' structs.\<close>

definition happen :: "addr set \<Rightarrow> counter_event \<Rightarrow> counter_world \<Rightarrow> counter_world" where
  "happen es x w =
     (case x of
        Others y \<Rightarrow>
          (if counter_op_ok es y (w_counter w)
           then (case counter_do y (w_counter w) of None \<Rightarrow> w | Some c \<Rightarrow> w\<lparr>w_counter := c\<rparr>)
           else w)
      | Tick t \<Rightarrow> if w_now w < t \<and> t < nsync_time_no_deadline then w\<lparr>w_now := t\<rparr> else w
      | Switch \<Rightarrow> w)"

fun happen_until :: "addr set \<Rightarrow> counter_event list \<Rightarrow> counter_world \<Rightarrow> counter_world" where
  "happen_until es [] w = w\<lparr>w_events := []\<rparr>"
| "happen_until es (x # xs) w =
     (if x = Switch then w\<lparr>w_events := xs\<rparr> else happen_until es xs (happen es x w))"

definition run_others :: "addr set \<Rightarrow> counter_world \<Rightarrow> counter_world" where
  "run_others es w = happen_until es (w_events w) w"

abbreviation sem_val :: "addr \<Rightarrow> counter_world \<Rightarrow> nat" where
  "sem_val k w \<equiv> sem_count (c_nws (w_counter w)) k"

definition on_nws :: "(nws \<Rightarrow> nws) \<Rightarrow> counter_world \<Rightarrow> counter_world" where
  "on_nws g w = w\<lparr>w_counter := (w_counter w)\<lparr>c_nws := g (c_nws (w_counter w))\<rparr>\<rparr>"

text \<open>
  The semaphore at \<open>k\<close>, by the contract of \<^verbatim>\<open>internal/sem.h\<close> (theory \<open>Sem\<close>).  When nothing
  else happens the clock reaches the deadline, if there is one.
\<close>

fun sem_sleep :: "addr set \<Rightarrow> addr \<Rightarrow> nsync_time \<Rightarrow> counter_event list \<Rightarrow> counter_world \<Rightarrow> counter_world sleep" where
  "sem_sleep es k d xs w =
     (if 0 < sem_val k w
      then Woken (on_nws (\<lambda>s. s\<lparr>sem_count := (sem_count s)(k := sem_count s k - 1)\<rparr>) (w\<lparr>w_events := xs\<rparr>))
      else if d \<le> w_now w then Expired (w\<lparr>w_events := xs\<rparr>)
      else case xs of
        [] \<Rightarrow> if d < nsync_time_no_deadline then Expired (w\<lparr>w_now := d, w_events := []\<rparr>) else Stuck (w\<lparr>w_events := []\<rparr>)
      | x # xs \<Rightarrow> sem_sleep es k d xs (happen es x w))"

declare sem_sleep.simps [simp del]

text \<open>The initialisation of \<^verbatim>\<open>nw[i]\<close> at address \<open>a\<close>, whose field \<^verbatim>\<open>q\<close> is at \<open>e\<close>.\<close>

definition init_struct :: "addr \<Rightarrow> addr \<Rightarrow> addr \<Rightarrow> nws \<Rightarrow> nws" where
  "init_struct e a k s =
     s\<lparr>nw_sem := (nw_sem s)(a := k), nw_heap := nsync_dll_init (nw_heap s) e a, nw_waiting := (nw_waiting s)(a := False)\<rparr>"

definition counter_calls :: "addr set \<Rightarrow> addr \<Rightarrow> addr \<Rightarrow> addr \<Rightarrow> counter_world wait_calls" where
  "counter_calls es e a k =
     \<lparr>lock_mu = run_others es, unlock_mu = run_others es, waiter_new = run_others es, waiter_free = run_others es,
      init_nw = \<lambda>_. on_nws (init_struct e a k), semaphore_p = \<lambda>d w. sem_sleep es k d (w_events w) w\<rparr>"

text \<open>\<^verbatim>\<open>nsync_counter_waitable_funcs\<close>: an operation on the counter, after other threads ran.\<close>

definition on_counter :: "addr set \<Rightarrow> (nsync_counter \<Rightarrow> nsync_counter \<times> 'a) \<Rightarrow> counter_world \<Rightarrow> counter_world \<times> 'a" where
  "on_counter es g w =
     (let w = run_others es w; (c, x) = g (w_counter w) in (w\<lparr>w_counter := c\<rparr>, x))"

definition nsync_counter_waitable_funcs :: "addr set \<Rightarrow> addr \<Rightarrow> counter_world waitable" where
  "nsync_counter_waitable_funcs es e =
     \<lparr>ready_time = \<lambda>nw. on_counter es counter_ready_time,
      enqueue = \<lambda>_. on_counter es (\<lambda>c. counter_enqueue c e),
      dequeue = \<lambda>_. on_counter es (\<lambda>c. counter_dequeue c e)\<rparr>"

definition nsync_counter_wait ::
  "nat \<Rightarrow> addr set \<Rightarrow> addr \<Rightarrow> addr \<Rightarrow> addr \<Rightarrow> nsync_time \<Rightarrow> counter_world \<Rightarrow> (counter_world, counter_world \<times> u32) wait_run" where
  "nsync_counter_wait fuel es e a k abs_deadline w =
     (case nsync_wait_n fuel (counter_calls es e a k) False abs_deadline [nsync_counter_waitable_funcs es e] w of
        Returns (w, r) \<Rightarrow>
          Returns (if r \<noteq> 0 then (let w = run_others es w in (w, nsync_counter_value (w_counter w))) else (w, 0))
      | Sleeps_forever w \<Rightarrow> Sleeps_forever w
      | More_rounds \<Rightarrow> More_rounds)"

section \<open>One operation of another thread\<close>

definition counter_ok :: "addr set \<Rightarrow> addr \<Rightarrow> addr \<Rightarrow> addr \<Rightarrow> nsync_counter \<Rightarrow> bool" where
  "counter_ok es e a k c \<longleftrightarrow>
     counter_inv (insert e es) c \<and> e \<notin> es \<and> container (nw_heap (c_nws c)) e = a \<and>
     (nw_waiting (c_nws c) a \<longrightarrow> nw_sem (c_nws c) a = k \<and> c_waited c) \<and>
     (\<forall>f\<in>es. nw_sem (c_nws c) (container (nw_heap (c_nws c)) f) \<noteq> k)"

text \<open>What an operation may change, seen by the waiting thread.\<close>

definition counter_step :: "addr \<Rightarrow> addr \<Rightarrow> nsync_counter \<Rightarrow> nsync_counter \<Rightarrow> bool" where
  "counter_step a k c c' \<longleftrightarrow>
     (c_waited c \<longrightarrow> c_waited c') \<and> (c_waited c \<and> c_value c = 0 \<longrightarrow> c_value c' = 0) \<and>
     (nw_waiting (c_nws c') a \<longrightarrow> nw_waiting (c_nws c) a) \<and>
     (nw_waiting (c_nws c) a \<longrightarrow> nw_waiting (c_nws c') a \<or> 0 < sem_count (c_nws c') k \<and> c_value c' = 0) \<and>
     (nw_sem (c_nws c) a = k \<longrightarrow> nw_sem (c_nws c') a = k) \<and> sem_count (c_nws c) k \<le> sem_count (c_nws c') k \<and>
     sem_count (c_nws c') k + of_bool (nw_waiting (c_nws c') a) \<le> sem_count (c_nws c) k + of_bool (nw_waiting (c_nws c) a)"

lemma counter_step_refl: "counter_step a k c c"
  by (simp add: counter_step_def)

lemma same_sem_ok:
  assumes "counter_ok es e a k c" "counter_inv (insert e es) c'" "container (nw_heap (c_nws c')) = container (nw_heap (c_nws c))"
    "nw_sem (c_nws c') = nw_sem (c_nws c)" "nw_waiting (c_nws c') a \<Longrightarrow> nw_waiting (c_nws c) a"
    "c_waited c \<Longrightarrow> c_waited c'"
  shows "counter_ok es e a k c'"
  using assms by (auto simp: counter_ok_def)

lemma others_neq:
  assumes "counter_ok es e a k c" "f \<in> es"
  shows "container (nw_heap (c_nws c)) f \<noteq> a"
proof -
  have "inj_on (container (nw_heap (c_nws c))) (insert e es)" using assms(1) by (auto simp: counter_ok_def counter_inv_def)
  then show ?thesis using assms by (auto simp: counter_ok_def inj_on_def)
qed

lemma enqueue_fields:
  "container (nw_heap (c_nws (fst (counter_enqueue c f)))) = container (nw_heap (c_nws c))"
  "nw_sem (c_nws (fst (counter_enqueue c f))) = nw_sem (c_nws c)" "sem_count (c_nws (fst (counter_enqueue c f))) = sem_count (c_nws c)"
  "c_value (fst (counter_enqueue c f)) = c_value c" "c_waited (fst (counter_enqueue c f)) = c_waited c"
  "nw_waiting (c_nws (fst (counter_enqueue c f))) =
     (nw_waiting (c_nws c))(container (nw_heap (c_nws c)) f := c_value c \<noteq> 0)"
  by (auto simp: counter_enqueue_def nsync_dll_make_last_in_list_def nsync_dll_make_first_in_list_def nsync_dll_splice_after_def Let_def split: prod.splits option.splits)

lemma dequeue_fields:
  "container (nw_heap (c_nws (fst (counter_dequeue c f)))) = container (nw_heap (c_nws c))"
  "nw_sem (c_nws (fst (counter_dequeue c f))) = nw_sem (c_nws c)" "sem_count (c_nws (fst (counter_dequeue c f))) = sem_count (c_nws c)"
  "c_value (fst (counter_dequeue c f)) = c_value c" "c_waited (fst (counter_dequeue c f)) = c_waited c"
  "nw_waiting (c_nws (fst (counter_dequeue c f))) =
     (nw_waiting (c_nws c))(container (nw_heap (c_nws c)) f := False)" "snd (counter_dequeue c f) = (c_value c \<noteq> 0)"
  by (auto simp: counter_dequeue_def dll_nsync_waiter_def nsync_dll_remove_def Let_def fun_eq_iff split: prod.splits option.splits)

lemma add_step:
  assumes ok: "counter_ok es e a k c" and d: "- (2 ^ 31) \<le> d" "d < 2 ^ 31" and c: "nsync_counter_add c d = Some (c', v)"
  shows "counter_ok es e a k c' \<and> counter_step a k c c'"
proof (cases "d = 0")
  case True
  then show ?thesis using c ok by (simp add: nsync_counter_add_def counter_step_refl)
next
  case False
  have inv: "counter_inv (insert e es) c" using ok by (simp add: counter_ok_def)
  have al: "add_allowed c d" using add_cases [OF d False, of c] c by (auto split: if_splits)
  then have inv': "counter_inv (insert e es) c'" and z: "c_waited c \<Longrightarrow> c_value c \<noteq> 0"
    using add_spec [OF inv d] c False by (auto simp: add_allowed_def)
  define u where "u = c_value c + word_of_int d"
  show ?thesis
  proof (cases "u = 0")
    case False
    then have "c' = c\<lparr>c_value := u\<rparr>" using add_cases [OF d \<open>d \<noteq> 0\<close>, of c] al c by (simp add: u_def Let_def)
    then show ?thesis using same_sem_ok [OF ok inv'] z by (auto simp: counter_step_def)
  next
    case True
    from inv obtain xs where dl: "is_dll (nw_heap (c_nws c)) (c_waiters c) xs" "set xs \<subseteq> insert e es"
      and w: "\<And>f. f \<in> insert e es \<Longrightarrow> nw_waiting (c_nws c) (dll_nsync_waiter (c_nws c) f) \<longleftrightarrow> f \<in> set xs"
      by (rule counter_invE) blast
    obtain s where s: "wake_all (c_nws c) (c_waiters c) = Some (s, None)"
      "nw_waiting s = (\<lambda>a. nw_waiting (c_nws c) a \<and> a \<notin> container (nw_heap (c_nws c)) ` set xs)"
      "\<forall>k. sem_count s k = sem_count (c_nws c) k +
         length (filter (\<lambda>e. nw_sem (c_nws c) (container (nw_heap (c_nws c)) e) = k) xs)"
      "nw_sem s = nw_sem (c_nws c)" "container (nw_heap s) = container (nw_heap (c_nws c))"
      using wake_all_spec [OF dl(1)] by blast
    have c': "c' = c\<lparr>c_value := u, c_nws := s, c_waiters := None\<rparr>"
      using add_cases [OF d \<open>d \<noteq> 0\<close>, of c] al c s(1) True by (simp add: u_def Let_def)
    have wa: "nw_waiting (c_nws c) a \<longleftrightarrow> e \<in> set xs" using w [of e] ok by (simp add: dll_nsync_waiter_def counter_ok_def)
    have off: "\<not> nw_waiting s a" using s(2) wa ok by (auto simp: counter_ok_def)
    have "nw_sem (c_nws c) (container (nw_heap (c_nws c)) f) \<noteq> k" if "f \<in> set xs" "f \<noteq> e" for f
      using that dl(2) ok by (auto simp: counter_ok_def)
    note own = filter_own [OF is_dll_distinct [OF dl(1)] this]
    have "e \<in> set xs \<Longrightarrow> nw_sem (c_nws c) (container (nw_heap (c_nws c)) e) = k" using ok wa by (simp add: counter_ok_def)
    then have "length (filter (\<lambda>f. nw_sem (c_nws c) (container (nw_heap (c_nws c)) f) = k) xs) = of_bool (e \<in> set xs)"
      using own by simp
    then have "sem_count s k = sem_count (c_nws c) k + of_bool (nw_waiting (c_nws c) a)" using s(3) wa by simp
    then show ?thesis using same_sem_ok [OF ok inv'] z off s(4,5) True by (auto simp: counter_step_def c')
  qed
qed

lemma other_op:
  assumes ok: "counter_ok es e a k c" and x: "counter_op_ok es x c" "counter_do x c = Some c'"
  shows "counter_ok es e a k c' \<and> counter_step a k c c'"
proof -
  have inv: "counter_inv (insert e es) c" using ok by (simp add: counter_ok_def)
  have inv': "counter_inv (insert e es) c'"
    by (rule counter_do_inv [OF inv _ x(2)]) (use x(1) in \<open>auto simp: counter_op_ok_def split: counter_op.splits\<close>)
  show ?thesis
  proof (cases x)
    case (Add d)
    then show ?thesis using add_step [OF ok, of d c'] x by (auto simp: counter_op_ok_def counter_do_def)
  next
    case (Enqueue f)
    then have f: "f \<in> es" "c' = fst (counter_enqueue c f)" using x by (auto simp: counter_op_ok_def counter_do_def)
    show ?thesis using same_sem_ok [OF ok inv'] others_neq [OF ok f(1)] unfolding f(2) counter_step_def enqueue_fields by auto
  next
    case (Dequeue f)
    then have f: "f \<in> es" "c' = fst (counter_dequeue c f)" using x by (auto simp: counter_op_ok_def counter_do_def)
    show ?thesis using same_sem_ok [OF ok inv'] others_neq [OF ok f(1)] unfolding f(2) counter_step_def dequeue_fields by auto
  next
    case Ready_time
    then show ?thesis using x same_sem_ok [OF ok inv'] by (auto simp: counter_do_def counter_ready_time_def counter_step_def)
  qed
qed

section \<open>The laws of waitable objects\<close>

definition cw_inv :: "addr set \<Rightarrow> addr \<Rightarrow> addr \<Rightarrow> addr \<Rightarrow> counter_world \<Rightarrow> bool" where
  "cw_inv es e a k w \<longleftrightarrow>
     counter_ok es e a k (w_counter w) \<and> nsync_time_zero \<le> w_now w \<and> w_now w < nsync_time_no_deadline"

definition cw_later :: "addr set \<Rightarrow> addr \<Rightarrow> addr \<Rightarrow> addr \<Rightarrow> counter_world \<Rightarrow> counter_world \<Rightarrow> bool" where
  "cw_later es e a k w w' \<longleftrightarrow>
     cw_inv es e a k w \<and> cw_inv es e a k w' \<and> w_now w \<le> w_now w' \<and> (c_waited (w_counter w) \<longrightarrow> c_waited (w_counter w')) \<and>
     (c_waited (w_counter w) \<and> c_value (w_counter w) = 0 \<longrightarrow> c_value (w_counter w') = 0)"

definition cw_queued :: "addr \<Rightarrow> nat \<Rightarrow> counter_world \<Rightarrow> bool" where
  "cw_queued a j w \<longleftrightarrow> j = 0 \<and> nw_waiting (c_nws (w_counter w)) a"

definition cw_polled :: "nat \<Rightarrow> counter_world \<Rightarrow> bool" where
  "cw_polled j w \<longleftrightarrow> c_waited (w_counter w)"

definition cw_ready :: "nat \<Rightarrow> counter_world \<Rightarrow> bool" where
  "cw_ready j w \<longleftrightarrow> c_value (w_counter w) = 0"

definition cw_due :: "nat \<Rightarrow> nsync_time \<Rightarrow> counter_world \<Rightarrow> bool" where
  "cw_due j t w \<longleftrightarrow> c_waited (w_counter w) \<and> c_value (w_counter w) = 0 \<or> t = nsync_time_no_deadline"

definition cw_past :: "nsync_time \<Rightarrow> counter_world \<Rightarrow> bool" where
  "cw_past t w \<longleftrightarrow> t \<le> w_now w"

definition cw_work :: "addr \<Rightarrow> addr \<Rightarrow> counter_world \<Rightarrow> nat" where
  "cw_work a k w = sem_val k w + of_bool (nw_waiting (c_nws (w_counter w)) a)"

definition cw_posted :: "addr \<Rightarrow> counter_world \<Rightarrow> bool" where
  "cw_posted k w \<longleftrightarrow> 0 < sem_val k w"

lemmas cw_defs = cw_queued_def cw_polled_def cw_ready_def cw_due_def cw_past_def cw_work_def cw_posted_def

definition world_step :: "addr set \<Rightarrow> addr \<Rightarrow> addr \<Rightarrow> addr \<Rightarrow> counter_world \<Rightarrow> counter_world \<Rightarrow> bool" where
  "world_step es e a k w w' \<longleftrightarrow>
     cw_inv es e a k w \<and> cw_inv es e a k w' \<and> w_now w \<le> w_now w' \<and> counter_step a k (w_counter w) (w_counter w')"

lemma world_step_refl: "cw_inv es e a k w \<Longrightarrow> world_step es e a k w w"
  by (simp add: world_step_def counter_step_refl)

lemma world_step_trans:
  assumes "world_step es e a k w w'" "world_step es e a k w' w''"
  shows "world_step es e a k w w''"
proof -
  have "nw_waiting (c_nws (w_counter w)) a \<Longrightarrow> c_waited (w_counter w)"
    using assms(1) by (simp add: world_step_def cw_inv_def counter_ok_def)
  then have "counter_step a k (w_counter w) (w_counter w'')"
    using assms unfolding world_step_def counter_step_def by auto
  then show ?thesis using assms unfolding world_step_def by auto
qed

lemma world_step_laws:
  assumes "world_step es e a k w w'"
  shows "onward (cw_later es e a k) (cw_work a k) (cw_queued a) w w'" "kept (cw_posted k) cw_ready (cw_queued a) w w'"
  using assms by (auto simp: world_step_def counter_step_def onward_def kept_def cw_later_def cw_defs)

lemma happen_step:
  assumes "cw_inv es e a k w"
  shows "world_step es e a k w (happen es x w)"
proof (cases x)
  case (Others y)
  show ?thesis
  proof (cases "counter_op_ok es y (w_counter w) \<and> counter_do y (w_counter w) \<noteq> None")
    case True
    then show ?thesis using Others assms other_op [of es e a k "w_counter w" y]
      by (auto simp: happen_def world_step_def cw_inv_def)
  next
    case False
    then show ?thesis using Others world_step_refl [OF assms] by (auto simp: happen_def)
  qed
next
  case (Tick t)
  then show ?thesis using assms by (auto simp: happen_def world_step_def cw_inv_def counter_step_refl)
next
  case Switch
  then show ?thesis using world_step_refl [OF assms] by (simp add: happen_def)
qed

lemma step_inv: "world_step es e a k w w' \<Longrightarrow> cw_inv es e a k w'"
  by (simp add: world_step_def)

lemma events_step: "world_step es e a k w w' \<Longrightarrow> world_step es e a k w (w'\<lparr>w_events := xs\<rparr>)"
  by (simp add: world_step_def cw_inv_def)

lemma until_step: "cw_inv es e a k w \<Longrightarrow> world_step es e a k w (happen_until es xs w)"
proof (induction xs arbitrary: w)
  case Nil
  then show ?case using events_step [OF world_step_refl [OF Nil]] by simp
next
  case (Cons x xs)
  note h = happen_step [OF Cons.prems, of x]
  show ?case
    using events_step [OF world_step_refl [OF Cons.prems], of xs] world_step_trans [OF h Cons.IH [OF step_inv [OF h]]] by simp
qed

lemma run_others_step: "cw_inv es e a k w \<Longrightarrow> world_step es e a k w (run_others es w)"
  unfolding run_others_def by (rule until_step)

lemma sem_sleep_spec:
  assumes "cw_inv es e a k w"
  shows "case sem_sleep es k d xs w of
      Woken w' \<Rightarrow> (\<exists>w1. world_step es e a k w w1 \<and> 0 < sem_val k w1 \<and>
        w' = on_nws (\<lambda>s. s\<lparr>sem_count := (sem_count s)(k := sem_count s k - 1)\<rparr>) w1)
    | Expired w' \<Rightarrow> world_step es e a k w w' \<and> d \<le> w_now w'
    | Stuck w' \<Rightarrow> world_step es e a k w w' \<and> \<not> d < nsync_time_no_deadline \<and> sem_val k w' = 0"
  using assms
proof (induction xs arbitrary: w)
  case Nil
  note r = world_step_refl [OF Nil]
  have "world_step es e a k w (w\<lparr>w_now := d, w_events := []\<rparr>)" if "\<not> d \<le> w_now w" "d < nsync_time_no_deadline"
    using that Nil r by (auto simp: world_step_def cw_inv_def counter_step_refl)
  then show ?case using events_step [OF r, of "[]"] by (subst sem_sleep.simps) auto
next
  case (Cons x xs)
  note r = events_step [OF world_step_refl [OF Cons.prems], of "x # xs"]
  note h = happen_step [OF Cons.prems, of x]
  show ?case
  proof (cases "0 < sem_val k w \<or> d \<le> w_now w")
    case True
    then show ?thesis using r by (subst sem_sleep.simps) auto
  next
    case False
    then have "sem_sleep es k d (x # xs) w = sem_sleep es k d xs (happen es x w)" by (subst sem_sleep.simps) simp
    then show ?thesis using Cons.IH [OF step_inv [OF h]] world_step_trans [OF h] by (auto split: sleep.splits)
  qed
qed

lemma init_ok:
  assumes ok: "cw_inv es e a k w" and q: "\<not> nw_waiting (c_nws (w_counter w)) a"
  shows "world_step es e a k w (on_nws (init_struct e a k) w)" "nw_sem (c_nws (w_counter (on_nws (init_struct e a k) w))) a = k"
proof -
  let ?c = "w_counter w" and ?c' = "w_counter (on_nws (init_struct e a k) w)"
  have c: "counter_ok es e a k ?c" using ok by (simp add: cw_inv_def)
  have f: "container (nw_heap (c_nws ?c')) = container (nw_heap (c_nws ?c))" "c_waiters ?c' = c_waiters ?c"
    "c_value ?c' = c_value ?c" "c_waited ?c' = c_waited ?c" "nw_waiting (c_nws ?c') = nw_waiting (c_nws ?c)"
    "sem_count (c_nws ?c') = sem_count (c_nws ?c)" "nw_sem (c_nws ?c') = (nw_sem (c_nws ?c))(a := k)" "w_now (on_nws (init_struct e a k) w) = w_now w"
    using c q by (auto simp: on_nws_def init_struct_def nsync_dll_init_def Let_def counter_ok_def fun_eq_iff)
  have l: "same_links (- {e}) (nw_heap (c_nws ?c)) (nw_heap (c_nws ?c'))" "ring (nw_heap (c_nws ?c')) [e]"
    by (auto simp: on_nws_def init_struct_def nsync_dll_init_def Let_def same_links_def)
  have "counter_inv (insert e es) ?c" using c by (simp add: counter_ok_def)
  then have "counter_inv (insert e es) ?c'"
  proof (rule counter_invE)
    fix xs
    assume xs: "is_dll (nw_heap (c_nws ?c)) (c_waiters ?c) xs" "set xs \<subseteq> insert e es"
      "inj_on (container (nw_heap (c_nws ?c))) (insert e es)"
      "\<And>f. f \<in> insert e es \<Longrightarrow> nw_waiting (c_nws ?c) (dll_nsync_waiter (c_nws ?c) f) \<longleftrightarrow> f \<in> set xs"
      "\<And>f. f \<in> insert e es \<Longrightarrow> f \<notin> set xs \<Longrightarrow> ring (nw_heap (c_nws ?c)) [f]" "c_value ?c = 0 \<Longrightarrow> xs = []"
    have "e \<notin> set xs" using xs(4) [of e] q c by (simp add: dll_nsync_waiter_def counter_ok_def)
    then have "is_dll (nw_heap (c_nws ?c')) (c_waiters ?c') xs"
      using is_dll_cong [OF _ xs(1)] l(1) f(2) by (auto simp: same_links_def)
    moreover have "ring (nw_heap (c_nws ?c')) [f]" if "f \<in> insert e es" "f \<notin> set xs" for f
      using l(2) ring_cong [OF _ xs(5) [OF that]] l(1) by (cases "f = e") (auto simp: same_links_def)
    ultimately show ?thesis unfolding counter_inv_def using xs(2-4,6) f by (intro exI [of _ xs]) (auto simp: dll_nsync_waiter_def)
  qed
  then have "counter_ok es e a k ?c'" using c q others_neq [OF c] unfolding counter_ok_def f by auto
  then show "world_step es e a k w (on_nws (init_struct e a k) w)"
    using ok by (simp add: world_step_def cw_inv_def counter_step_def f)
  show "nw_sem (c_nws ?c') a = k" by (simp add: f)
qed

lemma own_ready_time:
  assumes ok: "cw_inv es e a k w" and c: "on_counter es counter_ready_time w = (w', t)"
  shows "world_step es e a k w w'" "c_waited (w_counter w')" "t = (if c_value (w_counter w') = 0 then nsync_time_zero else nsync_time_no_deadline)"
proof -
  define w1 where "w1 = run_others es w"
  have s: "world_step es e a k w w1" unfolding w1_def by (rule run_others_step [OF ok])
  have w': "w' = w1\<lparr>w_counter := (w_counter w1)\<lparr>c_waited := True\<rparr>\<rparr>"
    and t: "t = (if c_value (w_counter w1) = 0 then nsync_time_zero else nsync_time_no_deadline)"
    using c by (auto simp: on_counter_def counter_ready_time_def w1_def Let_def split: prod.splits)
  have "counter_inv (insert e es) ((w_counter w1)\<lparr>c_waited := True\<rparr>)"
    using step_inv [OF s] counter_do_inv [of "insert e es" "w_counter w1" Ready_time]
    by (simp add: cw_inv_def counter_ok_def counter_op_ok_def counter_do_def counter_ready_time_def)
  then have "counter_ok es e a k ((w_counter w1)\<lparr>c_waited := True\<rparr>)"
    using step_inv [OF s] by (simp add: cw_inv_def counter_ok_def)
  then have "world_step es e a k w1 w'" using step_inv [OF s] by (simp add: world_step_def cw_inv_def w' counter_step_def)
  then show "world_step es e a k w w'" using world_step_trans [OF s] by blast
  show "c_waited (w_counter w')" "t = (if c_value (w_counter w') = 0 then nsync_time_zero else nsync_time_no_deadline)"
    by (simp_all add: w' t)
qed

lemma own_enqueue:
  assumes ok: "cw_inv es e a k w" and q: "\<not> nw_waiting (c_nws (w_counter w)) a" "c_waited (w_counter w)"
    and c: "on_counter es (\<lambda>c. counter_enqueue c e) (on_nws (init_struct e a k) w) = (w', b)"
  shows "cw_later es e a k w w'" "cw_work a k w' \<le> cw_work a k w + 1" "b \<longleftrightarrow> c_value (w_counter w') \<noteq> 0"
    "nw_waiting (c_nws (w_counter w')) a \<or> c_value (w_counter w') = 0"
proof -
  define w1 where "w1 = run_others es (on_nws (init_struct e a k) w)"
  note i = init_ok [OF ok q(1)]
  have s1: "world_step es e a k (on_nws (init_struct e a k) w) w1" unfolding w1_def by (rule run_others_step [OF step_inv [OF i(1)]])
  note s = world_step_trans [OF i(1) s1]
  have sem: "nw_sem (c_nws (w_counter w1)) a = k" using s1 i(2) by (simp add: world_step_def counter_step_def)
  have q1: "\<not> nw_waiting (c_nws (w_counter w1)) a" "c_waited (w_counter w1)"
    using s q by (auto simp: world_step_def counter_step_def)
  have w': "w' = w1\<lparr>w_counter := fst (counter_enqueue (w_counter w1) e)\<rparr>" "b = snd (counter_enqueue (w_counter w1) e)"
    using c by (auto simp: on_counter_def w1_def Let_def split: prod.splits)
  have c1: "counter_ok es e a k (w_counter w1)" using step_inv [OF s] by (simp add: cw_inv_def)
  then have a: "container (nw_heap (c_nws (w_counter w1))) e = a" by (simp add: counter_ok_def)
  have I: "counter_inv (insert e es) (fst (counter_enqueue (w_counter w1) e))" "b \<longleftrightarrow> c_value (w_counter w1) \<noteq> 0"
    using enqueue_inv [of "insert e es" "w_counter w1" e] c1 q1(1) by (auto simp: counter_ok_def dll_nsync_waiter_def w')
  then have ok': "cw_inv es e a k w'"
    using step_inv [OF s] sem q1(2) unfolding cw_inv_def counter_ok_def w' by (auto simp: enqueue_fields)
  show "cw_later es e a k w w'" using s ok ok' by (simp add: cw_later_def world_step_def counter_step_def w' enqueue_fields)
  show "cw_work a k w' \<le> cw_work a k w + 1"
    using s q(1) by (simp add: cw_work_def world_step_def counter_step_def w' enqueue_fields)
  show "b \<longleftrightarrow> c_value (w_counter w') \<noteq> 0" "nw_waiting (c_nws (w_counter w')) a \<or> c_value (w_counter w') = 0"
    using I(2) a by (auto simp: w' enqueue_fields)
qed

lemma own_dequeue:
  assumes ok: "cw_inv es e a k w" and c: "on_counter es (\<lambda>c. counter_dequeue c e) w = (w', b)"
  shows "onward (cw_later es e a k) (cw_work a k) (cw_queued a) w w'" "\<not> nw_waiting (c_nws (w_counter w')) a"
    "b \<longleftrightarrow> c_value (w_counter w') \<noteq> 0"
proof -
  define w1 where "w1 = run_others es w"
  have s: "world_step es e a k w w1" unfolding w1_def by (rule run_others_step [OF ok])
  have w': "w' = w1\<lparr>w_counter := fst (counter_dequeue (w_counter w1) e)\<rparr>" "b = snd (counter_dequeue (w_counter w1) e)"
    using c by (auto simp: on_counter_def w1_def Let_def split: prod.splits)
  have c1: "counter_ok es e a k (w_counter w1)" using step_inv [OF s] by (simp add: cw_inv_def)
  have "counter_inv (insert e es) (fst (counter_dequeue (w_counter w1) e))"
    using dequeue_inv [of "insert e es" "w_counter w1" e] c1 by (auto simp: counter_ok_def)
  then have ok': "cw_inv es e a k w'"
    using step_inv [OF s] unfolding cw_inv_def counter_ok_def w' by (auto simp: dequeue_fields)
  have a: "container (nw_heap (c_nws (w_counter w1))) e = a" using c1 by (simp add: counter_ok_def)
  then show "onward (cw_later es e a k) (cw_work a k) (cw_queued a) w w'"
    using s ok ok' by (auto simp: onward_def cw_later_def world_step_def counter_step_def w' dequeue_fields cw_defs)
  show "\<not> nw_waiting (c_nws (w_counter w')) a" "b \<longleftrightarrow> c_value (w_counter w') \<noteq> 0" using a by (simp_all add: w' dequeue_fields)
qed

lemma take_token:
  assumes "cw_inv es e a k w" "0 < sem_val k w"
    and "w' = on_nws (\<lambda>s. s\<lparr>sem_count := (sem_count s)(k := sem_count s k - 1)\<rparr>) w"
  shows "cw_later es e a k w w'" "cw_work a k w' < cw_work a k w" "cw_queued a j w' = cw_queued a j w" "cw_ready j w' = cw_ready j w"
  using assms by (auto simp: cw_later_def cw_inv_def counter_ok_def counter_inv_def on_nws_def cw_defs dll_nsync_waiter_def)

text \<open>The laws of the counter's functions and of its semaphore.\<close>

lemma counter_ready_time_law:
  assumes "cw_inv es e a k w" "on_counter es counter_ready_time w = (w', t)"
  shows "onward (cw_later es e a k) (cw_work a k) (cw_queued a) w w' \<and> cw_polled j w' \<and> cw_due j t w' \<and> kept (cw_posted k) cw_ready (cw_queued a) w w' \<and> (cw_polled j w \<longrightarrow> cw_ready j w \<longrightarrow> \<not> nsync_time_zero < t)"
proof -
  note L = own_ready_time [OF assms]
  have "\<not> nsync_time_zero < t" if "cw_polled j w" "cw_ready j w"
    using that L(1,3) by (auto simp: world_step_def counter_step_def cw_defs)
  then show ?thesis using world_step_laws [OF L(1)] L(2,3) by (auto simp: cw_defs)
qed

lemma counter_woken_law:
  assumes "cw_inv es e a k w" "sem_sleep es k d (w_events w) w = Woken w'"
  shows "onward (cw_later es e a k) (cw_work a k) (cw_queued a) w w' \<and> cw_work a k w' < cw_work a k w \<and> (\<forall>j. cw_queued a j w \<longrightarrow> cw_queued a j w' \<or> cw_ready j w')"
proof -
  obtain w1 where w1: "world_step es e a k w w1" "0 < sem_val k w1"
    "w' = on_nws (\<lambda>s. s\<lparr>sem_count := (sem_count s)(k := sem_count s k - 1)\<rparr>) w1"
    using sem_sleep_spec [OF assms(1), of d "w_events w"] assms(2) by auto
  note T = take_token [OF step_inv [OF w1(1)] w1(2,3)] and L = world_step_laws [OF w1(1)]
  show ?thesis using L T unfolding onward_def kept_def by (auto simp: cw_later_def)
qed

lemma counter_stuck_law:
  assumes "cw_inv es e a k w" "sem_sleep es k d (w_events w) w = Stuck w'"
  shows "onward (cw_later es e a k) (cw_work a k) (cw_queued a) w w' \<and> \<not> d < nsync_time_no_deadline \<and> \<not> cw_posted k w \<and>
    (\<forall>j t. cw_queued a j w \<longrightarrow> cw_due j t w \<longrightarrow> \<not> t < nsync_time_no_deadline \<longrightarrow> \<not> cw_ready j w')"
proof -
  have S: "world_step es e a k w w'" "\<not> d < nsync_time_no_deadline" "sem_val k w' = 0"
    using sem_sleep_spec [OF assms(1), of d "w_events w"] assms(2) by auto
  have i: "counter_inv (insert e es) (w_counter w')" "container (nw_heap (c_nws (w_counter w'))) e = a"
    using step_inv [OF S(1)] by (simp_all add: cw_inv_def counter_ok_def)
  have "\<not> cw_ready j w'" if "cw_queued a j w" for j
    using world_step_laws(2) [OF S(1)] that S(3) counter_inv_zero [OF i(1)] i(2)
    by (auto simp: kept_def cw_defs dll_nsync_waiter_def)
  moreover have "\<not> cw_posted k w" using S(1,3) by (simp add: world_step_def counter_step_def cw_posted_def)
  ultimately show ?thesis using S world_step_laws(1) by blast
qed

interpretation cw: waitable_objects "counter_calls es e a k" "[nsync_counter_waitable_funcs es e]" "cw_inv es e a k"
  "cw_later es e a k" "cw_queued a" cw_polled cw_ready cw_due cw_past "cw_work a k" "cw_posted k"
proof unfold_locales
  fix w w' w'' :: counter_world and j :: nat and t d x b c
  let ?on = "onward (cw_later es e a k) (cw_work a k) (cw_queued a)"
  let ?kept = "kept (cw_posted k) cw_ready (cw_queued a)"
  show "cw_later es e a k w w" if "cw_inv es e a k w" using that by (simp add: cw_later_def)
  show "cw_inv es e a k w'" if "cw_later es e a k w w'" using that by (simp add: cw_later_def)
  show "cw_later es e a k w w''" if "cw_later es e a k w w'" "cw_later es e a k w' w''"
    using that by (auto simp: cw_later_def)
  show "cw_polled j w'" if "cw_later es e a k w w'" "cw_polled j w" using that by (simp add: cw_later_def cw_defs)
  show "cw_ready j w'" if "cw_later es e a k w w'" "cw_polled j w" "cw_ready j w" using that by (simp add: cw_later_def cw_defs)
  show "cw_due j t w'" if "cw_later es e a k w w'" "cw_due j t w" using that by (auto simp: cw_later_def cw_defs)
  show "cw_past t w'" if "cw_later es e a k w w'" "cw_past t w" using that by (auto simp: cw_later_def cw_defs)
  show "cw_past t w" if "cw_inv es e a k w" "nsync_time_cmp t nsync_time_zero \<le> 0"
    using that by (auto simp: cw_inv_def cw_defs cmp_order_time split: if_splits)
  show "cw_ready j w" if "cw_inv es e a k w" "cw_due j t w" "cw_past t w" using that by (auto simp: cw_inv_def cw_defs)
  show "?on w (c w) \<and> ?kept w (c w)"
    if "cw_inv es e a k w" "c \<in> {lock_mu (counter_calls es e a k), unlock_mu (counter_calls es e a k),
      waiter_new (counter_calls es e a k), waiter_free (counter_calls es e a k)}"
    using that world_step_laws [OF run_others_step [OF that(1)]] by (auto simp: counter_calls_def)
  show "?on w w' \<and> cw_polled j w' \<and> cw_due j t w' \<and> ?kept w w' \<and> (cw_polled j w \<longrightarrow> cw_ready j w \<longrightarrow> \<not> nsync_time_zero < t)"
    if "cw_inv es e a k w" "j < length [nsync_counter_waitable_funcs es e]"
      "ready_time ([nsync_counter_waitable_funcs es e] ! j) x w = (w', t)"
    using that counter_ready_time_law [OF that(1)] by (simp add: nsync_counter_waitable_funcs_def)
  show "cw_later es e a k w w' \<and> cw_work a k w' \<le> cw_work a k w + 1 \<and> (\<forall>i. i \<noteq> j \<longrightarrow> cw_queued a i w' \<longrightarrow> cw_queued a i w) \<and>
      (\<not> b \<longrightarrow> cw_ready j w') \<and> (cw_queued a j w' \<or> cw_ready j w') \<and> (\<forall>i. cw_queued a i w \<longrightarrow> cw_queued a i w' \<or> cw_ready i w')"
    if "cw_inv es e a k w" "j < length [nsync_counter_waitable_funcs es e]" "cw_polled j w" "\<not> cw_queued a j w"
      "enqueue ([nsync_counter_waitable_funcs es e] ! j) j (init_nw (counter_calls es e a k) j w) = (w', b)"
  proof -
    have c: "on_counter es (\<lambda>c. counter_enqueue c e) (on_nws (init_struct e a k) w) = (w', b)"
      using that(2,5) by (simp add: nsync_counter_waitable_funcs_def counter_calls_def)
    have "\<not> nw_waiting (c_nws (w_counter w)) a" "c_waited (w_counter w)" using that(2-4) by (auto simp: cw_defs)
    note L = own_enqueue [OF that(1) this c]
    then show ?thesis using that(2,4) by (auto simp: cw_queued_def cw_ready_def)
  qed
  show "?on w w' \<and> \<not> cw_queued a j w' \<and> (\<not> b \<longrightarrow> cw_ready j w') \<and> (cw_ready j w \<longrightarrow> \<not> b)"
    if "cw_inv es e a k w" "j < length [nsync_counter_waitable_funcs es e]" "cw_polled j w"
      "dequeue ([nsync_counter_waitable_funcs es e] ! j) j w = (w', b)"
  proof -
    have c: "on_counter es (\<lambda>c. counter_dequeue c e) w = (w', b)"
      using that(2,4) by (simp add: nsync_counter_waitable_funcs_def)
    note L = own_dequeue [OF that(1) c]
    then show ?thesis using that(3) by (auto simp: onward_def cw_later_def cw_defs)
  qed
  show "?on w w' \<and> cw_work a k w' < cw_work a k w \<and> (\<forall>j. cw_queued a j w \<longrightarrow> cw_queued a j w' \<or> cw_ready j w')"
    if "cw_inv es e a k w" "semaphore_p (counter_calls es e a k) d w = Woken w'"
    using counter_woken_law [OF that(1), of d w'] that(2) by (simp add: counter_calls_def)
  show "?on w w' \<and> cw_past d w'" if "cw_inv es e a k w" "semaphore_p (counter_calls es e a k) d w = Expired w'"
    using sem_sleep_spec [OF that(1), of d "w_events w"] that(2) world_step_laws(1) by (auto simp: counter_calls_def cw_past_def)
  show "?on w w' \<and> \<not> d < nsync_time_no_deadline \<and> \<not> cw_posted k w \<and>
      (\<forall>j t. cw_queued a j w \<longrightarrow> cw_due j t w \<longrightarrow> \<not> t < nsync_time_no_deadline \<longrightarrow> \<not> cw_ready j w')"
    if "cw_inv es e a k w" "semaphore_p (counter_calls es e a k) d w = Stuck w'"
    using counter_stuck_law [OF that(1), of d w'] that(2) by (simp add: counter_calls_def)
qed

section \<open>Waiting for a counter\<close>

lemma counter_wait_spec:
  assumes "cw_inv es e a k w" "\<not> nw_waiting (c_nws (w_counter w)) a" "sem_val k w + 1 < fuel"
  shows "(\<exists>w' v. nsync_counter_wait fuel es e a k d w = Returns (w', v) \<and> counter_inv (insert e es) (w_counter w') \<and>
      \<not> nw_waiting (c_nws (w_counter w')) a \<and> v = c_value (w_counter w') \<and> (0 < v \<longrightarrow> d \<le> w_now w')) \<or>
    (\<exists>w'. nsync_counter_wait fuel es e a k d w = Sleeps_forever w' \<and> \<not> d < nsync_time_no_deadline \<and>
      0 < c_value (w_counter w'))"
proof -
  let ?n = "nsync_wait_n fuel (counter_calls es e a k) False d [nsync_counter_waitable_funcs es e] w"
  have "(\<exists>w' r. ?n = Returns (w', r) \<and> cw_later es e a k w w' \<and> \<not> cw_queued a 0 w' \<and> r \<le> 1 \<and>
      (r = 0 \<longrightarrow> cw_ready 0 w') \<and> (r = 1 \<longrightarrow> cw_past d w')) \<or>
    (\<exists>w'. ?n = Sleeps_forever w' \<and> cw_later es e a k w w' \<and> \<not> d < nsync_time_no_deadline \<and> \<not> cw_ready 0 w')"
    using cw.wait_n_spec [OF assms(1), of fuel False d] assms(2,3) by (auto simp: cw_queued_def cw_work_def)
  then show ?thesis
  proof
    assume "\<exists>w'. ?n = Sleeps_forever w' \<and> cw_later es e a k w w' \<and> \<not> d < nsync_time_no_deadline \<and> \<not> cw_ready 0 w'"
    then show ?thesis by (auto simp: nsync_counter_wait_def cw_ready_def word_gt_0)
  next
    assume "\<exists>w' r. ?n = Returns (w', r) \<and> cw_later es e a k w w' \<and> \<not> cw_queued a 0 w' \<and> r \<le> 1 \<and>
      (r = 0 \<longrightarrow> cw_ready 0 w') \<and> (r = 1 \<longrightarrow> cw_past d w')"
    then obtain w1 r where n: "?n = Returns (w1, r)" "cw_inv es e a k w1" "\<not> nw_waiting (c_nws (w_counter w1)) a" "r \<le> 1"
      "r = 0 \<Longrightarrow> c_value (w_counter w1) = 0" "r = 1 \<Longrightarrow> d \<le> w_now w1"
      by (auto simp: cw_later_def cw_defs)
    define w2 where "w2 = (if r \<noteq> 0 then run_others es w1 else w1)"
    have s: "world_step es e a k w1 w2"
      unfolding w2_def using world_step_refl [OF n(2)] run_others_step [OF n(2)] by simp
    have "nsync_counter_wait fuel es e a k d w = Returns (w2, c_value (w_counter w2))"
      using n(1,5) by (auto simp: nsync_counter_wait_def w2_def nsync_counter_value_def Let_def)
    moreover have "counter_inv (insert e es) (w_counter w2)" using step_inv [OF s] by (simp add: cw_inv_def counter_ok_def)
    moreover have "\<not> nw_waiting (c_nws (w_counter w2)) a" using s n(3) by (auto simp: world_step_def counter_step_def)
    moreover have "d \<le> w_now w2" if "0 < c_value (w_counter w2)"
    proof (cases "r = 0")
      case True
      then show ?thesis using n(5) that by (simp add: w2_def)
    next
      case False
      then show ?thesis using n(4,6) s by (auto simp: world_step_def)
    qed
    ultimately show ?thesis by blast
  qed
qed

text \<open>A counter at 1, and another thread that brings it to 0 while the waiter sleeps.\<close>

definition demo_world :: counter_world where
  "demo_world = \<lparr>w_counter = demo_counter, w_now = nsync_time_zero,
     w_events = [Switch, Switch, Switch, Switch, Others (Add (- 1))]\<rparr>"

lemma demo_world_inv: "cw_inv {} 5 5 7 demo_world"
  using demo_counter_inv [of "{5}"]
  by (simp add: cw_inv_def counter_ok_def demo_world_def demo_counter_def demo_nws_def nsync_time_zero_def
      nsync_time_no_deadline_def less_nsync_time_def less_eq_nsync_time_def)

section \<open>Properties\<close>

text \<open>C22. \<^verbatim>\<open>nsync_counter_wait\<close>, whatever other threads and the clock do meanwhile: it ends, with
  the waiter struct off the counter's list and the list well-formed, and returns the counter's
  value; the value is not 0 only if the deadline has passed.  The exception is a call without
  deadline, which sleeps for ever only if the counter is not 0 when all events have happened: no
  wakeup is lost.  The rounds of the waiting loop are bounded by the tokens the semaphore has at
  the start, plus 1.\<close>

theorem counter_wait_correct:
  assumes "cw_inv es e a k w" "\<not> nw_waiting (c_nws (w_counter w)) a" "sem_val k w + 1 < fuel"
  shows "(\<exists>w' v. nsync_counter_wait fuel es e a k d w = Returns (w', v) \<and> counter_inv (insert e es) (w_counter w') \<and>
      \<not> nw_waiting (c_nws (w_counter w')) a \<and> v = c_value (w_counter w') \<and> (0 < v \<longrightarrow> d \<le> w_now w')) \<or>
    (\<exists>w'. nsync_counter_wait fuel es e a k d w = Sleeps_forever w' \<and> \<not> d < nsync_time_no_deadline \<and>
      0 < c_value (w_counter w'))"
  by (rule counter_wait_spec [OF assms])

theorem counter_wait_correct_witness:
  "\<exists>w'. nsync_counter_wait 2 {} 5 5 7 (Timespec 1 0) demo_world = Returns (w', c_value (w_counter w')) \<and>
     \<not> nw_waiting (c_nws (w_counter w')) 5"
proof -
  have d: "Timespec 1 0 < nsync_time_no_deadline" by (simp add: nsync_time_no_deadline_def less_nsync_time_def)
  have "\<not> nw_waiting (c_nws (w_counter demo_world)) 5" "sem_val 7 demo_world + 1 < 2"
    by (simp_all add: demo_world_def demo_counter_def demo_nws_def)
  then show ?thesis using counter_wait_correct [OF demo_world_inv, of 2 "Timespec 1 0"] d by auto
qed

end
