(* ===== verification/Note.thy ===== *)
theory Note
  imports Time "HOL-Library.Multiset"
begin

text \<open>
  \<^verbatim>\<open>internal/note.c\<close>: notes, which form a forest.  A note and a waiter struct are named by
  numbers, \<^verbatim>\<open>children\<close> and \<^verbatim>\<open>waiters\<close> are lists from first to last (theory \<open>Dll\<close>).
  The locks are not part of the state: an operation runs to its end without interference, except
  where it gives the note's lock back to take the parent's lock first, or waits for the list of
  children to become empty.  So \<^verbatim>\<open>notify\<close> and \<^verbatim>\<open>nsync_note_free\<close> are each two parts, between
  which other operations may run, and a run may stop at the wait of a note (\<open>Blocked\<close>).
\<close>

record nsync_note_s =
  n_expiry_time :: nsync_time
  n_expiry_time_valid :: bool
  n_disconnecting :: "32 word"
  n_notified :: bool
  n_parent :: "nat option"
  n_children :: "nat list"
  n_waiters :: "nat list"

text \<open>All notes, the flags and semaphores of the waiter structs, and which notes are allocated.\<close>

record note_sys =
  note_of :: "nat \<Rightarrow> nsync_note_s"
  nw_waiting :: "nat \<Rightarrow> bool"
  nw_sem :: "nat \<Rightarrow> nat"
  sem_count :: "nat \<Rightarrow> nat"
  allocated :: "nat set"

datatype 'a run = Done 'a | Blocked nat note_sys | Assert_failed | Out_of_fuel

fun bind_run :: "'a run \<Rightarrow> ('a \<Rightarrow> 'b run) \<Rightarrow> 'b run" where
  "bind_run (Done x) f = f x"
| "bind_run (Blocked n s) f = Blocked n s"
| "bind_run Assert_failed f = Assert_failed"
| "bind_run Out_of_fuel f = Out_of_fuel"

definition upd_note :: "nat \<Rightarrow> (nsync_note_s \<Rightarrow> nsync_note_s) \<Rightarrow> note_sys \<Rightarrow> note_sys" where
  "upd_note n f s = s\<lparr>note_of := (note_of s)(n := f (note_of s n))\<rparr>"

definition NOTIFIED_TIME :: "nsync_note_s \<Rightarrow> nsync_time" where
  "NOTIFIED_TIME n =
     (if n_notified n then nsync_time_zero
      else if n_expiry_time_valid n then n_expiry_time n else nsync_time_no_deadline)"

definition set_expiry_time :: "nat \<Rightarrow> nsync_time \<Rightarrow> note_sys \<Rightarrow> note_sys" where
  "set_expiry_time n t s = upd_note n (\<lambda>x. x\<lparr>n_expiry_time := t, n_expiry_time_valid := True\<rparr>) s"

definition no_children :: "note_sys \<Rightarrow> nat \<Rightarrow> bool" where
  "no_children s n \<longleftrightarrow> n_children (note_of s n) = []"

text \<open>Not yet notified: \<^verbatim>\<open>nsync_time_cmp (NOTIFIED_TIME (n), nsync_time_zero) > 0\<close>.\<close>

definition pending :: "note_sys \<Rightarrow> nat \<Rightarrow> bool" where
  "pending s n \<longleftrightarrow> nsync_time_cmp (NOTIFIED_TIME (note_of s n)) nsync_time_zero > 0"

section \<open>Notifying\<close>

text \<open>The loop that wakes the waiters of a note.\<close>

fun wake_note :: "nat \<Rightarrow> nat list \<Rightarrow> note_sys \<Rightarrow> note_sys" where
  "wake_note n [] s = s"
| "wake_note n (nw # nws) s =
     (let s = upd_note n (\<lambda>x. x\<lparr>n_waiters := nws\<rparr>) s
      in wake_note n nws
           (s\<lparr>nw_waiting := (nw_waiting s)(nw := False),
              sem_count := (sem_count s)(nw_sem s nw := sem_count s (nw_sem s nw) + 1)\<rparr>))"

text \<open>The loop over the children; \<open>f\<close> is the recursive call.\<close>

fun notify_children :: "(nat \<Rightarrow> note_sys \<Rightarrow> note_sys run) \<Rightarrow> nat list \<Rightarrow> note_sys \<Rightarrow> note_sys run" where
  "notify_children f [] s = Done s"
| "notify_children f (c # cs) s =
     (if n_disconnecting (note_of s c) = 0
      then bind_run (f c s) (notify_children f cs)
      else notify_children f cs s)"

definition unlink_child :: "nat option \<Rightarrow> nat \<Rightarrow> note_sys \<Rightarrow> note_sys" where
  "unlink_child parent n s =
     (case parent of
        None \<Rightarrow> s
      | Some p \<Rightarrow>
          upd_note n (\<lambda>x. x\<lparr>n_parent := None\<rparr>)
            (upd_note p (\<lambda>x. x\<lparr>n_children := remove1 n (n_children x)\<rparr>) s))"

text \<open>The first argument bounds the depth of the recursion, which is the height of the tree.\<close>

primrec note_notify_child :: "nat \<Rightarrow> nat \<Rightarrow> nat option \<Rightarrow> note_sys \<Rightarrow> note_sys run" where
  "note_notify_child 0 n parent s = Out_of_fuel"
| "note_notify_child (Suc k) n parent s =
     (if pending s n
      then
        (let s = upd_note n (\<lambda>x. x\<lparr>n_notified := True\<rparr>) s;
             s = wake_note n (n_waiters (note_of s n)) s
         in bind_run (notify_children (\<lambda>c. note_notify_child k c (Some n)) (n_children (note_of s n)) s)
              (\<lambda>s. if no_children s n then Done (unlink_child parent n s) else Blocked n s))
      else Done s)"

text \<open>\<^verbatim>\<open>notify\<close> before and after it may give up the note's lock.\<close>

definition notify_begin :: "nat \<Rightarrow> note_sys \<Rightarrow> note_sys \<times> nat option option" where
  "notify_begin n s =
     (if pending s n
      then (upd_note n (\<lambda>x. x\<lparr>n_disconnecting := n_disconnecting x + 1\<rparr>) s, Some (n_parent (note_of s n)))
      else (s, None))"

definition notify_finish :: "nat \<Rightarrow> nat \<Rightarrow> nat option \<Rightarrow> note_sys \<Rightarrow> note_sys run" where
  "notify_finish k n parent s =
     bind_run (note_notify_child k n parent s)
       (\<lambda>s. Done (upd_note n (\<lambda>x. x\<lparr>n_disconnecting := n_disconnecting x - 1\<rparr>) s))"

definition notify :: "nat \<Rightarrow> nat \<Rightarrow> note_sys \<Rightarrow> note_sys run" where
  "notify k n s =
     (case notify_begin n s of
        (s, None) \<Rightarrow> Done s
      | (s, Some parent) \<Rightarrow> notify_finish k n parent s)"

text \<open>\<open>now\<close> is what \<^verbatim>\<open>nsync_time_now\<close> returns.\<close>

definition nsync_note_notified_deadline :: "nat \<Rightarrow> nsync_time \<Rightarrow> nat \<Rightarrow> note_sys \<Rightarrow> (note_sys \<times> nsync_time) run" where
  "nsync_note_notified_deadline k now n s =
     (if n_notified (note_of s n) then Done (s, nsync_time_zero)
      else
        (let ntime = NOTIFIED_TIME (note_of s n)
         in if nsync_time_cmp ntime nsync_time_zero > 0 \<and> nsync_time_cmp ntime now \<le> 0
            then bind_run (notify k n s) (\<lambda>s. Done (s, nsync_time_zero))
            else Done (s, ntime)))"

definition nsync_note_is_notified :: "nat \<Rightarrow> nsync_time \<Rightarrow> nat \<Rightarrow> note_sys \<Rightarrow> (note_sys \<times> bool) run" where
  "nsync_note_is_notified k now n s =
     bind_run (nsync_note_notified_deadline k now n s)
       (\<lambda>(s, t). Done (s, nsync_time_cmp t nsync_time_zero \<le> 0))"

definition nsync_note_notify :: "nat \<Rightarrow> nsync_time \<Rightarrow> nat \<Rightarrow> note_sys \<Rightarrow> note_sys run" where
  "nsync_note_notify k now n s =
     bind_run (nsync_note_notified_deadline k now n s)
       (\<lambda>(s, t). if nsync_time_cmp t nsync_time_zero > 0 then notify k n s else Done s)"

section \<open>Creating and freeing\<close>

definition empty_note :: nsync_note_s where
  "empty_note = \<lparr>n_expiry_time = nsync_time_zero, n_expiry_time_valid = False, n_disconnecting = 0,
     n_notified = False, n_parent = None, n_children = [], n_waiters = []\<rparr>"

text \<open>The part of \<^verbatim>\<open>nsync_note_new\<close> that links the note to a pending parent.\<close>

definition note_new_link :: "nat \<Rightarrow> nat option \<Rightarrow> nsync_time \<Rightarrow> note_sys \<Rightarrow> bool \<Rightarrow> note_sys" where
  "note_new_link n parent abs_deadline s is_notified =
     (case parent of
        None \<Rightarrow> s
      | Some p \<Rightarrow>
          if is_notified then s
          else
            (let parent_time = NOTIFIED_TIME (note_of s p);
                 s = (if nsync_time_cmp parent_time abs_deadline < 0 then set_expiry_time n parent_time s else s)
             in if nsync_time_cmp parent_time nsync_time_zero > 0
                then upd_note p (\<lambda>x. x\<lparr>n_children := n_children x @ [n]\<rparr>) (upd_note n (\<lambda>x. x\<lparr>n_parent := Some p\<rparr>) s)
                else s))"

text \<open>\<open>mem\<close> is the block \<^verbatim>\<open>malloc\<close> returns.\<close>

definition nsync_note_new ::
  "nat \<Rightarrow> nsync_time \<Rightarrow> nat option \<Rightarrow> nat option \<Rightarrow> nsync_time \<Rightarrow> note_sys \<Rightarrow> (note_sys \<times> nat option) run" where
  "nsync_note_new k now mem parent abs_deadline s =
     (case mem of
        None \<Rightarrow> Done (s, None)
      | Some n \<Rightarrow>
          (let s = upd_note n (\<lambda>_. empty_note) (s\<lparr>allocated := insert n (allocated s)\<rparr>);
               s = set_expiry_time n abs_deadline s
           in bind_run (nsync_note_is_notified k now n s)
                (\<lambda>(s, is_notified). Done (note_new_link n parent abs_deadline s is_notified, Some n))))"

definition note_free_begin :: "nat \<Rightarrow> note_sys \<Rightarrow> (note_sys \<times> nat option) run" where
  "note_free_begin n s =
     (let s = upd_note n (\<lambda>x. x\<lparr>n_disconnecting := n_disconnecting x + 1\<rparr>) s
      in if n_waiters (note_of s n) = [] then Done (s, n_parent (note_of s n)) else Assert_failed)"

text \<open>The children that are not being disconnected move to the parent.\<close>

fun free_children :: "nat \<Rightarrow> nat option \<Rightarrow> nat list \<Rightarrow> note_sys \<Rightarrow> note_sys" where
  "free_children n parent [] s = s"
| "free_children n parent (c # cs) s =
     (if n_disconnecting (note_of s c) = 0
      then
        (let s = upd_note n (\<lambda>x. x\<lparr>n_children := remove1 c (n_children x)\<rparr>) s;
             s = upd_note c (\<lambda>x. x\<lparr>n_parent := parent\<rparr>) s;
             s = (case parent of
                    None \<Rightarrow> s
                  | Some p \<Rightarrow> upd_note p (\<lambda>x. x\<lparr>n_children := n_children x @ [c]\<rparr>) s)
         in free_children n parent cs s)
      else free_children n parent cs s)"

definition note_free_finish :: "nat \<Rightarrow> nat option \<Rightarrow> note_sys \<Rightarrow> note_sys run" where
  "note_free_finish n parent s =
     (let s = free_children n parent (n_children (note_of s n)) s
      in if no_children s n
         then (let s = unlink_child parent n s;
                   s = upd_note n (\<lambda>x. x\<lparr>n_disconnecting := n_disconnecting x - 1\<rparr>) s
               in Done (s\<lparr>allocated := allocated s - {n}\<rparr>))
         else Blocked n s)"

definition nsync_note_free :: "nat \<Rightarrow> note_sys \<Rightarrow> note_sys run" where
  "nsync_note_free n s = bind_run (note_free_begin n s) (\<lambda>(s, parent). note_free_finish n parent s)"

definition nsync_note_expiry :: "nat \<Rightarrow> note_sys \<Rightarrow> nsync_time" where
  "nsync_note_expiry n s = n_expiry_time (note_of s n)"

section \<open>Waiting for a note\<close>

definition note_ready_time :: "nat \<Rightarrow> nsync_time \<Rightarrow> nat \<Rightarrow> note_sys \<Rightarrow> (note_sys \<times> nsync_time) run" where
  "note_ready_time k now n s = nsync_note_notified_deadline k now n s"

definition note_enqueue :: "nat \<Rightarrow> nat \<Rightarrow> note_sys \<Rightarrow> note_sys \<times> bool" where
  "note_enqueue n nw s =
     (if pending s n
      then ((upd_note n (\<lambda>x. x\<lparr>n_waiters := n_waiters x @ [nw]\<rparr>) s)\<lparr>nw_waiting := (nw_waiting s)(nw := True)\<rparr>, True)
      else (s\<lparr>nw_waiting := (nw_waiting s)(nw := False)\<rparr>, False))"

definition note_dequeue :: "nat \<Rightarrow> nsync_time \<Rightarrow> nat \<Rightarrow> nat \<Rightarrow> note_sys \<Rightarrow> (note_sys \<times> bool) run" where
  "note_dequeue k now n nw s =
     bind_run (nsync_note_notified_deadline k now n s)
       (\<lambda>(s, _).
          if pending s n
          then Done ((upd_note n (\<lambda>x. x\<lparr>n_waiters := remove1 nw (n_waiters x)\<rparr>) s)\<lparr>nw_waiting := (nw_waiting s)(nw := False)\<rparr>, True)
          else Done (s, False))"

end
