(* ===== verification/Note_Tree.thy ===== *)
theory Note_Tree
  imports Note
begin

text \<open>
  Notifying a whole tree: the tree of notes below a note as a datatype, the state that
  \<^verbatim>\<open>note_notify_child\<close> should produce as one update (\<open>hush\<close>), and the proof that it ends and
  produces it.
\<close>

datatype ntree = Node nat "ntree list"

primrec root :: "ntree \<Rightarrow> nat" where
  "root (Node n ts) = n"

primrec nodes :: "ntree \<Rightarrow> nat list" where
  "nodes (Node n ts) = n # concat (map nodes ts)"

primrec height :: "ntree \<Rightarrow> nat" where
  "height (Node n ts) = Suc (Max (set (0 # map height ts)))"

text \<open>The tree of pending notes below a note.\<close>

fun rep :: "note_sys \<Rightarrow> ntree \<Rightarrow> bool" where
  "rep s (Node n ts) \<longleftrightarrow>
     pending s n \<and> n_children (note_of s n) = map root ts \<and>
     (\<forall>t\<in>set ts. n_disconnecting (note_of s (root t)) = 0 \<and> n_parent (note_of s (root t)) = Some n \<and> rep s t)"

text \<open>All notes of \<open>D\<close> are notified and unlinked and their waiters woken.\<close>

definition hush :: "nat list \<Rightarrow> note_sys \<Rightarrow> note_sys" where
  "hush D s =
     s\<lparr>note_of := (\<lambda>m. if m \<in> set D
         then (note_of s m)\<lparr>n_notified := True, n_waiters := [], n_children := [], n_parent := None\<rparr> else note_of s m),
       nw_waiting := (\<lambda>i. nw_waiting s i \<and> (\<forall>m\<in>set D. i \<notin> set (n_waiters (note_of s m)))),
       sem_count := (\<lambda>k. sem_count s k + length (filter (\<lambda>i. nw_sem s i = k) (concat (map (\<lambda>m. n_waiters (note_of s m)) D))))\<rparr>"

lemma upd_note_fields [simp]:
  "note_of (upd_note n f s) = (note_of s)(n := f (note_of s n))" "nw_waiting (upd_note n f s) = nw_waiting s"
  "nw_sem (upd_note n f s) = nw_sem s" "sem_count (upd_note n f s) = sem_count s" "allocated (upd_note n f s) = allocated s"
  by (simp_all add: upd_note_def)

lemma note_sys_eqI:
  fixes s s' :: note_sys
  assumes "\<And>m. note_of s m = note_of s' m" "\<And>i. nw_waiting s i = nw_waiting s' i" "nw_sem s = nw_sem s'"
    "\<And>k. sem_count s k = sem_count s' k" "allocated s = allocated s'"
  shows "s = s'"
  using assms by (intro note_sys.equality) (auto simp: fun_eq_iff)

lemma root_in_nodes [simp]: "root t \<in> set (nodes t)"
  by (cases t) simp

lemma height_child: "t \<in> set ts \<Longrightarrow> height (Node n ts) \<le> Suc k \<Longrightarrow> height t \<le> k"
  by (auto intro: Max_ge order_trans)

lemma rep_cong:
  "(\<And>m. m \<in> set (nodes t) \<Longrightarrow> note_of s' m = note_of s m) \<Longrightarrow> rep s' t = rep s t"
proof (induction t)
  case (Node n ts)
  have "rep s' t = rep s t \<and> note_of s' (root t) = note_of s (root t)" if "t \<in> set ts" for t
  proof -
    have "note_of s' m = note_of s m" if "m \<in> set (nodes t)" for m using Node.prems [of m] that \<open>t \<in> set ts\<close> by auto
    then show ?thesis using Node.IH [OF that] root_in_nodes [of t] by blast
  qed
  then show ?case using Node.prems [of n] by (auto simp: pending_def)
qed

lemma wake_note_eq:
  assumes "n_waiters (note_of s n) = ws"
  shows "wake_note n ws s = (upd_note n (\<lambda>x. x\<lparr>n_waiters := []\<rparr>) s)
    \<lparr>nw_waiting := (\<lambda>i. nw_waiting s i \<and> i \<notin> set ws),
     sem_count := (\<lambda>k. sem_count s k + length (filter (\<lambda>i. nw_sem s i = k) ws))\<rparr>"
  using assms
proof (induction ws arbitrary: s)
  case Nil
  then have "(note_of s n)\<lparr>n_waiters := []\<rparr> = note_of s n" by simp
  then show ?case by (intro note_sys_eqI) auto
next
  case (Cons w ws)
  define s1 where "s1 = (upd_note n (\<lambda>x. x\<lparr>n_waiters := ws\<rparr>) s)\<lparr>nw_waiting := (nw_waiting s)(w := False),
    sem_count := (sem_count s)(nw_sem s w := sem_count s (nw_sem s w) + 1)\<rparr>"
  have "wake_note n (w # ws) s = wake_note n ws s1" by (simp add: s1_def Let_def)
  also have "\<dots> = (upd_note n (\<lambda>x. x\<lparr>n_waiters := []\<rparr>) s1)
    \<lparr>nw_waiting := (\<lambda>i. nw_waiting s1 i \<and> i \<notin> set ws),
     sem_count := (\<lambda>k. sem_count s1 k + length (filter (\<lambda>i. nw_sem s1 i = k) ws))\<rparr>"
    by (rule Cons.IH) (simp add: s1_def)
  finally show ?case by (intro note_sys_eqI) (auto simp: s1_def)
qed

section \<open>The recursion\<close>

lemma unlink_hush_fields:
  assumes "n \<notin> set D" "m \<in> set D"
  shows "note_of (unlink_child (Some n) m (hush D s)) i =
    (if i = n then (note_of s n)\<lparr>n_children := remove1 m (n_children (note_of s n))\<rparr> else note_of (hush D s) i)"
  using assms by (auto simp: unlink_child_def hush_def)

lemma notify_children_tree:
  assumes "\<And>t s. t \<in> set ts \<Longrightarrow> rep s t \<Longrightarrow> n_disconnecting (note_of s (root t)) = 0 \<Longrightarrow>
      f (root t) s = Done (unlink_child (Some n) (root t) (hush (nodes t) s))"
    and "\<forall>t\<in>set ts. rep s t \<and> n_disconnecting (note_of s (root t)) = 0"
    and "distinct (concat (map nodes ts))" "n \<notin> set (concat (map nodes ts))" "n_children (note_of s n) = map root ts"
  shows "notify_children f (map root ts) s =
    Done (upd_note n (\<lambda>x. x\<lparr>n_children := []\<rparr>) (hush (concat (map nodes ts)) s))"
  using assms
proof (induction ts arbitrary: s)
  case Nil
  then have "(note_of s n)\<lparr>n_children := []\<rparr> = note_of s n" by simp
  then show ?case by (simp, intro note_sys_eqI) (auto simp: hush_def)
next
  case (Cons t ts)
  define s1 where "s1 = unlink_child (Some n) (root t) (hush (nodes t) s)"
  have n: "n \<notin> set (nodes t)" using Cons.prems(4) by simp
  note s1n = unlink_hush_fields [OF n root_in_nodes, of s, folded s1_def]
  have same: "note_of s1 m = note_of s m" if "m \<in> set (concat (map nodes ts))" for m
    using that Cons.prems(3,4) by (auto simp: s1n hush_def)
  have f: "notify_children f (map root (t # ts)) s = notify_children f (map root ts) s1"
    using Cons.prems(1) [of t s] Cons.prems(2) by (simp add: s1_def)
  have "rep s1 u \<and> n_disconnecting (note_of s1 (root u)) = 0" if "u \<in> set ts" for u
  proof -
    have "note_of s1 m = note_of s m" if "m \<in> set (nodes u)" for m using same \<open>u \<in> set ts\<close> that by auto
    then show ?thesis using rep_cong [of u s1 s] Cons.prems(2) that by auto
  qed
  moreover have "n_children (note_of s1 n) = map root ts" using Cons.prems(5) by (simp add: s1n)
  ultimately have "notify_children f (map root ts) s1 =
    Done (upd_note n (\<lambda>x. x\<lparr>n_children := []\<rparr>) (hush (concat (map nodes ts)) s1))"
    using Cons.IH [of s1] Cons.prems by simp
  moreover have "upd_note n (\<lambda>x. x\<lparr>n_children := []\<rparr>) (hush (concat (map nodes ts)) s1) =
    upd_note n (\<lambda>x. x\<lparr>n_children := []\<rparr>) (hush (concat (map nodes (t # ts))) s)"
  proof (rule note_sys_eqI)
    have w: "map (\<lambda>m. n_waiters (note_of s1 m)) (concat (map nodes ts)) = map (\<lambda>m. n_waiters (note_of s m)) (concat (map nodes ts))"
      using same by (intro map_cong) auto
    have f: "nw_waiting s1 = nw_waiting (hush (nodes t) s)" "nw_sem s1 = nw_sem s"
      "sem_count s1 = sem_count (hush (nodes t) s)" "allocated s1 = allocated s"
      by (simp_all add: s1_def unlink_child_def hush_def)
    show "note_of (upd_note n (\<lambda>x. x\<lparr>n_children := []\<rparr>) (hush (concat (map nodes ts)) s1)) m =
      note_of (upd_note n (\<lambda>x. x\<lparr>n_children := []\<rparr>) (hush (concat (map nodes (t # ts))) s)) m" for m
      using Cons.prems(4) same [of m] n by (auto simp: hush_def s1n)
    show "nw_waiting (upd_note n (\<lambda>x. x\<lparr>n_children := []\<rparr>) (hush (concat (map nodes ts)) s1)) i =
      nw_waiting (upd_note n (\<lambda>x. x\<lparr>n_children := []\<rparr>) (hush (concat (map nodes (t # ts))) s)) i" for i
      using same by (auto simp: hush_def f(1))
    show "sem_count (upd_note n (\<lambda>x. x\<lparr>n_children := []\<rparr>) (hush (concat (map nodes ts)) s1)) k =
      sem_count (upd_note n (\<lambda>x. x\<lparr>n_children := []\<rparr>) (hush (concat (map nodes (t # ts))) s)) k" for k
      by (simp add: hush_def f(2,3) w)
  qed (simp_all add: hush_def s1_def unlink_child_def)
  ultimately show ?case using f by simp
qed

text \<open>The state after a note's own flag is set and its waiters are woken, and then its children are told.\<close>

definition hush_one :: "nat \<Rightarrow> note_sys \<Rightarrow> note_sys" where
  "hush_one n s = (upd_note n (\<lambda>x. x\<lparr>n_notified := True, n_waiters := []\<rparr>) s)
     \<lparr>nw_waiting := (\<lambda>i. nw_waiting s i \<and> i \<notin> set (n_waiters (note_of s n))),
      sem_count := (\<lambda>k. sem_count s k + length (filter (\<lambda>i. nw_sem s i = k) (n_waiters (note_of s n))))\<rparr>"

lemma hush_one_other: "m \<noteq> n \<Longrightarrow> note_of (hush_one n s) m = note_of s m"
  by (simp add: hush_one_def)

lemma unlink_cong:
  assumes "\<And>m. note_of a m = (if m = n then (note_of b n)\<lparr>n_parent := r\<rparr> else note_of b m)"
    "\<And>i. nw_waiting a i = nw_waiting b i" "\<And>i. sem_count a i = sem_count b i" "nw_sem a = nw_sem b" "allocated a = allocated b"
    "n_parent (note_of b n) = None" "p = None \<Longrightarrow> r = None" "\<And>q. p = Some q \<Longrightarrow> q \<noteq> n"
  shows "unlink_child p n a = unlink_child p n b"
proof (cases p)
  case None
  have "a = b" using assms(1-6) assms(7) [OF None] by (intro note_sys_eqI) simp_all
  then show ?thesis by simp
next
  case (Some q)
  then show ?thesis using assms(1-6,8) by (intro note_sys_eqI) (simp_all add: unlink_child_def)
qed

lemma hush_root:
  fixes ts defines "ns \<equiv> concat (map nodes ts)"
  assumes n: "n \<notin> set ns" and p: "p = None \<Longrightarrow> n_parent (note_of s n) = None" "\<And>q. p = Some q \<Longrightarrow> q \<noteq> n"
  shows "unlink_child p n (upd_note n (\<lambda>x. x\<lparr>n_children := []\<rparr>) (hush ns (hush_one n s))) =
    unlink_child p n (hush (nodes (Node n ts)) s)" (is "unlink_child p n ?a = _")
proof -
  have w: "map (\<lambda>m. n_waiters (note_of (hush_one n s) m)) ns = map (\<lambda>m. n_waiters (note_of s m)) ns"
    using n by (intro map_cong refl) (metis hush_one_other)
  have a: "note_of ?a m = (if m = n then (note_of (hush (nodes (Node n ts)) s) n)\<lparr>n_parent := n_parent (note_of s n)\<rparr>
      else note_of (hush (nodes (Node n ts)) s) m)" for m
    using n hush_one_other [of m n s] by (auto simp: hush_def hush_one_def ns_def)
  have b: "nw_waiting ?a i = nw_waiting (hush (nodes (Node n ts)) s) i" for i
    using n hush_one_other by (auto simp: hush_def hush_one_def ns_def)
  have "sem_count ?a i = sem_count (hush_one n s) i +
      length (filter (\<lambda>j. nw_sem (hush_one n s) j = i) (concat (map (\<lambda>m. n_waiters (note_of (hush_one n s) m)) ns)))" for i
    by (simp add: hush_def)
  then have c: "sem_count ?a i = sem_count (hush (nodes (Node n ts)) s) i" for i
    unfolding w by (simp add: hush_one_def hush_def ns_def)
  have d: "nw_sem ?a = nw_sem (hush (nodes (Node n ts)) s)" "allocated ?a = allocated (hush (nodes (Node n ts)) s)"
    "n_parent (note_of (hush (nodes (Node n ts)) s) n) = None" by (simp_all add: hush_def hush_one_def)
  show ?thesis by (rule unlink_cong [OF a b c d]) (use p in auto)
qed

lemma notify_tree:
  assumes "rep s t" "distinct (nodes t)" "height t \<le> k" "p = None \<Longrightarrow> n_parent (note_of s (root t)) = None"
    "\<And>q. p = Some q \<Longrightarrow> q \<notin> set (nodes t)"
  shows "note_notify_child k (root t) p s = Done (unlink_child p (root t) (hush (nodes t) s))"
  using assms
proof (induction t arbitrary: s k p)
  case (Node n ts)
  obtain j where k: "k = Suc j" using Node.prems(3) by (cases k) auto
  let ?s = "hush_one n s"
  have w: "wake_note n (n_waiters (note_of s n)) (upd_note n (\<lambda>x. x\<lparr>n_notified := True\<rparr>) s) = ?s"
    by (subst wake_note_eq) (auto simp: hush_one_def intro: note_sys_eqI)
  have nn: "n \<notin> set (concat (map nodes ts))" using Node.prems(2) by simp
  have "notify_children (\<lambda>c. note_notify_child j c (Some n)) (map root ts) ?s =
    Done (upd_note n (\<lambda>x. x\<lparr>n_children := []\<rparr>) (hush (concat (map nodes ts)) ?s))"
  proof (rule notify_children_tree)
    fix t s assume t: "t \<in> set ts" "rep s t"
    show "note_notify_child j (root t) (Some n) s = Done (unlink_child (Some n) (root t) (hush (nodes t) s))"
      by (rule Node.IH [OF t]) (use Node.prems(2,3) t(1) k nn height_child in \<open>auto simp: distinct_concat_iff\<close>)
  next
    show "\<forall>t\<in>set ts. rep ?s t \<and> n_disconnecting (note_of ?s (root t)) = 0"
    proof
      fix t assume t: "t \<in> set ts"
      have "note_of ?s m = note_of s m" if "m \<in> set (nodes t)" for m
        using hush_one_other [of m n s] nn t that by (cases "m = n") auto
      then show "rep ?s t \<and> n_disconnecting (note_of ?s (root t)) = 0"
        using Node.prems(1) t rep_cong [of t ?s s] by auto
    qed
  qed (use Node.prems(1,2) nn in \<open>auto simp: hush_one_def\<close>)
  moreover have "n_children (note_of ?s n) = map root ts" "pending s n" using Node.prems(1) by (simp_all add: hush_one_def)
  ultimately have "note_notify_child k n p s =
    Done (unlink_child p n (upd_note n (\<lambda>x. x\<lparr>n_children := []\<rparr>) (hush (concat (map nodes ts)) ?s)))"
    unfolding k using w by (simp add: Let_def no_children_def)
  then show ?case using hush_root [OF nn, of p s] Node.prems(4,5) by auto
qed

end
