(* ===== verification/Note_Inv.thy ===== *)
theory Note_Inv
  imports Note_Tree
begin

text \<open>
  The invariant of the forest of notes, the tree below a pending note, and that notifying it ends,
  keeps the invariant and tells every note below.
\<close>

section \<open>The invariant\<close>

abbreviation children :: "note_sys \<Rightarrow> nat \<Rightarrow> nat list" where
  "children s n \<equiv> n_children (note_of s n)"

abbreviation parent :: "note_sys \<Rightarrow> nat \<Rightarrow> nat option" where
  "parent s n \<equiv> n_parent (note_of s n)"

abbreviation waiters :: "note_sys \<Rightarrow> nat \<Rightarrow> nat list" where
  "waiters s n \<equiv> n_waiters (note_of s n)"

abbreviation ntime :: "note_sys \<Rightarrow> nat \<Rightarrow> nsync_time" where
  "ntime s n \<equiv> NOTIFIED_TIME (note_of s n)"

definition forest_ok :: "note_sys \<Rightarrow> bool" where
  "forest_ok s \<longleftrightarrow>
     (\<forall>n. distinct (children s n)) \<and> (\<forall>n c. c \<in> set (children s n) \<longleftrightarrow> parent s c = Some n) \<and>
     (\<exists>rk :: nat \<Rightarrow> nat. \<forall>n c. parent s c = Some n \<longrightarrow> rk c < rk n) \<and>
     (\<forall>n c. parent s c = Some n \<longrightarrow> pending s c \<and> pending s n \<and> ntime s c \<le> ntime s n)"

definition waiters_ok :: "note_sys \<Rightarrow> bool" where
  "waiters_ok s \<longleftrightarrow>
     (\<forall>n. distinct (waiters s n)) \<and> (\<forall>n m. n \<noteq> m \<longrightarrow> set (waiters s n) \<inter> set (waiters s m) = {}) \<and>
     (\<forall>i. nw_waiting s i \<longleftrightarrow> (\<exists>n. i \<in> set (waiters s n))) \<and> (\<forall>n. \<not> pending s n \<longrightarrow> waiters s n = [])"

definition note_inv :: "note_sys \<Rightarrow> bool" where
  "note_inv s \<longleftrightarrow>
     forest_ok s \<and> waiters_ok s \<and> (\<forall>n. n_disconnecting (note_of s n) = 0) \<and>
     (\<forall>n. n \<notin> allocated s \<longrightarrow> parent s n = None \<and> children s n = [] \<and> waiters s n = [])"

lemma forest_okD:
  assumes "forest_ok s"
  shows "distinct (children s n)" "c \<in> set (children s n) \<longleftrightarrow> parent s c = Some n"
    "parent s c = Some n \<Longrightarrow> pending s c" "parent s c = Some n \<Longrightarrow> pending s n" "parent s c = Some n \<Longrightarrow> ntime s c \<le> ntime s n"
  using assms unfolding forest_ok_def by auto

lemma forest_rank:
  assumes "forest_ok s"
  obtains rk :: "nat \<Rightarrow> nat" where "\<And>n c. parent s c = Some n \<Longrightarrow> rk c < rk n"
  using assms unfolding forest_ok_def by auto

lemma waiters_okD:
  assumes "waiters_ok s"
  shows "distinct (waiters s n)" "i \<in> set (waiters s n) \<Longrightarrow> i \<in> set (waiters s m) \<Longrightarrow> n = m"
    "nw_waiting s i \<longleftrightarrow> (\<exists>n. i \<in> set (waiters s n))" "\<not> pending s n \<Longrightarrow> waiters s n = []"
  using assms unfolding waiters_ok_def by (blast, blast, blast, blast)

section \<open>The tree below a pending note\<close>

lemma rep_closed:
  assumes "rep s t" "m \<in> set (nodes t)"
  shows "set (children s m) \<subseteq> set (nodes t) \<and> pending s m \<and>
    (m \<noteq> root t \<longrightarrow> n_disconnecting (note_of s m) = 0 \<and> (\<exists>q. parent s m = Some q \<and> q \<in> set (nodes t)))"
  using assms
proof (induction t)
  case (Node n ts)
  show ?case
  proof (cases "m = n")
    case True
    then show ?thesis using Node.prems(1) root_in_nodes by fastforce
  next
    case False
    then obtain t where t: "t \<in> set ts" "m \<in> set (nodes t)" using Node.prems(2) by auto
    have r: "rep s t" "n_disconnecting (note_of s (root t)) = 0" "parent s (root t) = Some n"
      using Node.prems(1) t(1) by auto
    note ih = Node.IH [OF t(1) r(1) t(2)]
    show ?thesis
    proof (cases "m = root t")
      case True
      then show ?thesis using ih r t False by auto
    next
      case False
      then obtain q where "parent s m = Some q" "q \<in> set (nodes t)" using ih by auto
      then show ?thesis using ih False t by auto
    qed
  qed
qed

lemma rep_rank:
  assumes "rep s t" "m \<in> set (nodes t)" "\<And>n c. parent s c = Some n \<Longrightarrow> rk c < (rk n :: nat)"
  shows "rk m \<le> rk (root t)"
  using assms(1,2)
proof (induction t)
  case (Node n ts)
  show ?case
  proof (cases "m = n")
    case False
    then obtain t where t: "t \<in> set ts" "m \<in> set (nodes t)" using Node.prems(2) by auto
    then have "rep s t" "rk (root t) < rk n" using Node.prems(1) assms(3) by auto
    then show ?thesis using Node.IH [OF t(1) _ t(2)] by simp
  qed simp
qed

lemma rep_disjoint:
  assumes "rep s t" "rep s u" "root t \<noteq> root u" "parent s (root t) = Some n" "parent s (root u) = Some n"
    and rk: "\<And>n c. parent s c = Some n \<Longrightarrow> rk c < (rk n :: nat)"
  shows "set (nodes t) \<inter> set (nodes u) = {}"
proof (rule ccontr)
  let ?A = "set (nodes t) \<inter> set (nodes u)"
  assume "?A \<noteq> {}"
  then have "Max (rk ` ?A) \<in> rk ` ?A" by (intro Max_in) auto
  then obtain m where m: "m \<in> ?A" "rk m = Max (rk ` ?A)" by auto
  have top: "rk x \<le> rk m" if "x \<in> ?A" for x using that m(2) by (simp add: Max_ge)
  have no: False if "rep s v" "n \<in> set (nodes v)" "parent s (root v) = Some n" for v
    using rep_rank [of s v n rk] that rk by fastforce
  consider "m = root t" | "m = root u" | "m \<noteq> root t" "m \<noteq> root u" by blast
  then show False
  proof cases
    case 1
    then have "n \<in> set (nodes u)" using rep_closed [OF assms(2), of m] m(1) assms(3,4) by auto
    then show False using no assms by blast
  next
    case 2
    then have "n \<in> set (nodes t)" using rep_closed [OF assms(1), of m] m(1) assms(3,5) by auto
    then show False using no assms by blast
  next
    case 3
    then obtain q where "parent s m = Some q" "q \<in> ?A"
      using rep_closed [OF assms(1), of m] rep_closed [OF assms(2), of m] m(1) by auto
    then show False using top [of q] rk by fastforce
  qed
qed

lemma tree_exists:
  assumes inv: "note_inv s" and p: "pending s n"
  obtains t where "root t = n" "rep s t" "distinct (nodes t)"
proof -
  have f: "forest_ok s" and d: "\<And>n. n_disconnecting (note_of s n) = 0" using inv by (auto simp: note_inv_def)
  obtain rk :: "nat \<Rightarrow> nat" where rk: "\<And>n c. parent s c = Some n \<Longrightarrow> rk c < rk n" by (rule forest_rank [OF f]) blast
  have "\<exists>t. root t = n \<and> rep s t \<and> distinct (nodes t)"
    using p
  proof (induction "rk n" arbitrary: n rule: less_induct)
    case less
    have ch: "parent s c = Some n" "pending s c" "rk c < rk n" if "c \<in> set (children s n)" for c
      using that forest_okD [OF f] rk by blast+
    then have "\<forall>c\<in>set (children s n). \<exists>t. root t = c \<and> rep s t \<and> distinct (nodes t)" using less.hyps by blast
    then obtain tr where tr: "\<And>c. c \<in> set (children s n) \<Longrightarrow> root (tr c) = c \<and> rep s (tr c) \<and> distinct (nodes (tr c))" by metis
    let ?t = "Node n (map tr (children s n))"
    have "n \<notin> set (nodes (tr c))" if "c \<in> set (children s n)" for c
      using rep_rank [of s "tr c" n rk] tr [OF that] ch(3) [OF that] rk by fastforce
    moreover have "distinct (concat (map nodes (map tr (children s n))))"
    proof (rule distinct_concat)
      show "distinct (map nodes (map tr (children s n)))"
        using forest_okD(1) [OF f, of n] tr by (auto simp: distinct_map inj_on_def) (metis ntree.exhaust nodes.simps root.simps list.inject)
      show "distinct ys" if "ys \<in> set (map nodes (map tr (children s n)))" for ys using that tr by auto
      show "set ys \<inter> set zs = {}" if yz: "ys \<in> set (map nodes (map tr (children s n)))"
        "zs \<in> set (map nodes (map tr (children s n)))" "ys \<noteq> zs" for ys zs
      proof -
        obtain c e where ce: "c \<in> set (children s n)" "e \<in> set (children s n)" "ys = nodes (tr c)" "zs = nodes (tr e)" "c \<noteq> e"
          using yz by auto
        show ?thesis unfolding ce(3,4)
          by (rule rep_disjoint [of s _ _ n rk]) (use tr ce ch rk in auto)
      qed
    qed
    moreover have "map root (map tr (children s n)) = children s n" using tr by (auto intro: map_idI)
    ultimately show ?case using less.prems tr ch d by (intro exI [of _ ?t]) auto
  qed
  then show thesis using that by blast
qed

section \<open>Notifying keeps the invariant\<close>

lemma notify_result:
  assumes inv: "note_inv s" and t: "root t = n" "rep s t" "distinct (nodes t)" and k: "height t \<le> k"
  shows "notify k n s = Done (unlink_child (parent s n) n (hush (nodes t) s))"
proof -
  obtain ts where t': "t = Node n ts" using t(1) by (cases t) auto
  let ?s = "upd_note n (\<lambda>x. x\<lparr>n_disconnecting := n_disconnecting x + 1\<rparr>) s"
  have f: "forest_ok s" and d: "n_disconnecting (note_of s n) = 0" using inv by (auto simp: note_inv_def)
  obtain rk :: "nat \<Rightarrow> nat" where rk: "\<And>n c. parent s c = Some n \<Longrightarrow> rk c < rk n" by (rule forest_rank [OF f]) blast
  have p: "pending s n" using t' t(2) by simp
  have "rep ?s u = rep s u" if "u \<in> set ts" for u
    by (rule rep_cong) (use that t(3) t' in auto)
  moreover have "root u \<noteq> n" if "u \<in> set ts" for u using that t(3) t' root_in_nodes [of u] by auto
  ultimately have r: "rep ?s t" using t(2) unfolding t' by (auto simp: pending_def NOTIFIED_TIME_def)
  have q: "q \<notin> set (nodes t)" if "parent s n = Some q" for q
    using rep_rank [OF t(2), of q rk] rk that t(1) by fastforce
  have "note_notify_child k (root t) (parent s n) ?s = Done (unlink_child (parent s n) (root t) (hush (nodes t) ?s))"
    by (rule notify_tree [OF r t(3) k]) (use q t(1) in auto)
  moreover have "upd_note n (\<lambda>x. x\<lparr>n_disconnecting := n_disconnecting x - 1\<rparr>) (unlink_child (parent s n) n (hush (nodes t) ?s)) =
    unlink_child (parent s n) n (hush (nodes t) s)"
  proof -
    have w: "(\<lambda>m. waiters ?s m) = (\<lambda>m. waiters s m)" by (simp add: fun_eq_iff)
    have nt: "n \<in> set (nodes t)" using t(1) root_in_nodes by metis
    have "hush (nodes t) ?s = upd_note n (\<lambda>x. x\<lparr>n_disconnecting := n_disconnecting x + 1\<rparr>) (hush (nodes t) s)"
      using nt unfolding hush_def w by (intro note_sys_eqI) auto
    then show ?thesis using d q nt
      by (cases "parent s n") (auto intro!: note_sys_eqI simp: unlink_child_def)
  qed
  ultimately show ?thesis using p t(1) by (simp add: notify_def notify_begin_def notify_finish_def)
qed

text \<open>The state after a tree is notified, note by note.\<close>

lemma notified_fields:
  assumes "root t = n" "\<And>q. parent s n = Some q \<Longrightarrow> q \<notin> set (nodes t)"
  shows "note_of (unlink_child (parent s n) n (hush (nodes t) s)) m =
    (if m \<in> set (nodes t)
     then (note_of s m)\<lparr>n_notified := True, n_waiters := [], n_children := [], n_parent := None\<rparr>
     else (note_of s m)\<lparr>n_children := if parent s n = Some m then remove1 n (children s m) else children s m\<rparr>)"
  using assms root_in_nodes [of t] by (auto simp: hush_def unlink_child_def split: option.split)

lemma pending_notified: "\<not> pending s n" if "n_notified (note_of s n)"
  using that by (simp add: pending_def NOTIFIED_TIME_def nsync_time_cmp_def)

lemma pending_cong:
  "n_notified (note_of s' n) = n_notified (note_of s n) \<Longrightarrow> n_expiry_time_valid (note_of s' n) = n_expiry_time_valid (note_of s n) \<Longrightarrow>
   n_expiry_time (note_of s' n) = n_expiry_time (note_of s n) \<Longrightarrow> pending s' n = pending s n \<and> ntime s' n = ntime s n"
  by (simp add: pending_def NOTIFIED_TIME_def)

lemma notify_inv:
  assumes inv: "note_inv s" and t: "root t = n" "rep s t" "distinct (nodes t)"
  shows "note_inv (unlink_child (parent s n) n (hush (nodes t) s))" (is "note_inv ?s")
proof -
  have f: "forest_ok s" and w: "waiters_ok s" using inv by (auto simp: note_inv_def)
  obtain rk :: "nat \<Rightarrow> nat" where rk: "\<And>n c. parent s c = Some n \<Longrightarrow> rk c < rk n" by (rule forest_rank [OF f]) blast
  have q: "q \<notin> set (nodes t)" if "parent s n = Some q" for q
    using rep_rank [OF t(2), of q rk] rk that t(1) by fastforce
  note fld = notified_fields [OF t(1) q]
  have wt: "nw_waiting ?s i \<longleftrightarrow> nw_waiting s i \<and> (\<forall>m\<in>set (nodes t). i \<notin> set (waiters s m))" for i
    by (simp add: unlink_child_def hush_def split: option.split)
  have al: "allocated ?s = allocated s" by (simp add: unlink_child_def hush_def split: option.split)
  have out: "pending ?s m = pending s m \<and> ntime ?s m = ntime s m" if "m \<notin> set (nodes t)" for m
    by (rule pending_cong) (use that in \<open>simp_all add: fld\<close>)
  have up: "c \<in> set (nodes t)" if "parent s c = Some m" "m \<in> set (nodes t)" for c m
    using rep_closed [OF t(2) that(2)] that(1) forest_okD(2) [OF f] by blast
  have down: "m \<in> set (nodes t)" if "parent s c = Some m" "c \<in> set (nodes t)" "c \<noteq> n" for c m
    using rep_closed [OF t(2) that(2)] that t(1) by auto
  have nt: "n \<in> set (nodes t)" using t(1) root_in_nodes by metis
  have par: "parent ?s c = (if c \<in> set (nodes t) then None else parent s c)" for c by (simp add: fld)
  have "forest_ok ?s"
    unfolding forest_ok_def
  proof (intro conjI allI impI)
    show "distinct (children ?s m)" for m using forest_okD(1) [OF f] by (simp add: fld)
    show "c \<in> set (children ?s m) \<longleftrightarrow> parent ?s c = Some m" for c m
    proof (cases "m \<in> set (nodes t)")
      case True
      then show ?thesis using up by (auto simp: fld)
    next
      case False
      then have "c \<in> set (children ?s m) \<longleftrightarrow> parent s c = Some m \<and> c \<noteq> n"
        using forest_okD(1,2) [OF f] by (auto simp: fld)
      then show ?thesis using down False nt by (auto simp: par)
    qed
    show "\<exists>rk. \<forall>m c. parent ?s c = Some m \<longrightarrow> rk c < (rk m :: nat)" using rk par by (metis option.distinct(1))
    show "pending ?s c" "pending ?s m" "ntime ?s c \<le> ntime ?s m" if "parent ?s c = Some m" for c m
    proof -
      have c: "c \<notin> set (nodes t)" "parent s c = Some m" using that by (auto simp: par split: if_splits)
      then have m: "m \<notin> set (nodes t)" using up by blast
      show "pending ?s c" "pending ?s m" "ntime ?s c \<le> ntime ?s m"
        using forest_okD(3-5) [OF f c(2)] out [OF c(1)] out [OF m] by auto
    qed
  qed
  moreover have "waiters_ok ?s"
    unfolding waiters_ok_def
  proof (intro conjI allI impI)
    show "waiters ?s m = []" if "\<not> pending ?s m" for m
      using that out [of m] waiters_okD(4) [OF w, of m] by (auto simp: fld)
    show "nw_waiting ?s i \<longleftrightarrow> (\<exists>m. i \<in> set (waiters ?s m))" for i
      unfolding wt waiters_okD(3) [OF w] using waiters_okD(2) [OF w] by (auto simp: fld)
  qed (use waiters_okD(1,2) [OF w] in \<open>auto simp: fld\<close>)
  moreover have "n_disconnecting (note_of ?s m) = 0" for m using inv by (simp add: fld note_inv_def)
  moreover have "parent ?s m = None \<and> children ?s m = [] \<and> waiters ?s m = []" if "m \<notin> allocated ?s" for m
    using inv that by (simp add: fld note_inv_def al)
  ultimately show ?thesis unfolding note_inv_def by blast
qed

section \<open>Surplus fuel does not matter\<close>

definition fuel_le :: "'a run \<Rightarrow> 'a run \<Rightarrow> bool" where
  "fuel_le a b \<longleftrightarrow> a = Out_of_fuel \<or> a = b"

lemma fuel_le_refl [simp]: "fuel_le a a" "fuel_le Out_of_fuel a"
  by (simp_all add: fuel_le_def)

lemma fuel_le_Done: "fuel_le (Done x) b \<Longrightarrow> b = Done x"
  by (simp add: fuel_le_def)

lemma fuel_le_bind:
  assumes "fuel_le a b" "\<And>x. fuel_le (f x) (g x)"
  shows "fuel_le (bind_run a f) (bind_run b g)"
  using assms(1) assms(2) [of "case a of Done x \<Rightarrow> x"] by (cases a) (auto simp: fuel_le_def)

lemma fuel_le_children:
  "(\<And>c s. fuel_le (f c s) (g c s)) \<Longrightarrow> fuel_le (notify_children f cs s) (notify_children g cs s)"
  by (induction cs arbitrary: s) (auto intro!: fuel_le_bind)

lemma fuel_le_notify_child:
  "k \<le> k' \<Longrightarrow> fuel_le (note_notify_child k n p s) (note_notify_child k' n p s)"
proof (induction k arbitrary: k' n p s)
  case (Suc k)
  then obtain j where "k' = Suc j" "k \<le> j" by (cases k') auto
  then show ?case using Suc.IH by (auto simp: Let_def intro!: fuel_le_bind fuel_le_children)
qed simp

lemma fuel_le_notify: "k \<le> k' \<Longrightarrow> fuel_le (notify k n s) (notify k' n s)"
  by (auto simp: notify_def notify_finish_def split: prod.split option.split intro!: fuel_le_bind fuel_le_notify_child)

lemma fuel_le_deadline: "k \<le> k' \<Longrightarrow> fuel_le (nsync_note_notified_deadline k now n s) (nsync_note_notified_deadline k' now n s)"
  by (auto simp: nsync_note_notified_deadline_def Let_def intro!: fuel_le_bind fuel_le_notify)

lemma fuel_le_ops:
  assumes "k \<le> k'"
  shows "fuel_le (nsync_note_is_notified k now n s) (nsync_note_is_notified k' now n s)"
    "fuel_le (nsync_note_notify k now n s) (nsync_note_notify k' now n s)"
    "fuel_le (note_dequeue k now n nw s) (note_dequeue k' now n nw s)"
    "fuel_le (nsync_note_new k now mem par d s) (nsync_note_new k' now mem par d s)"
proof -
  note d = fuel_le_deadline [OF assms]
  show i: "fuel_le (nsync_note_is_notified k now n s) (nsync_note_is_notified k' now n s)" for n s
    unfolding nsync_note_is_notified_def by (rule fuel_le_bind [OF d]) simp
  show "fuel_le (nsync_note_notify k now n s) (nsync_note_notify k' now n s)"
    unfolding nsync_note_notify_def by (rule fuel_le_bind [OF d]) (auto split: prod.split intro: fuel_le_notify [OF assms])
  show "fuel_le (note_dequeue k now n nw s) (note_dequeue k' now n nw s)"
    unfolding note_dequeue_def by (rule fuel_le_bind [OF d]) simp
  show "fuel_le (nsync_note_new k now mem par d s) (nsync_note_new k' now mem par d s)"
    unfolding nsync_note_new_def Let_def by (auto split: option.split intro!: fuel_le_bind i)
qed

section \<open>Every operation ends and keeps the invariant\<close>

text \<open>A run ends in a good state, with every large enough fuel.\<close>

definition ends :: "(nat \<Rightarrow> 'a run) \<Rightarrow> ('a \<Rightarrow> bool) \<Rightarrow> bool" where
  "ends r P \<longleftrightarrow> (\<exists>k0 x. (\<forall>k\<ge>k0. r k = Done x) \<and> P x)"

lemma ends_Done [simp]: "ends (\<lambda>k. Done x) P \<longleftrightarrow> P x"
  by (auto simp: ends_def)

lemma ends_bind:
  assumes "ends r P" "\<And>x. P x \<Longrightarrow> ends (\<lambda>k. f k x) Q"
  shows "ends (\<lambda>k. bind_run (r k) (f k)) Q"
proof -
  obtain k0 x where x: "\<forall>k\<ge>k0. r k = Done x" "P x" using assms(1) by (auto simp: ends_def)
  obtain k1 y where y: "\<forall>k\<ge>k1. f k x = Done y" "Q y" using assms(2) [OF x(2)] by (auto simp: ends_def)
  have "\<forall>k\<ge>max k0 k1. bind_run (r k) (f k) = Done y" using x(1) y(1) by simp
  then show ?thesis using y(2) unfolding ends_def by blast
qed

lemma ends_bind_pair:
  assumes "ends r (\<lambda>(x, y). P x y)" "\<And>x y. P x y \<Longrightarrow> ends (\<lambda>k. f k x y) Q"
  shows "ends (\<lambda>k. bind_run (r k) (\<lambda>(x, y). f k x y)) Q"
  by (rule ends_bind [OF assms(1)]) (auto intro: assms(2))

lemma ends_mono: "ends r P \<Longrightarrow> (\<And>x. P x \<Longrightarrow> Q x) \<Longrightarrow> ends r Q"
  unfolding ends_def by blast

lemma pending_less: "pending s n \<longleftrightarrow> nsync_time_zero < ntime s n"
  by (auto simp: pending_def cmp_order_time)

text \<open>What notifying a note does for the notes below it.\<close>

definition below :: "note_sys \<Rightarrow> nat \<Rightarrow> nat \<Rightarrow> bool" where
  "below s = (\<lambda>a b. b \<in> set (children s a))\<^sup>*\<^sup>*"

definition told :: "note_sys \<Rightarrow> nat \<Rightarrow> note_sys \<Rightarrow> bool" where
  "told s n s' \<longleftrightarrow>
     (\<forall>m. pending s' m \<longleftrightarrow> pending s m \<and> \<not> below s n m) \<and>
     (\<forall>m. waiters s' m = (if below s n m then [] else waiters s m)) \<and>
     (\<forall>i. nw_waiting s' i \<longleftrightarrow> nw_waiting s i \<and> \<not> (\<exists>m. below s n m \<and> i \<in> set (waiters s m))) \<and>
     (\<forall>m i. below s n m \<longrightarrow> i \<in> set (waiters s m) \<longrightarrow> sem_count s (nw_sem s i) < sem_count s' (nw_sem s i)) \<and>
     allocated s' = allocated s"

lemma nodes_below:
  assumes "rep s t"
  shows "m \<in> set (nodes t) \<longleftrightarrow> below s (root t) m"
proof
  show "below s (root t) m" if "m \<in> set (nodes t)"
    using assms that
  proof (induction t)
    case (Node n ts)
    show ?case
    proof (cases "m = n")
      case False
      then obtain t where t: "t \<in> set ts" "m \<in> set (nodes t)" using Node.prems(2) by auto
      then have "below s (root t) m" "root t \<in> set (children s n)" using Node.IH Node.prems(1) by auto
      then show ?thesis unfolding below_def root.simps by (auto intro: converse_rtranclp_into_rtranclp)
    qed (simp add: below_def)
  qed
  show "m \<in> set (nodes t)" if "below s (root t) m"
    using that unfolding below_def
    by (induction rule: rtranclp_induct) (use rep_closed [OF assms] in auto)
qed

lemma notify_told:
  assumes inv: "note_inv s" and t: "root t = n" "rep s t" "distinct (nodes t)"
  shows "told s n (unlink_child (parent s n) n (hush (nodes t) s))" (is "told s n ?s")
proof -
  have f: "forest_ok s" and w: "waiters_ok s" using inv by (auto simp: note_inv_def)
  obtain rk :: "nat \<Rightarrow> nat" where rk: "\<And>n c. parent s c = Some n \<Longrightarrow> rk c < rk n" by (rule forest_rank [OF f]) blast
  have q: "q \<notin> set (nodes t)" if "parent s n = Some q" for q
    using rep_rank [OF t(2), of q rk] rk that t(1) by fastforce
  note fld = notified_fields [OF t(1) q] and b = nodes_below [OF t(2), unfolded t(1), symmetric]
  have pe: "pending ?s m \<longleftrightarrow> pending s m \<and> \<not> below s n m" for m
  proof (cases "m \<in> set (nodes t)")
    case True
    then show ?thesis using pending_notified [of ?s m] by (simp add: fld b)
  next
    case False
    then show ?thesis using pending_cong [of ?s m s] by (simp add: fld b)
  qed
  have se: "sem_count s (nw_sem s i) < sem_count ?s (nw_sem s i)" if "below s n m" "i \<in> set (waiters s m)" for m i
  proof -
    have "filter (\<lambda>j. nw_sem s j = nw_sem s i) (concat (map (\<lambda>m. waiters s m) (nodes t))) \<noteq> []"
      using that by (auto simp: filter_empty_conv b)
    then show ?thesis by (auto simp: unlink_child_def hush_def split: option.split)
  qed
  have wt: "nw_waiting ?s i \<longleftrightarrow> nw_waiting s i \<and> \<not> (\<exists>m. below s n m \<and> i \<in> set (waiters s m))" for i
    by (auto simp: unlink_child_def hush_def b split: option.split)
  have al: "allocated ?s = allocated s" by (simp add: unlink_child_def hush_def split: option.split)
  show ?thesis unfolding told_def using pe se wt al by (auto simp: fld b)
qed

lemma notify_ends:
  assumes inv: "note_inv s"
  shows "ends (\<lambda>k. notify k n s) (\<lambda>s'. note_inv s' \<and> (if pending s n then told s n s' else s' = s))"
proof (cases "pending s n")
  case True
  obtain t where t: "root t = n" "rep s t" "distinct (nodes t)" by (rule tree_exists [OF inv True])
  have "\<forall>k\<ge>height t. notify k n s = Done (unlink_child (parent s n) n (hush (nodes t) s))"
    using notify_result [OF inv t] by blast
  then show ?thesis using notify_inv [OF inv t] notify_told [OF inv t] True unfolding ends_def by auto
qed (simp add: notify_def notify_begin_def inv)

end
