(* ===== verification/Note_Props.thy ===== *)
theory Note_Props
  imports Note_Inv
begin

text \<open>
  Every operation on notes ends and keeps the invariant, and what this means for the clients; and
  the race between freeing a note and notifying its parent.
\<close>

section \<open>Reading and notifying\<close>

lemma below_self [simp]: "below s n n"
  by (simp add: below_def)

lemma deadline_ends:
  assumes inv: "note_inv s"
  shows "ends (\<lambda>k. nsync_note_notified_deadline k now n s)
    (\<lambda>(s', t). note_inv s' \<and> (pending s' n \<longleftrightarrow> nsync_time_zero < t) \<and>
       (if pending s' n then s' = s \<and> t = ntime s n else s' = s \<and> \<not> pending s n \<or> pending s n \<and> told s n s'))"
proof -
  consider "n_notified (note_of s n)" | "\<not> n_notified (note_of s n)" "pending s n" "nsync_time_cmp (ntime s n) now \<le> 0"
    | "\<not> n_notified (note_of s n)" "\<not> (pending s n \<and> nsync_time_cmp (ntime s n) now \<le> 0)" by blast
  then show ?thesis
  proof cases
    case 1
    then show ?thesis using inv pending_notified [OF 1] by (simp add: nsync_note_notified_deadline_def)
  next
    case 2
    then have "ends (\<lambda>k. bind_run (notify k n s) (\<lambda>s. Done (s, nsync_time_zero)))
      (\<lambda>(s', t). note_inv s' \<and> \<not> nsync_time_zero < t \<and> pending s n \<and> told s n s')"
      by (intro ends_bind [OF notify_ends [OF inv]]) auto
    then show ?thesis using 2 by (auto simp: nsync_note_notified_deadline_def Let_def pending_def told_def elim!: ends_mono)
  next
    case 3
    then show ?thesis using inv by (auto simp: nsync_note_notified_deadline_def Let_def pending_def [symmetric] pending_less [symmetric])
  qed
qed

lemma is_notified_ends:
  assumes inv: "note_inv s"
  shows "ends (\<lambda>k. nsync_note_is_notified k now n s)
    (\<lambda>(s', b). note_inv s' \<and> (b \<longleftrightarrow> \<not> pending s' n) \<and> (b \<or> s' = s) \<and> allocated s' = allocated s)"
  unfolding nsync_note_is_notified_def
  by (rule ends_bind [OF deadline_ends [OF inv]]) (auto simp: told_def cmp_order_time split: prod.splits if_splits)

lemma note_notify_ends:
  assumes inv: "note_inv s"
  shows "ends (\<lambda>k. nsync_note_notify k now n s) (\<lambda>s'. note_inv s' \<and> (if pending s n then told s n s' else s' = s))"
  unfolding nsync_note_notify_def
proof (rule ends_bind [OF deadline_ends [OF inv]], clarify)
  fix s' t
  assume i: "note_inv s'" and p: "pending s' n \<longleftrightarrow> nsync_time_zero < t"
    and c: "if pending s' n then s' = s \<and> t = ntime s n else s' = s \<and> \<not> pending s n \<or> pending s n \<and> told s n s'"
  show "ends (\<lambda>k. if 0 < nsync_time_cmp t nsync_time_zero then notify k n s' else Done s')
    (\<lambda>s'. note_inv s' \<and> (if pending s n then told s n s' else s' = s))"
    using notify_ends [OF inv, of n] i p c by (auto simp: cmp_order_time split: if_splits)
qed

section \<open>Creating\<close>

lemma note_invD:
  assumes "note_inv s"
  shows "forest_ok s" "waiters_ok s" "n_disconnecting (note_of s n) = 0"
    "n \<notin> allocated s \<Longrightarrow> parent s n = None \<and> children s n = [] \<and> waiters s n = []"
  using assms by (auto simp: note_inv_def)

lemma waiters_ok_cong:
  assumes "waiters_ok s" "\<And>m. waiters s' m = waiters s m" "nw_waiting s' = nw_waiting s"
    "\<And>m. \<not> pending s' m \<Longrightarrow> waiters s m = []"
  shows "waiters_ok s'"
  using assms(1,4) unfolding waiters_ok_def assms(2,3) by blast

text \<open>The fields of a note that is linked to nothing may be replaced.\<close>

definition lone :: "nsync_note_s \<Rightarrow> bool" where
  "lone x \<longleftrightarrow> n_parent x = None \<and> n_children x = [] \<and> n_waiters x = [] \<and> n_disconnecting x = 0"

lemma replace_inv:
  assumes inv: "note_inv s" and n: "lone (note_of s n)" "lone x"
  shows "note_inv ((upd_note n (\<lambda>_. x) s)\<lparr>allocated := insert n (allocated s)\<rparr>)" (is "note_inv ?s")
proof -
  note I = note_invD [OF inv] and F = forest_okD [OF note_invD(1) [OF inv]]
  have fld: "parent ?s m = parent s m" "children ?s m = children s m" "waiters ?s m = waiters s m"
    "n_disconnecting (note_of ?s m) = 0" for m
    using I(3) [of m] n by (auto simp: lone_def)
  have pe: "pending ?s m = pending s m \<and> ntime ?s m = ntime s m" if "m \<noteq> n" for m
    by (rule pending_cong) (use that in simp_all)
  have no: "parent s n = None" "\<And>c. parent s c \<noteq> Some n" "waiters s n = []" using n(1) F(2) [of _ n] by (auto simp: lone_def)
  have "forest_ok ?s"
    unfolding forest_ok_def fld
  proof (intro conjI allI impI)
    show "\<exists>rk. \<forall>m c. parent s c = Some m \<longrightarrow> rk c < (rk m :: nat)" using forest_rank [OF I(1)] by metis
    show "pending ?s c" "pending ?s m" "ntime ?s c \<le> ntime ?s m" if "parent s c = Some m" for c m
      using that no F(3-5) [OF that] pe [of c] pe [of m] by (cases "c = n"; cases "m = n"; simp)+
  qed (use F(1,2) in auto)
  moreover have "waiters s m = []" if "\<not> pending ?s m" for m
    using that no(3) pe [of m] waiters_okD(4) [OF I(2), of m] by (cases "m = n") auto
  then have "waiters_ok ?s"
    using I(2) fld(3) by (intro waiters_ok_cong [of s ?s]) simp_all
  moreover have "parent ?s m = None \<and> children ?s m = [] \<and> waiters ?s m = []" if "m \<notin> allocated ?s" for m
    using that I(4) [of m] unfolding fld by simp
  ultimately show ?thesis using fld(4) unfolding note_inv_def by blast
qed

text \<open>Linking a note to a pending parent.\<close>

lemma link_inv:
  assumes inv: "note_inv s" and n: "n \<in> allocated s" "lone (note_of s n)" "pending s n"
    and p: "p \<in> allocated s" "p \<noteq> n" "pending s p" "ntime s n \<le> ntime s p"
  shows "note_inv (upd_note p (\<lambda>x. x\<lparr>n_children := n_children x @ [n]\<rparr>) (upd_note n (\<lambda>x. x\<lparr>n_parent := Some p\<rparr>) s))"
    (is "note_inv ?s")
proof -
  note I = note_invD [OF inv] and F = forest_okD [OF note_invD(1) [OF inv]]
  have fld: "parent ?s m = (if m = n then Some p else parent s m)" "waiters ?s m = waiters s m"
    "children ?s m = (if m = p then children s p @ [n] else children s m)"
    "n_disconnecting (note_of ?s m) = 0" for m
    using I(3) [of m] p(2) n by auto
  have pe: "pending ?s m = pending s m \<and> ntime ?s m = ntime s m" for m
    by (rule pending_cong) simp_all
  have no: "parent s n = None" "\<And>c. parent s c \<noteq> Some n" using n(2) F(2) [of _ n] by (auto simp: lone_def)
  obtain rk :: "nat \<Rightarrow> nat" where rk: "\<And>n c. parent s c = Some n \<Longrightarrow> rk c < rk n" by (rule forest_rank [OF I(1)]) blast
  have "forest_ok ?s"
    unfolding forest_ok_def
  proof (intro conjI allI impI)
    have "n \<notin> set (children s m)" for m using F(2) [of n m] no(1) by simp
    then show "distinct (children ?s m)" "c \<in> set (children ?s m) \<longleftrightarrow> parent ?s c = Some m" for m c
      unfolding fld using F(1,2) no(1) by auto
    show "\<exists>rk. \<forall>m c. parent ?s c = Some m \<longrightarrow> rk c < (rk m :: nat)"
      unfolding fld by (rule exI [of _ "\<lambda>x. if x = n then 0 else Suc (rk x)"]) (use rk no p(2) in auto)
    show "pending ?s c" "pending ?s m" "ntime ?s c \<le> ntime ?s m" if c: "parent ?s c = Some m" for c m
    proof -
      have "c = n \<and> m = p \<or> parent s c = Some m" using c unfolding fld by (auto split: if_splits)
      then show "pending ?s c" "pending ?s m" "ntime ?s c \<le> ntime ?s m"
        using pe n(3) p(3,4) F(3-5) [of c m] by auto
    qed
  qed
  moreover have "waiters_ok ?s"
    using I(2) fld(2) pe waiters_okD(4) [OF I(2)] by (intro waiters_ok_cong [of s ?s]) auto
  ultimately show ?thesis using I(3,4) fld n(1) p(1) unfolding note_inv_def by auto
qed

lemma new_link:
  assumes inv: "note_inv s" and n: "n \<in> allocated s" "lone (note_of s n)" "pending s n" "ntime s n = d"
    and p: "p \<in> allocated s" "p \<noteq> n"
  shows "note_inv (note_new_link n (Some p) d s False) \<and> n \<in> allocated (note_new_link n (Some p) d s False) \<and>
    (pending (note_new_link n (Some p) d s False) n \<longrightarrow>
       pending s p \<and> parent (note_new_link n (Some p) d s False) n = Some p \<and>
       ntime (note_new_link n (Some p) d s False) n = min d (ntime s p))"
proof -
  define s1 where "s1 = (if nsync_time_cmp (ntime s p) d < 0 then set_expiry_time n (ntime s p) s else s)"
  have nn: "\<not> n_notified (note_of s n)" using n(3) pending_notified by blast
  have "note_inv (set_expiry_time n t s)" for t
    using replace_inv [OF inv n(2), of "(note_of s n)\<lparr>n_expiry_time := t, n_expiry_time_valid := True\<rparr>"] n(1,2)
    by (simp add: set_expiry_time_def upd_note_def lone_def insert_absorb)
  then have i: "note_inv s1" using inv by (simp add: s1_def)
  have t: "ntime s1 n = min d (ntime s p)"
  proof (cases "ntime s p < d")
    case True
    then have "s1 = set_expiry_time n (ntime s p) s" by (simp add: s1_def cmp_order_time)
    then have "ntime s1 n = ntime s p" using nn by (simp add: set_expiry_time_def NOTIFIED_TIME_def)
    then show ?thesis using True by simp
  next
    case False
    then have "s1 = s" by (simp add: s1_def cmp_order_time)
    then show ?thesis using False n(4) by simp
  qed
  have f: "note_of s1 p = note_of s p" "allocated s1 = allocated s" "lone (note_of s1 n)"
    using p(2) n(2) by (auto simp: s1_def set_expiry_time_def lone_def)
  show ?thesis
  proof (cases "pending s p")
    case True
    then have "pending s1 n" "pending s1 p" "ntime s1 n \<le> ntime s1 p"
      using t f n(3,4) by (auto simp: pending_less)
    then have "note_inv (upd_note p (\<lambda>x. x\<lparr>n_children := n_children x @ [n]\<rparr>) (upd_note n (\<lambda>x. x\<lparr>n_parent := Some p\<rparr>) s1))"
      (is "note_inv ?r") using link_inv [OF i, of n p] f n(1) p by simp
    moreover have "note_new_link n (Some p) d s False = ?r"
      using True by (simp add: note_new_link_def s1_def [symmetric] Let_def pending_def)
    moreover have "parent ?r n = Some p" "ntime ?r n = ntime s1 n" "allocated ?r = allocated s1"
      using p(2) by (simp_all add: NOTIFIED_TIME_def)
    ultimately show ?thesis using True t f(2) n(1) by simp
  next
    case False
    then have "note_new_link n (Some p) d s False = s1" by (simp add: note_new_link_def s1_def [symmetric] Let_def pending_def)
    moreover have "\<not> pending s1 n" using False t by (simp add: pending_less)
    ultimately show ?thesis using i f n(1) by simp
  qed
qed

lemma new_ends:
  assumes inv: "note_inv s" and n: "n \<notin> allocated s" and par: "\<And>p. par = Some p \<Longrightarrow> p \<in> allocated s"
  shows "ends (\<lambda>k. nsync_note_new k now (Some n) par d s)
    (\<lambda>(s', r). note_inv s' \<and> r = Some n \<and> n \<in> allocated s' \<and>
       (\<forall>p. par = Some p \<longrightarrow> pending s' n \<longrightarrow> pending s p \<and> parent s' n = Some p \<and> ntime s' n = min d (ntime s p)))"
proof -
  define s0 where "s0 = set_expiry_time n d (upd_note n (\<lambda>_. empty_note) (s\<lparr>allocated := insert n (allocated s)\<rparr>))"
  have "s0 = (upd_note n (\<lambda>_. empty_note\<lparr>n_expiry_time := d, n_expiry_time_valid := True\<rparr>) s)\<lparr>allocated := insert n (allocated s)\<rparr>"
    by (rule note_sys_eqI) (simp_all add: s0_def set_expiry_time_def)
  then have i0: "note_inv s0"
    using replace_inv [OF inv, of n] note_invD(3,4) [OF inv, of n] n by (simp add: lone_def empty_note_def)
  have n0: "note_of s0 n = empty_note\<lparr>n_expiry_time := d, n_expiry_time_valid := True\<rparr>" "allocated s0 = insert n (allocated s)"
    by (simp_all add: s0_def set_expiry_time_def)
  have o0: "note_of s0 m = note_of s m" if "m \<noteq> n" for m using that by (simp add: s0_def set_expiry_time_def)
  have good: "note_inv (note_new_link n par d s1 b) \<and> n \<in> allocated (note_new_link n par d s1 b) \<and>
      (\<forall>p. par = Some p \<longrightarrow> pending (note_new_link n par d s1 b) n \<longrightarrow> pending s p \<and>
         parent (note_new_link n par d s1 b) n = Some p \<and> ntime (note_new_link n par d s1 b) n = min d (ntime s p))"
    if s1: "note_inv s1" "b \<longleftrightarrow> \<not> pending s1 n" "b \<or> s1 = s0" "allocated s1 = allocated s0" for s1 b
  proof (cases "par = None \<or> b")
    case True
    then have e: "note_new_link n par d s1 b = s1" by (auto simp: note_new_link_def split: option.split)
    have "\<not> pending s1 n" if "par = Some p" for p using True s1(2) that by simp
    moreover have "n \<in> allocated s1" using s1(4) n0(2) by simp
    ultimately show ?thesis unfolding e using s1(1) by simp
  next
    case False
    then obtain p where p: "par = Some p" "s1 = s0" "pending s0 n" using s1 by auto
    have "p \<noteq> n" "p \<in> allocated s0" using par [OF p(1)] n n0(2) by auto
    moreover have "lone (note_of s0 n)" "ntime s0 n = d" by (simp_all add: n0(1) lone_def empty_note_def NOTIFIED_TIME_def)
    moreover have "pending s0 p = pending s p" "ntime s0 p = ntime s p" using o0 \<open>p \<noteq> n\<close> by (simp_all add: pending_def)
    ultimately show ?thesis using new_link [OF i0, of n d p] p n0(2) False by simp
  qed
  have "ends (\<lambda>k. bind_run (nsync_note_is_notified k now n s0) (\<lambda>(s, b). Done (note_new_link n par d s b, Some n)))
    (\<lambda>(s', r). note_inv s' \<and> r = Some n \<and> n \<in> allocated s' \<and>
       (\<forall>p. par = Some p \<longrightarrow> pending s' n \<longrightarrow> pending s p \<and> parent s' n = Some p \<and> ntime s' n = min d (ntime s p)))"
  proof (rule ends_bind_pair [OF is_notified_ends [OF i0]], elim conjE)
    fix s1 b
    assume "note_inv s1" "b \<longleftrightarrow> \<not> pending s1 n" "b \<or> s1 = s0" "allocated s1 = allocated s0"
    note g = good [OF this]
    show "ends (\<lambda>k. Done (note_new_link n par d s1 b, Some n))
      (\<lambda>(s', r). note_inv s' \<and> r = Some n \<and> n \<in> allocated s' \<and>
         (\<forall>p. par = Some p \<longrightarrow> pending s' n \<longrightarrow> pending s p \<and> parent s' n = Some p \<and> ntime s' n = min d (ntime s p)))"
      using g by simp
  qed
  then show ?thesis by (simp add: nsync_note_new_def s0_def [symmetric])
qed

section \<open>Freeing\<close>

lemma free_children_eq:
  assumes "\<forall>c\<in>set cs. n_disconnecting (note_of s c) = 0" "distinct cs" "n \<notin> set cs" "par \<noteq> Some n"
    "\<forall>c\<in>set cs. par \<noteq> Some c" "children s n = cs"
  shows "free_children n par cs s = s\<lparr>note_of := (\<lambda>m.
     if m = n then (note_of s n)\<lparr>n_children := []\<rparr>
     else if m \<in> set cs then (note_of s m)\<lparr>n_parent := par\<rparr>
     else if par = Some m then (note_of s m)\<lparr>n_children := children s m @ cs\<rparr> else note_of s m)\<rparr>"
  using assms
proof (induction cs arbitrary: s)
  case Nil
  then have "(note_of s n)\<lparr>n_children := []\<rparr> = note_of s n" by simp
  then show ?case by (intro note_sys_eqI) auto
next
  case (Cons c cs)
  define s1 where "s1 = s\<lparr>note_of := (\<lambda>m. if m = n then (note_of s n)\<lparr>n_children := cs\<rparr>
     else if m = c then (note_of s m)\<lparr>n_parent := par\<rparr>
     else if par = Some m then (note_of s m)\<lparr>n_children := children s m @ [c]\<rparr> else note_of s m)\<rparr>"
  define a where "a = upd_note c (\<lambda>x. x\<lparr>n_parent := par\<rparr>) (upd_note n (\<lambda>x. x\<lparr>n_children := remove1 c (n_children x)\<rparr>) s)"
  have "(case par of None \<Rightarrow> a | Some p \<Rightarrow> upd_note p (\<lambda>x. x\<lparr>n_children := n_children x @ [c]\<rparr>) a) = s1"
    using Cons.prems(3-6) by (intro note_sys_eqI) (auto simp: a_def s1_def split: option.split)
  moreover have "free_children n par (c # cs) s =
    free_children n par cs (case par of None \<Rightarrow> a | Some p \<Rightarrow> upd_note p (\<lambda>x. x\<lparr>n_children := n_children x @ [c]\<rparr>) a)"
    using Cons.prems(1) by (cases par) (simp_all add: Let_def a_def)
  ultimately have "free_children n par (c # cs) s = free_children n par cs s1" by simp
  also have "\<dots> = s1\<lparr>note_of := (\<lambda>m.
     if m = n then (note_of s1 n)\<lparr>n_children := []\<rparr>
     else if m \<in> set cs then (note_of s1 m)\<lparr>n_parent := par\<rparr>
     else if par = Some m then (note_of s1 m)\<lparr>n_children := children s1 m @ cs\<rparr> else note_of s1 m)\<rparr>"
    by (rule Cons.IH) (use Cons.prems in \<open>auto simp: s1_def\<close>)
  also have "\<dots> = s\<lparr>note_of := (\<lambda>m.
     if m = n then (note_of s n)\<lparr>n_children := []\<rparr>
     else if m \<in> set (c # cs) then (note_of s m)\<lparr>n_parent := par\<rparr>
     else if par = Some m then (note_of s m)\<lparr>n_children := children s m @ c # cs\<rparr> else note_of s m)\<rparr>"
    using Cons.prems by (intro note_sys_eqI) (auto simp: s1_def)
  finally show ?case .
qed

text \<open>The state after a note is freed, field by field.\<close>

lemma free_result:
  assumes inv: "note_inv s" and w: "waiters s n = []"
  shows "\<exists>s'. nsync_note_free n s = Done s' \<and> allocated s' = allocated s - {n} \<and> nw_waiting s' = nw_waiting s \<and>
    (\<forall>m. parent s' m = (if m = n then None else if parent s m = Some n then parent s n else parent s m)) \<and>
    (\<forall>m. children s' m =
       (if m = n then [] else if parent s n = Some m then remove1 n (children s m @ children s n) else children s m)) \<and>
    (\<forall>m. waiters s' m = waiters s m) \<and> (\<forall>m. n_disconnecting (note_of s' m) = 0) \<and>
    (\<forall>m. pending s' m = pending s m \<and> ntime s' m = ntime s m)"
proof -
  note I = note_invD [OF inv] and F = forest_okD [OF note_invD(1) [OF inv]]
  obtain rk :: "nat \<Rightarrow> nat" where rk: "\<And>n c. parent s c = Some n \<Longrightarrow> rk c < rk n" by (rule forest_rank [OF I(1)]) blast
  let ?s = "upd_note n (\<lambda>x. x\<lparr>n_disconnecting := n_disconnecting x + 1\<rparr>) s"
  have p: "n \<notin> set (children s n)" "parent s n \<noteq> Some n" "\<And>c. c \<in> set (children s n) \<Longrightarrow> parent s n \<noteq> Some c"
    using F(2) rk by (metis less_irrefl less_trans)+
  have e: "free_children n (parent s n) (children s n) ?s = ?s\<lparr>note_of := (\<lambda>m.
     if m = n then (note_of ?s n)\<lparr>n_children := []\<rparr>
     else if m \<in> set (children s n) then (note_of ?s m)\<lparr>n_parent := parent s n\<rparr>
     else if parent s n = Some m then (note_of ?s m)\<lparr>n_children := children ?s m @ children s n\<rparr> else note_of ?s m)\<rparr>" (is "_ = ?f")
    by (rule free_children_eq) (use p F(1) I(3) in auto)
  define s' where "s' = (upd_note n (\<lambda>x. x\<lparr>n_disconnecting := n_disconnecting x - 1\<rparr>) (unlink_child (parent s n) n ?f))
    \<lparr>allocated := allocated s - {n}\<rparr>"
  have r: "nsync_note_free n s = Done s'"
    using w e by (simp add: nsync_note_free_def note_free_begin_def note_free_finish_def Let_def no_children_def s'_def unlink_child_def
        split: option.split)
  have c: "m \<in> set (children s n) \<longleftrightarrow> parent s m = Some n" for m using F(2) by blast
  have o: "note_of s' m =
    (if m = n then (note_of s n)\<lparr>n_children := [], n_parent := None\<rparr>
     else if parent s m = Some n then (note_of s m)\<lparr>n_parent := parent s n\<rparr>
     else if parent s n = Some m then (note_of s m)\<lparr>n_children := remove1 n (children s m @ children s n)\<rparr> else note_of s m)" for m
    using p I(3) [of n] by (cases "parent s n") (auto simp: s'_def unlink_child_def c)
  have "children s' m = (if m = n then [] else if parent s n = Some m then remove1 n (children s m @ children s n) else children s m)" for m
    using p(3) [of m] c [of m] by (auto simp: o)
  moreover have "pending s' m = pending s m \<and> ntime s' m = ntime s m" for m by (rule pending_cong) (simp_all add: o)
  moreover have "allocated s' = allocated s - {n}" "nw_waiting s' = nw_waiting s"
    by (simp_all add: s'_def unlink_child_def split: option.split)
  moreover have "waiters s' m = waiters s m" "n_disconnecting (note_of s' m) = 0"
    "parent s' m = (if m = n then None else if parent s m = Some n then parent s n else parent s m)" for m
    by (simp_all add: o I(3))
  ultimately show ?thesis using r by blast
qed

lemma free_inv:
  assumes inv: "note_inv s" and w: "waiters s n = []"
  obtains s' where "nsync_note_free n s = Done s'" "note_inv s'" "allocated s' = allocated s - {n}"
    "\<And>m. pending s' m = pending s m \<and> ntime s' m = ntime s m"
proof -
  note I = note_invD [OF inv] and F = forest_okD [OF note_invD(1) [OF inv]]
  obtain rk :: "nat \<Rightarrow> nat" where rk: "\<And>n c. parent s c = Some n \<Longrightarrow> rk c < rk n" by (rule forest_rank [OF I(1)]) blast
  obtain s' where r: "nsync_note_free n s = Done s'" "allocated s' = allocated s - {n}" "nw_waiting s' = nw_waiting s"
    and pa: "\<And>m. parent s' m = (if m = n then None else if parent s m = Some n then parent s n else parent s m)"
    and ch: "\<And>m. children s' m = (if m = n then [] else if parent s n = Some m then remove1 n (children s m @ children s n) else children s m)"
    and ws: "\<And>m. waiters s' m = waiters s m" and di: "\<And>m. n_disconnecting (note_of s' m) = 0"
    and pe: "\<And>m. pending s' m = pending s m \<and> ntime s' m = ntime s m"
    using free_result [OF inv w] by blast
  have up: "parent s c = Some m \<or> parent s c = Some n \<and> parent s n = Some m" if "parent s' c = Some m" for c m
    using that by (auto simp: pa split: if_splits)
  have ne: "parent s n \<noteq> Some n" "\<And>c. parent s c = Some n \<Longrightarrow> c \<noteq> n" using rk by blast+
  have "forest_ok s'"
    unfolding forest_ok_def
  proof (intro conjI allI impI)
    have dj: "set (children s m) \<inter> set (children s n) = {}" if "m \<noteq> n" for m using that F(2) by force
    show "distinct (children s' m)" for m using F(1) [of m] F(1) [of n] dj [of m] by (auto simp: ch distinct_remove1)
    show "c \<in> set (children s' m) \<longleftrightarrow> parent s' c = Some m" for c m
    proof (cases "parent s n = Some m \<and> m \<noteq> n")
      case True
      then have "c \<in> set (children s' m) \<longleftrightarrow> c \<noteq> n \<and> (parent s c = Some m \<or> parent s c = Some n)"
        using F(1) [of m] F(1) [of n] dj [of m] F(2) by (auto simp: ch distinct_remove1)
      then show ?thesis using True by (auto simp: pa)
    next
      case False
      then show ?thesis using F(2) ne by (auto simp: ch pa)
    qed
    have "rk c < rk m" if "parent s' c = Some m" for c m using up [OF that] rk by (metis less_trans)
    then show "\<exists>rk. \<forall>m c. parent s' c = Some m \<longrightarrow> rk c < (rk m :: nat)" by blast
    show "pending s' c" "pending s' m" "ntime s' c \<le> ntime s' m" if "parent s' c = Some m" for c m
      using up [OF that] F(3-5) pe by (metis order_trans)+
  qed
  moreover have "waiters_ok s'"
    using I(2) ws r(3) pe waiters_okD(4) [OF I(2)] by (intro waiters_ok_cong [of s s']) auto
  moreover have "parent s' m = None \<and> children s' m = [] \<and> waiters s' m = []" if "m \<notin> allocated s'" for m
  proof (cases "m = n")
    case True
    then show ?thesis using w by (simp add: pa ch ws)
  next
    case False
    then have "parent s m = None \<and> children s m = [] \<and> waiters s m = []" using that I(4) r(2) by simp
    moreover from this have "parent s n \<noteq> Some m" using F(2) [of n m] by simp
    ultimately show ?thesis using False by (simp add: pa ch ws)
  qed
  ultimately have "note_inv s'" using di unfolding note_inv_def by blast
  then show thesis using that r pe by blast
qed

section \<open>Waiting\<close>

lemma enqueue_waiters_ok:
  assumes ok: "waiters_ok s" and w: "\<not> nw_waiting s i"
  shows "waiters_ok (fst (note_enqueue n i s))" (is "waiters_ok ?s")
proof (cases "pending s n")
  case False
  then have "?s = s" using w by (intro note_sys_eqI) (auto simp: note_enqueue_def)
  then show ?thesis using ok by simp
next
  case True
  note W = waiters_okD [OF ok]
  have fld: "waiters ?s m = (if m = n then waiters s n @ [i] else waiters s m)" "pending ?s m = pending s m" for m
    using True by (auto simp: note_enqueue_def pending_def NOTIFIED_TIME_def)
  have ni: "i \<notin> set (waiters s m)" for m using w W(3) by blast
  have nw: "nw_waiting ?s = (nw_waiting s)(i := True)" using True by (simp add: note_enqueue_def)
  have mem: "j \<in> set (waiters ?s m) \<longleftrightarrow> j \<in> set (waiters s m) \<or> j = i \<and> m = n" for j m unfolding fld by auto
  show ?thesis
    unfolding waiters_ok_def
  proof (intro conjI allI impI)
    show "distinct (waiters ?s m)" for m unfolding fld using W(1) ni by simp
    show "set (waiters ?s m) \<inter> set (waiters ?s k) = {}" if "m \<noteq> k" for m k
    proof (rule equals0I, elim IntE)
      fix j assume "j \<in> set (waiters ?s m)" "j \<in> set (waiters ?s k)"
      then show False using W(2) [of j m k] ni that unfolding mem by auto
    qed
    show "nw_waiting ?s j \<longleftrightarrow> (\<exists>m. j \<in> set (waiters ?s m))" for j unfolding mem nw using W(3) by auto
    show "waiters ?s m = []" if "\<not> pending ?s m" for m using that W(4) [of m] True unfolding fld by auto
  qed
qed

lemma note_enqueue_inv:
  assumes inv: "note_inv s" and w: "\<not> nw_waiting s i" and n: "n \<in> allocated s"
  shows "note_inv (fst (note_enqueue n i s)) \<and> snd (note_enqueue n i s) = pending s n"
proof (cases "pending s n")
  case False
  then have "fst (note_enqueue n i s) = s" using w by (intro note_sys_eqI) (auto simp: note_enqueue_def)
  then show ?thesis using inv False by (simp add: note_enqueue_def)
next
  case True
  note I = note_invD [OF inv]
  let ?s = "fst (note_enqueue n i s)"
  have fld: "waiters ?s m = (if m = n then waiters s n @ [i] else waiters s m)" "parent ?s m = parent s m"
    "children ?s m = children s m" "n_disconnecting (note_of ?s m) = 0" "pending ?s m = pending s m" "ntime ?s m = ntime s m" for m
    using True I(3) by (auto simp: note_enqueue_def pending_def NOTIFIED_TIME_def)
  have "forest_ok ?s" using I(1) unfolding forest_ok_def fld .
  then show ?thesis using I(4) n True fld enqueue_waiters_ok [OF I(2) w, of n] unfolding note_inv_def by (auto simp: note_enqueue_def)
qed

lemma remove_waiters_ok:
  assumes ok: "waiters_ok s" and w: "i \<in> set (waiters s n) \<or> \<not> nw_waiting s i"
  shows "waiters_ok ((upd_note n (\<lambda>x. x\<lparr>n_waiters := remove1 i (n_waiters x)\<rparr>) s)\<lparr>nw_waiting := (nw_waiting s)(i := False)\<rparr>)"
    (is "waiters_ok ?s")
proof -
  note W = waiters_okD [OF ok]
  have fld: "waiters ?s m = (if m = n then remove1 i (waiters s n) else waiters s m)" "pending ?s m = pending s m" for m
    by (auto simp: pending_def NOTIFIED_TIME_def)
  have i: "i \<notin> set (waiters s m)" if "m \<noteq> n" for m using w W(2,3) that by blast
  have mem: "j \<in> set (waiters ?s m) \<longleftrightarrow> j \<noteq> i \<and> j \<in> set (waiters s m)" for j m
    unfolding fld using i W(1) [of n] by (cases "m = n") auto
  show ?thesis
    unfolding waiters_ok_def
  proof (intro conjI allI impI)
    show "distinct (waiters ?s m)" for m unfolding fld using W(1) by (simp add: distinct_remove1)
    show "set (waiters ?s m) \<inter> set (waiters ?s k) = {}" if "m \<noteq> k" for m k
      using mem W(2) that by blast
    show "nw_waiting ?s j \<longleftrightarrow> (\<exists>m. j \<in> set (waiters ?s m))" for j unfolding mem using W(3) by auto
    show "waiters ?s m = []" if "\<not> pending ?s m" for m using that W(4) [of m] W(4) [of n] unfolding fld by auto
  qed
qed

lemma remove_waiter_inv:
  assumes inv: "note_inv s" and w: "i \<in> set (waiters s n) \<or> \<not> nw_waiting s i"
  shows "note_inv ((upd_note n (\<lambda>x. x\<lparr>n_waiters := remove1 i (n_waiters x)\<rparr>) s)\<lparr>nw_waiting := (nw_waiting s)(i := False)\<rparr>)"
    (is "note_inv ?s")
proof -
  note I = note_invD [OF inv]
  have fld: "waiters ?s m = (if m = n then remove1 i (waiters s n) else waiters s m)" "parent ?s m = parent s m"
    "children ?s m = children s m" "n_disconnecting (note_of ?s m) = 0" "pending ?s m = pending s m" "ntime ?s m = ntime s m" for m
    using I(3) by (auto simp: pending_def NOTIFIED_TIME_def)
  have "forest_ok ?s" using I(1) unfolding forest_ok_def fld .
  then show ?thesis using I(4) fld remove_waiters_ok [OF I(2) w] unfolding note_inv_def by auto
qed

lemma dequeue_ends:
  assumes inv: "note_inv s" and w: "i \<in> set (waiters s n) \<or> \<not> nw_waiting s i"
  shows "ends (\<lambda>k. note_dequeue k now n i s)
    (\<lambda>(s', b). note_inv s' \<and> \<not> nw_waiting s' i \<and> (b \<longleftrightarrow> pending s' n) \<and> (\<forall>m. i \<notin> set (waiters s' m)))"
proof -
  have off: "\<not> nw_waiting s' i \<and> (\<forall>m. i \<notin> set (waiters s' m))" if "note_inv s'" "\<not> nw_waiting s' i" for s'
    using waiters_okD(3) [OF note_invD(2) [OF that(1)], of i] that(2) by blast
  have *: "ends (\<lambda>k. if pending s1 n
      then Done ((upd_note n (\<lambda>x. x\<lparr>n_waiters := remove1 i (n_waiters x)\<rparr>) s1)\<lparr>nw_waiting := (nw_waiting s1)(i := False)\<rparr>, True)
      else Done (s1, False))
    (\<lambda>(s', b). note_inv s' \<and> \<not> nw_waiting s' i \<and> (b \<longleftrightarrow> pending s' n) \<and> (\<forall>m. i \<notin> set (waiters s' m)))"
    if s1: "note_inv s1" "if pending s1 n then s1 = s else s1 = s \<and> \<not> pending s n \<or> pending s n \<and> told s n s1" for s1
  proof (cases "pending s1 n")
    case True
    let ?s = "(upd_note n (\<lambda>x. x\<lparr>n_waiters := remove1 i (n_waiters x)\<rparr>) s)\<lparr>nw_waiting := (nw_waiting s)(i := False)\<rparr>"
    have "pending ?s n = pending s n" by (simp add: pending_def NOTIFIED_TIME_def)
    then show ?thesis using True s1(2) remove_waiter_inv [OF inv w] off [of ?s] by simp
  next
    case False
    have "\<not> nw_waiting s1 i"
    proof (cases "pending s n")
      case True
      then have "told s n s1" using False s1(2) by simp
      then show ?thesis using w unfolding told_def by (meson below_self)
    next
      case F: False
      then have "s1 = s" "waiters s n = []" using False s1(2) waiters_okD(4) [OF note_invD(2) [OF inv]] by auto
      then show ?thesis using w by simp
    qed
    then show ?thesis using False s1(1) off by simp
  qed
  show ?thesis
    unfolding note_dequeue_def
  proof (rule ends_bind_pair [OF deadline_ends [OF inv]], elim conjE)
    fix s1 t
    assume i: "note_inv s1"
      and c: "if pending s1 n then s1 = s \<and> t = ntime s n else s1 = s \<and> \<not> pending s n \<or> pending s n \<and> told s n s1"
    show "ends (\<lambda>k. if pending s1 n
        then Done ((upd_note n (\<lambda>x. x\<lparr>n_waiters := remove1 i (n_waiters x)\<rparr>) s1)\<lparr>nw_waiting := (nw_waiting s1)(i := False)\<rparr>, True)
        else Done (s1, False))
      (\<lambda>(s', b). note_inv s' \<and> \<not> nw_waiting s' i \<and> (b \<longleftrightarrow> pending s' n) \<and> (\<forall>m. i \<notin> set (waiters s' m)))"
      by (rule * [OF i]) (use c in \<open>simp split: if_splits\<close>)
  qed
qed

section \<open>All operations\<close>

datatype note_op =
    Note_notify nat | Note_is_notified nat | Note_new "nat option" "nat option" nsync_time | Note_free nat
  | Note_enqueue nat nat | Note_dequeue nat nat

fun note_do :: "nat \<Rightarrow> nsync_time \<Rightarrow> note_op \<Rightarrow> note_sys \<Rightarrow> note_sys run" where
  "note_do k now (Note_notify n) s = nsync_note_notify k now n s"
| "note_do k now (Note_is_notified n) s = bind_run (nsync_note_is_notified k now n s) (\<lambda>(s, b). Done s)"
| "note_do k now (Note_new mem par d) s = bind_run (nsync_note_new k now mem par d s) (\<lambda>(s, r). Done s)"
| "note_do k now (Note_free n) s = nsync_note_free n s"
| "note_do k now (Note_enqueue n i) s = Done (fst (note_enqueue n i s))"
| "note_do k now (Note_dequeue n i) s = bind_run (note_dequeue k now n i s) (\<lambda>(s, b). Done s)"

text \<open>
  What the callers owe: \<^verbatim>\<open>malloc\<close> returns a free block, notes in use are allocated, a note is
  freed when nobody waits for it, a struct is enqueued when it is on no list and dequeued from the
  note on which it was enqueued.
\<close>

fun note_op_ok :: "note_op \<Rightarrow> note_sys \<Rightarrow> bool" where
  "note_op_ok (Note_notify n) s \<longleftrightarrow> n \<in> allocated s"
| "note_op_ok (Note_is_notified n) s \<longleftrightarrow> n \<in> allocated s"
| "note_op_ok (Note_new mem par d) s \<longleftrightarrow>
     (case mem of None \<Rightarrow> True | Some n \<Rightarrow> n \<notin> allocated s) \<and> (case par of None \<Rightarrow> True | Some p \<Rightarrow> p \<in> allocated s)"
| "note_op_ok (Note_free n) s \<longleftrightarrow> n \<in> allocated s \<and> waiters s n = []"
| "note_op_ok (Note_enqueue n i) s \<longleftrightarrow> n \<in> allocated s \<and> \<not> nw_waiting s i"
| "note_op_ok (Note_dequeue n i) s \<longleftrightarrow> n \<in> allocated s \<and> (i \<in> set (waiters s n) \<or> \<not> nw_waiting s i)"

definition no_notes :: note_sys where
  "no_notes = \<lparr>note_of = \<lambda>_. empty_note, nw_waiting = \<lambda>_. False, nw_sem = \<lambda>_. 0, sem_count = \<lambda>_. 0, allocated = {}\<rparr>"

text \<open>
  The states reached when the operations do not overlap in time: each runs to its end before the
  next begins.  This is not every execution of the code, whose operations may overlap where they
  hand over or wait for a lock; theory \<open>Note_Steps\<close> has all interleavings, in which the tree of
  notes is not kept in order (\<open>free_race\<close>).
\<close>

inductive note_serial :: "note_sys \<Rightarrow> bool" where
  start: "note_serial no_notes"
| step: "note_serial s \<Longrightarrow> note_op_ok x s \<Longrightarrow> note_do k now x s = Done s' \<Longrightarrow> note_serial s'"

lemma no_notes_inv: "note_inv no_notes"
  by (simp add: note_inv_def forest_ok_def waiters_ok_def no_notes_def empty_note_def)

lemma note_do_ends:
  assumes inv: "note_inv s" and ok: "note_op_ok x s"
  shows "ends (\<lambda>k. note_do k now x s) note_inv"
proof (cases x)
  case (Note_notify n)
  show ?thesis unfolding Note_notify note_do.simps by (rule ends_mono [OF note_notify_ends [OF inv]]) simp
next
  case (Note_is_notified n)
  show ?thesis unfolding Note_is_notified note_do.simps
    by (rule ends_bind_pair [OF is_notified_ends [OF inv]]) simp
next
  case (Note_new mem par d)
  show ?thesis
  proof (cases mem)
    case None
    then show ?thesis using Note_new inv by (simp add: nsync_note_new_def)
  next
    case (Some n)
    then have n: "n \<notin> allocated s" "\<And>p. par = Some p \<Longrightarrow> p \<in> allocated s" using ok Note_new by auto
    show ?thesis unfolding Note_new Some note_do.simps
      by (rule ends_bind_pair [OF new_ends [OF inv n]]) simp_all
  qed
next
  case (Note_free n)
  then have "waiters s n = []" using ok by simp
  then obtain s' where "nsync_note_free n s = Done s'" "note_inv s'" by (rule free_inv [OF inv])
  then show ?thesis using Note_free by simp
next
  case (Note_enqueue n i)
  then show ?thesis using note_enqueue_inv [OF inv] ok by simp
next
  case (Note_dequeue n i)
  then have "i \<in> set (waiters s n) \<or> \<not> nw_waiting s i" using ok by simp
  then show ?thesis unfolding Note_dequeue note_do.simps
    by (intro ends_bind_pair [OF dequeue_ends [OF inv]]) simp_all
qed

lemma fuel_le_do: "k \<le> k' \<Longrightarrow> fuel_le (note_do k now x s) (note_do k' now x s)"
  by (cases x) (auto intro!: fuel_le_bind fuel_le_ops)

lemma ends_unique:
  assumes "ends r P" "\<And>k k'. k \<le> k' \<Longrightarrow> fuel_le (r k) (r k')" "r k = Done x"
  shows "P x"
proof -
  obtain k0 y where y: "\<forall>k\<ge>k0. r k = Done y" "P y" using assms(1) by (auto simp: ends_def)
  have "r (max k k0) = Done x" using assms(2) [of k "max k k0"] assms(3) fuel_le_Done by fastforce
  then show ?thesis using y by simp
qed

lemma note_serial_inv: "note_serial s \<Longrightarrow> note_inv s"
proof (induction rule: note_serial.induct)
  case (step s x k now s')
  show ?case by (rule ends_unique [OF note_do_ends [OF step.IH step.hyps(2), of now] fuel_le_do step.hyps(3)])
qed (rule no_notes_inv)

section \<open>A concrete family of notes\<close>

text \<open>Note 0 has the child 1, which has the child 2.\<close>

definition family :: note_sys where
  "family = no_notes\<lparr>note_of := (note_of no_notes)
     (0 := empty_note\<lparr>n_expiry_time := nsync_time_no_deadline, n_expiry_time_valid := True, n_children := [1]\<rparr>,
      1 := empty_note\<lparr>n_expiry_time := nsync_time_no_deadline, n_expiry_time_valid := True, n_parent := Some 0, n_children := [2]\<rparr>,
      2 := empty_note\<lparr>n_expiry_time := nsync_time_no_deadline, n_expiry_time_valid := True, n_parent := Some 1\<rparr>),
     allocated := {0, 1, 2}\<rparr>"

lemma cmp_values [simp]:
  "nsync_time_cmp nsync_time_no_deadline nsync_time_zero = 1" "nsync_time_cmp nsync_time_no_deadline nsync_time_no_deadline = 0"
  "nsync_time_cmp nsync_time_zero nsync_time_zero = 0" "nsync_time_cmp nsync_time_zero nsync_time_no_deadline = - 1"
  by (simp_all add: nsync_time_cmp_def nsync_time_no_deadline_def nsync_time_zero_def)

lemma new_plain:
  assumes "par = None \<or> (\<exists>p. par = Some p \<and> n \<noteq> p \<and> NOTIFIED_TIME (note_of s p) = nsync_time_no_deadline)"
  shows "note_do k nsync_time_zero (Note_new (Some n) par nsync_time_no_deadline) s =
    Done (let s = upd_note n (\<lambda>_. empty_note\<lparr>n_expiry_time := nsync_time_no_deadline, n_expiry_time_valid := True\<rparr>)
                    (s\<lparr>allocated := insert n (allocated s)\<rparr>)
          in case par of None \<Rightarrow> s
             | Some p \<Rightarrow> upd_note p (\<lambda>x. x\<lparr>n_children := n_children x @ [n]\<rparr>) (upd_note n (\<lambda>x. x\<lparr>n_parent := Some p\<rparr>) s))"
proof -
  let ?s = "set_expiry_time n nsync_time_no_deadline (upd_note n (\<lambda>_. empty_note) (s\<lparr>allocated := insert n (allocated s)\<rparr>))"
  have s: "?s = upd_note n (\<lambda>_. empty_note\<lparr>n_expiry_time := nsync_time_no_deadline, n_expiry_time_valid := True\<rparr>)
    (s\<lparr>allocated := insert n (allocated s)\<rparr>)" by (rule note_sys_eqI) (simp_all add: set_expiry_time_def)
  have "nsync_note_is_notified k nsync_time_zero n ?s = Done (?s, False)"
    by (simp add: nsync_note_is_notified_def nsync_note_notified_deadline_def Let_def set_expiry_time_def empty_note_def NOTIFIED_TIME_def)
  then show ?thesis using assms unfolding s [symmetric]
    by (auto simp: nsync_note_new_def note_new_link_def Let_def set_expiry_time_def)
qed

lemma family_serial: "note_serial family"
proof -
  let ?d = nsync_time_no_deadline
  let ?x = "empty_note\<lparr>n_expiry_time := ?d, n_expiry_time_valid := True\<rparr>"
  let ?s = "no_notes\<lparr>note_of := (note_of no_notes)(0 := ?x), allocated := {0}\<rparr>"
  let ?t = "no_notes\<lparr>note_of := (note_of no_notes)(0 := ?x\<lparr>n_children := [1]\<rparr>, 1 := ?x\<lparr>n_parent := Some 0\<rparr>), allocated := {0, 1}\<rparr>"
  have "note_do 1 nsync_time_zero (Note_new (Some 0) None ?d) no_notes = Done ?s"
    by (subst new_plain) (auto simp: no_notes_def intro!: note_sys_eqI)
  then have r: "note_serial ?s"
    by (rule note_serial.step [OF note_serial.start, rotated]) (simp add: no_notes_def)
  have "note_do 1 nsync_time_zero (Note_new (Some 1) (Some 0) ?d) ?s = Done ?t"
    by (subst new_plain) (auto simp: no_notes_def empty_note_def NOTIFIED_TIME_def intro!: note_sys_eqI)
  then have r: "note_serial ?t"
    by (rule note_serial.step [OF r, rotated]) (simp add: no_notes_def)
  have "note_do 1 nsync_time_zero (Note_new (Some 2) (Some 1) ?d) ?t = Done family"
    by (subst new_plain) (auto simp: no_notes_def empty_note_def NOTIFIED_TIME_def family_def intro!: note_sys_eqI)
  then show ?thesis
    by (rule note_serial.step [OF r, rotated]) (simp add: no_notes_def)
qed

section \<open>A race\<close>

lemma free_race:
  "\<exists>s1 s2 s3 s4. note_serial family \<and>
     note_free_begin 1 family = Done (s1, Some 0) \<and> notify_begin 0 s1 = (s2, Some None) \<and>
     notify_finish 2 0 None s2 = Blocked 0 s3 \<and> note_free_finish 1 (Some 0) s3 = Done s4 \<and>
     \<not> pending s4 0 \<and> children s4 0 = [2] \<and> parent s4 2 = Some 0 \<and> pending s4 2 \<and> \<not> no_children s4 0"
proof -
  obtain s1 where s1: "note_free_begin 1 family = Done (s1, Some 0)"
    "note_of s1 = (note_of family)(1 := (note_of family 1)\<lparr>n_disconnecting := 1\<rparr>)"
    by (auto simp: note_free_begin_def Let_def family_def empty_note_def)
  obtain s2 where s2: "notify_begin 0 s1 = (s2, Some None)"
    "note_of s2 = (note_of s1)(0 := (note_of s1 0)\<lparr>n_disconnecting := 1\<rparr>)"
    by (auto simp: notify_begin_def s1(2) pending_def family_def empty_note_def NOTIFIED_TIME_def)
  obtain s3 where s3: "notify_finish 2 0 None s2 = Blocked 0 s3"
    "note_of s3 = (note_of s2)(0 := (note_of s2 0)\<lparr>n_notified := True\<rparr>)"
    by (auto simp: notify_finish_def numeral_2_eq_2 s1(2) s2(2) pending_def family_def empty_note_def NOTIFIED_TIME_def
        Let_def no_children_def)
  have n3: "children s3 0 = [1]" "children s3 1 = [2]" "children s3 2 = []" "n_disconnecting (note_of s3 2) = 0"
    "n_notified (note_of s3 0)" "pending s3 2"
    by (simp_all add: s1(2) s2(2) s3(2) family_def empty_note_def pending_def NOTIFIED_TIME_def)
  let ?f = "upd_note 0 (\<lambda>x. x\<lparr>n_children := n_children x @ [2]\<rparr>) (upd_note 2 (\<lambda>x. x\<lparr>n_parent := Some 0\<rparr>)
    (upd_note 1 (\<lambda>x. x\<lparr>n_children := remove1 2 (n_children x)\<rparr>) s3))"
  have f: "free_children 1 (Some 0) (children s3 1) s3 = ?f" "no_children ?f 1"
    using n3 by (simp_all add: Let_def no_children_def)
  define s4 where "s4 = (upd_note 1 (\<lambda>x. x\<lparr>n_disconnecting := n_disconnecting x - 1\<rparr>) (unlink_child (Some 0) 1 ?f))\<lparr>allocated := allocated s3 - {1}\<rparr>"
  have s4: "note_free_finish 1 (Some 0) s3 = Done s4"
    unfolding note_free_finish_def Let_def f(1) using f(2) by (simp add: s4_def unlink_child_def)
  have n4: "children s4 0 = [2]" "parent s4 2 = Some 0" "n_notified (note_of s4 0)"
    using n3 by (simp_all add: s4_def unlink_child_def)
  have p4: "pending s4 2" using pending_cong [of s4 2 s3] n3(6) by (simp add: s4_def unlink_child_def)
  have "\<not> no_children s4 0" using n4(1) by (simp add: no_children_def)
  then show ?thesis using family_serial s1(1) s2(1) s3(1) s4 n4 p4 pending_notified [OF n4(3)] by metis
qed

section \<open>Properties\<close>

text \<open>When operations do not overlap in time: a child is on its parent's list, neither child nor
  parent is notified, and the child's expiry time is no later than its parent's; and a note that is
  notified has no children and no waiters.  Overlapping operations can break this.\<close>

theorem note_forest_invariant:
  assumes "note_serial s"
  shows "(\<forall>n c. parent s c = Some n \<longrightarrow> c \<in> set (children s n) \<and> pending s c \<and> pending s n \<and> ntime s c \<le> ntime s n) \<and>
    (\<forall>n. \<not> pending s n \<longrightarrow> waiters s n = [] \<and> children s n = []) \<and>
    (\<forall>i. nw_waiting s i \<longleftrightarrow> (\<exists>n. i \<in> set (waiters s n)))"
proof -
  note I = note_invD [OF note_serial_inv [OF assms]]
  note F = forest_okD [OF I(1)] and W = waiters_okD [OF I(2)]
  have "children s n = []" if "\<not> pending s n" for n
    using that F(2,4) by (cases "children s n") (auto, metis list.set_intros(1))
  then show ?thesis using F(2-5) W(3,4) by blast
qed

theorem note_forest_invariant_witness: "pending family 2 \<and> ntime family 2 \<le> ntime family 1"
proof -
  have "parent family 2 = Some 1" by (simp add: family_def)
  then show ?thesis using note_forest_invariant [OF family_serial] by blast
qed

text \<open>When operations do not overlap in time, every operation that its callers may apply ends: with
  enough fuel (the height of the tree below the note) it neither waits for ever for a list of children
  to become empty, nor fails an assertion.  With overlapping operations a wait may last for ever.\<close>

theorem note_operations_end:
  assumes "note_serial s" "note_op_ok x s"
  shows "\<exists>k s'. note_serial s' \<and> (\<forall>j. note_do (k + j) now x s = Done s')"
proof -
  obtain k s' where k: "\<forall>j\<ge>k. note_do j now x s = Done s'"
    using note_do_ends [OF note_serial_inv [OF assms(1)] assms(2), of now] by (auto simp: ends_def)
  then have "note_serial s'" using note_serial.step [OF assms, of k now s'] by blast
  then show ?thesis using k by (intro exI [of _ k] exI [of _ s']) simp
qed

theorem note_operations_end_witness: "\<exists>k s'. note_do k nsync_time_zero (Note_notify 0) family = Done s'"
  using note_operations_end [OF family_serial, of "Note_notify 0" nsync_time_zero] by (auto simp: family_def)

text \<open>C18. A call of \<^verbatim>\<open>nsync_note_notify\<close> with which no other operation on notes overlaps, on a
  note that is not yet notified, ends, and then exactly the notes below it, itself included, have
  become notified; every waiter of one of them is off its list with its flag clear and its semaphore
  posted, and the lists of all other notes are as before.\<close>

theorem note_notify_tells_descendants:
  assumes "note_serial s" "pending s n"
  shows "\<exists>k s'. (\<forall>j. nsync_note_notify (k + j) now n s = Done s') \<and>
    (\<forall>m. pending s' m \<longleftrightarrow> pending s m \<and> \<not> below s n m) \<and>
    (\<forall>m. waiters s' m = (if below s n m then [] else waiters s m)) \<and>
    (\<forall>m i. below s n m \<longrightarrow> i \<in> set (waiters s m) \<longrightarrow>
       \<not> nw_waiting s' i \<and> sem_count s (nw_sem s i) < sem_count s' (nw_sem s i))"
proof -
  obtain k s' where k: "\<forall>j\<ge>k. nsync_note_notify j now n s = Done s'" and t: "told s n s'"
    using note_notify_ends [OF note_serial_inv [OF assms(1)], of now n] assms(2) by (auto simp: ends_def)
  have "\<forall>j. nsync_note_notify (k + j) now n s = Done s'" using k by simp
  then show ?thesis using t unfolding told_def by (intro exI [of _ k] exI [of _ s']) blast
qed

theorem note_notify_tells_descendants_witness:
  "\<exists>k s'. nsync_note_notify k nsync_time_zero 0 family = Done s' \<and> \<not> pending s' 2"
proof -
  have "pending family 0" by (simp add: family_def pending_def NOTIFIED_TIME_def empty_note_def)
  moreover have "below family 0 2"
    unfolding below_def by (rule converse_rtranclp_into_rtranclp [of _ _ 1], simp add: family_def,
      rule converse_rtranclp_into_rtranclp [of _ _ 2]) (simp_all add: family_def)
  ultimately show ?thesis using note_notify_tells_descendants [OF family_serial, of 0 nsync_time_zero] by metis
qed

text \<open>C20. \<^verbatim>\<open>nsync_note_free\<close> on a note whose parent is being notified loses the
  notification.  Thread \<^verbatim>\<open>A\<close> frees note 1 and has given up its lock to take that of its parent;
  thread \<^verbatim>\<open>B\<close> notifies the parent, skips note 1 as it is being disconnected, and waits for its
  list of children to become empty; \<^verbatim>\<open>A\<close> then moves note 2 to the parent.  Note 2 is now the
  child of a notified note, is not notified, and the wait of \<^verbatim>\<open>B\<close> goes on.\<close>

theorem note_free_loses_notification:
  "\<exists>s1 s2 s3 s4. note_serial family \<and>
     note_free_begin 1 family = Done (s1, Some 0) \<and> notify_begin 0 s1 = (s2, Some None) \<and>
     notify_finish 2 0 None s2 = Blocked 0 s3 \<and> note_free_finish 1 (Some 0) s3 = Done s4 \<and>
     \<not> pending s4 0 \<and> children s4 0 = [2] \<and> parent s4 2 = Some 0 \<and> pending s4 2 \<and> \<not> no_children s4 0"
  by (rule free_race)

end
