(* ===== verification/Sem_Wait.thy ===== *)
theory Sem_Wait
  imports Note_Props Wait
begin

text \<open>
  \<^verbatim>\<open>internal/sem_wait.c\<close> and \<^verbatim>\<open>internal/sem_wait_no_note.c\<close>: waiting on a semaphore until a
  deadline or until a note is notified.  As in theory \<open>Counter_Wait\<close>, what other threads and
  the clock do is given by lists of events: those before the note's lock is taken, those during the
  sleep, and those before the lock is taken again.  Each event is a whole operation on a note, so that
  operations on notes do not overlap.  The struct \<^verbatim>\<open>nw\<close> is on the caller's stack:
  other threads see it only while it is on the list of the note, so its initialisation is placed
  with its insertion, and its flag means nothing once it is off the list.
\<close>

datatype note_event = N_op note_op | N_tick nsync_time

record note_world =
  nt_sys :: note_sys
  nt_now :: nsync_time

text \<open>
  What other threads may not do: use the caller's struct \<open>i\<close>, or free the note it waits for.
\<close>

fun foreign :: "nat option \<Rightarrow> nat \<Rightarrow> note_op \<Rightarrow> bool" where
  "foreign c i (Note_free m) \<longleftrightarrow> c \<noteq> Some m"
| "foreign c i (Note_enqueue m j) \<longleftrightarrow> j \<noteq> i"
| "foreign c i (Note_dequeue m j) \<longleftrightarrow> j \<noteq> i"
| "foreign c i x \<longleftrightarrow> True"

definition note_event :: "nat \<Rightarrow> nat option \<Rightarrow> nat \<Rightarrow> note_event \<Rightarrow> note_world \<Rightarrow> note_world run" where
  "note_event k c i x w =
     (case x of
        N_op y \<Rightarrow>
          (if note_op_ok y (nt_sys w) \<and> foreign c i y
           then bind_run (note_do k (nt_now w) y (nt_sys w)) (\<lambda>s. Done (w\<lparr>nt_sys := s\<rparr>))
           else Done w)
      | N_tick t \<Rightarrow> Done (if nt_now w < t \<and> t < nsync_time_no_deadline then w\<lparr>nt_now := t\<rparr> else w))"

fun note_events :: "nat \<Rightarrow> nat option \<Rightarrow> nat \<Rightarrow> note_event list \<Rightarrow> note_world \<Rightarrow> note_world run" where
  "note_events k c i [] w = Done w"
| "note_events k c i (x # xs) w = bind_run (note_event k c i x w) (note_events k c i xs)"

text \<open>The semaphore at \<open>q\<close>; the events that happen before it returns.\<close>

definition take_count :: "nat \<Rightarrow> note_world \<Rightarrow> note_world" where
  "take_count q w = w\<lparr>nt_sys := (nt_sys w)\<lparr>sem_count := (sem_count (nt_sys w))(q := sem_count (nt_sys w) q - 1)\<rparr>\<rparr>"

fun note_sleep :: "nat \<Rightarrow> nat option \<Rightarrow> nat \<Rightarrow> nat \<Rightarrow> nsync_time \<Rightarrow> note_event list \<Rightarrow> note_world \<Rightarrow> note_world sleep run" where
  "note_sleep k c i q d [] w =
     Done (if 0 < sem_count (nt_sys w) q then Woken (take_count q w)
           else if d \<le> nt_now w then Expired w
           else if d < nsync_time_no_deadline then Expired (w\<lparr>nt_now := d\<rparr>) else Stuck w)"
| "note_sleep k c i q d (x # xs) w =
     (if 0 < sem_count (nt_sys w) q then Done (Woken (take_count q w))
      else if d \<le> nt_now w then Done (Expired w)
      else bind_run (note_event k c i x w) (note_sleep k c i q d xs))"

datatype sem_outcome = Sem_ok | Sem_ETIMEDOUT | Sem_ECANCELED

fun p_outcome :: "note_world sleep \<Rightarrow> (note_world, note_world \<times> sem_outcome) wait_run" where
  "p_outcome (Woken w) = Returns (w, Sem_ok)"
| "p_outcome (Expired w) = Returns (w, Sem_ETIMEDOUT)"
| "p_outcome (Stuck w) = Sleeps_forever w"

text \<open>Putting \<^verbatim>\<open>nw\<close> on the list of the note, and taking it off.\<close>

definition nw_insert :: "nat \<Rightarrow> nat \<Rightarrow> nat \<Rightarrow> note_sys \<Rightarrow> note_sys" where
  "nw_insert n i q s =
     upd_note n (\<lambda>x. x\<lparr>n_waiters := n_waiters x @ [i]\<rparr>)
       (s\<lparr>nw_sem := (nw_sem s)(i := q), nw_waiting := (nw_waiting s)(i := True)\<rparr>)"

definition nw_remove :: "nat \<Rightarrow> nat \<Rightarrow> note_sys \<Rightarrow> note_sys" where
  "nw_remove n i s = upd_note n (\<lambda>x. x\<lparr>n_waiters := remove1 i (n_waiters x)\<rparr>) s"

text \<open>After the semaphore: lines 63--73.\<close>

definition cancel_finish ::
  "nat \<Rightarrow> nat \<Rightarrow> nat \<Rightarrow> bool \<Rightarrow> note_event list \<Rightarrow> note_world sleep \<Rightarrow> (note_world, note_world \<times> sem_outcome) wait_run run" where
  "cancel_finish k n i deadline_is_nearer zs p =
     (case p_outcome p of
        Returns (w, r) \<Rightarrow>
          bind_run
            (if r = Sem_ETIMEDOUT \<and> \<not> deadline_is_nearer
             then bind_run (nsync_note_notify k (nt_now w) n (nt_sys w)) (\<lambda>s. Done (w\<lparr>nt_sys := s\<rparr>, Sem_ECANCELED))
             else Done (w, r))
            (\<lambda>(w, r). bind_run (note_events k (Some n) i zs w)
               (\<lambda>w. Done (Returns (if pending (nt_sys w) n then w\<lparr>nt_sys := nw_remove n i (nt_sys w)\<rparr> else w, r))))
      | Sleeps_forever w \<Rightarrow> Done (Sleeps_forever w)
      | More_rounds \<Rightarrow> Done More_rounds)"

text \<open>With the note's lock held: lines 49--75.\<close>

definition cancel_sleep ::
  "nat \<Rightarrow> nat \<Rightarrow> nat \<Rightarrow> nat \<Rightarrow> nsync_time \<Rightarrow> note_event list \<Rightarrow> note_event list \<Rightarrow>
   note_world \<Rightarrow> (note_world, note_world \<times> sem_outcome) wait_run run" where
  "cancel_sleep k n i q abs_deadline ys zs w =
     (let cancel_time = NOTIFIED_TIME (note_of (nt_sys w) n)
      in if nsync_time_cmp cancel_time nsync_time_zero > 0
         then (let deadline_is_nearer = (nsync_time_cmp abs_deadline cancel_time < 0);
                   local_abs_deadline = (if deadline_is_nearer then abs_deadline else cancel_time)
               in bind_run
                    (note_sleep k (Some n) i q local_abs_deadline ys (w\<lparr>nt_sys := nw_insert n i q (nt_sys w)\<rparr>))
                    (cancel_finish k n i deadline_is_nearer zs))
         else Done (Returns (w, Sem_ECANCELED)))"

definition nsync_sem_wait_with_cancel ::
  "nat \<Rightarrow> nat \<Rightarrow> nat \<Rightarrow> nsync_time \<Rightarrow> nat option \<Rightarrow> note_event list \<times> note_event list \<times> note_event list \<Rightarrow>
   note_world \<Rightarrow> (note_world, note_world \<times> sem_outcome) wait_run run" where
  "nsync_sem_wait_with_cancel k i q abs_deadline cancel_note es w =
     (case (es, cancel_note) of
        ((xs, ys, zs), None) \<Rightarrow> bind_run (note_sleep k None i q abs_deadline ys w) (\<lambda>p. Done (p_outcome p))
      | ((xs, ys, zs), Some n) \<Rightarrow>
          bind_run (nsync_note_notified_deadline k (nt_now w) n (nt_sys w))
            (\<lambda>(s, cancel_time).
               if nsync_time_cmp cancel_time nsync_time_zero > 0
               then bind_run (note_events k (Some n) i xs (w\<lparr>nt_sys := s\<rparr>))
                 (cancel_sleep k n i q abs_deadline ys zs)
               else Done (Returns (w\<lparr>nt_sys := s\<rparr>, Sem_ECANCELED))))"

text \<open>The version without notes.\<close>

definition nsync_sem_wait_no_note ::
  "nat \<Rightarrow> nat \<Rightarrow> nat \<Rightarrow> nsync_time \<Rightarrow> nat option \<Rightarrow> note_event list \<Rightarrow> note_world \<Rightarrow> (note_world, note_world \<times> sem_outcome) wait_run run" where
  "nsync_sem_wait_no_note k i q abs_deadline cancel_note ys w =
     bind_run (note_sleep k None i q abs_deadline ys w) (\<lambda>p. Done (p_outcome p))"

section \<open>What operations on notes do to a waiter\<close>

text \<open>
  Whatever a thread does to notes: a notified note stays so, its expiry time does not change, a
  struct \<open>i\<close> that is on the list of note \<open>n\<close> stays there, unless the note is notified and
  the struct's semaphore posted.
\<close>

definition grow :: "nat \<Rightarrow> nat \<Rightarrow> note_sys \<Rightarrow> note_sys \<Rightarrow> bool" where
  "grow n i s s' \<longleftrightarrow>
     nw_sem s' = nw_sem s \<and> (n \<in> allocated s \<longrightarrow> n \<in> allocated s') \<and> (\<forall>q. sem_count s q \<le> sem_count s' q) \<and>
     n_expiry_time (note_of s' n) = n_expiry_time (note_of s n) \<and>
     n_expiry_time_valid (note_of s' n) = n_expiry_time_valid (note_of s n) \<and>
     (n_notified (note_of s n) \<longrightarrow> n_notified (note_of s' n)) \<and>
     (i \<in> set (waiters s n) \<longrightarrow> i \<in> set (waiters s' n) \<or>
        n_notified (note_of s' n) \<and> sem_count s (nw_sem s i) < sem_count s' (nw_sem s i)) \<and>
     (\<forall>m. i \<in> set (waiters s' m) \<longrightarrow> i \<in> set (waiters s m))"

lemma grow_refl: "grow n i s s"
  by (simp add: grow_def)

lemma growD:
  assumes "grow n i s s'"
  shows "nw_sem s' = nw_sem s" "n \<in> allocated s \<Longrightarrow> n \<in> allocated s'" "sem_count s q \<le> sem_count s' q"
    "n_expiry_time (note_of s' n) = n_expiry_time (note_of s n)" "n_expiry_time_valid (note_of s' n) = n_expiry_time_valid (note_of s n)"
    "n_notified (note_of s n) \<Longrightarrow> n_notified (note_of s' n)"
    "i \<in> set (waiters s n) \<Longrightarrow> i \<notin> set (waiters s' n) \<Longrightarrow>
       n_notified (note_of s' n) \<and> sem_count s (nw_sem s i) < sem_count s' (nw_sem s i)"
    "i \<in> set (waiters s' m) \<Longrightarrow> i \<in> set (waiters s m)"
  using assms unfolding grow_def by blast+

lemma grow_trans:
  assumes a: "grow n i s s'" and b: "grow n i s' s''"
  shows "grow n i s s''"
proof -
  have "i \<in> set (waiters s'' n) \<or> n_notified (note_of s'' n) \<and> sem_count s (nw_sem s i) < sem_count s'' (nw_sem s i)"
    if "i \<in> set (waiters s n)"
  proof (cases "i \<in> set (waiters s' n)")
    case True
    then show ?thesis using growD(7) [OF b] growD(1,3) [OF a] by (metis le_less_trans)
  next
    case False
    then show ?thesis using growD(7) [OF a that] growD(3,6) [OF b] by (metis less_le_trans)
  qed
  moreover have "sem_count s q \<le> sem_count s'' q" for q using growD(3) [OF a] growD(3) [OF b] order_trans by blast
  ultimately show ?thesis using growD [OF a] growD [OF b] unfolding grow_def by simp
qed

text \<open>Changes of links and of the disconnecting count.\<close>

lemma grow_upd:
  assumes "\<And>x. n_waiters (f x) = n_waiters x" "\<And>x. n_notified (f x) = n_notified x"
    "\<And>x. n_expiry_time (f x) = n_expiry_time x" "\<And>x. n_expiry_time_valid (f x) = n_expiry_time_valid x"
  shows "grow n i s (upd_note m f s)"
  using assms by (simp add: grow_def)

lemma grow_unlink: "grow n i s (unlink_child par m s)"
  by (cases par) (auto simp: unlink_child_def intro!: grow_trans [OF grow_upd grow_upd] grow_refl)

lemma grow_wake:
  fixes s :: note_sys and m :: nat
  defines "s1 \<equiv> upd_note m (\<lambda>x. x\<lparr>n_notified := True\<rparr>) s"
  shows "grow n i s (wake_note m (waiters s1 m) s1)"
proof -
  have "0 < length (filter (\<lambda>j. nw_sem s j = nw_sem s i) (waiters s n))" if "i \<in> set (waiters s n)"
    using that by (auto simp: filter_empty_conv)
  then show ?thesis unfolding wake_note_eq [OF refl] grow_def s1_def by auto
qed

lemma bind_run_Done [simp]: "bind_run r f = Done y \<longleftrightarrow> (\<exists>x. r = Done x \<and> f x = Done y)"
  by (cases r) auto

lemma grow_children:
  assumes "\<And>c s s'. f c s = Done s' \<Longrightarrow> grow n i s s'" "notify_children f cs s = Done s'"
  shows "grow n i s s'"
  using assms(2)
proof (induction cs arbitrary: s)
  case (Cons c cs)
  then show ?case using grow_trans [OF assms(1)] by (auto split: if_splits)
qed (simp add: grow_refl)

lemma grow_notify_child: "note_notify_child k m par s = Done s' \<Longrightarrow> grow n i s s'"
proof (induction k arbitrary: m par s s')
  case (Suc k)
  show ?case
  proof (cases "pending s m")
    case True
    define s1 where "s1 = wake_note m (waiters (upd_note m (\<lambda>x. x\<lparr>n_notified := True\<rparr>) s) m) (upd_note m (\<lambda>x. x\<lparr>n_notified := True\<rparr>) s)"
    obtain s2 where s2: "notify_children (\<lambda>c. note_notify_child k c (Some m)) (children s1 m) s1 = Done s2"
      "s' = unlink_child par m s2"
      using Suc.prems True by (auto simp: Let_def s1_def split: if_splits)
    have "grow n i s s1" unfolding s1_def by (rule grow_wake)
    moreover have "grow n i s1 s2" by (rule grow_children [OF Suc.IH s2(1)])
    ultimately show ?thesis using grow_unlink [of n i s2 par m] s2(2) grow_trans by blast
  next
    case False
    then show ?thesis using Suc.prems by (simp add: grow_refl)
  qed
qed simp

lemma grow_notify: "notify k m s = Done s' \<Longrightarrow> grow n i s s'"
proof (cases "pending s m")
  case True
  assume "notify k m s = Done s'"
  then obtain s1 where s1: "note_notify_child k m (parent s m) (upd_note m (\<lambda>x. x\<lparr>n_disconnecting := n_disconnecting x + 1\<rparr>) s) = Done s1"
    "s' = upd_note m (\<lambda>x. x\<lparr>n_disconnecting := n_disconnecting x - 1\<rparr>) s1"
    using True by (auto simp: notify_def notify_begin_def notify_finish_def)
  show ?thesis unfolding s1(2)
    by (rule grow_trans [OF grow_trans [OF grow_upd grow_notify_child [OF s1(1)]] grow_upd]) simp_all
next
  case False
  then show "notify k m s = Done s' \<Longrightarrow> grow n i s s'" by (simp add: notify_def notify_begin_def grow_refl)
qed

lemma grow_deadline: "nsync_note_notified_deadline k now m s = Done (s', t) \<Longrightarrow> grow n i s s'"
  by (auto simp: nsync_note_notified_deadline_def Let_def grow_refl dest: grow_notify split: if_splits)

lemma grow_is_notified: "nsync_note_is_notified k now m s = Done (s', b) \<Longrightarrow> grow n i s s'"
  by (auto simp: nsync_note_is_notified_def dest: grow_deadline)

lemma grow_note_notify: "nsync_note_notify k now m s = Done s' \<Longrightarrow> grow n i s s'"
  by (auto simp: nsync_note_notify_def split: if_splits intro: grow_trans [OF grow_deadline grow_notify] dest: grow_deadline)

lemma grow_dequeue:
  assumes "note_dequeue k now m j s = Done (s', b)" "j \<noteq> i"
  shows "grow n i s s'"
proof -
  obtain s1 t where s1: "nsync_note_notified_deadline k now m s = Done (s1, t)"
    "(if pending s1 m then Done ((upd_note m (\<lambda>x. x\<lparr>n_waiters := remove1 j (n_waiters x)\<rparr>) s1)\<lparr>nw_waiting := (nw_waiting s1)(j := False)\<rparr>, True)
      else Done (s1, False)) = Done (s', b)"
    using assms(1) by (auto simp: note_dequeue_def)
  have "grow n i s1 s'" using s1(2) assms(2) by (auto simp: grow_def split: if_splits)
  then show ?thesis using grow_deadline [OF s1(1)] grow_trans by blast
qed

lemma grow_enqueue: "j \<noteq> i \<Longrightarrow> grow n i s (fst (note_enqueue m j s))"
  by (auto simp: note_enqueue_def grow_def)

lemma grow_free_children: "grow n i s (free_children m par cs s)"
proof (induction cs arbitrary: s)
  case (Cons c cs)
  define s1 where "s1 = upd_note c (\<lambda>x. x\<lparr>n_parent := par\<rparr>) (upd_note m (\<lambda>x. x\<lparr>n_children := remove1 c (n_children x)\<rparr>) s)"
  have "grow n i s s1" unfolding s1_def by (rule grow_trans [OF grow_upd grow_upd]) simp_all
  moreover have "grow n i s1 (case par of None \<Rightarrow> s1 | Some p \<Rightarrow> upd_note p (\<lambda>x. x\<lparr>n_children := n_children x @ [c]\<rparr>) s1)"
    by (cases par) (auto intro!: grow_upd grow_refl)
  ultimately have "grow n i s (free_children m par cs (case par of None \<Rightarrow> s1 | Some p \<Rightarrow> upd_note p (\<lambda>x. x\<lparr>n_children := n_children x @ [c]\<rparr>) s1))"
    using Cons grow_trans by blast
  then show ?case using Cons [of s] unfolding s1_def by (simp add: Let_def)
qed (simp add: grow_refl)

lemma grow_free:
  assumes "nsync_note_free m s = Done s'" "m \<noteq> n"
  shows "grow n i s s'"
proof -
  define s1 where "s1 = upd_note m (\<lambda>x. x\<lparr>n_disconnecting := n_disconnecting x + 1\<rparr>) s"
  define s2 where "s2 = free_children m (parent s1 m) (children s1 m) s1"
  define s3 where "s3 = upd_note m (\<lambda>x. x\<lparr>n_disconnecting := n_disconnecting x - 1\<rparr>) (unlink_child (parent s1 m) m s2)"
  have "s' = s3\<lparr>allocated := allocated s3 - {m}\<rparr>"
    using assms(1) by (auto simp: nsync_note_free_def note_free_begin_def note_free_finish_def Let_def s1_def s2_def s3_def split: if_splits)
  then have "grow n i s3 s'" using assms(2) by (simp add: grow_def)
  moreover have "grow n i s s1" unfolding s1_def by (rule grow_upd) simp_all
  moreover have "grow n i s1 s2" unfolding s2_def by (rule grow_free_children)
  moreover have "grow n i s2 s3" unfolding s3_def by (rule grow_trans [OF grow_unlink grow_upd]) simp_all
  ultimately show ?thesis using grow_trans by blast
qed

lemma grow_new_link: "m \<noteq> n \<Longrightarrow> grow n i s (note_new_link m par d s b)"
  by (auto simp: note_new_link_def Let_def set_expiry_time_def grow_def split: option.split)

lemma grow_new:
  assumes "nsync_note_new k now mem par d s = Done (s', r)" "mem \<noteq> Some n"
  shows "grow n i s s'"
proof (cases mem)
  case None
  then show ?thesis using assms by (simp add: nsync_note_new_def grow_refl)
next
  case (Some m)
  define s0 where "s0 = set_expiry_time m d (upd_note m (\<lambda>_. empty_note) (s\<lparr>allocated := insert m (allocated s)\<rparr>))"
  obtain s1 b where s1: "nsync_note_is_notified k now m s0 = Done (s1, b)" "s' = note_new_link m par d s1 b"
    using assms(1) Some by (auto simp: nsync_note_new_def s0_def)
  have "grow n i s s0" using assms(2) Some by (auto simp: s0_def set_expiry_time_def grow_def empty_note_def)
  moreover have "grow n i s0 s1" by (rule grow_is_notified [OF s1(1)])
  moreover have "grow n i s1 s'" unfolding s1(2) using assms(2) Some by (intro grow_new_link) simp
  ultimately show ?thesis using grow_trans by blast
qed

lemma grow_do:
  assumes "note_do k now x s = Done s'" "note_op_ok x s" "foreign (Some n) i x" "n \<in> allocated s"
  shows "grow n i s s'"
  using assms
  by (cases x) (auto intro: grow_note_notify grow_is_notified grow_new grow_free grow_enqueue grow_dequeue split: option.splits)

section \<open>Events\<close>

definition clock_ok :: "note_world \<Rightarrow> bool" where
  "clock_ok w \<longleftrightarrow> nsync_time_zero \<le> nt_now w \<and> nt_now w < nsync_time_no_deadline"

definition wstep :: "nat option \<Rightarrow> nat \<Rightarrow> note_world \<Rightarrow> note_world \<Rightarrow> bool" where
  "wstep c i w w' \<longleftrightarrow>
     note_inv (nt_sys w') \<and> clock_ok w' \<and> nt_now w \<le> nt_now w' \<and> (\<forall>n. c = Some n \<longrightarrow> grow n i (nt_sys w) (nt_sys w'))"

definition wok :: "nat option \<Rightarrow> note_world \<Rightarrow> bool" where
  "wok c w \<longleftrightarrow> note_inv (nt_sys w) \<and> clock_ok w \<and> (\<forall>n. c = Some n \<longrightarrow> n \<in> allocated (nt_sys w))"

lemma wstep_refl: "wok c w \<Longrightarrow> wstep c i w w"
  by (simp add: wstep_def wok_def grow_refl)

lemma wstep_trans: "wstep c i w w' \<Longrightarrow> wstep c i w' w'' \<Longrightarrow> wstep c i w w''"
  unfolding wstep_def using grow_trans order_trans by blast

lemma wstep_ok: "wok c w \<Longrightarrow> wstep c i w w' \<Longrightarrow> wok c w'"
  unfolding wstep_def wok_def using growD(2) by blast

lemma ends_also:
  assumes "ends r P" "\<And>k x. r k = Done x \<Longrightarrow> Q x"
  shows "ends r (\<lambda>x. P x \<and> Q x)"
  using assms unfolding ends_def by (meson order_refl)

lemma event_ends:
  assumes "wok c w"
  shows "ends (\<lambda>k. note_event k c i x w) (wstep c i w)"
proof (cases x)
  case (N_op y)
  show ?thesis
  proof (cases "note_op_ok y (nt_sys w) \<and> foreign c i y")
    case True
    have inv: "note_inv (nt_sys w)" using assms by (simp add: wok_def)
    have "ends (\<lambda>k. note_do k (nt_now w) y (nt_sys w)) (\<lambda>s. note_inv s \<and> (\<forall>n. c = Some n \<longrightarrow> grow n i (nt_sys w) s))"
      by (rule ends_also [OF note_do_ends [OF inv]]) (use True assms grow_do in \<open>auto simp: wok_def\<close>)
    then have "ends (\<lambda>k. bind_run (note_do k (nt_now w) y (nt_sys w)) (\<lambda>s. Done (w\<lparr>nt_sys := s\<rparr>))) (wstep c i w)"
      by (rule ends_bind) (use assms in \<open>simp add: wstep_def wok_def clock_ok_def\<close>)
    then show ?thesis using N_op True by (simp add: note_event_def)
  next
    case False
    then have "(\<lambda>k. note_event k c i x w) = (\<lambda>k. Done w)" using N_op by (auto simp: note_event_def)
    then show ?thesis using wstep_refl [OF assms] by simp
  qed
next
  case (N_tick t)
  then show ?thesis using assms by (auto simp: note_event_def wstep_def wok_def clock_ok_def grow_refl)
qed

lemma events_ends: "wok c w \<Longrightarrow> ends (\<lambda>k. note_events k c i xs w) (wstep c i w)"
proof (induction xs arbitrary: w)
  case (Cons x xs)
  have "ends (\<lambda>k. bind_run (note_event k c i x w) (note_events k c i xs)) (wstep c i w)"
    by (rule ends_bind [OF event_ends [OF Cons.prems]], rule ends_mono [OF Cons.IH])
       (use Cons.prems wstep_ok wstep_trans in blast)+
  then show ?case by simp
qed (simp add: wstep_refl)

definition sleep_post :: "nat option \<Rightarrow> nat \<Rightarrow> nat \<Rightarrow> nsync_time \<Rightarrow> note_world \<Rightarrow> note_world sleep \<Rightarrow> bool" where
  "sleep_post c i q d w p =
     (case p of
        Woken w' \<Rightarrow> \<exists>w1. wstep c i w w1 \<and> w' = take_count q w1
      | Expired w' \<Rightarrow> wstep c i w w' \<and> d \<le> nt_now w'
      | Stuck w' \<Rightarrow> wstep c i w w' \<and> \<not> d < nsync_time_no_deadline \<and> sem_count (nt_sys w') q = 0)"

lemma sleep_ends: "wok c w \<Longrightarrow> ends (\<lambda>k. note_sleep k c i q d xs w) (sleep_post c i q d w)"
proof (induction xs arbitrary: w)
  case Nil
  have "wstep c i w (w\<lparr>nt_now := d\<rparr>)" if "\<not> d \<le> nt_now w" "d < nsync_time_no_deadline"
    using that Nil by (auto simp: wstep_def wok_def clock_ok_def grow_refl)
  then show ?case using wstep_refl [OF Nil] by (auto simp: sleep_post_def)
next
  case (Cons x xs)
  show ?case
  proof (cases "0 < sem_count (nt_sys w) q \<or> d \<le> nt_now w")
    case True
    define p where "p = (if 0 < sem_count (nt_sys w) q then Woken (take_count q w) else Expired w)"
    have "(\<lambda>k. note_sleep k c i q d (x # xs) w) = (\<lambda>k. Done p)" using True by (auto simp: p_def)
    moreover have "sleep_post c i q d w p" using True wstep_refl [OF Cons.prems] by (auto simp: sleep_post_def p_def)
    ultimately show ?thesis by simp
  next
    case False
    have st: "sleep_post c i q d w p" if "wstep c i w w1" "sleep_post c i q d w1 p" for w1 p
      using that wstep_trans unfolding sleep_post_def by (cases p) (auto, blast+)
    have "ends (\<lambda>k. bind_run (note_event k c i x w) (note_sleep k c i q d xs)) (sleep_post c i q d w)"
      by (rule ends_bind [OF event_ends [OF Cons.prems]], rule ends_mono [OF Cons.IH])
         (use st Cons.prems wstep_ok in blast)+
    then show ?thesis using False by simp
  qed
qed

section \<open>The struct on the list\<close>

definition forget :: "nat \<Rightarrow> note_sys \<Rightarrow> note_sys" where
  "forget i s = s\<lparr>nw_waiting := (nw_waiting s)(i := False)\<rparr>"

lemma note_inv_cong:
  "note_inv s \<Longrightarrow> note_of s' = note_of s \<Longrightarrow> nw_waiting s' = nw_waiting s \<Longrightarrow> allocated s' = allocated s \<Longrightarrow> note_inv s'"
  unfolding note_inv_def forest_ok_def waiters_ok_def pending_def by simp

lemma on_no_list: "note_inv s \<Longrightarrow> (\<And>m. i \<notin> set (waiters s m)) \<Longrightarrow> note_inv (forget i s)"
  by (rule note_inv_cong) (use waiters_okD(3) [OF note_invD(2), of s i] in \<open>auto simp: forget_def fun_upd_idem_iff\<close>)

lemma grow_pending:
  assumes "grow n i s s'"
  shows "\<not> pending s n \<Longrightarrow> \<not> pending s' n" "pending s' n \<Longrightarrow> ntime s' n = ntime s n"
proof -
  have "\<not> n_notified (note_of s' n) \<Longrightarrow> pending s' n = pending s n \<and> ntime s' n = ntime s n"
    by (rule pending_cong) (use growD(4-6) [OF assms] in auto)
  then show "\<not> pending s n \<Longrightarrow> \<not> pending s' n" "pending s' n \<Longrightarrow> ntime s' n = ntime s n" using pending_notified [of s' n] by blast+
qed

lemma nw_insert_inv:
  assumes "note_inv s" "\<And>m. i \<notin> set (waiters s m)" "n \<in> allocated s" "pending s n"
  shows "note_inv (nw_insert n i q s)" "i \<in> set (waiters (nw_insert n i q s) n)" "nw_sem (nw_insert n i q s) i = q"
    "allocated (nw_insert n i q s) = allocated s" "pending (nw_insert n i q s) n" "ntime (nw_insert n i q s) n = ntime s n"
proof -
  let ?s = "s\<lparr>nw_sem := (nw_sem s)(i := q)\<rparr>"
  have i: "note_inv ?s" by (rule note_inv_cong [OF assms(1)]) simp_all
  have "\<not> nw_waiting ?s i" using waiters_okD(3) [OF note_invD(2) [OF assms(1)], of i] assms(2) by simp
  moreover have p: "pending ?s n" using assms(4) by (simp add: pending_def)
  moreover have "fst (note_enqueue n i ?s) = nw_insert n i q s"
    using p by (intro note_sys_eqI) (auto simp: note_enqueue_def nw_insert_def)
  ultimately show "note_inv (nw_insert n i q s)" using note_enqueue_inv [OF i, of i n] assms(3) by simp
  show "i \<in> set (waiters (nw_insert n i q s) n)" "nw_sem (nw_insert n i q s) i = q"
    "allocated (nw_insert n i q s) = allocated s" by (simp_all add: nw_insert_def)
  have "pending (nw_insert n i q s) n = pending s n \<and> ntime (nw_insert n i q s) n = ntime s n"
    by (rule pending_cong) (simp_all add: nw_insert_def)
  then show "pending (nw_insert n i q s) n" "ntime (nw_insert n i q s) n = ntime s n" using assms(4) by simp_all
qed

text \<open>The last step of the call: the struct is taken off the list, unless the note's notifier has done so.\<close>

lemma leave_list:
  assumes inv: "note_inv s" and own: "\<And>m. i \<in> set (waiters s m) \<Longrightarrow> m = n"
    and on: "pending s n \<Longrightarrow> i \<in> set (waiters s n)"
    and s': "s' = (if pending s n then nw_remove n i s else s)"
  shows "note_inv (forget i s')" "\<And>m. i \<notin> set (waiters s' m)" "pending s' n = pending s n"
proof -
  have "note_inv (forget i s') \<and> (\<forall>m. i \<notin> set (waiters s' m)) \<and> pending s' n = pending s n"
  proof (cases "pending s n")
    case True
    then have "forget i s' = (upd_note n (\<lambda>x. x\<lparr>n_waiters := remove1 i (n_waiters x)\<rparr>) s)\<lparr>nw_waiting := (nw_waiting s)(i := False)\<rparr>"
      using s' by (simp add: forget_def nw_remove_def)
    moreover have "i \<notin> set (waiters s' m)" for m
      using s' True own [of m] waiters_okD(1) [OF note_invD(2) [OF inv], of n] by (auto simp: nw_remove_def)
    moreover have "pending s' n = pending s n" using s' pending_cong [of s' n s] by (simp add: nw_remove_def)
    ultimately show ?thesis using remove_waiter_inv [OF inv] on [OF True] by simp
  next
    case False
    then have "i \<notin> set (waiters s m)" for m using own [of m] waiters_okD(4) [OF note_invD(2) [OF inv]] by fastforce
    then show ?thesis using on_no_list [OF inv] False s' by simp
  qed
  then show "note_inv (forget i s')" "\<And>m. i \<notin> set (waiters s' m)" "pending s' n = pending s n" by blast+
qed

section \<open>The whole call\<close>

definition wait_post ::
  "nat \<Rightarrow> nat \<Rightarrow> nat \<Rightarrow> nsync_time \<Rightarrow> (note_world, note_world \<times> sem_outcome) wait_run \<Rightarrow> bool" where
  "wait_post n i q d r =
     (case r of
        Returns (w, x) \<Rightarrow>
          note_inv (forget i (nt_sys w)) \<and> (\<forall>m. i \<notin> set (waiters (nt_sys w) m)) \<and>
          (x = Sem_ECANCELED \<longrightarrow> \<not> pending (nt_sys w) n) \<and> (x = Sem_ETIMEDOUT \<longrightarrow> d \<le> nt_now w)
      | Sleeps_forever w \<Rightarrow> \<not> d < nsync_time_no_deadline \<and> pending (nt_sys w) n \<and> sem_count (nt_sys w) q = 0
      | More_rounds \<Rightarrow> False)"

text \<open>From the state \<open>w0\<close> after the insertion to the end.\<close>

definition on_list :: "nat \<Rightarrow> nat \<Rightarrow> note_sys \<Rightarrow> bool" where
  "on_list n i s \<longleftrightarrow> (\<forall>m. i \<in> set (waiters s m) \<longrightarrow> m = n) \<and> (pending s n \<longrightarrow> i \<in> set (waiters s n))"

lemma on_list_grow:
  assumes "on_list n i s" "grow n i s s'"
  shows "on_list n i s'"
proof -
  have "i \<in> set (waiters s' n)" if "pending s' n"
  proof (rule ccontr)
    assume "i \<notin> set (waiters s' n)"
    then have "n_notified (note_of s' n)" using growD(7) [OF assms(2)] assms(1) grow_pending(1) [OF assms(2)] that
      unfolding on_list_def by blast
    then show False using that pending_notified by blast
  qed
  then show ?thesis using assms(1) growD(8) [OF assms(2)] unfolding on_list_def by blast
qed

lemma finish_events_ends:
  assumes "wok (Some n) w" "on_list n i (nt_sys w)" "x = Sem_ECANCELED \<Longrightarrow> \<not> pending (nt_sys w) n" "x = Sem_ETIMEDOUT \<Longrightarrow> d \<le> nt_now w"
  shows "ends (\<lambda>k. bind_run (note_events k (Some n) i zs w)
      (\<lambda>w. Done (Returns (if pending (nt_sys w) n then w\<lparr>nt_sys := nw_remove n i (nt_sys w)\<rparr> else w, x)))) (wait_post n i q d)"
proof (rule ends_bind [OF events_ends [OF assms(1)]])
  fix w1
  assume s: "wstep (Some n) i w w1"
  then have g: "grow n i (nt_sys w) (nt_sys w1)" and inv: "note_inv (nt_sys w1)" and t: "nt_now w \<le> nt_now w1"
    by (auto simp: wstep_def)
  have ol: "on_list n i (nt_sys w1)" using on_list_grow [OF assms(2) g] .
  define s' where "s' = (if pending (nt_sys w1) n then nw_remove n i (nt_sys w1) else nt_sys w1)"
  have e: "(if pending (nt_sys w1) n then w1\<lparr>nt_sys := nw_remove n i (nt_sys w1)\<rparr> else w1) = w1\<lparr>nt_sys := s'\<rparr>"
    by (simp add: s'_def)
  have L: "note_inv (forget i s')" "\<And>m. i \<notin> set (waiters s' m)" "pending s' n = pending (nt_sys w1) n"
    using leave_list [OF inv _ _ s'_def] ol unfolding on_list_def by blast+
  show "ends (\<lambda>k. Done (Returns (if pending (nt_sys w1) n then w1\<lparr>nt_sys := nw_remove n i (nt_sys w1)\<rparr> else w1, x))) (wait_post n i q d)"
    unfolding e ends_Done wait_post_def using L assms(3,4) grow_pending(1) [OF g] t order_trans by auto
qed

lemma take_count_keeps:
  "note_inv (nt_sys w) \<Longrightarrow> note_inv (nt_sys (take_count q w))" "note_of (nt_sys (take_count q w)) = note_of (nt_sys w)"
  "allocated (nt_sys (take_count q w)) = allocated (nt_sys w)" "nt_now (take_count q w) = nt_now w"
  by (simp_all add: take_count_def note_inv_cong [of "nt_sys w"])

lemma cancel_finish_ends:
  assumes w: "wok (Some n) w" "on_list n i (nt_sys w)" "pending (nt_sys w) n" "nw_sem (nt_sys w) i = q"
    and t: "deadline_is_nearer \<longleftrightarrow> d < ntime (nt_sys w) n" "l = (if deadline_is_nearer then d else ntime (nt_sys w) n)"
    and p: "sleep_post (Some n) i q l w p"
  shows "ends (\<lambda>k. cancel_finish k n i deadline_is_nearer zs p) (wait_post n i q d)"
proof (cases p)
  case (Stuck w')
  then have s: "wstep (Some n) i w w'" "\<not> l < nsync_time_no_deadline" "sem_count (nt_sys w') q = 0" using p by (simp_all add: sleep_post_def)
  then have g: "grow n i (nt_sys w) (nt_sys w')" and inv: "note_inv (nt_sys w')" by (simp_all add: wstep_def)
  have "i \<in> set (waiters (nt_sys w) n)" using w(2,3) by (simp add: on_list_def)
  then have "i \<in> set (waiters (nt_sys w') n)" using growD(7) [OF g] s(3) w(4) by auto
  then have "pending (nt_sys w') n" using waiters_okD(4) [OF note_invD(2) [OF inv], of n] by fastforce
  moreover have "\<not> d < nsync_time_no_deadline" using s(2) t by (auto split: if_splits)
  ultimately show ?thesis using Stuck s(3) by (simp add: cancel_finish_def wait_post_def)
next
  case (Woken w')
  then obtain w1 where s: "wstep (Some n) i w w1" "w' = take_count q w1" using p by (auto simp: sleep_post_def)
  have "wok (Some n) w1" "on_list n i (nt_sys w1)" using wstep_ok [OF w(1) s(1)] on_list_grow [OF w(2)] s(1) by (auto simp: wstep_def)
  then have "wok (Some n) w'" "on_list n i (nt_sys w')"
    using s(2) take_count_keeps [where w = w1 and q = q] by (auto simp: wok_def clock_ok_def on_list_def pending_def)
  then show ?thesis using Woken finish_events_ends [of n w' i Sem_ok d zs q] by (simp add: cancel_finish_def)
next
  case (Expired w')
  then have s: "wstep (Some n) i w w'" "l \<le> nt_now w'" using p by (simp_all add: sleep_post_def)
  have o: "wok (Some n) w'" "on_list n i (nt_sys w')" using wstep_ok [OF w(1) s(1)] on_list_grow [OF w(2)] s(1) by (auto simp: wstep_def)
  show ?thesis
  proof (cases deadline_is_nearer)
    case True
    then show ?thesis using Expired finish_events_ends [OF o, of Sem_ETIMEDOUT d zs q] s(2) t(2) by (simp add: cancel_finish_def)
  next
    case False
    have inv: "note_inv (nt_sys w')" using o(1) by (simp add: wok_def)
    have N: "ends (\<lambda>k. nsync_note_notify k (nt_now w') n (nt_sys w')) (\<lambda>s. (note_inv s \<and>
        (if pending (nt_sys w') n then told (nt_sys w') n s else s = nt_sys w')) \<and> grow n i (nt_sys w') s)"
      by (rule ends_also [OF note_notify_ends [OF inv]]) (rule grow_note_notify)
    have E: "ends (\<lambda>k. bind_run (note_events k (Some n) i zs (w'\<lparr>nt_sys := s\<rparr>))
        (\<lambda>w. Done (Returns (if pending (nt_sys w) n then w\<lparr>nt_sys := nw_remove n i (nt_sys w)\<rparr> else w, Sem_ECANCELED)))) (wait_post n i q d)"
      if P: "note_inv s" "if pending (nt_sys w') n then told (nt_sys w') n s else s = nt_sys w'" "grow n i (nt_sys w') s" for s
    proof (rule finish_events_ends)
      show "wok (Some n) (w'\<lparr>nt_sys := s\<rparr>)" using o(1) P(1) growD(2) [OF P(3)] by (simp add: wok_def clock_ok_def)
      show "on_list n i (nt_sys (w'\<lparr>nt_sys := s\<rparr>))" using on_list_grow [OF o(2) P(3)] by simp
      show "\<not> pending (nt_sys (w'\<lparr>nt_sys := s\<rparr>)) n" using P(2) by (auto simp: told_def split: if_splits)
    qed simp
    have "ends (\<lambda>k. bind_run (bind_run (nsync_note_notify k (nt_now w') n (nt_sys w')) (\<lambda>s. Done (w'\<lparr>nt_sys := s\<rparr>, Sem_ECANCELED)))
        (\<lambda>(w, r). bind_run (note_events k (Some n) i zs w)
          (\<lambda>w. Done (Returns (if pending (nt_sys w) n then w\<lparr>nt_sys := nw_remove n i (nt_sys w)\<rparr> else w, r))))) (wait_post n i q d)"
      by (rule ends_bind [where P = "\<lambda>(w, r). r = Sem_ECANCELED \<and> (\<exists>s. w = w'\<lparr>nt_sys := s\<rparr> \<and> note_inv s \<and>
          (if pending (nt_sys w') n then told (nt_sys w') n s else s = nt_sys w') \<and> grow n i (nt_sys w') s)"],
          rule ends_bind [OF N]) (use E in auto)
    then show ?thesis using Expired False by (simp add: cancel_finish_def)
  qed
qed

lemma wait_post_cancelled:
  assumes "note_inv (nt_sys w)" "\<not> pending (nt_sys w) n" "\<And>m. i \<notin> set (waiters (nt_sys w) m)"
  shows "wait_post n i q d (Returns (w, Sem_ECANCELED))"
  using on_no_list [OF assms(1,3)] assms by (simp add: wait_post_def)

lemma cancel_sleep_ends:
  assumes w: "wok (Some n) w" "\<And>m. i \<notin> set (waiters (nt_sys w) m)"
  shows "ends (\<lambda>k. cancel_sleep k n i q d ys zs w) (wait_post n i q d)"
proof (cases "pending (nt_sys w) n")
  case False
  then show ?thesis using wait_post_cancelled [of w n i q d] w by (simp add: wok_def cancel_sleep_def pending_def)
next
  case True
  define nearer where "nearer \<longleftrightarrow> nsync_time_cmp d (ntime (nt_sys w) n) < 0"
  define l where "l = (if nearer then d else ntime (nt_sys w) n)"
  define w2 where "w2 = w\<lparr>nt_sys := nw_insert n i q (nt_sys w)\<rparr>"
  have i1: "note_inv (nt_sys w)" "n \<in> allocated (nt_sys w)" using w(1) by (simp_all add: wok_def)
  note I = nw_insert_inv [OF i1(1) w(2) i1(2) True, of q]
  have o: "wok (Some n) w2" "on_list n i (nt_sys w2)"
    using w(1) I waiters_okD(2) [OF note_invD(2) [OF I(1)]] by (auto simp: wok_def clock_ok_def w2_def on_list_def)
  have f: "pending (nt_sys w2) n" "nw_sem (nt_sys w2) i = q" "nearer \<longleftrightarrow> d < ntime (nt_sys w2) n"
    "l = (if nearer then d else ntime (nt_sys w2) n)"
    using I by (simp_all add: w2_def nearer_def l_def cmp_order_time)
  have "ends (\<lambda>k. bind_run (note_sleep k (Some n) i q l ys w2) (cancel_finish k n i nearer zs)) (wait_post n i q d)"
    by (rule ends_bind [OF sleep_ends [OF o(1)]]) (rule cancel_finish_ends [OF o f])
  then show ?thesis using True by (simp add: cancel_sleep_def pending_def Let_def nearer_def l_def w2_def)
qed

lemma wait_with_cancel_ends:
  assumes w: "wok (Some n) w" "\<not> nw_waiting (nt_sys w) i"
  shows "ends (\<lambda>k. nsync_sem_wait_with_cancel k i q d (Some n) (xs, ys, zs) w) (wait_post n i q d)"
proof -
  have inv: "note_inv (nt_sys w)" using w(1) by (simp add: wok_def)
  have off: "i \<notin> set (waiters (nt_sys w) m)" for m using waiters_okD(3) [OF note_invD(2) [OF inv]] w(2) by blast
  have D: "ends (\<lambda>k. nsync_note_notified_deadline k (nt_now w) n (nt_sys w))
    (\<lambda>(s', t). note_inv s' \<and> (pending s' n \<longleftrightarrow> nsync_time_zero < t) \<and> grow n i (nt_sys w) s')"
    by (rule ends_mono [OF ends_also [OF deadline_ends [OF inv], where Q = "\<lambda>(s', t). grow n i (nt_sys w) s'"]])
       (auto dest: grow_deadline)
  have "ends (\<lambda>k. bind_run (nsync_note_notified_deadline k (nt_now w) n (nt_sys w))
      (\<lambda>(s, t). if nsync_time_cmp t nsync_time_zero > 0
         then bind_run (note_events k (Some n) i xs (w\<lparr>nt_sys := s\<rparr>)) (cancel_sleep k n i q d ys zs)
         else Done (Returns (w\<lparr>nt_sys := s\<rparr>, Sem_ECANCELED)))) (wait_post n i q d)"
  proof (rule ends_bind_pair [OF D], elim conjE)
    fix s t
    assume s: "note_inv s" "pending s n \<longleftrightarrow> nsync_time_zero < t" "grow n i (nt_sys w) s"
    have o: "wok (Some n) (w\<lparr>nt_sys := s\<rparr>)" using w(1) s growD(2) [OF s(3)] by (simp add: wok_def clock_ok_def)
    have off1: "i \<notin> set (waiters s m)" for m using off growD(8) [OF s(3)] by blast
    have c: "nsync_time_cmp t nsync_time_zero > 0 \<longleftrightarrow> pending s n" using s(2) by (auto simp: cmp_order_time)
    have "ends (\<lambda>k. bind_run (note_events k (Some n) i xs (w\<lparr>nt_sys := s\<rparr>)) (cancel_sleep k n i q d ys zs)) (wait_post n i q d)"
    proof (rule ends_bind [OF events_ends [OF o]])
      fix w1
      assume g: "wstep (Some n) i (w\<lparr>nt_sys := s\<rparr>) w1"
      then have "grow n i s (nt_sys w1)" by (simp add: wstep_def)
      then show "ends (\<lambda>k. cancel_sleep k n i q d ys zs w1) (wait_post n i q d)"
        using cancel_sleep_ends [OF wstep_ok [OF o g]] off1 growD(8) by blast
    qed
    then show "ends (\<lambda>k. if nsync_time_cmp t nsync_time_zero > 0
         then bind_run (note_events k (Some n) i xs (w\<lparr>nt_sys := s\<rparr>)) (cancel_sleep k n i q d ys zs)
         else Done (Returns (w\<lparr>nt_sys := s\<rparr>, Sem_ECANCELED))) (wait_post n i q d)"
      using wait_post_cancelled [of "w\<lparr>nt_sys := s\<rparr>" n i q d] s(1) off1 unfolding c by (cases "pending s n") simp_all
  qed
  then show ?thesis unfolding nsync_sem_wait_with_cancel_def by simp
qed

text \<open>Without a note, and in the version that ignores it: the semaphore alone decides.\<close>

lemma wait_without_note_ends:
  assumes "wok None w"
  shows "ends (\<lambda>k. nsync_sem_wait_with_cancel k i q d None (xs, ys, zs) w) (\<lambda>r.
      (case r of Returns (w', x) \<Rightarrow> note_inv (nt_sys w') \<and> x \<noteq> Sem_ECANCELED \<and> (x = Sem_ETIMEDOUT \<longrightarrow> d \<le> nt_now w')
       | Sleeps_forever w' \<Rightarrow> \<not> d < nsync_time_no_deadline \<and> sem_count (nt_sys w') q = 0 | More_rounds \<Rightarrow> False))"
    "nsync_sem_wait_no_note k i q d c ys w = nsync_sem_wait_with_cancel k i q d None (xs, ys, zs) w"
proof -
  have "ends (\<lambda>k. bind_run (note_sleep k None i q d ys w) (\<lambda>p. Done (p_outcome p))) (\<lambda>r.
      (case r of Returns (w', x) \<Rightarrow> note_inv (nt_sys w') \<and> x \<noteq> Sem_ECANCELED \<and> (x = Sem_ETIMEDOUT \<longrightarrow> d \<le> nt_now w')
       | Sleeps_forever w' \<Rightarrow> \<not> d < nsync_time_no_deadline \<and> sem_count (nt_sys w') q = 0 | More_rounds \<Rightarrow> False))"
  proof (rule ends_bind [OF sleep_ends [OF assms]])
    fix p
    assume "sleep_post None i q d w p"
    then show "ends (\<lambda>k. Done (p_outcome p)) (\<lambda>r.
      (case r of Returns (w', x) \<Rightarrow> note_inv (nt_sys w') \<and> x \<noteq> Sem_ECANCELED \<and> (x = Sem_ETIMEDOUT \<longrightarrow> d \<le> nt_now w')
       | Sleeps_forever w' \<Rightarrow> \<not> d < nsync_time_no_deadline \<and> sem_count (nt_sys w') q = 0 | More_rounds \<Rightarrow> False))"
      using take_count_keeps(1) by (cases p) (auto simp: sleep_post_def wstep_def)
  qed
  then show "ends (\<lambda>k. nsync_sem_wait_with_cancel k i q d None (xs, ys, zs) w) (\<lambda>r.
      (case r of Returns (w', x) \<Rightarrow> note_inv (nt_sys w') \<and> x \<noteq> Sem_ECANCELED \<and> (x = Sem_ETIMEDOUT \<longrightarrow> d \<le> nt_now w')
       | Sleeps_forever w' \<Rightarrow> \<not> d < nsync_time_no_deadline \<and> sem_count (nt_sys w') q = 0 | More_rounds \<Rightarrow> False))"
    by (simp add: nsync_sem_wait_with_cancel_def)
qed (simp add: nsync_sem_wait_no_note_def nsync_sem_wait_with_cancel_def)

section \<open>Properties\<close>

text \<open>C24. \<^verbatim>\<open>nsync_sem_wait_with_cancel_\<close> with a note, whatever whole operations other threads
  apply to notes meanwhile (operations on notes do not overlap) and whatever the clock does: with
  enough fuel for the height of the tree of notes it either returns, and then its
  struct is on no list, the notes are in a good state once the struct is given up, \<^verbatim>\<open>ECANCELED\<close>
  means that the note is notified and \<^verbatim>\<open>ETIMEDOUT\<close> that the deadline has passed; or it sleeps for
  ever, and then there is no deadline, the note is not notified and the semaphore's count is 0.\<close>

theorem sem_wait_with_cancel_correct:
  assumes "note_inv (nt_sys w)" "n \<in> allocated (nt_sys w)" "\<not> nw_waiting (nt_sys w) i"
    "nsync_time_zero \<le> nt_now w" "nt_now w < nsync_time_no_deadline"
  shows "\<exists>k0 r. (\<forall>k\<ge>k0. nsync_sem_wait_with_cancel k i q d (Some n) (xs, ys, zs) w = Done r) \<and>
    ((\<exists>w' x. r = Returns (w', x) \<and> note_inv (forget i (nt_sys w')) \<and> (\<forall>m. i \<notin> set (waiters (nt_sys w') m)) \<and>
        (x = Sem_ECANCELED \<longrightarrow> \<not> pending (nt_sys w') n) \<and> (x = Sem_ETIMEDOUT \<longrightarrow> d \<le> nt_now w')) \<or>
     (\<exists>w'. r = Sleeps_forever w' \<and> \<not> d < nsync_time_no_deadline \<and> pending (nt_sys w') n \<and> sem_count (nt_sys w') q = 0))"
proof -
  have "wok (Some n) w" using assms by (simp add: wok_def clock_ok_def)
  then obtain k0 r where r: "\<forall>k\<ge>k0. nsync_sem_wait_with_cancel k i q d (Some n) (xs, ys, zs) w = Done r" "wait_post n i q d r"
    using wait_with_cancel_ends [of n w i] assms(3) unfolding ends_def by blast
  then show ?thesis by (intro exI [of _ k0] exI [of _ r]) (cases r; auto simp: wait_post_def)
qed

theorem sem_wait_with_cancel_correct_witness:
  "\<exists>k w' x. nsync_sem_wait_with_cancel k 7 3 (Timespec 1 0) (Some 2) ([], [N_op (Note_notify 0)], [])
       \<lparr>nt_sys = family, nt_now = nsync_time_zero\<rparr> = Done (Returns (w', x)) \<and> 7 \<notin> set (waiters (nt_sys w') 2)"
proof -
  let ?w = "\<lparr>nt_sys = family, nt_now = nsync_time_zero\<rparr>"
  have d: "Timespec 1 0 < nsync_time_no_deadline" "nsync_time_zero < nsync_time_no_deadline"
    by (simp_all add: nsync_time_no_deadline_def nsync_time_zero_def less_nsync_time_def)
  have "2 \<in> allocated family" "\<not> nw_waiting family 7" by (simp_all add: family_def no_notes_def)
  then obtain k0 r where r: "\<forall>k\<ge>k0. nsync_sem_wait_with_cancel k 7 3 (Timespec 1 0) (Some 2) ([], [N_op (Note_notify 0)], []) ?w = Done r"
    "\<exists>w' x. r = Returns (w', x) \<and> (\<forall>m. 7 \<notin> set (waiters (nt_sys w') m))"
    using sem_wait_with_cancel_correct [of ?w 2 7 3 "Timespec 1 0" "[]" "[N_op (Note_notify 0)]" "[]"]
      note_serial_inv [OF family_serial] d by auto
  then show ?thesis by blast
qed

end
