(* ===== verification/Note_Wait.thy ===== *)
theory Note_Wait
  imports Sem_Wait
begin

text \<open>
  \<^verbatim>\<open>nsync_note_wait\<close> of \<^verbatim>\<open>internal/note.c\<close>: the note as an object of \<^verbatim>\<open>nsync_wait_n\<close>, among
  arbitrary operations of other threads on notes, each of which happens as a whole between two steps
  of the wait: executions in which operations on notes overlap (theory \<open>Note_Steps\<close>) are not
  covered, and in these the wait may not end.  The fuel that an operation needs is bounded by
  the number of allocated notes, so that the functions of the note are total here.
\<close>

section \<open>Enough fuel\<close>

definition note_fuel :: "note_sys \<Rightarrow> nat" where
  "note_fuel s = Suc (Suc (card (allocated s)))"

lemma height_nodes: "height t \<le> length (nodes t)"
proof (induction t)
  case (Node n ts)
  have "height t \<le> length (concat (map nodes ts))" if "t \<in> set ts" for t
    using Node.IH [OF that] that by (induction ts) auto
  then show ?case by auto
qed

lemma nodes_allocated:
  assumes "note_inv s" "rep s t" "m \<in> set (nodes t)"
  shows "m = root t \<or> m \<in> allocated s"
  using rep_closed [OF assms(2,3)] note_invD(4) [OF assms(1), of m] by auto

lemma height_fuel:
  assumes "note_inv s" "finite (allocated s)" "rep s t" "distinct (nodes t)"
  shows "height t \<le> Suc (card (allocated s))"
proof -
  have "set (nodes t) \<subseteq> insert (root t) (allocated s)" using nodes_allocated [OF assms(1,3)] by blast
  then have "card (set (nodes t)) \<le> Suc (card (allocated s))"
    using card_mono [of "insert (root t) (allocated s)"] card_insert_le_m1 assms(2)
    by (metis card_insert_if finite_insert le_SucI order.trans order_refl)
  then show ?thesis using height_nodes [of t] distinct_card [OF assms(4)] by simp
qed

text \<open>The state after a note and all below it are notified.\<close>

definition hushed :: "nat \<Rightarrow> note_sys \<Rightarrow> note_sys \<Rightarrow> bool" where
  "hushed n s s' \<longleftrightarrow>
     (\<exists>t. root t = n \<and> rep s t \<and> distinct (nodes t) \<and> s' = unlink_child (parent s n) n (hush (nodes t) s))"

lemma notify_state:
  assumes "note_inv s" "notify k n s = Done s'"
  shows "if pending s n then hushed n s s' else s' = s"
proof (cases "pending s n")
  case True
  obtain t where t: "root t = n" "rep s t" "distinct (nodes t)" by (rule tree_exists [OF assms(1) True])
  have "notify (max k (height t)) n s = Done s'" using fuel_le_notify [of k "max k (height t)" n s] assms(2) fuel_le_Done by fastforce
  then have "s' = unlink_child (parent s n) n (hush (nodes t) s)" using notify_result [OF assms(1) t, of "max k (height t)"] by simp
  then show ?thesis using True t by (auto simp: hushed_def)
next
  case False
  then show ?thesis using assms(2) by (simp add: notify_def notify_begin_def)
qed

lemma hushed_keeps:
  assumes "note_inv s" "hushed n s s'"
  shows "note_inv s'" "allocated s' = allocated s" "nw_sem s' = nw_sem s" "\<not> pending s' n"
proof -
  obtain t where t: "root t = n" "rep s t" "distinct (nodes t)" "s' = unlink_child (parent s n) n (hush (nodes t) s)"
    using assms(2) by (auto simp: hushed_def)
  show "note_inv s'" using notify_inv [OF assms(1) t(1-3)] t(4) by simp
  show "allocated s' = allocated s" "nw_sem s' = nw_sem s" using t(4) by (simp_all add: unlink_child_def hush_def split: option.split)
  show "\<not> pending s' n" using notify_told [OF assms(1) t(1-3)] t(4) by (simp add: told_def)
qed

lemma notify_fuel:
  assumes "note_inv s" "finite (allocated s)" "Suc (card (allocated s)) \<le> k"
  shows "\<exists>s'. notify k n s = Done s'"
proof (cases "pending s n")
  case True
  obtain t where t: "root t = n" "rep s t" "distinct (nodes t)" by (rule tree_exists [OF assms(1) True])
  have "height t \<le> k" using height_fuel [OF assms(1,2) t(2,3)] assms(3) by simp
  then show ?thesis using notify_result [OF assms(1) t] by blast
qed (simp add: notify_def notify_begin_def)

lemma deadline_state:
  assumes "note_inv s" "nsync_note_notified_deadline k now n s = Done (s', t)"
  shows "s' = s \<or> hushed n s s'" "pending s' n \<longleftrightarrow> nsync_time_zero < t" "pending s' n \<Longrightarrow> s' = s \<and> t = ntime s n"
    "ntime s n \<le> now \<Longrightarrow> \<not> pending s' n"
proof -
  have "(s' = s \<or> hushed n s s') \<and> (pending s' n \<longleftrightarrow> nsync_time_zero < t) \<and> (pending s' n \<longrightarrow> s' = s \<and> t = ntime s n) \<and>
    (ntime s n \<le> now \<longrightarrow> \<not> pending s' n)"
  proof (cases "n_notified (note_of s n) \<or> \<not> (pending s n \<and> ntime s n \<le> now)")
    case True
    then show ?thesis using assms(2) pending_notified [of s n]
      by (auto simp: nsync_note_notified_deadline_def Let_def pending_less cmp_order_time split: if_splits)
  next
    case False
    then have "notify k n s = Done s'" "t = nsync_time_zero"
      using assms(2) by (auto simp: nsync_note_notified_deadline_def Let_def pending_less cmp_order_time split: if_splits)
    then show ?thesis using notify_state [OF assms(1), of k n s'] False hushed_keeps(4) [OF assms(1)] by auto
  qed
  then show "s' = s \<or> hushed n s s'" "pending s' n \<longleftrightarrow> nsync_time_zero < t" "pending s' n \<Longrightarrow> s' = s \<and> t = ntime s n"
    "ntime s n \<le> now \<Longrightarrow> \<not> pending s' n" by blast+
qed

lemma deadline_keeps:
  assumes "note_inv s" "nsync_note_notified_deadline k now n s = Done (s', t)"
  shows "note_inv s'" "allocated s' = allocated s" "nw_sem s' = nw_sem s"
  using deadline_state(1) [OF assms] hushed_keeps [OF assms(1)] assms(1) by auto

lemma deadline_fuel:
  assumes "note_inv s" "finite (allocated s)" "Suc (card (allocated s)) \<le> k"
  shows "\<exists>s' t. nsync_note_notified_deadline k now n s = Done (s', t)"
  using notify_fuel [OF assms, of n] by (auto simp: nsync_note_notified_deadline_def Let_def)

lemma new_inv0:
  assumes "note_inv s" "m \<notin> allocated s"
  shows "note_inv (set_expiry_time m d (upd_note m (\<lambda>_. empty_note) (s\<lparr>allocated := insert m (allocated s)\<rparr>)))" (is "note_inv ?s")
proof -
  have "?s = (upd_note m (\<lambda>_. empty_note\<lparr>n_expiry_time := d, n_expiry_time_valid := True\<rparr>) s)\<lparr>allocated := insert m (allocated s)\<rparr>"
    by (rule note_sys_eqI) (simp_all add: set_expiry_time_def)
  then show ?thesis using replace_inv [OF assms(1), of m] note_invD(3,4) [OF assms(1), of m] assms(2) by (simp add: lone_def empty_note_def)
qed

lemma do_fuel:
  assumes inv: "note_inv s" "finite (allocated s)" "note_op_ok x s"
  shows "\<exists>s'. note_do (note_fuel s) now x s = Done s'"
proof -
  have D: "\<exists>s' t. nsync_note_notified_deadline (note_fuel s) now n s = Done (s', t)" for n
    using deadline_fuel [OF inv(1,2), of "note_fuel s"] by (simp add: note_fuel_def)
  show ?thesis
  proof (cases x)
    case (Note_notify n)
    obtain s1 t where s1: "nsync_note_notified_deadline (note_fuel s) now n s = Done (s1, t)" using D by blast
    show ?thesis using notify_fuel [of s1 "note_fuel s" n] deadline_keeps [OF inv(1) s1] inv(2) s1 Note_notify
      by (auto simp: nsync_note_notify_def note_fuel_def)
  next
    case (Note_is_notified n)
    then show ?thesis using D [of n] by (auto simp: nsync_note_is_notified_def)
  next
    case (Note_new mem par d)
    show ?thesis
    proof (cases mem)
      case (Some m)
      let ?s = "set_expiry_time m d (upd_note m (\<lambda>_. empty_note) (s\<lparr>allocated := insert m (allocated s)\<rparr>))"
      have m: "m \<notin> allocated s" using inv(3) Note_new Some by simp
      have "allocated ?s = insert m (allocated s)" by (simp add: set_expiry_time_def)
      then show ?thesis using deadline_fuel [OF new_inv0 [OF inv(1) m], of d "note_fuel s" now m] inv(2) m Note_new Some
        by (auto simp: nsync_note_new_def nsync_note_is_notified_def note_fuel_def)
    qed (use Note_new in \<open>simp add: nsync_note_new_def\<close>)
  next
    case (Note_free n)
    then show ?thesis using free_result [OF inv(1), of n] inv(3) unfolding Note_free by force
  next
    case (Note_dequeue n i)
    obtain s1 t where "nsync_note_notified_deadline (note_fuel s) now n s = Done (s1, t)" using D by blast
    then show ?thesis using Note_dequeue by (cases "pending s1 n") (simp_all add: note_dequeue_def del: bind_run_Done)
  qed simp
qed

section \<open>How often a waiter is woken\<close>

text \<open>The struct \<open>i\<close> is the only one with the semaphore \<open>q\<close>; it is woken once for each time it is enqueued.\<close>

definition posts :: "nat \<Rightarrow> nat \<Rightarrow> note_sys \<Rightarrow> note_sys \<Rightarrow> bool" where
  "posts i q s s' \<longleftrightarrow>
     sem_count s' q + of_bool (nw_waiting s' i) \<le> sem_count s q + of_bool (nw_waiting s i) \<and>
     (nw_waiting s' i \<longrightarrow> nw_waiting s i) \<and> (finite (allocated s) \<longrightarrow> finite (allocated s'))"

lemma posts_refl: "posts i q s s"
  by (simp add: posts_def)

lemma posts_trans: "posts i q s s' \<Longrightarrow> posts i q s' s'' \<Longrightarrow> posts i q s s''"
  unfolding posts_def by auto

lemma distinct_concat_map:
  "distinct xs \<Longrightarrow> (\<And>x. distinct (f x)) \<Longrightarrow> (\<And>x y. x \<noteq> y \<Longrightarrow> set (f x) \<inter> set (f y) = {}) \<Longrightarrow> distinct (concat (map f xs))"
proof (induction xs)
  case (Cons a xs)
  then have "set (f a) \<inter> set (f x) = {}" if "x \<in> set xs" for x using that by (metis distinct.simps(2))
  then show ?case using Cons by auto
qed simp

lemma hushed_posts:
  assumes inv: "note_inv s" and q: "\<And>j. j \<noteq> i \<Longrightarrow> nw_sem s j \<noteq> q" and h: "hushed n s s'"
  shows "posts i q s s'"
proof -
  obtain t where t: "distinct (nodes t)" "s' = unlink_child (parent s n) n (hush (nodes t) s)" using h by (auto simp: hushed_def)
  note W = waiters_okD [OF note_invD(2) [OF inv]]
  let ?ws = "concat (map (\<lambda>m. waiters s m) (nodes t))"
  have "distinct ?ws" by (rule distinct_concat_map [OF t(1)]) (use W(1,2) in blast)+
  then have "length (filter (\<lambda>j. nw_sem s j = q) ?ws) = of_bool (i \<in> set ?ws \<and> nw_sem s i = q)"
    by (rule filter_own) (use q in blast)
  moreover define b where "b \<longleftrightarrow> i \<in> set ?ws"
  moreover define l where "l = length (filter (\<lambda>j. nw_sem s j = q) ?ws)"
  ultimately have "l \<le> of_bool b" by simp
  moreover have "nw_waiting s' i \<longleftrightarrow> nw_waiting s i \<and> \<not> b" "sem_count s' q = sem_count s q + l" "allocated s' = allocated s"
    using t(2) unfolding b_def l_def by (auto simp: unlink_child_def hush_def split: option.split)
  moreover have "nw_waiting s i" if b using that W(3) [of i] by (auto simp: b_def)
  ultimately show ?thesis unfolding posts_def by (cases b) auto
qed

lemma deadline_posts:
  assumes "note_inv s" "\<And>j. j \<noteq> i \<Longrightarrow> nw_sem s j \<noteq> q" "nsync_note_notified_deadline k now n s = Done (s', t)"
  shows "posts i q s s'"
  using deadline_state(1) [OF assms(1,3)] hushed_posts [OF assms(1,2)] posts_refl by blast

lemma free_children_sem: "sem_count (free_children m par cs s) = sem_count s"
proof (induction cs arbitrary: s)
  case (Cons c cs)
  then show ?case by (cases par) (simp_all add: Let_def)
qed simp

lemma free_sem: "nsync_note_free n s = Done s' \<Longrightarrow> sem_count s' = sem_count s"
  by (auto simp: nsync_note_free_def note_free_begin_def note_free_finish_def Let_def unlink_child_def free_children_sem
      split: if_splits option.splits)

lemma do_posts:
  assumes inv: "note_inv s" and q: "\<And>j. j \<noteq> i \<Longrightarrow> nw_sem s j \<noteq> q" and x: "note_op_ok x s" "foreign c i x" "note_do k now x s = Done s'"
  shows "posts i q s s'"
proof (cases x)
  case (Note_notify n)
  then obtain s1 t where s1: "nsync_note_notified_deadline k now n s = Done (s1, t)"
    "(if nsync_time_cmp t nsync_time_zero > 0 then notify k n s1 else Done s1) = Done s'"
    using x(3) by (auto simp: nsync_note_notify_def)
  have "posts i q s1 s'"
    using s1(2) notify_state [OF deadline_keeps(1) [OF inv s1(1)], of k n s'] hushed_posts [OF deadline_keeps(1) [OF inv s1(1)], of i q n s']
      q deadline_keeps(3) [OF inv s1(1)] posts_refl by (auto split: if_splits)
  then show ?thesis using deadline_posts [OF inv q s1(1)] posts_trans by blast
next
  case (Note_is_notified n)
  then show ?thesis using x(3) deadline_posts [OF inv q] by (auto simp: nsync_note_is_notified_def)
next
  case (Note_new mem par d)
  show ?thesis
  proof (cases mem)
    case (Some m)
    let ?s = "set_expiry_time m d (upd_note m (\<lambda>_. empty_note) (s\<lparr>allocated := insert m (allocated s)\<rparr>))"
    have m: "m \<notin> allocated s" using x(1) Note_new Some by simp
    obtain s1 t where s1: "nsync_note_notified_deadline k now m ?s = Done (s1, t)" "s' = note_new_link m par d s1 (nsync_time_cmp t nsync_time_zero \<le> 0)"
      using x(3) Note_new Some by (auto simp: nsync_note_new_def nsync_note_is_notified_def)
    have "posts i q ?s s1" by (rule deadline_posts [OF new_inv0 [OF inv m] _ s1(1)]) (use q in \<open>simp add: set_expiry_time_def\<close>)
    moreover have "posts i q s ?s" by (simp add: posts_def set_expiry_time_def)
    moreover have "posts i q s1 s'" unfolding s1(2) by (auto simp: note_new_link_def Let_def set_expiry_time_def posts_def split: option.split)
    ultimately show ?thesis using posts_trans by blast
  qed (use x(3) Note_new posts_refl in \<open>simp add: nsync_note_new_def\<close>)
next
  case (Note_free n)
  then obtain s1 where "nsync_note_free n s = Done s1" "allocated s1 = allocated s - {n}" "nw_waiting s1 = nw_waiting s"
    using free_result [OF inv, of n] x(1) by auto
  then show ?thesis using x(3) Note_free free_sem [of n s s1] by (simp add: posts_def)
next
  case (Note_enqueue n j)
  then show ?thesis using x(2,3) by (cases "pending s n") (auto simp: note_enqueue_def posts_def)
next
  case (Note_dequeue n j)
  then obtain s1 t where s1: "nsync_note_notified_deadline k now n s = Done (s1, t)"
    "(if pending s1 n then Done ((upd_note n (\<lambda>x. x\<lparr>n_waiters := remove1 j (n_waiters x)\<rparr>) s1)\<lparr>nw_waiting := (nw_waiting s1)(j := False)\<rparr>, True)
      else Done (s1, False)) = Done (s', True) \<or> s' = s1"
    using x(3) by (auto simp: note_dequeue_def split: if_splits)
  have "posts i q s1 s'" using s1(2) x(2) Note_dequeue by (auto simp: posts_def split: if_splits)
  then show ?thesis using deadline_posts [OF inv q s1(1)] posts_trans by blast
qed

section \<open>The world of a waiting thread\<close>

text \<open>\<open>None\<close> ends the events that happen before the next call.\<close>

record wait_world =
  v_world :: note_world
  v_events :: "note_event option list"

definition settle :: "note_world \<Rightarrow> note_world run \<Rightarrow> note_world" where
  "settle w r = (case r of Done w' \<Rightarrow> w' | _ \<Rightarrow> w)"

definition happens :: "nat \<Rightarrow> nat \<Rightarrow> note_event \<Rightarrow> note_world \<Rightarrow> note_world" where
  "happens n i x w = settle w (note_event (note_fuel (nt_sys w)) (Some n) i x w)"

fun happens_until :: "nat \<Rightarrow> nat \<Rightarrow> note_event option list \<Rightarrow> note_world \<Rightarrow> wait_world" where
  "happens_until n i [] w = \<lparr>v_world = w, v_events = []\<rparr>"
| "happens_until n i (None # xs) w = \<lparr>v_world = w, v_events = xs\<rparr>"
| "happens_until n i (Some x # xs) w = happens_until n i xs (happens n i x w)"

definition others :: "nat \<Rightarrow> nat \<Rightarrow> wait_world \<Rightarrow> wait_world" where
  "others n i v = happens_until n i (v_events v) (v_world v)"

fun sleeps :: "nat \<Rightarrow> nat \<Rightarrow> nat \<Rightarrow> nsync_time \<Rightarrow> note_event option list \<Rightarrow> note_world \<Rightarrow> wait_world sleep" where
  "sleeps n i q d xs w =
     (if 0 < sem_count (nt_sys w) q then Woken \<lparr>v_world = take_count q w, v_events = xs\<rparr>
      else if d \<le> nt_now w then Expired \<lparr>v_world = w, v_events = xs\<rparr>
      else case xs of
        [] \<Rightarrow> if d < nsync_time_no_deadline then Expired \<lparr>v_world = w\<lparr>nt_now := d\<rparr>, v_events = []\<rparr>
              else Stuck \<lparr>v_world = w, v_events = []\<rparr>
      | x # xs \<Rightarrow> sleeps n i q d xs (case x of None \<Rightarrow> w | Some x \<Rightarrow> happens n i x w))"

declare sleeps.simps [simp del]

abbreviation v_sys :: "wait_world \<Rightarrow> note_sys" where "v_sys v \<equiv> nt_sys (v_world v)"

definition set_sys :: "note_sys \<Rightarrow> wait_world \<Rightarrow> wait_world" where
  "set_sys s v = v\<lparr>v_world := (v_world v)\<lparr>nt_sys := s\<rparr>\<rparr>"

text \<open>An operation of the caller, after other threads ran.\<close>

definition own :: "nat \<Rightarrow> nat \<Rightarrow> (nsync_time \<Rightarrow> note_sys \<Rightarrow> (note_sys \<times> 'a) run) \<Rightarrow> 'a \<Rightarrow> wait_world \<Rightarrow> wait_world \<times> 'a" where
  "own n i g a v =
     (let v = others n i v
      in case g (nt_now (v_world v)) (v_sys v) of Done (s, x) \<Rightarrow> (set_sys s v, x) | _ \<Rightarrow> (v, a))"

definition note_calls :: "nat \<Rightarrow> nat \<Rightarrow> nat \<Rightarrow> wait_world wait_calls" where
  "note_calls n i q =
     \<lparr>lock_mu = others n i, unlock_mu = others n i, waiter_new = others n i, waiter_free = others n i,
      init_nw = \<lambda>_ v. set_sys ((v_sys v)\<lparr>nw_sem := (nw_sem (v_sys v))(i := q), nw_waiting := (nw_waiting (v_sys v))(i := False)\<rparr>) v,
      semaphore_p = \<lambda>d v. sleeps n i q d (v_events v) (v_world v)\<rparr>"

definition nsync_note_waitable_funcs :: "nat \<Rightarrow> nat \<Rightarrow> wait_world waitable" where
  "nsync_note_waitable_funcs n i =
     \<lparr>ready_time = \<lambda>_. own n i (\<lambda>now s. note_ready_time (note_fuel s) now n s) nsync_time_zero,
      enqueue = \<lambda>_. own n i (\<lambda>now s. Done (note_enqueue n i s)) False,
      dequeue = \<lambda>_. own n i (\<lambda>now s. note_dequeue (note_fuel s) now n i s) False\<rparr>"

definition nsync_note_wait :: "nat \<Rightarrow> nat \<Rightarrow> nat \<Rightarrow> nat \<Rightarrow> nsync_time \<Rightarrow> wait_world \<Rightarrow> (wait_world, wait_world \<times> bool) wait_run" where
  "nsync_note_wait fuel n i q abs_deadline v =
     (case nsync_wait_n fuel (note_calls n i q) False abs_deadline [nsync_note_waitable_funcs n i] v of
        Returns (v, r) \<Rightarrow> Returns (v, r = 0)
      | Sleeps_forever v \<Rightarrow> Sleeps_forever v
      | More_rounds \<Rightarrow> More_rounds)"

section \<open>The laws of waitable objects\<close>

definition winv :: "nat \<Rightarrow> nat \<Rightarrow> nat \<Rightarrow> note_world \<Rightarrow> bool" where
  "winv n i q w \<longleftrightarrow>
     wok (Some n) w \<and> finite (allocated (nt_sys w)) \<and> (\<forall>j. j \<noteq> i \<longrightarrow> nw_sem (nt_sys w) j \<noteq> q) \<and>
     (\<forall>m. i \<in> set (waiters (nt_sys w) m) \<longrightarrow> m = n) \<and> (nw_waiting (nt_sys w) i \<longrightarrow> nw_sem (nt_sys w) i = q)"

definition vstep :: "nat \<Rightarrow> nat \<Rightarrow> nat \<Rightarrow> note_world \<Rightarrow> note_world \<Rightarrow> bool" where
  "vstep n i q w w' \<longleftrightarrow>
     winv n i q w \<and> winv n i q w' \<and> nt_now w \<le> nt_now w' \<and> grow n i (nt_sys w) (nt_sys w') \<and> posts i q (nt_sys w) (nt_sys w')"

lemma winvD:
  assumes "winv n i q w"
  shows "note_inv (nt_sys w)" "clock_ok w" "n \<in> allocated (nt_sys w)" "finite (allocated (nt_sys w))"
    "\<And>j. j \<noteq> i \<Longrightarrow> nw_sem (nt_sys w) j \<noteq> q" "\<And>m. i \<in> set (waiters (nt_sys w) m) \<Longrightarrow> m = n"
    "nw_waiting (nt_sys w) i \<Longrightarrow> nw_sem (nt_sys w) i = q" "nw_waiting (nt_sys w) i \<longleftrightarrow> i \<in> set (waiters (nt_sys w) n)"
proof -
  show i: "note_inv (nt_sys w)" "clock_ok w" "n \<in> allocated (nt_sys w)" "finite (allocated (nt_sys w))"
    "\<And>j. j \<noteq> i \<Longrightarrow> nw_sem (nt_sys w) j \<noteq> q" "\<And>m. i \<in> set (waiters (nt_sys w) m) \<Longrightarrow> m = n"
    "nw_waiting (nt_sys w) i \<Longrightarrow> nw_sem (nt_sys w) i = q"
    using assms by (auto simp: winv_def wok_def)
  show "nw_waiting (nt_sys w) i \<longleftrightarrow> i \<in> set (waiters (nt_sys w) n)"
    using i(6) waiters_okD(3) [OF note_invD(2) [OF i(1)], of i] by blast
qed

lemma vstep_refl: "winv n i q w \<Longrightarrow> vstep n i q w w"
  by (simp add: vstep_def grow_refl posts_refl)

lemma vstep_trans: "vstep n i q w w' \<Longrightarrow> vstep n i q w' w'' \<Longrightarrow> vstep n i q w w''"
  unfolding vstep_def using grow_trans posts_trans order_trans by blast

lemma vstepI:
  assumes w: "winv n i q w" and w': "note_inv (nt_sys w')" "clock_ok w'" "nt_now w \<le> nt_now w'"
    "grow n i (nt_sys w) (nt_sys w')" "posts i q (nt_sys w) (nt_sys w')"
  shows "vstep n i q w w'"
proof -
  note g = growD [OF w'(4)] and W = winvD [OF w]
  have p: "nw_waiting (nt_sys w') i \<Longrightarrow> nw_waiting (nt_sys w) i" "finite (allocated (nt_sys w'))"
    using w'(5) W(4) by (auto simp: posts_def)
  have "winv n i q w'"
    unfolding winv_def wok_def g(1) using w'(1,2) p g(2) [OF W(3)] W(5-7) g(8) by blast
  then show ?thesis using w w' by (simp add: vstep_def)
qed

lemma happens_step:
  assumes "winv n i q w"
  shows "vstep n i q w (happens n i x w)"
proof (cases x)
  case (N_op y)
  note W = winvD [OF assms]
  show ?thesis
  proof (cases "note_op_ok y (nt_sys w) \<and> foreign (Some n) i y")
    case True
    obtain s' where s': "note_do (note_fuel (nt_sys w)) (nt_now w) y (nt_sys w) = Done s'"
      using do_fuel [OF W(1,4)] True by blast
    have "note_inv s'" by (rule ends_unique [OF note_do_ends [OF W(1)] fuel_le_do s']) (use True in blast)
    moreover have "grow n i (nt_sys w) s'" by (rule grow_do [OF s']) (use True W(3) in auto)
    moreover have "posts i q (nt_sys w) s'" by (rule do_posts [OF W(1,5) _ _ s', of _ "Some n"]) (use True in auto)
    moreover have "happens n i x w = w\<lparr>nt_sys := s'\<rparr>" using True s' N_op by (simp add: happens_def settle_def note_event_def)
    ultimately show ?thesis using vstepI [OF assms, of "w\<lparr>nt_sys := s'\<rparr>"] W(2) by (simp add: clock_ok_def)
  next
    case False
    then have "happens n i x w = w" using N_op by (auto simp: happens_def settle_def note_event_def)
    then show ?thesis using vstep_refl [OF assms] by simp
  qed
next
  case (N_tick t)
  then have "happens n i x w = w \<or> happens n i x w = w\<lparr>nt_now := t\<rparr> \<and> nt_now w < t \<and> t < nsync_time_no_deadline"
    by (auto simp: happens_def settle_def note_event_def)
  then show ?thesis using vstep_refl [OF assms] vstepI [OF assms, of "w\<lparr>nt_now := t\<rparr>"] winvD(1,2) [OF assms]
    by (auto simp: clock_ok_def grow_refl posts_refl)
qed

lemma vstep_inv: "vstep n i q w w' \<Longrightarrow> winv n i q w'"
  by (simp add: vstep_def)

lemma until_vstep: "winv n i q w \<Longrightarrow> vstep n i q w (v_world (happens_until n i xs w))"
proof (induction n i xs w rule: happens_until.induct)
  case (3 n i x xs w)
  note h = happens_step [OF 3(2), of x]
  show ?case using vstep_trans [OF h 3(1) [OF vstep_inv [OF h]]] by simp
qed (simp_all add: vstep_refl)

lemma others_vstep: "winv n i q (v_world v) \<Longrightarrow> vstep n i q (v_world v) (v_world (others n i v))"
  unfolding others_def by (rule until_vstep)

lemma sleeps_spec:
  assumes "winv n i q w"
  shows "case sleeps n i q d xs w of
      Woken v \<Rightarrow> \<exists>w1. vstep n i q w w1 \<and> 0 < sem_count (nt_sys w1) q \<and> v_world v = take_count q w1
    | Expired v \<Rightarrow> vstep n i q w (v_world v) \<and> d \<le> nt_now (v_world v)
    | Stuck v \<Rightarrow> vstep n i q w (v_world v) \<and> \<not> d < nsync_time_no_deadline \<and> sem_count (v_sys v) q = 0"
  using assms
proof (induction xs arbitrary: w)
  case Nil
  have "vstep n i q w (w\<lparr>nt_now := d\<rparr>)" if "\<not> d \<le> nt_now w" "d < nsync_time_no_deadline"
    using that winvD(1,2) [OF Nil] by (intro vstepI [OF Nil]) (auto simp: clock_ok_def grow_refl posts_refl)
  then show ?case using vstep_refl [OF Nil] by (subst sleeps.simps) auto
next
  case (Cons x xs)
  define w1 where "w1 = (case x of None \<Rightarrow> w | Some x \<Rightarrow> happens n i x w)"
  have h: "vstep n i q w w1" unfolding w1_def using happens_step [OF Cons.prems] vstep_refl [OF Cons.prems] by (simp split: option.split)
  show ?case
  proof (cases "0 < sem_count (nt_sys w) q \<or> d \<le> nt_now w")
    case True
    then show ?thesis using vstep_refl [OF Cons.prems] by (subst sleeps.simps) auto
  next
    case False
    then have "sleeps n i q d (x # xs) w = sleeps n i q d xs w1" by (subst sleeps.simps) (simp add: w1_def)
    then show ?thesis using Cons.IH [OF vstep_inv [OF h]] vstep_trans [OF h] by (auto split: sleep.splits)
  qed
qed

definition nv_inv :: "nat \<Rightarrow> nat \<Rightarrow> nat \<Rightarrow> wait_world \<Rightarrow> bool" where
  "nv_inv n i q v \<longleftrightarrow> winv n i q (v_world v)"

definition nv_later :: "nat \<Rightarrow> nat \<Rightarrow> nat \<Rightarrow> wait_world \<Rightarrow> wait_world \<Rightarrow> bool" where
  "nv_later n i q v v' \<longleftrightarrow>
     nv_inv n i q v \<and> nv_inv n i q v' \<and> nt_now (v_world v) \<le> nt_now (v_world v') \<and>
     (pending (v_sys v') n \<longrightarrow> pending (v_sys v) n \<and> ntime (v_sys v') n = ntime (v_sys v) n)"

definition nv_queued :: "nat \<Rightarrow> nat \<Rightarrow> wait_world \<Rightarrow> bool" where
  "nv_queued i j v \<longleftrightarrow> j = 0 \<and> nw_waiting (v_sys v) i"

definition nv_ready :: "nat \<Rightarrow> nat \<Rightarrow> wait_world \<Rightarrow> bool" where
  "nv_ready n j v \<longleftrightarrow> \<not> pending (v_sys v) n \<or> ntime (v_sys v) n \<le> nt_now (v_world v)"

definition nv_due :: "nat \<Rightarrow> nat \<Rightarrow> nsync_time \<Rightarrow> wait_world \<Rightarrow> bool" where
  "nv_due n j t v \<longleftrightarrow> \<not> pending (v_sys v) n \<or> ntime (v_sys v) n = t"

definition nv_past :: "nsync_time \<Rightarrow> wait_world \<Rightarrow> bool" where
  "nv_past t v \<longleftrightarrow> t \<le> nt_now (v_world v)"

definition nv_work :: "nat \<Rightarrow> nat \<Rightarrow> wait_world \<Rightarrow> nat" where
  "nv_work i q v = sem_count (v_sys v) q + of_bool (nw_waiting (v_sys v) i)"

definition nv_posted :: "nat \<Rightarrow> wait_world \<Rightarrow> bool" where
  "nv_posted q v \<longleftrightarrow> 0 < sem_count (v_sys v) q"

lemmas nv_defs = nv_queued_def nv_ready_def nv_due_def nv_past_def nv_work_def nv_posted_def

lemma vstep_later: "vstep n i q (v_world v) (v_world v') \<Longrightarrow> nv_later n i q v v'"
  unfolding vstep_def nv_later_def nv_inv_def using grow_pending by blast

lemma vstep_laws:
  assumes "vstep n i q (v_world v) (v_world v')"
  shows "onward (nv_later n i q) (nv_work i q) (nv_queued i) v v'" "kept (nv_posted q) (nv_ready n) (nv_queued i) v v'"
proof -
  have g: "grow n i (v_sys v) (v_sys v')" and p: "posts i q (v_sys v) (v_sys v')" and w: "winv n i q (v_world v)" "winv n i q (v_world v')"
    using assms by (auto simp: vstep_def)
  show "onward (nv_later n i q) (nv_work i q) (nv_queued i) v v'"
    using vstep_later [OF assms] p by (auto simp: onward_def posts_def nv_defs)
  have "nv_queued i j v' \<or> nv_posted q v' \<and> nv_ready n j v'" if "nv_queued i j v" for j
  proof (cases "i \<in> set (waiters (v_sys v') n)")
    case True
    then show ?thesis using that winvD(8) [OF w(2)] by (simp add: nv_defs)
  next
    case False
    have "i \<in> set (waiters (v_sys v) n)" "nw_sem (v_sys v) i = q" using that winvD(7,8) [OF w(1)] by (auto simp: nv_defs)
    then have "n_notified (note_of (v_sys v') n)" "0 < sem_count (v_sys v') q" using growD(7) [OF g] False by auto
    then show ?thesis using pending_notified by (auto simp: nv_defs)
  qed
  moreover have "sem_count (v_sys v) q \<le> sem_count (v_sys v') q" using growD(3) [OF g] .
  ultimately show "kept (nv_posted q) (nv_ready n) (nv_queued i) v v'" unfolding kept_def nv_posted_def by auto
qed

lemma deadline_total: "winv n i q w \<Longrightarrow> \<exists>s' t. nsync_note_notified_deadline (note_fuel (nt_sys w)) (nt_now w) n (nt_sys w) = Done (s', t)"
  by (rule deadline_fuel) (auto simp: note_fuel_def dest: winvD)

lemma deadline_vstep:
  assumes w: "winv n i q w" and s': "nsync_note_notified_deadline k (nt_now w) n (nt_sys w) = Done (s', t)"
  shows "vstep n i q w (w\<lparr>nt_sys := s'\<rparr>)"
  using deadline_keeps(1) [OF winvD(1) [OF w] s'] winvD(2) [OF w] grow_deadline [OF s'] deadline_posts [OF winvD(1,5) [OF w] s']
  by (intro vstepI [OF w]) (auto simp: clock_ok_def)

lemma own_ready:
  assumes inv: "nv_inv n i q v" and c: "own n i (\<lambda>now s. note_ready_time (note_fuel s) now n s) a v = (v', t)"
  shows "vstep n i q (v_world v) (v_world v')" "nv_due n j t v'" "nv_ready n j v \<Longrightarrow> \<not> nsync_time_zero < t"
proof -
  define v1 where "v1 = others n i v"
  have s1: "vstep n i q (v_world v) (v_world v1)" unfolding v1_def using others_vstep inv by (simp add: nv_inv_def)
  note w1 = vstep_inv [OF s1]
  obtain s' u where d: "nsync_note_notified_deadline (note_fuel (v_sys v1)) (nt_now (v_world v1)) n (v_sys v1) = Done (s', u)"
    using deadline_total [OF w1] by blast
  have v': "v' = set_sys s' v1" "t = u" using c d by (auto simp: own_def v1_def Let_def note_ready_time_def)
  note D = deadline_state [OF winvD(1) [OF w1] d]
  show "vstep n i q (v_world v) (v_world v')"
    using vstep_trans [OF s1 deadline_vstep [OF w1 d]] by (simp add: v'(1) set_sys_def)
  show "nv_due n j t v'" using D(3) by (auto simp: nv_due_def v' set_sys_def)
  assume "nv_ready n j v"
  then have "nv_ready n j v1" using vstep_later [OF s1] by (auto simp: nv_later_def nv_ready_def)
  then show "\<not> nsync_time_zero < t" using D(1,2,4) hushed_keeps(4) [OF winvD(1) [OF w1]] by (auto simp: nv_ready_def v'(2))
qed

lemma own_enqueue_note:
  assumes inv: "nv_inv n i q v" and nq: "\<not> nw_waiting (v_sys v) i"
    and c: "own n i (\<lambda>now s. Done (note_enqueue n i s)) a (init_nw (note_calls n i q) j v) = (v', b)"
  shows "nv_later n i q v v'" "nv_work i q v' \<le> nv_work i q v + 1" "\<not> b \<Longrightarrow> nv_ready n j v'"
    "nw_waiting (v_sys v') i \<or> nv_ready n j v'"
proof -
  note W = winvD [OF inv [unfolded nv_inv_def]]
  define v0 where "v0 = init_nw (note_calls n i q) j v"
  have f: "note_of (v_sys v0) = note_of (v_sys v)" "nw_waiting (v_sys v0) = nw_waiting (v_sys v)" "allocated (v_sys v0) = allocated (v_sys v)"
    "sem_count (v_sys v0) = sem_count (v_sys v)" "nt_now (v_world v0) = nt_now (v_world v)" "nw_sem (v_sys v0) = (nw_sem (v_sys v))(i := q)"
    using nq by (auto simp: v0_def note_calls_def set_sys_def fun_upd_idem_iff)
  have w0: "winv n i q (v_world v0)"
    using note_inv_cong [OF W(1) f(1-3)] W(2-6) nq unfolding winv_def wok_def clock_ok_def f by simp
  define v1 where "v1 = others n i v0"
  have s1: "vstep n i q (v_world v0) (v_world v1)" unfolding v1_def by (rule others_vstep [OF w0])
  note W1 = winvD [OF vstep_inv [OF s1]]
  have sem: "nw_sem (v_sys v1) i = q" using s1 growD(1) f(6) by (fastforce simp: vstep_def)
  have nq1: "\<not> nw_waiting (v_sys v1) i" using s1 nq f(2) by (auto simp: vstep_def posts_def)
  define s2 where "s2 = fst (note_enqueue n i (v_sys v1))"
  have v': "v' = set_sys s2 v1" "b = pending (v_sys v1) n"
    using c note_enqueue_inv [OF W1(1) nq1 W1(3)] by (auto simp: own_def Let_def v0_def [symmetric] v1_def [symmetric] s2_def split: prod.splits)
  have i2: "note_inv s2" using note_enqueue_inv [OF W1(1) nq1 W1(3)] by (simp add: s2_def)
  have f2: "nw_sem s2 = nw_sem (v_sys v1)" "allocated s2 = allocated (v_sys v1)" "sem_count s2 = sem_count (v_sys v1)"
    "waiters s2 m = (if m = n \<and> pending (v_sys v1) n then waiters (v_sys v1) n @ [i] else waiters (v_sys v1) m)"
    "nw_waiting s2 i \<longleftrightarrow> pending (v_sys v1) n" for m by (simp_all add: s2_def note_enqueue_def)
  have p2: "pending s2 m = pending (v_sys v1) m \<and> ntime s2 m = ntime (v_sys v1) m" for m
    by (rule pending_cong) (simp_all add: s2_def note_enqueue_def)
  have "winv n i q (v_world v')"
    using i2 W1(2-6) sem unfolding winv_def wok_def clock_ok_def by (auto simp: v'(1) set_sys_def f2 split: if_splits)
  moreover have "nv_later n i q v0 v1" using vstep_later [OF s1] .
  ultimately show "nv_later n i q v v'"
    using inv f(1,5) p2 [of n] unfolding nv_later_def nv_inv_def pending_def by (simp add: v'(1) set_sys_def)
  show "nv_work i q v' \<le> nv_work i q v + 1"
    using s1 nq f(2,4) by (auto simp: nv_work_def v'(1) set_sys_def f2 vstep_def posts_def)
  show "\<not> b \<Longrightarrow> nv_ready n j v'" "nw_waiting (v_sys v') i \<or> nv_ready n j v'"
    using v' f2(5) p2 [of n] by (auto simp: nv_ready_def set_sys_def)
qed

lemma own_dequeue_note:
  assumes inv: "nv_inv n i q v" and c: "own n i (\<lambda>now s. note_dequeue (note_fuel s) now n i s) a v = (v', b)"
  shows "onward (nv_later n i q) (nv_work i q) (nv_queued i) v v'" "\<not> nw_waiting (v_sys v') i"
    "\<not> b \<Longrightarrow> nv_ready n j v'" "nv_ready n j v \<Longrightarrow> \<not> b"
proof -
  define v1 where "v1 = others n i v"
  have s1: "vstep n i q (v_world v) (v_world v1)" unfolding v1_def using others_vstep inv by (simp add: nv_inv_def)
  note w1 = vstep_inv [OF s1]
  obtain s2 t where d: "nsync_note_notified_deadline (note_fuel (v_sys v1)) (nt_now (v_world v1)) n (v_sys v1) = Done (s2, t)"
    using deadline_total [OF w1] by blast
  define v2 where "v2 = set_sys s2 v1"
  have s2: "vstep n i q (v_world v) (v_world v2)" "v_sys v2 = s2" "nt_now (v_world v2) = nt_now (v_world v1)"
    using vstep_trans [OF s1 deadline_vstep [OF w1 d]] by (simp_all add: v2_def set_sys_def)
  note W2 = winvD [OF vstep_inv [OF s2(1)], unfolded s2(2)]
  define s3 where "s3 = (if pending s2 n then (upd_note n (\<lambda>x. x\<lparr>n_waiters := remove1 i (n_waiters x)\<rparr>) s2)\<lparr>nw_waiting := (nw_waiting s2)(i := False)\<rparr> else s2)"
  have v': "v' = set_sys s3 v1" "b = pending s2 n"
    using c d by (cases "pending s2 n"; simp add: own_def v1_def [symmetric] Let_def note_dequeue_def s3_def del: bind_run_Done)+
  have off: "\<not> nw_waiting s3 i"
    using W2(8) waiters_okD(4) [OF note_invD(2) [OF W2(1)], of n] by (cases "pending s2 n") (auto simp: s3_def)
  have p3: "pending s3 n = pending s2 n \<and> ntime s3 n = ntime s2 n" by (rule pending_cong) (simp_all add: s3_def)
  have f3: "allocated s3 = allocated s2" "nw_sem s3 = nw_sem s2" "sem_count s3 = sem_count s2"
    "i \<in> set (waiters s3 m) \<Longrightarrow> i \<in> set (waiters s2 m)" for m
    using set_remove1_subset [of i "waiters s2 n"] by (auto simp: s3_def split: if_splits)
  have "note_inv s3" using remove_waiter_inv [OF W2(1), of i n] W2(1,8) by (auto simp: s3_def)
  then have "winv n i q (v_world v')"
    using W2(2-6) off s2(3) unfolding winv_def wok_def clock_ok_def by (auto simp: v'(1) set_sys_def f3)
  then have l: "nv_later n i q v v'"
    using vstep_later [OF s2(1)] p3 s2(2,3) unfolding nv_later_def nv_inv_def by (simp add: v'(1) set_sys_def)
  show "onward (nv_later n i q) (nv_work i q) (nv_queued i) v v'"
    using l s2(1,2) off by (auto simp: onward_def nv_defs v'(1) set_sys_def f3 vstep_def posts_def)
  show "\<not> nw_waiting (v_sys v') i" using off by (simp add: v'(1) set_sys_def)
  show "\<not> b \<Longrightarrow> nv_ready n j v'" using v'(2) p3 by (simp add: nv_ready_def v'(1) set_sys_def)
  assume "nv_ready n j v"
  then have "nv_ready n j v1" using vstep_later [OF s1] by (auto simp: nv_later_def nv_ready_def)
  then show "\<not> b" using deadline_state(1,4) [OF winvD(1) [OF w1] d] hushed_keeps(4) [OF winvD(1) [OF w1]] by (auto simp: nv_ready_def v'(2))
qed

lemma take_note_count:
  assumes "winv n i q w" "0 < sem_count (nt_sys w) q" "v_world v = w" "v_world v' = take_count q w"
  shows "nv_later n i q v v'" "nv_work i q v' < nv_work i q v" "nv_queued i j v' = nv_queued i j v" "nv_ready n j v' = nv_ready n j v"
  using assms note_inv_cong [OF winvD(1) [OF assms(1)], of "nt_sys (take_count q w)"]
  by (auto simp: nv_later_def nv_inv_def winv_def wok_def clock_ok_def nv_defs take_count_def pending_def)

text \<open>The laws of the semaphore.\<close>

lemma note_woken_law:
  assumes "nv_inv n i q v" "semaphore_p (note_calls n i q) d v = Woken v'"
  shows "onward (nv_later n i q) (nv_work i q) (nv_queued i) v v' \<and> nv_work i q v' < nv_work i q v \<and> (\<forall>j. nv_queued i j v \<longrightarrow> nv_queued i j v' \<or> nv_ready n j v')"
proof -
  obtain w1 where w1: "vstep n i q (v_world v) w1" "0 < sem_count (nt_sys w1) q" "v_world v' = take_count q w1"
    using sleeps_spec [OF assms(1) [unfolded nv_inv_def], of d "v_events v"] assms(2) by (auto simp: note_calls_def)
  define v1 where "v1 = \<lparr>v_world = w1, v_events = []\<rparr>"
  have L: "onward (nv_later n i q) (nv_work i q) (nv_queued i) v v1" "kept (nv_posted q) (nv_ready n) (nv_queued i) v v1"
    using vstep_laws [of n i q v v1] w1(1) by (simp_all add: v1_def)
  note T = take_note_count [OF vstep_inv [OF w1(1)] w1(2), of v1 v', OF _ w1(3)]
  show ?thesis using L T unfolding onward_def kept_def by (auto simp: v1_def nv_later_def)
qed

lemma note_stuck_law:
  assumes "nv_inv n i q v" "semaphore_p (note_calls n i q) d v = Stuck v'"
  shows "onward (nv_later n i q) (nv_work i q) (nv_queued i) v v' \<and> \<not> d < nsync_time_no_deadline \<and> \<not> nv_posted q v \<and>
    (\<forall>j t. nv_queued i j v \<longrightarrow> nv_due n j t v \<longrightarrow> \<not> t < nsync_time_no_deadline \<longrightarrow> \<not> nv_ready n j v')"
proof -
  have S: "vstep n i q (v_world v) (v_world v')" "\<not> d < nsync_time_no_deadline" "sem_count (v_sys v') q = 0"
    using sleeps_spec [OF assms(1) [unfolded nv_inv_def], of d "v_events v"] assms(2) by (auto simp: note_calls_def)
  note W = winvD [OF vstep_inv [OF S(1)]] and L = vstep_laws [OF S(1)]
  have "\<not> nv_ready n j v'" if k: "nv_queued i j v" "nv_due n j t v" "\<not> t < nsync_time_no_deadline" for j t
  proof -
    have "nv_queued i j v'" using L(2) k(1) S(3) by (auto simp: kept_def nv_posted_def)
    then have p: "pending (v_sys v') n"
      using W(8) waiters_okD(4) [OF note_invD(2) [OF W(1)], of n] by (fastforce simp: nv_queued_def)
    then have "ntime (v_sys v') n = t" using k(2) vstep_later [OF S(1)] by (auto simp: nv_later_def nv_due_def)
    then show ?thesis using p k(3) W(2) by (auto simp: nv_ready_def clock_ok_def)
  qed
  moreover have "\<not> nv_posted q v" using S(1,3) growD(3) [of n i "v_sys v" "v_sys v'" q] by (simp add: vstep_def nv_posted_def)
  ultimately show ?thesis using S(2) L(1) by blast
qed

interpretation nv: waitable_objects "note_calls n i q" "[nsync_note_waitable_funcs n i]" "nv_inv n i q"
  "nv_later n i q" "nv_queued i" "\<lambda>_ _. True" "nv_ready n" "nv_due n" nv_past "nv_work i q" "nv_posted q"
proof unfold_locales
  fix v v' v'' :: wait_world and j :: nat and t d x b c
  let ?on = "onward (nv_later n i q) (nv_work i q) (nv_queued i)"
  let ?kept = "kept (nv_posted q) (nv_ready n) (nv_queued i)"
  show "nv_later n i q v v" if "nv_inv n i q v" using that by (simp add: nv_later_def)
  show "nv_inv n i q v'" if "nv_later n i q v v'" using that by (simp add: nv_later_def)
  show "nv_later n i q v v''" if "nv_later n i q v v'" "nv_later n i q v' v''" using that by (auto simp: nv_later_def)
  show "nv_ready n j v'" if "nv_later n i q v v'" "nv_ready n j v" using that by (auto simp: nv_later_def nv_ready_def)
  show "nv_due n j t v'" if "nv_later n i q v v'" "nv_due n j t v" using that by (auto simp: nv_later_def nv_due_def)
  show "nv_past t v'" if "nv_later n i q v v'" "nv_past t v" using that by (auto simp: nv_later_def nv_past_def)
  show "nv_past t v" if "nv_inv n i q v" "nsync_time_cmp t nsync_time_zero \<le> 0"
    using winvD(2) [OF that(1) [unfolded nv_inv_def]] that(2) by (auto simp: clock_ok_def nv_past_def cmp_order_time split: if_splits)
  show "nv_ready n j v" if "nv_inv n i q v" "nv_due n j t v" "nv_past t v" using that by (auto simp: nv_defs)
  show "?on v (c v) \<and> ?kept v (c v)"
    if "nv_inv n i q v" "c \<in> {lock_mu (note_calls n i q), unlock_mu (note_calls n i q), waiter_new (note_calls n i q), waiter_free (note_calls n i q)}"
    using that vstep_laws [OF others_vstep [OF that(1) [unfolded nv_inv_def]]] by (auto simp: note_calls_def)
  show "?on v v' \<and> True \<and> nv_due n j t v' \<and> ?kept v v' \<and> (True \<longrightarrow> nv_ready n j v \<longrightarrow> \<not> nsync_time_zero < t)"
    if h: "nv_inv n i q v" "j < length [nsync_note_waitable_funcs n i]" "ready_time ([nsync_note_waitable_funcs n i] ! j) x v = (v', t)"
  proof -
    have c: "own n i (\<lambda>now s. note_ready_time (note_fuel s) now n s) nsync_time_zero v = (v', t)"
      using h(2,3) by (simp add: nsync_note_waitable_funcs_def)
    show ?thesis using own_ready [OF h(1) c] vstep_laws by blast
  qed
  show "nv_later n i q v v' \<and> nv_work i q v' \<le> nv_work i q v + 1 \<and> (\<forall>k. k \<noteq> j \<longrightarrow> nv_queued i k v' \<longrightarrow> nv_queued i k v) \<and>
      (\<not> b \<longrightarrow> nv_ready n j v') \<and> (nv_queued i j v' \<or> nv_ready n j v') \<and> (\<forall>k. nv_queued i k v \<longrightarrow> nv_queued i k v' \<or> nv_ready n k v')"
    if h: "nv_inv n i q v" "j < length [nsync_note_waitable_funcs n i]" "\<not> nv_queued i j v"
      "enqueue ([nsync_note_waitable_funcs n i] ! j) j (init_nw (note_calls n i q) j v) = (v', b)"
  proof -
    have c: "own n i (\<lambda>now s. Done (note_enqueue n i s)) False (init_nw (note_calls n i q) j v) = (v', b)"
      using h(2,4) by (simp add: nsync_note_waitable_funcs_def)
    have "\<not> nw_waiting (v_sys v) i" using h(2,3) by (simp add: nv_queued_def)
    note L = own_enqueue_note [OF h(1) this c]
    then show ?thesis using h(2,3) by (auto simp: nv_queued_def)
  qed
  show "?on v v' \<and> \<not> nv_queued i j v' \<and> (\<not> b \<longrightarrow> nv_ready n j v') \<and> (nv_ready n j v \<longrightarrow> \<not> b)"
    if h: "nv_inv n i q v" "j < length [nsync_note_waitable_funcs n i]" "dequeue ([nsync_note_waitable_funcs n i] ! j) j v = (v', b)"
  proof -
    have c: "own n i (\<lambda>now s. note_dequeue (note_fuel s) now n i s) False v = (v', b)"
      using h(2,3) by (simp add: nsync_note_waitable_funcs_def)
    show ?thesis using own_dequeue_note [OF h(1) c] by (auto simp: nv_queued_def)
  qed
  show "?on v v' \<and> nv_work i q v' < nv_work i q v \<and> (\<forall>j. nv_queued i j v \<longrightarrow> nv_queued i j v' \<or> nv_ready n j v')"
    if "nv_inv n i q v" "semaphore_p (note_calls n i q) d v = Woken v'"
    using note_woken_law that .
  show "?on v v' \<and> nv_past d v'" if "nv_inv n i q v" "semaphore_p (note_calls n i q) d v = Expired v'"
    using sleeps_spec [OF that(1) [unfolded nv_inv_def], of d "v_events v"] that(2) vstep_laws(1) by (auto simp: note_calls_def nv_past_def)
  show "?on v v' \<and> \<not> d < nsync_time_no_deadline \<and> \<not> nv_posted q v \<and>
      (\<forall>j t. nv_queued i j v \<longrightarrow> nv_due n j t v \<longrightarrow> \<not> t < nsync_time_no_deadline \<longrightarrow> \<not> nv_ready n j v')"
    if "nv_inv n i q v" "semaphore_p (note_calls n i q) d v = Stuck v'"
    using note_stuck_law that .
qed auto

section \<open>Properties\<close>

text \<open>A family of notes, and another thread that notifies the eldest while the caller waits for the youngest.\<close>

definition demo_wait :: wait_world where
  "demo_wait = \<lparr>v_world = \<lparr>nt_sys = family\<lparr>nw_sem := (\<lambda>j. j)\<rparr>, nt_now = nsync_time_zero\<rparr>,
     v_events = [None, None, None, Some (N_op (Note_notify 0))]\<rparr>"

lemma demo_wait_inv: "winv 2 7 7 (v_world demo_wait)" "\<not> nw_waiting (v_sys demo_wait) 7"
proof -
  have "note_inv (v_sys demo_wait)"
    by (rule note_inv_cong [OF note_serial_inv [OF family_serial]]) (simp_all add: demo_wait_def)
  then show "winv 2 7 7 (v_world demo_wait)"
    by (auto simp: winv_def wok_def clock_ok_def demo_wait_def family_def no_notes_def empty_note_def nsync_time_zero_def
        nsync_time_no_deadline_def less_nsync_time_def)
  show "\<not> nw_waiting (v_sys demo_wait) 7" by (simp add: demo_wait_def family_def no_notes_def)
qed

text \<open>C23. \<^verbatim>\<open>nsync_note_wait\<close> in executions in which operations on notes do not overlap: between
  any two of its steps other threads may apply any operations to the notes, but each of these
  operations, and each of its own, runs to its end before the next begins, and none is in progress
  when the wait starts.  Then, whatever these operations are and whatever the clock does, the wait
  ends, with the caller's struct on no list and the notes in a good state; it returns true only if the
  note is notified or has expired, and false only if the deadline has passed.  The exception is a call
  without deadline, which sleeps for ever only if the note is neither notified nor expired when all
  events have happened: no notification is lost.  The rounds of the waiting loop are bounded by the
  semaphore's count at the start, plus 1.  (If operations overlap, the call can wait for ever inside
  \<^verbatim>\<open>notify\<close>, as C20 shows.)\<close>

theorem note_wait_correct:
  assumes "winv n i q (v_world v)" "\<not> nw_waiting (v_sys v) i" "sem_count (v_sys v) q + 1 < fuel"
  shows "(\<exists>v' b. nsync_note_wait fuel n i q d v = Returns (v', b) \<and> note_inv (v_sys v') \<and> (\<forall>m. i \<notin> set (waiters (v_sys v') m)) \<and>
      (if b then \<not> pending (v_sys v') n \<or> ntime (v_sys v') n \<le> nt_now (v_world v') else d \<le> nt_now (v_world v'))) \<or>
    (\<exists>v'. nsync_note_wait fuel n i q d v = Sleeps_forever v' \<and> \<not> d < nsync_time_no_deadline \<and>
      pending (v_sys v') n \<and> nt_now (v_world v') < ntime (v_sys v') n)"
proof -
  let ?n = "nsync_wait_n fuel (note_calls n i q) False d [nsync_note_waitable_funcs n i] v"
  have "(\<exists>v' r. ?n = Returns (v', r) \<and> nv_later n i q v v' \<and> \<not> nv_queued i 0 v' \<and> r \<le> 1 \<and>
      (r = 0 \<longrightarrow> nv_ready n 0 v') \<and> (r = 1 \<longrightarrow> nv_past d v')) \<or>
    (\<exists>v'. ?n = Sleeps_forever v' \<and> nv_later n i q v v' \<and> \<not> d < nsync_time_no_deadline \<and> \<not> nv_ready n 0 v')"
    using nv.wait_n_spec [of n i q v fuel False d] assms by (auto simp: nv_queued_def nv_work_def nv_inv_def)
  then show ?thesis
  proof
    assume "\<exists>v'. ?n = Sleeps_forever v' \<and> nv_later n i q v v' \<and> \<not> d < nsync_time_no_deadline \<and> \<not> nv_ready n 0 v'"
    then show ?thesis by (auto simp: nsync_note_wait_def nv_ready_def)
  next
    assume "\<exists>v' r. ?n = Returns (v', r) \<and> nv_later n i q v v' \<and> \<not> nv_queued i 0 v' \<and> r \<le> 1 \<and>
      (r = 0 \<longrightarrow> nv_ready n 0 v') \<and> (r = 1 \<longrightarrow> nv_past d v')"
    then obtain v1 r where r: "?n = Returns (v1, r)" "winv n i q (v_world v1)" "\<not> nw_waiting (v_sys v1) i" "r \<le> 1"
      "r = 0 \<longrightarrow> nv_ready n 0 v1" "r = 1 \<longrightarrow> nv_past d v1" by (auto simp: nv_later_def nv_inv_def nv_queued_def)
    have "i \<notin> set (waiters (v_sys v1) m)" for m using r(3) waiters_okD(3) [OF note_invD(2) [OF winvD(1) [OF r(2)]]] by blast
    moreover have "nsync_note_wait fuel n i q d v = Returns (v1, r = 0)" using r(1) by (simp add: nsync_note_wait_def)
    moreover have "if r = 0 then \<not> pending (v_sys v1) n \<or> ntime (v_sys v1) n \<le> nt_now (v_world v1) else d \<le> nt_now (v_world v1)"
      using r(4-6) by (auto simp: nv_ready_def nv_past_def)
    ultimately show ?thesis using winvD(1) [OF r(2)] by blast
  qed
qed

theorem note_wait_correct_witness:
  "\<exists>v' b. nsync_note_wait 3 2 7 7 (Timespec 1 0) demo_wait = Returns (v', b) \<and> 7 \<notin> set (waiters (v_sys v') 2)"
proof -
  have d: "Timespec 1 0 < nsync_time_no_deadline" by (simp add: nsync_time_no_deadline_def less_nsync_time_def)
  have "sem_count (v_sys demo_wait) 7 + 1 < 3" by (simp add: demo_wait_def family_def no_notes_def)
  then show ?thesis using note_wait_correct [OF demo_wait_inv, of 3 "Timespec 1 0"] d by blast
qed

end
