(* ===== verification/Note_Steps.thy ===== *)
theory Note_Steps
  imports Note_Props
begin

text \<open>
  All interleavings of \<^verbatim>\<open>internal/note.c\<close>.  A section is what a thread does to shared state while
  it holds the locks it needs, between two points at which other threads may intervene: one note is
  notified and its waiters woken; a note is unlinked from its parent; a child moves; a count of
  disconnections changes; a note is created, linked or freed; a waiter is enqueued or removed.  Any
  thread may run any section on any note at any time, so the relation contains every interleaving of
  the operations, also those in which an operation waits for ever (\<open>free_race\<close>).  What holds of the
  waiters of notes in all of them is the subject here.
\<close>

section \<open>Sections\<close>

definition tell_note :: "nat \<Rightarrow> note_sys \<Rightarrow> note_sys" where
  "tell_note n s =
     (let s = upd_note n (\<lambda>x. x\<lparr>n_notified := True\<rparr>) s
      in wake_note n (n_waiters (note_of s n)) s)"

definition add_disconnecting :: "32 word \<Rightarrow> nat \<Rightarrow> note_sys \<Rightarrow> note_sys" where
  "add_disconnecting d n s = upd_note n (\<lambda>x. x\<lparr>n_disconnecting := n_disconnecting x + d\<rparr>) s"

definition alloc_note :: "nat \<Rightarrow> nsync_time \<Rightarrow> note_sys \<Rightarrow> note_sys" where
  "alloc_note n abs_deadline s =
     set_expiry_time n abs_deadline (upd_note n (\<lambda>_. empty_note) (s\<lparr>allocated := insert n (allocated s)\<rparr>))"

definition remove_waiter :: "nat \<Rightarrow> nat \<Rightarrow> note_sys \<Rightarrow> note_sys" where
  "remove_waiter n nw s =
     (upd_note n (\<lambda>x. x\<lparr>n_waiters := remove1 nw (n_waiters x)\<rparr>) s)\<lparr>nw_waiting := (nw_waiting s)(nw := False)\<rparr>"

text \<open>
  The guards are the tests of the code and what its callers owe: a note is linked before its creator
  has returned it, so that nobody waits for it; nobody waits for a note that is freed; a struct is
  enqueued when it is on no list, and removed by its owner.  Between sections a thread may set up the
  semaphore of its own struct and take a count from a semaphore.
\<close>

inductive note_section :: "note_sys \<Rightarrow> note_sys \<Rightarrow> bool" where
  tell: "pending s n \<Longrightarrow> note_section s (tell_note n s)"
| disconnect: "note_section s (add_disconnecting d n s)"
| unlink: "note_section s (unlink_child par n s)"
| alloc: "n \<notin> allocated s \<Longrightarrow> note_section s (alloc_note n d s)"
| link: "waiters s n = [] \<Longrightarrow> note_section s (note_new_link n par d s b)"
| move: "note_section s (free_children n par [c] s)"
| free: "waiters s n = [] \<Longrightarrow> note_section s (s\<lparr>allocated := allocated s - {n}\<rparr>)"
| enqueue: "n \<in> allocated s \<Longrightarrow> \<not> nw_waiting s i \<Longrightarrow> note_section s (fst (note_enqueue n i s))"
| dequeue: "pending s n \<Longrightarrow> i \<in> set (waiters s n) \<or> \<not> nw_waiting s i \<Longrightarrow> note_section s (remove_waiter n i s)"
| own_sem: "\<not> nw_waiting s i \<Longrightarrow> note_section s (s\<lparr>nw_sem := (nw_sem s)(i := q)\<rparr>)"
| take_sem: "0 < sem_count s q \<Longrightarrow> note_section s (s\<lparr>sem_count := (sem_count s)(q := sem_count s q - 1)\<rparr>)"

section \<open>The waiters in every interleaving\<close>

definition waiters_inv :: "note_sys \<Rightarrow> bool" where
  "waiters_inv s \<longleftrightarrow> waiters_ok s \<and> (\<forall>n. n \<notin> allocated s \<longrightarrow> waiters s n = [])"

lemma tell_note_eq: "tell_note n s = hush_one n s"
  unfolding tell_note_def Let_def by (subst wake_note_eq) (auto simp: hush_one_def intro: note_sys_eqI)

lemma not_pending_told: "\<not> pending (hush_one n s) n"
  by (rule pending_notified) (simp add: hush_one_def)

lemma tell_inv:
  assumes "waiters_inv s"
  shows "waiters_inv (hush_one n s)"
proof -
  have ok: "waiters_ok s" and al: "\<And>n. n \<notin> allocated s \<Longrightarrow> waiters s n = []" using assms by (auto simp: waiters_inv_def)
  note W = waiters_okD [OF ok]
  have fld: "waiters (hush_one n s) m = (if m = n then [] else waiters s m)" "m \<noteq> n \<Longrightarrow> pending (hush_one n s) m = pending s m" for m
    by (simp_all add: hush_one_def pending_def)
  have "waiters_ok (hush_one n s)"
    unfolding waiters_ok_def
  proof (intro conjI allI impI)
    show "nw_waiting (hush_one n s) i \<longleftrightarrow> (\<exists>m. i \<in> set (waiters (hush_one n s) m))" for i
    proof -
      have "(\<exists>m. i \<in> set (waiters (hush_one n s) m)) \<longleftrightarrow> (\<exists>m. m \<noteq> n \<and> i \<in> set (waiters s m))"
        by (auto simp: fld split: if_splits)
      moreover have "nw_waiting (hush_one n s) i \<longleftrightarrow> nw_waiting s i \<and> i \<notin> set (waiters s n)" by (simp add: hush_one_def)
      ultimately show ?thesis using W(2) [of i] W(3) [of i] by metis
    qed
    show "waiters (hush_one n s) m = []" if "\<not> pending (hush_one n s) m" for m using that fld W(4) by (cases "m = n") auto
    show "set (waiters (hush_one n s) m) \<inter> set (waiters (hush_one n s) k) = {}" if "m \<noteq> k" for m k
      unfolding fld using W(2) that by auto
  qed (use W(1) in \<open>simp add: fld\<close>)
  moreover have "allocated (hush_one n s) = allocated s" by (simp add: hush_one_def)
  ultimately show ?thesis using al by (simp add: waiters_inv_def fld)
qed

text \<open>A section that touches neither waiters nor flags, and makes no note with waiters notified.\<close>

lemma waiters_inv_cong:
  assumes "waiters_inv s" "\<And>m. waiters s' m = waiters s m" "nw_waiting s' = nw_waiting s"
    "\<And>m. \<not> pending s' m \<Longrightarrow> pending s m \<Longrightarrow> waiters s m = []" "\<And>m. m \<notin> allocated s' \<Longrightarrow> m \<in> allocated s \<Longrightarrow> waiters s m = []"
  shows "waiters_inv s'"
proof -
  have ok: "waiters_ok s" and al: "\<And>n. n \<notin> allocated s \<Longrightarrow> waiters s n = []" using assms(1) by (auto simp: waiters_inv_def)
  have "waiters_ok s'" by (rule waiters_ok_cong [OF ok assms(2,3)]) (use assms(4) waiters_okD(4) [OF ok] in blast)
  then show ?thesis using al assms(2,5) by (auto simp: waiters_inv_def)
qed

lemma link_fields:
  "waiters (note_new_link n par d s b) m = waiters s m" "nw_waiting (note_new_link n par d s b) = nw_waiting s"
  "m \<noteq> n \<Longrightarrow> pending (note_new_link n par d s b) m = pending s m" "allocated (note_new_link n par d s b) = allocated s"
  "sem_count (note_new_link n par d s b) = sem_count s" "nw_sem (note_new_link n par d s b) = nw_sem s"
  by (auto simp: note_new_link_def set_expiry_time_def Let_def pending_def NOTIFIED_TIME_def split: option.split)

lemma quiet_fields:
  "waiters (unlink_child par n s) m = waiters s m" "nw_waiting (unlink_child par n s) = nw_waiting s"
  "pending (unlink_child par n s) m = pending s m" "allocated (unlink_child par n s) = allocated s"
  "waiters (free_children n par [c] s) m = waiters s m" "nw_waiting (free_children n par [c] s) = nw_waiting s"
  "pending (free_children n par [c] s) m = pending s m" "allocated (free_children n par [c] s) = allocated s"
  "waiters (add_disconnecting d n s) m = waiters s m" "nw_waiting (add_disconnecting d n s) = nw_waiting s"
  "pending (add_disconnecting d n s) m = pending s m" "allocated (add_disconnecting d n s) = allocated s"
  by (auto simp: unlink_child_def add_disconnecting_def Let_def pending_def NOTIFIED_TIME_def split: option.split)

lemma alloc_inv:
  assumes "waiters_inv s" "n \<notin> allocated s"
  shows "waiters_inv (alloc_note n d s)"
proof -
  have no: "waiters s n = []" using assms by (auto simp: waiters_inv_def)
  have p: "m \<noteq> n \<Longrightarrow> pending (alloc_note n d s) m = pending s m" for m by (simp add: alloc_note_def set_expiry_time_def pending_def)
  show ?thesis
  proof (rule waiters_inv_cong [OF assms(1)])
    show "waiters s m = []" if "\<not> pending (alloc_note n d s) m" "pending s m" for m using that p no by (cases "m = n") auto
  qed (use no in \<open>auto simp: alloc_note_def set_expiry_time_def empty_note_def\<close>)
qed

lemma section_inv:
  assumes "note_section s s'" "waiters_inv s"
  shows "waiters_inv s'"
  using assms
proof (induction rule: note_section.induct)
  case (tell s n)
  then show ?case using tell_inv by (simp add: tell_note_eq)
next
  case (link s n par d b)
  show ?case
  proof (rule waiters_inv_cong [OF link(2)])
    show "waiters s m = []" if "\<not> pending (note_new_link n par d s b) m" "pending s m" for m
      using that link_fields(3) [of m n par d s b] link(1) by (cases "m = n") auto
  qed (simp_all add: link_fields)
next
  case (enqueue n s i)
  then have ok: "waiters_ok (fst (note_enqueue n i s))" using enqueue_waiters_ok by (simp add: waiters_inv_def)
  show ?case using ok enqueue by (auto simp: waiters_inv_def note_enqueue_def)
next
  case (dequeue s n i)
  then have "waiters_ok (remove_waiter n i s)" using remove_waiters_ok by (simp add: waiters_inv_def remove_waiter_def)
  then show ?case using dequeue by (auto simp: waiters_inv_def remove_waiter_def)
next
  case (alloc n s d)
  then show ?case using alloc_inv by simp
next
  case (free s n)
  then show ?case by (intro waiters_inv_cong [OF free(2)]) (auto simp: pending_def)
next
  case (disconnect s d n)
  then show ?case by (intro waiters_inv_cong [OF disconnect]) (simp_all add: quiet_fields)
next
  case (unlink s par n)
  then show ?case by (intro waiters_inv_cong [OF unlink]) (simp_all add: quiet_fields)
next
  case (move s n par c)
  then show ?case by (intro waiters_inv_cong [OF move]) (simp_all only: quiet_fields, blast+)
next
  case (own_sem s i q)
  then show ?case by (intro waiters_inv_cong [OF own_sem(2)]) (simp_all add: pending_def)
next
  case (take_sem s q)
  then show ?case by (intro waiters_inv_cong [OF take_sem(2)]) (simp_all add: pending_def)
qed

lemma sections_inv: "note_section\<^sup>*\<^sup>* s s' \<Longrightarrow> waiters_inv s \<Longrightarrow> waiters_inv s'"
  by (induction rule: rtranclp_induct) (auto intro: section_inv)

lemma no_notes_waiters: "waiters_inv no_notes"
  using no_notes_inv by (auto simp: waiters_inv_def note_inv_def no_notes_def empty_note_def)

text \<open>A waiter of a note that a section leaves notified has been told.\<close>

lemma section_tells:
  assumes st: "note_section s s'" and inv: "waiters_inv s" and i: "i \<in> set (waiters s n)" "\<not> pending s' n"
  shows "\<not> nw_waiting s' i \<and> sem_count s (nw_sem s i) < sem_count s' (nw_sem s i)"
proof -
  have p: "pending s n" using inv i(1) waiters_okD(4) [of s n] by (fastforce simp: waiters_inv_def)
  have n: "n \<in> allocated s" using inv i(1) by (fastforce simp: waiters_inv_def)
  show ?thesis
    using st
  proof cases
    case (tell m)
    then have "m = n" using i(2) p by (cases "m = n") (auto simp: tell_note_eq hush_one_def pending_def)
    moreover have "filter (\<lambda>j. nw_sem s j = nw_sem s i) (waiters s n) \<noteq> []" using i(1) by (auto simp: filter_empty_conv)
    ultimately show ?thesis using i(1) tell(1) by (simp add: tell_note_eq hush_one_def)
  next
    case (link m par d b)
    then have "m \<noteq> n" using i(1) by auto
    then have "pending s' n = pending s n" using link(1) link_fields(3) [of n m par d s b] by simp
    then show ?thesis using p i(2) by simp
  next
    case (alloc m d)
    then have "m \<noteq> n" using n by auto
    then show ?thesis using alloc p i(2) by (simp add: alloc_note_def set_expiry_time_def pending_def)
  next
    case (move m par c)
    then have "pending s' n = pending s n" by (simp only: quiet_fields)
    then show ?thesis using p i(2) by simp
  next
    case (enqueue m j)
    have "pending (fst (note_enqueue m j s)) n = pending s n" by (simp add: note_enqueue_def pending_def NOTIFIED_TIME_def)
    then show ?thesis using p i(2) enqueue by blast
  next
    case (dequeue m j)
    have "pending (remove_waiter m j s) n = pending s n" by (simp add: remove_waiter_def pending_def NOTIFIED_TIME_def)
    then show ?thesis using p i(2) dequeue by blast
  qed (use p i(2) in \<open>simp_all add: quiet_fields pending_def [of "_\<lparr>allocated := _\<rparr>"] pending_def [of "_\<lparr>nw_sem := _\<rparr>"]
      pending_def [of "_\<lparr>sem_count := _\<rparr>"] pending_def [of s, symmetric]\<close>)
qed

section \<open>The operations are sequences of sections\<close>

text \<open>The state in which a run ends or waits.\<close>

definition ran :: "note_sys run \<Rightarrow> note_sys \<Rightarrow> bool" where
  "ran r s' \<longleftrightarrow> r = Done s' \<or> (\<exists>m. r = Blocked m s')"

lemma ran_simps [simp]: "ran (Done s) s' \<longleftrightarrow> s' = s" "ran (Blocked m s) s' \<longleftrightarrow> s' = s" "\<not> ran Assert_failed s'" "\<not> ran Out_of_fuel s'"
  by (auto simp: ran_def)

lemma ran_bind: "ran (bind_run r f) s' \<Longrightarrow> (\<And>x. r = Done x \<Longrightarrow> ran (f x) s' \<Longrightarrow> P) \<Longrightarrow> (\<And>m. r = Blocked m s' \<Longrightarrow> P) \<Longrightarrow> P"
  by (cases r) auto

lemma children_keep:
  assumes f: "\<And>c s s'. ran (f c s) s' \<Longrightarrow> Q s \<Longrightarrow> Q s'"
  shows "ran (notify_children f cs s) s' \<Longrightarrow> Q s \<Longrightarrow> Q s'"
proof (induction cs arbitrary: s)
  case (Cons c cs)
  show ?case
  proof (cases "n_disconnecting (note_of s c) = 0")
    case True
    then have r: "ran (bind_run (f c s) (notify_children f cs)) s'" using Cons.prems(1) by simp
    show ?thesis
      by (rule ran_bind [OF r]) (use f [of c s] Cons in \<open>auto simp: ran_def\<close>)
  qed (use Cons in simp)
qed simp

text \<open>What every section of notifying keeps, notifying keeps, also when it waits for ever.\<close>

lemma child_keep:
  assumes tell: "\<And>s n. Q s \<Longrightarrow> pending s n \<Longrightarrow> Q (tell_note n s)" and unl: "\<And>s p n. Q s \<Longrightarrow> Q (unlink_child p n s)"
  shows "ran (note_notify_child k n p s) s' \<Longrightarrow> Q s \<Longrightarrow> Q s'"
proof (induction k arbitrary: n p s s')
  case (Suc k)
  show ?case
  proof (cases "pending s n")
    case True
    let ?s = "tell_note n s"
    have r: "ran (bind_run (notify_children (\<lambda>c. note_notify_child k c (Some n)) (children ?s n) ?s)
        (\<lambda>s. if no_children s n then Done (unlink_child p n s) else Blocked n s)) s'"
      using Suc.prems(1) True by (simp add: tell_note_def Let_def)
    have q: "Q ?s" using tell [OF Suc.prems(2) True] .
    have keep: "ran (notify_children (\<lambda>c. note_notify_child k c (Some n)) (children ?s n) ?s) x \<Longrightarrow> Q x" for x
      by (rule children_keep [where Q = Q and f = "\<lambda>c. note_notify_child k c (Some n)", OF _ _ q]) (use Suc.IH in blast)+
    show ?thesis
      by (rule ran_bind [OF r]) (use keep unl in \<open>auto simp: ran_def split: if_splits\<close>)
  qed (use Suc.prems in simp)
qed simp

lemma notify_finish_keep:
  assumes "\<And>s n. Q s \<Longrightarrow> pending s n \<Longrightarrow> Q (tell_note n s)" "\<And>s p n. Q s \<Longrightarrow> Q (unlink_child p n s)"
    "\<And>s d n. Q s \<Longrightarrow> Q (add_disconnecting d n s)"
  shows "ran (notify_finish k n p s) s' \<Longrightarrow> Q s \<Longrightarrow> Q s'"
proof -
  assume r: "ran (notify_finish k n p s) s'" and q: "Q s"
  have dec: "upd_note n (\<lambda>x. x\<lparr>n_disconnecting := n_disconnecting x - 1\<rparr>) x = add_disconnecting (-1) n x" for x
    by (simp add: add_disconnecting_def)
  have c: "Q x" if "ran (note_notify_child k n p s) x" for x
    by (rule child_keep [where Q = Q, OF _ _ that q]) (use assms in blast)+
  show "Q s'"
    by (rule ran_bind [OF r [unfolded notify_finish_def]]) (use c assms(3) in \<open>auto simp: dec\<close>)
qed

lemma notify_keep:
  assumes "\<And>s n. Q s \<Longrightarrow> pending s n \<Longrightarrow> Q (tell_note n s)" "\<And>s p n. Q s \<Longrightarrow> Q (unlink_child p n s)"
    "\<And>s d n. Q s \<Longrightarrow> Q (add_disconnecting d n s)"
  shows "ran (notify k n s) s' \<Longrightarrow> Q s \<Longrightarrow> Q s'"
proof -
  have inc: "upd_note n (\<lambda>x. x\<lparr>n_disconnecting := n_disconnecting x + 1\<rparr>) s = add_disconnecting 1 n s"
    by (simp add: add_disconnecting_def)
  show "ran (notify k n s) s' \<Longrightarrow> Q s \<Longrightarrow> Q s'"
    using notify_finish_keep [where Q = Q and k = k and n = n and p = "parent s n" and s = "add_disconnecting 1 n s" and s' = s'] assms
    by (auto simp: notify_def notify_begin_def inc split: if_splits)
qed

lemma deadline_keep:
  assumes "\<And>s n. Q s \<Longrightarrow> pending s n \<Longrightarrow> Q (tell_note n s)" "\<And>s p n. Q s \<Longrightarrow> Q (unlink_child p n s)"
    "\<And>s d n. Q s \<Longrightarrow> Q (add_disconnecting d n s)" "Q s"
  shows "nsync_note_notified_deadline k now n s = Done (s', t) \<Longrightarrow> Q s'"
    "nsync_note_notified_deadline k now n s = Blocked m s' \<Longrightarrow> Q s'"
proof -
  have q: "Q x" if "ran (notify k n s) x" for x
    by (rule notify_keep [where Q = Q, OF _ _ _ that assms(4)]) (use assms(1-3) in blast)+
  then show "nsync_note_notified_deadline k now n s = Done (s', t) \<Longrightarrow> Q s'"
    "nsync_note_notified_deadline k now n s = Blocked m s' \<Longrightarrow> Q s'"
    using assms(4) by (cases "notify k n s"; auto simp: nsync_note_notified_deadline_def Let_def split: if_splits)+
qed

text \<open>The sections of a run started in \<open>s\<close>.\<close>

lemma sections_keep:
  "note_section\<^sup>*\<^sup>* s0 s \<Longrightarrow> pending s n \<Longrightarrow> note_section\<^sup>*\<^sup>* s0 (tell_note n s)"
  "note_section\<^sup>*\<^sup>* s0 s \<Longrightarrow> note_section\<^sup>*\<^sup>* s0 (unlink_child p n s)"
  "note_section\<^sup>*\<^sup>* s0 s \<Longrightarrow> note_section\<^sup>*\<^sup>* s0 (add_disconnecting d n s)"
  by (auto intro: rtranclp.rtrancl_into_rtrancl note_section.intros)

lemma notify_finish_sections: "ran (notify_finish k n p s) s' \<Longrightarrow> note_section\<^sup>*\<^sup>* s s'"
  by (erule notify_finish_keep [where Q = "note_section\<^sup>*\<^sup>* s", rotated 3]) (auto intro: sections_keep)

lemma notify_sections: "ran (notify k n s) s' \<Longrightarrow> note_section\<^sup>*\<^sup>* s s'"
  by (erule notify_keep [where Q = "note_section\<^sup>*\<^sup>* s", rotated 3]) (auto intro: sections_keep)

lemma deadline_sections:
  "nsync_note_notified_deadline k now n s = Done (s', t) \<Longrightarrow> note_section\<^sup>*\<^sup>* s s'"
  "nsync_note_notified_deadline k now n s = Blocked m s' \<Longrightarrow> note_section\<^sup>*\<^sup>* s s'"
  by (erule deadline_keep [where Q = "note_section\<^sup>*\<^sup>* s", rotated 4]; auto intro: sections_keep)+

lemma free_children_split:
  "free_children n p (c # cs) s = free_children n p cs (free_children n p [c] s)"
  by (simp add: Let_def)

lemma free_children_sections: "note_section\<^sup>*\<^sup>* s (free_children n p cs s)"
proof (induction cs arbitrary: s)
  case (Cons c cs)
  then show ?case unfolding free_children_split [of n p c cs s]
    by (intro converse_rtranclp_into_rtranclp [of note_section s "free_children n p [c] s"] note_section.move)
qed simp

lemma free_children_waiters: "waiters (free_children n p cs s) m = waiters s m"
  by (induction cs arbitrary: s) (auto simp: Let_def split: option.split)

lemma free_finish_sections:
  assumes "waiters s n = []" "ran (note_free_finish n p s) s'"
  shows "note_section\<^sup>*\<^sup>* s s'"
proof -
  let ?f = "free_children n p (children s n) s"
  let ?d = "add_disconnecting (-1) n (unlink_child p n ?f)"
  have f: "note_section\<^sup>*\<^sup>* s ?f" by (rule free_children_sections)
  then have d: "note_section\<^sup>*\<^sup>* s ?d" by (intro sections_keep)
  have "waiters ?d n = []" using assms(1) by (simp add: quiet_fields free_children_waiters)
  then have "note_section\<^sup>*\<^sup>* s (?d\<lparr>allocated := allocated ?d - {n}\<rparr>)"
    by (rule rtranclp.rtrancl_into_rtrancl [OF d note_section.free])
  then show ?thesis using assms(2) f by (auto simp: note_free_finish_def Let_def add_disconnecting_def split: if_splits)
qed

lemma free_begin_section:
  assumes "note_free_begin n s = Done (s', p)"
  shows "note_section s s'" "waiters s' n = []"
  using assms note_section.disconnect [of s 1 n]
  by (auto simp: note_free_begin_def Let_def add_disconnecting_def split: if_splits)

text \<open>A struct on the list of \<open>n\<close> stays there or is told.\<close>

definition owned :: "nat \<Rightarrow> nat \<Rightarrow> note_sys \<Rightarrow> bool" where
  "owned n i s \<longleftrightarrow> i \<in> set (waiters s n) \<or> \<not> nw_waiting s i"

lemma owned_keep:
  "owned n i s \<Longrightarrow> owned n i (tell_note m s)" "owned n i s \<Longrightarrow> owned n i (unlink_child p m s)"
  "owned n i s \<Longrightarrow> owned n i (add_disconnecting d m s)"
  by (auto simp: owned_def tell_note_eq hush_one_def quiet_fields)

lemma dequeue_sections:
  assumes "owned n i s" "ran (bind_run (note_dequeue k now n i s) (\<lambda>(s, b). Done s)) s'"
  shows "note_section\<^sup>*\<^sup>* s s'"
proof (cases "nsync_note_notified_deadline k now n s")
  case (Done x)
  obtain s1 t where x: "x = (s1, t)" by fastforce
  have o: "owned n i s1"
    by (rule deadline_keep(1) [where Q = "owned n i", OF _ _ _ assms(1) Done [unfolded x]]) (auto intro: owned_keep)
  have r: "note_section\<^sup>*\<^sup>* s s1" using deadline_sections(1) Done x by blast
  have "s' = (if pending s1 n then remove_waiter n i s1 else s1)"
    using assms(2) Done x by (auto simp: note_dequeue_def remove_waiter_def split: if_splits)
  then show ?thesis using r note_section.dequeue [of s1 n i] o
    by (auto simp: owned_def intro: rtranclp.rtrancl_into_rtrancl split: if_splits)
qed (use assms(2) deadline_sections(2) in \<open>auto simp: note_dequeue_def\<close>)

lemma is_notified_sections:
  assumes "ran (bind_run (nsync_note_is_notified k now n s) (\<lambda>(s, b). Done s)) s'"
  shows "note_section\<^sup>*\<^sup>* s s'"
  using assms deadline_sections [of k now n s]
  by (cases "nsync_note_notified_deadline k now n s") (auto simp: nsync_note_is_notified_def)

lemma new_sections:
  assumes inv: "waiters_inv s" and n: "n \<notin> allocated s" and r: "ran (bind_run (nsync_note_new k now (Some n) p d s) (\<lambda>(s, b). Done s)) s'"
  shows "note_section\<^sup>*\<^sup>* s s'"
proof -
  let ?s = "alloc_note n d s"
  have a: "note_section s ?s" using note_section.alloc [OF n] .
  have w: "waiters ?s n = []" by (simp add: alloc_note_def set_expiry_time_def empty_note_def)
  have s: "set_expiry_time n d (upd_note n (\<lambda>_. empty_note) (s\<lparr>allocated := insert n (allocated s)\<rparr>)) = ?s"
    by (simp add: alloc_note_def)
  show ?thesis
  proof (cases "nsync_note_is_notified k now n ?s")
    case (Done x)
    obtain s1 b where x: "x = (s1, b)" by fastforce
    obtain t where d1: "nsync_note_notified_deadline k now n ?s = Done (s1, t)"
      using Done x by (cases "nsync_note_notified_deadline k now n ?s") (auto simp: nsync_note_is_notified_def)
    have w1: "waiters s1 n = []"
      by (rule deadline_keep(1) [where Q = "\<lambda>s. waiters s n = []", OF _ _ _ w d1]) (auto simp: tell_note_eq hush_one_def quiet_fields)
    have "note_section\<^sup>*\<^sup>* s s1" using a deadline_sections(1) [OF d1] by simp
    moreover have "s' = note_new_link n p d s1 b" using r Done x s by (simp add: nsync_note_new_def Let_def)
    ultimately show ?thesis using note_section.link [OF w1] by (simp add: rtranclp.rtrancl_into_rtrancl)
  next
    case (Blocked m s1)
    then have "nsync_note_notified_deadline k now n ?s = Blocked m s1"
      by (cases "nsync_note_notified_deadline k now n ?s") (auto simp: nsync_note_is_notified_def)
    then have "note_section\<^sup>*\<^sup>* ?s s1" by (rule deadline_sections(2))
    moreover have "s' = s1" using r Blocked s by (simp add: nsync_note_new_def Let_def)
    ultimately show ?thesis using a by (simp add: converse_rtranclp_into_rtranclp)
  qed (use r s in \<open>auto simp: nsync_note_new_def Let_def\<close>)
qed

text \<open>Every operation of a client, whether it ends or waits, is a sequence of sections.\<close>

lemma op_sections:
  assumes inv: "waiters_inv s" and ok: "note_op_ok x s" and r: "ran (note_do k now x s) s'"
  shows "note_section\<^sup>*\<^sup>* s s'"
proof (cases x)
  case (Note_notify n)
  show ?thesis
  proof (cases "nsync_note_notified_deadline k now n s")
    case (Done y)
    obtain s1 t where y: "y = (s1, t)" by fastforce
    have s1: "note_section\<^sup>*\<^sup>* s s1" using deadline_sections(1) Done y by blast
    have "s' = s1 \<or> ran (notify k n s1) s'"
      using r Note_notify Done y by (auto simp: nsync_note_notify_def split: if_splits)
    then show ?thesis using s1 notify_sections rtranclp_trans by metis
  qed (use r Note_notify deadline_sections(2) in \<open>auto simp: nsync_note_notify_def\<close>)
next
  case (Note_is_notified n)
  then show ?thesis using r is_notified_sections by simp
next
  case (Note_new mem p d)
  then show ?thesis using r ok new_sections [OF inv] by (cases mem) (auto simp: nsync_note_new_def)
next
  case (Note_free n)
  then have r: "ran (bind_run (note_free_begin n s) (\<lambda>(s, parent). note_free_finish n parent s)) s'"
    using r by (simp add: nsync_note_free_def)
  obtain s1 p where b: "note_free_begin n s = Done (s1, p)" "ran (note_free_finish n p s1) s'"
    using r by (auto simp: note_free_begin_def Let_def split: if_splits)
  then show ?thesis using free_begin_section [OF b(1)] free_finish_sections [OF _ b(2)] by (meson converse_rtranclp_into_rtranclp)
next
  case (Note_enqueue n i)
  then show ?thesis using r ok note_section.enqueue [of n s i] by auto
next
  case (Note_dequeue n i)
  then show ?thesis using r ok dequeue_sections [of n i s] by (simp add: owned_def)
qed

lemma serial_sections: "note_serial s \<Longrightarrow> note_section\<^sup>*\<^sup>* no_notes s"
proof (induction rule: note_serial.induct)
  case (step s x k now s')
  have "waiters_inv s" using sections_inv [OF step.IH no_notes_waiters] .
  moreover have "ran (note_do k now x s) s'" using step.hyps(3) by simp
  ultimately have "note_section\<^sup>*\<^sup>* s s'" by (rule op_sections [OF _ step.hyps(2)])
  then show ?case using step.IH by simp
qed simp

text \<open>The state of the race, in which a notified note has a child that is not.\<close>

lemma race_sections:
  "\<exists>s. note_section\<^sup>*\<^sup>* no_notes s \<and> \<not> pending s 0 \<and> parent s 2 = Some 0 \<and> pending s 2"
proof -
  obtain s1 s2 s3 s4 where s: "note_free_begin 1 family = Done (s1, Some 0)" "notify_begin 0 s1 = (s2, Some None)"
    "notify_finish 2 0 None s2 = Blocked 0 s3" "note_free_finish 1 (Some 0) s3 = Done s4"
    "\<not> pending s4 0" "parent s4 2 = Some 0" "pending s4 2" using free_race by blast
  have 1: "note_section family s1" by (rule free_begin_section [OF s(1)])
  have 2: "note_section s1 s2" using s(2) note_section.disconnect [of s1 1 0]
    by (auto simp: notify_begin_def add_disconnecting_def split: if_splits)
  have w2: "waiters s2 1 = []" using free_begin_section(2) [OF s(1)] s(2) by (auto simp: notify_begin_def split: if_splits)
  have 3: "note_section\<^sup>*\<^sup>* s2 s3" using notify_finish_sections s(3) by (metis ran_simps(2))
  have w3: "waiters s3 1 = []"
    by (rule notify_finish_keep [where Q = "\<lambda>s. waiters s 1 = []", OF _ _ _ _ w2, of 2 0 None])
       (auto simp: tell_note_eq hush_one_def quiet_fields s(3))
  have 4: "note_section\<^sup>*\<^sup>* s3 s4" using free_finish_sections [OF w3] s(4) by (metis ran_simps(1))
  have "note_section\<^sup>*\<^sup>* no_notes s4"
    using serial_sections [OF family_serial] 1 2 3 4 by (meson rtranclp.rtrancl_into_rtrancl rtranclp_trans)
  then show ?thesis using s(5-7) by blast
qed

section \<open>Properties\<close>

text \<open>C19. The waiters of notes, in every interleaving of the locked sections of \<^verbatim>\<open>note.c\<close> by any
  number of threads: a struct is marked as waiting exactly while it is on the list of some note, and it
  is on one list only, once; a note that is notified or freed has no waiters.  Whatever section runs
  next, if it leaves a note notified, then every waiter the note had has its flag cleared and its
  semaphore posted by that section.  Every operation of a client that follows the rules, whether it
  ends or comes to wait for ever for a list of children to become empty, is a sequence of such sections.\<close>

theorem note_waiters_invariant:
  assumes "note_section\<^sup>*\<^sup>* no_notes s"
  shows "(\<forall>i. nw_waiting s i \<longleftrightarrow> (\<exists>n. i \<in> set (waiters s n))) \<and>
    (\<forall>n. distinct (waiters s n)) \<and> (\<forall>n m. n \<noteq> m \<longrightarrow> set (waiters s n) \<inter> set (waiters s m) = {}) \<and>
    (\<forall>n. \<not> pending s n \<or> n \<notin> allocated s \<longrightarrow> waiters s n = []) \<and>
    (\<forall>s' n i. note_section s s' \<and> i \<in> set (waiters s n) \<and> \<not> pending s' n \<longrightarrow>
       \<not> nw_waiting s' i \<and> sem_count s (nw_sem s i) < sem_count s' (nw_sem s i)) \<and>
    (\<forall>x k now s' m. note_op_ok x s \<and> (note_do k now x s = Done s' \<or> note_do k now x s = Blocked m s') \<longrightarrow>
       note_section\<^sup>*\<^sup>* s s')"
proof -
  have inv: "waiters_inv s" using sections_inv [OF assms no_notes_waiters] .
  have ops: "note_section\<^sup>*\<^sup>* s s'"
    if "note_op_ok x s" "note_do k now x s = Done s' \<or> note_do k now x s = Blocked m s'" for x k now s' m
    using op_sections [OF inv that(1), of k now s'] that(2) by (auto simp: ran_def)
  have w: "waiters_ok s" "\<And>n. n \<notin> allocated s \<Longrightarrow> waiters s n = []" using inv by (auto simp: waiters_inv_def)
  note W = w(1) [unfolded waiters_ok_def]
  show ?thesis
  proof (intro conjI)
    show "\<forall>n. \<not> pending s n \<or> n \<notin> allocated s \<longrightarrow> waiters s n = []" using w(2) waiters_okD(4) [OF w(1)] by blast
    show "\<forall>s' n i. note_section s s' \<and> i \<in> set (waiters s n) \<and> \<not> pending s' n \<longrightarrow>
       \<not> nw_waiting s' i \<and> sem_count s (nw_sem s i) < sem_count s' (nw_sem s i)" using section_tells [OF _ inv] by blast
    show "\<forall>x k now s' m. note_op_ok x s \<and> (note_do k now x s = Done s' \<or> note_do k now x s = Blocked m s') \<longrightarrow>
       note_section\<^sup>*\<^sup>* s s'" using ops by blast
  qed (use W in blast)+
qed

theorem note_waiters_invariant_witness:
  "\<exists>s. \<not> pending s 0 \<and> parent s 2 = Some 0 \<and> pending s 2 \<and> waiters s 0 = []"
proof -
  obtain s where s: "note_section\<^sup>*\<^sup>* no_notes s" "\<not> pending s 0" "parent s 2 = Some 0" "pending s 2"
    using race_sections by blast
  then show ?thesis using note_waiters_invariant [OF s(1)] by blast
qed

end
