(* ===== verification/Sem.thy ===== *)
theory Sem
  imports Time
begin

text \<open>
  The semaphores on which waiters sleep: \<^verbatim>\<open>platform/linux/src/nsync_semaphore_futex.c\<close>,
  \<^verbatim>\<open>platform/posix/src/nsync_semaphore_mutex.c\<close> and
  \<^verbatim>\<open>platform/posix/src/nsync_semaphore_sem_t.c\<close>.  What other threads, the kernel and the
  clock do during a wait is an argument: the list of what each iteration of the loop observes.
  \<open>None\<close> means that the loop is still waiting when the list ends.  The contract of
  \<^verbatim>\<open>internal/sem.h\<close>, common to the three, is the locale \<open>deadline_sem\<close>.
\<close>

text \<open>The result: acquired, leaving this count; timed out; or a failed assertion.\<close>

datatype sem_result = Acquired u32 | Timed_out | Crash

section \<open>Futex\<close>

text \<open>What the system call reports: 0, or -1 with an error number.\<close>

datatype futex_result = F_ok | F_EINTR | F_EWOULDBLOCK | F_ETIMEDOUT | F_other

record futex_obs =
  o_load :: u32
  o_futex :: futex_result
  o_now :: nsync_time
  o_cas :: bool

definition futex_semaphore_init :: u32 where "futex_semaphore_init = 0"

text \<open>The count after a successful compare-and-swap is the value loaded less 1.\<close>

fun futex_semaphore_p :: "futex_obs list \<Rightarrow> sem_result option" where
  "futex_semaphore_p [] = None"
| "futex_semaphore_p (x # xs) =
     (if o_load x = 0
      then (if o_futex x \<in> {F_ok, F_EINTR, F_EWOULDBLOCK} then futex_semaphore_p xs else Some Crash)
      else if o_cas x then Some (Acquired (o_load x - 1)) else futex_semaphore_p xs)"

text \<open>
  The timeout argument of the system call (\<open>None\<close> is NULL), with an absolute or a relative
  clock.  The inner \<open>None\<close> is an overflow of \<^verbatim>\<open>nsync_time_sub\<close>.
\<close>

definition futex_timeout :: "bool \<Rightarrow> nsync_time \<Rightarrow> nsync_time \<Rightarrow> nsync_time option option" where
  "futex_timeout FUTEX_TIMEOUT_IS_ABSOLUTE abs_deadline now =
     (if nsync_time_cmp abs_deadline nsync_time_no_deadline \<noteq> 0
      then (if FUTEX_TIMEOUT_IS_ABSOLUTE
            then Some (Some (Timespec (tv_sec abs_deadline) (tv_nsec abs_deadline)))
            else if nsync_time_cmp now abs_deadline > 0 then Some (Some (Timespec 0 0))
            else Some (nsync_time_sub abs_deadline now))
      else None)"

fun futex_semaphore_p_with_deadline :: "nsync_time \<Rightarrow> futex_obs list \<Rightarrow> sem_result option" where
  "futex_semaphore_p_with_deadline abs_deadline [] = None"
| "futex_semaphore_p_with_deadline abs_deadline (x # xs) =
     (if o_load x = 0
      then (if o_futex x \<in> {F_ok, F_EINTR, F_EWOULDBLOCK, F_ETIMEDOUT}
            then (if o_futex x = F_ETIMEDOUT \<and> nsync_time_cmp abs_deadline (o_now x) \<le> 0
                  then Some Timed_out
                  else futex_semaphore_p_with_deadline abs_deadline xs)
            else Some Crash)
      else if o_cas x then Some (Acquired (o_load x - 1))
      else futex_semaphore_p_with_deadline abs_deadline xs)"

text \<open>Iterations of the loop of \<^verbatim>\<open>nsync_mu_semaphore_v\<close>: the value loaded, and whether the swap succeeds.\<close>

fun futex_semaphore_v :: "(u32 \<times> bool) list \<Rightarrow> u32 option" where
  "futex_semaphore_v [] = None"
| "futex_semaphore_v ((old_value, cas) # xs) =
     (if cas then Some (old_value + 1) else futex_semaphore_v xs)"

section \<open>Mutex and condition variable\<close>

text \<open>One call of \<^verbatim>\<open>pthread_cond_timedwait\<close>: its result, the clock, and the count found afterwards.\<close>

datatype wait_result = R_ok | R_ETIMEDOUT | R_other

record cond_obs =
  c_res :: wait_result
  c_now :: nsync_time
  c_count :: u32

fun mutex_wait :: "u32 \<Rightarrow> cond_obs list \<Rightarrow> sem_result option" where
  "mutex_wait i xs =
     (if i \<noteq> 0 then Some (Acquired 0)
      else case xs of
        [] \<Rightarrow> None
      | x # xs \<Rightarrow> if c_res x = R_ok then mutex_wait (c_count x) xs else Some Crash)"

definition mutex_semaphore_p :: "u32 \<Rightarrow> cond_obs list \<Rightarrow> sem_result option" where
  "mutex_semaphore_p i xs = mutex_wait i xs"

text \<open>The loop on lines 68--72, with \<^verbatim>\<open>res\<close> as it was before, and what follows it.\<close>

definition mutex_timedwait_end :: "wait_result \<Rightarrow> u32 \<Rightarrow> sem_result" where
  "mutex_timedwait_end res i =
     (if res = R_other then Crash else if i \<noteq> 0 then Acquired 0
      else if res = R_ETIMEDOUT then Timed_out else Acquired 0)"

fun mutex_timedwait :: "nsync_time \<Rightarrow> wait_result \<Rightarrow> u32 \<Rightarrow> cond_obs list \<Rightarrow> sem_result option" where
  "mutex_timedwait abs_deadline res i [] = (if i \<noteq> 0 then Some (mutex_timedwait_end res i) else None)"
| "mutex_timedwait abs_deadline res i (x # xs) =
     (if i \<noteq> 0 then Some (mutex_timedwait_end res i)
      else if c_res x = R_ok \<or> c_res x = R_ETIMEDOUT \<and> nsync_time_cmp abs_deadline (c_now x) > 0
      then mutex_timedwait abs_deadline (c_res x) (c_count x) xs
      else Some (mutex_timedwait_end (c_res x) (c_count x)))"

definition mutex_semaphore_p_with_deadline ::
  "nsync_time \<Rightarrow> u32 \<Rightarrow> cond_obs list \<Rightarrow> sem_result option" where
  "mutex_semaphore_p_with_deadline abs_deadline i xs =
     (if nsync_time_cmp abs_deadline nsync_time_no_deadline = 0 then mutex_wait i xs
      else mutex_timedwait abs_deadline R_ok i xs)"

definition mutex_semaphore_v :: "u32 \<Rightarrow> u32" where
  "mutex_semaphore_v i = 1"

section \<open>POSIX semaphore\<close>

text \<open>One call of \<^verbatim>\<open>sem_wait\<close> or \<^verbatim>\<open>sem_timedwait\<close>: success, interruption, timeout or another error.\<close>

datatype sem_t_result = S_ok u32 | S_EINTR | S_ETIMEDOUT | S_other

record sem_t_obs =
  s_res :: sem_t_result
  s_now :: nsync_time

text \<open>
  With no deadline any error but EINTR ends the loop as if acquired; with a deadline any error
  but EINTR and ETIMEDOUT does.  The count is then unknown; the model takes 0.
\<close>

fun sem_t_semaphore_p :: "sem_t_obs list \<Rightarrow> sem_result option" where
  "sem_t_semaphore_p [] = None"
| "sem_t_semaphore_p (x # xs) =
     (case s_res x of
        S_ok n \<Rightarrow> Some (Acquired n)
      | S_EINTR \<Rightarrow> sem_t_semaphore_p xs
      | _ \<Rightarrow> Some (Acquired 0))"

fun sem_t_timedwait :: "nsync_time \<Rightarrow> sem_t_obs list \<Rightarrow> sem_result option" where
  "sem_t_timedwait abs_deadline [] = None"
| "sem_t_timedwait abs_deadline (x # xs) =
     (case s_res x of
        S_ok n \<Rightarrow> Some (Acquired n)
      | S_EINTR \<Rightarrow> sem_t_timedwait abs_deadline xs
      | S_ETIMEDOUT \<Rightarrow>
          if nsync_time_cmp abs_deadline (s_now x) > 0 then sem_t_timedwait abs_deadline xs
          else Some Timed_out
      | S_other \<Rightarrow> Some (Acquired 0))"

definition sem_t_semaphore_p_with_deadline :: "nsync_time \<Rightarrow> sem_t_obs list \<Rightarrow> sem_result option" where
  "sem_t_semaphore_p_with_deadline abs_deadline xs =
     (if nsync_time_cmp abs_deadline nsync_time_no_deadline = 0 then sem_t_semaphore_p xs
      else sem_t_timedwait abs_deadline xs)"

section \<open>The contract\<close>

text \<open>
  \<open>wait d es\<close>: the wait with deadline \<open>d\<close> that observes \<open>es\<close>.  \<open>grant\<close>: the
  observation hands over a count; \<open>now\<close>: the clock; \<open>sane d\<close>: the system call, made with
  the deadline \<open>d\<close>, reports nothing but documented results.
\<close>

definition no_deadline :: "nsync_time \<Rightarrow> bool" where
  "no_deadline d \<longleftrightarrow> nsync_time_cmp d nsync_time_no_deadline = 0"

locale deadline_sem =
  fixes wait :: "nsync_time \<Rightarrow> 'e list \<Rightarrow> sem_result option"
    and grant :: "'e \<Rightarrow> bool" and now :: "'e \<Rightarrow> nsync_time" and sane :: "nsync_time \<Rightarrow> 'e \<Rightarrow> bool"
  assumes wait_Nil: "wait d [] = None"
    and granted: "sane d e \<Longrightarrow> grant e \<Longrightarrow> \<exists>n. wait d (e # es) = Some (Acquired n)"
    and waits: "sane d e \<Longrightarrow> \<not> grant e \<Longrightarrow>
      wait d (e # es) = wait d es \<or>
      wait d (e # es) = Some Timed_out \<and> \<not> no_deadline d \<and> nsync_time_cmp d (now e) \<le> 0"
begin

text \<open>A wait returns success only when a count is handed over, and a timeout only after the deadline,
  if there is one.\<close>

lemma wait_sound:
  assumes "list_all (sane d) es" "wait d es = Some r"
  shows "(\<exists>n. r = Acquired n) \<and> (\<exists>e\<in>set es. grant e) \<or>
    r = Timed_out \<and> \<not> no_deadline d \<and> (\<exists>e\<in>set es. nsync_time_cmp d (now e) \<le> 0)"
  using assms
proof (induction es)
  case (Cons e es)
  show ?case
  proof (cases "grant e")
    case True
    then show ?thesis using granted [of d e es] Cons.prems by auto
  next
    case False
    then show ?thesis using waits [of d e es] Cons by auto
  qed
next
  case Nil
  then show ?case using wait_Nil [of d] by simp
qed

text \<open>It returns at the latest when a count is handed over.\<close>

lemma wait_live:
  assumes "list_all (sane d) es" "\<exists>e\<in>set es. grant e"
  shows "wait d es \<noteq> None"
  using assms
proof (induction es)
  case (Cons e es)
  show ?case
  proof (cases "grant e")
    case True
    then show ?thesis using granted [of d e es] Cons.prems by auto
  next
    case False
    then show ?thesis using waits [of d e es] Cons by auto
  qed
qed simp

lemmas wait_contract = wait_sound wait_live

end

definition futex_grant :: "futex_obs \<Rightarrow> bool" where
  "futex_grant x \<longleftrightarrow> o_load x \<noteq> 0 \<and> o_cas x"

text \<open>Documented results: without a timeout no system call reports ETIMEDOUT.\<close>

definition futex_sane :: "nsync_time \<Rightarrow> futex_obs \<Rightarrow> bool" where
  "futex_sane d x \<longleftrightarrow> o_futex x \<noteq> F_other \<and> (no_deadline d \<longrightarrow> o_futex x \<noteq> F_ETIMEDOUT)"

interpretation futex: deadline_sem futex_semaphore_p_with_deadline futex_grant o_now futex_sane
proof unfold_locales
  fix e :: futex_obs and d es
  assume s: "futex_sane d e"
  show "futex_grant e \<Longrightarrow> \<exists>n. futex_semaphore_p_with_deadline d (e # es) = Some (Acquired n)"
    by (simp add: futex_grant_def)
  assume "\<not> futex_grant e"
  with s show "futex_semaphore_p_with_deadline d (e # es) = futex_semaphore_p_with_deadline d es \<or>
      futex_semaphore_p_with_deadline d (e # es) = Some Timed_out \<and> \<not> no_deadline d \<and> nsync_time_cmp d (o_now e) \<le> 0"
    by (cases "o_futex e") (auto simp: futex_grant_def futex_sane_def)
qed simp

definition sem_t_grant :: "sem_t_obs \<Rightarrow> bool" where
  "sem_t_grant x \<longleftrightarrow> (case s_res x of S_ok _ \<Rightarrow> True | _ \<Rightarrow> False)"

definition sem_t_sane :: "nsync_time \<Rightarrow> sem_t_obs \<Rightarrow> bool" where
  "sem_t_sane d x \<longleftrightarrow> s_res x \<noteq> S_other \<and> (no_deadline d \<longrightarrow> s_res x \<noteq> S_ETIMEDOUT)"

interpretation sem_t: deadline_sem sem_t_semaphore_p_with_deadline sem_t_grant s_now sem_t_sane
proof unfold_locales
  fix e :: sem_t_obs and d es
  assume s: "sem_t_sane d e"
  show "sem_t_grant e \<Longrightarrow> \<exists>n. sem_t_semaphore_p_with_deadline d (e # es) = Some (Acquired n)"
    by (auto simp: sem_t_grant_def sem_t_semaphore_p_with_deadline_def split: sem_t_result.splits)
  assume "\<not> sem_t_grant e"
  with s show "sem_t_semaphore_p_with_deadline d (e # es) = sem_t_semaphore_p_with_deadline d es \<or>
      sem_t_semaphore_p_with_deadline d (e # es) = Some Timed_out \<and> \<not> no_deadline d \<and> nsync_time_cmp d (s_now e) \<le> 0"
    by (auto simp: sem_t_grant_def sem_t_sane_def sem_t_semaphore_p_with_deadline_def no_deadline_def
        split: sem_t_result.splits)
qed (simp add: sem_t_semaphore_p_with_deadline_def)

text \<open>The condition-variable loops, from a count of 0, over what each wait finds afterwards.\<close>

definition cond_grant :: "cond_obs \<Rightarrow> bool" where
  "cond_grant x \<longleftrightarrow> c_count x \<noteq> 0"

definition cond_sane :: "nsync_time \<Rightarrow> cond_obs \<Rightarrow> bool" where
  "cond_sane d x \<longleftrightarrow> c_res x \<noteq> R_other \<and> (no_deadline d \<longrightarrow> c_res x \<noteq> R_ETIMEDOUT)"

lemma mutex_timedwait_res: "r \<noteq> R_other \<Longrightarrow> mutex_timedwait d r i xs = mutex_timedwait d R_ok i xs"
  by (cases xs) (auto simp: mutex_timedwait_end_def)

lemma mutex_count: "i \<noteq> 0 \<Longrightarrow> mutex_semaphore_p_with_deadline d i xs = Some (Acquired 0)"
  by (cases xs) (auto simp: mutex_semaphore_p_with_deadline_def mutex_timedwait_end_def)

lemma mutex_step:
  assumes "cond_sane d e"
  shows "mutex_semaphore_p_with_deadline d 0 (e # es) =
    (if c_res e = R_ok \<or> nsync_time_cmp d (c_now e) > 0 \<or> c_count e \<noteq> 0
     then mutex_semaphore_p_with_deadline d (c_count e) es else Some Timed_out)"
proof (cases "no_deadline d")
  case True
  then have "c_res e = R_ok" using assms by (cases "c_res e") (auto simp: cond_sane_def)
  then show ?thesis using True by (simp add: mutex_semaphore_p_with_deadline_def no_deadline_def)
next
  case False
  then have nd: "\<not> nsync_time_cmp d nsync_time_no_deadline = 0" by (simp add: no_deadline_def)
  have r: "c_res e \<noteq> R_other" "c_res e \<noteq> R_ok \<Longrightarrow> c_res e = R_ETIMEDOUT"
    using assms by (cases "c_res e"; simp add: cond_sane_def)+
  show ?thesis
  proof (cases "c_count e = 0")
    case True
    then show ?thesis using nd r mutex_timedwait_res [OF r(1), of d 0 es]
      by (auto simp: mutex_semaphore_p_with_deadline_def mutex_timedwait_end_def)
  next
    case c: False
    then show ?thesis using nd r mutex_timedwait_res [OF r(1), of d "c_count e" es] mutex_count [OF c, of d es]
      by (auto simp: mutex_semaphore_p_with_deadline_def mutex_timedwait_end_def)
  qed
qed

interpretation mutex_sem: deadline_sem "\<lambda>d. mutex_semaphore_p_with_deadline d 0" cond_grant c_now cond_sane
proof unfold_locales
  fix e :: cond_obs and d es
  show "mutex_semaphore_p_with_deadline d 0 [] = None"
    by (auto simp: mutex_semaphore_p_with_deadline_def)
  assume s: "cond_sane d e"
  show "cond_grant e \<Longrightarrow> \<exists>n. mutex_semaphore_p_with_deadline d 0 (e # es) = Some (Acquired n)"
    unfolding mutex_step [OF s] by (auto simp: cond_grant_def mutex_count)
  assume g: "\<not> cond_grant e"
  show "mutex_semaphore_p_with_deadline d 0 (e # es) = mutex_semaphore_p_with_deadline d 0 es \<or>
      mutex_semaphore_p_with_deadline d 0 (e # es) = Some Timed_out \<and> \<not> no_deadline d \<and> nsync_time_cmp d (c_now e) \<le> 0"
    using g s unfolding mutex_step [OF s] by (cases "c_res e") (auto simp: cond_grant_def cond_sane_def)
qed

section \<open>Properties\<close>

text \<open>C25.  The versions of \<^verbatim>\<open>nsync_mu_semaphore_p_with_deadline\<close> on a futex, on a mutex and
  condition variable (from any count) and on a POSIX semaphore, with and without a deadline, keep its
  contract: if the system calls report documented results only (in particular ETIMEDOUT only of a
  call with a timeout), a wait returns success only when it takes a count, and a timeout only when
  there is a deadline and the clock has passed it; and once a count can be taken it returns.\<close>

theorem sem_deadline_contract:
  assumes "list_all (futex_sane d) fs" "list_all (cond_sane d) cs" "list_all (sem_t_sane d) ss"
  shows "(\<forall>r. futex_semaphore_p_with_deadline d fs = Some r \<longrightarrow>
        (\<exists>n. r = Acquired n) \<and> (\<exists>e\<in>set fs. o_load e \<noteq> 0 \<and> o_cas e) \<or>
        r = Timed_out \<and> \<not> no_deadline d \<and> (\<exists>e\<in>set fs. nsync_time_cmp d (o_now e) \<le> 0)) \<and>
    ((\<exists>e\<in>set fs. o_load e \<noteq> 0 \<and> o_cas e) \<longrightarrow> futex_semaphore_p_with_deadline d fs \<noteq> None) \<and>
    (\<forall>r. mutex_semaphore_p_with_deadline d i cs = Some r \<longrightarrow>
        (\<exists>n. r = Acquired n) \<and> (i \<noteq> 0 \<or> (\<exists>e\<in>set cs. c_count e \<noteq> 0)) \<or>
        r = Timed_out \<and> i = 0 \<and> \<not> no_deadline d \<and> (\<exists>e\<in>set cs. nsync_time_cmp d (c_now e) \<le> 0)) \<and>
    (i \<noteq> 0 \<or> (\<exists>e\<in>set cs. c_count e \<noteq> 0) \<longrightarrow> mutex_semaphore_p_with_deadline d i cs \<noteq> None) \<and>
    (\<forall>r. sem_t_semaphore_p_with_deadline d ss = Some r \<longrightarrow>
        (\<exists>n. r = Acquired n) \<and> (\<exists>e\<in>set ss. sem_t_grant e) \<or>
        r = Timed_out \<and> \<not> no_deadline d \<and> (\<exists>e\<in>set ss. nsync_time_cmp d (s_now e) \<le> 0)) \<and>
    ((\<exists>e\<in>set ss. sem_t_grant e) \<longrightarrow> sem_t_semaphore_p_with_deadline d ss \<noteq> None)"
proof (cases "i = 0")
  case True
  then show ?thesis
    using futex.wait_contract [OF assms(1)] mutex_sem.wait_contract [OF assms(2)] sem_t.wait_contract [OF assms(3)]
    unfolding futex_grant_def cond_grant_def by blast
next
  case False
  then show ?thesis
    using futex.wait_contract [OF assms(1)] mutex_count [OF False, of d cs] sem_t.wait_contract [OF assms(3)]
    unfolding futex_grant_def by simp
qed

definition demo_obs :: "futex_obs list" where
  "demo_obs = [\<lparr>o_load = 0, o_futex = F_ETIMEDOUT, o_now = Timespec 4 0, o_cas = False\<rparr>,
     \<lparr>o_load = 0, o_futex = F_EINTR, o_now = Timespec 4 0, o_cas = False\<rparr>,
     \<lparr>o_load = 0, o_futex = F_ETIMEDOUT, o_now = Timespec 5 1, o_cas = False\<rparr>]"

theorem sem_deadline_contract_witness:
  "futex_semaphore_p_with_deadline (Timespec 5 0) demo_obs = Some Timed_out \<and>
   (\<exists>e\<in>set demo_obs. nsync_time_cmp (Timespec 5 0) (o_now e) \<le> 0)"
proof -
  have "futex_semaphore_p_with_deadline (Timespec 5 0) demo_obs = Some Timed_out"
    by (simp add: demo_obs_def nsync_time_cmp_def)
  then show ?thesis
    using sem_deadline_contract [of "Timespec 5 0" demo_obs "[]" "[]"]
    by (auto simp: demo_obs_def futex_sane_def no_deadline_def nsync_time_cmp_def nsync_time_no_deadline_def)
qed

text \<open> The futex count: a successful wait leaves the count one lower than the value it
  compared, which was not 0, so the count never goes below 0; a post leaves it one higher;
  and a relative timeout passed to the kernel is never negative.\<close>

theorem futex_count_steps:
  assumes "futex_semaphore_p_with_deadline d xs = Some (Acquired n)"
    "futex_semaphore_v vs = Some m" "time_ok d" "time_ok t" "futex_timeout False d t = Some (Some r)"
  shows "(\<exists>x\<in>set xs. o_cas x \<and> o_load x \<noteq> 0 \<and> unat n = unat (o_load x) - 1) \<and>
    (\<exists>v\<in>set vs. snd v \<and> m = fst v + 1) \<and> 0 \<le> time_ns r"
proof -
  have p: "\<exists>x\<in>set xs. o_cas x \<and> o_load x \<noteq> 0 \<and> n = o_load x - 1"
    using assms(1) by (induction d xs rule: futex_semaphore_p_with_deadline.induct) (auto split: if_splits)
  have v: "\<exists>v\<in>set vs. snd v \<and> m = fst v + 1"
    using assms(2) by (induction vs rule: futex_semaphore_v.induct) (auto split: if_splits)
  have r: "0 \<le> time_ns r"
  proof (cases "nsync_time_cmp t d > 0")
    case True
    then show ?thesis using assms(5) by (auto simp: futex_timeout_def time_ns_def split: if_splits)
  next
    case False
    then have "nsync_time_sub d t = Some r" using assms(5) by (auto simp: futex_timeout_def split: if_splits)
    then have "time_ns r = time_ns d - time_ns t" using time_sub_ns assms(3,4) by blast
    then show ?thesis using False timespec.cmp_le [OF assms(4,3)] by linarith
  qed
  show ?thesis using p v r by (auto simp: unat_minus_one)
qed

theorem futex_count_steps_witness:
  "unat (2 :: u32) = unat (3 :: u32) - 1 \<and> 0 \<le> time_ns (Timespec 4 0)"
  using futex_count_steps [of "Timespec 9 0" "[\<lparr>o_load = 3, o_futex = F_ok, o_now = Timespec 0 0, o_cas = True\<rparr>]" 2
      "[(4, True)]" 5 "Timespec 5 0" "Timespec 4 0"]
  by (simp add: time_ok_def NSYNC_NS_IN_S_def futex_timeout_def nsync_time_cmp_def nsync_time_no_deadline_def
      nsync_time_sub_def i64_def)

end
