(* ===== verification/Win32.thy ===== *)
theory Win32
  imports Sem
begin

text \<open>
  The Windows and macOS versions of the platform layer: \<^verbatim>\<open>platform/win32/src\<close>
  (\<^verbatim>\<open>nsync_semaphore_win32.c\<close>, \<^verbatim>\<open>pthread_cond_timedwait_win32.c\<close>, \<^verbatim>\<open>nanosleep.c\<close>,
  \<^verbatim>\<open>clock_gettime.c\<close>), \<^verbatim>\<open>platform/posix/src/clock_gettime.c\<close> and
  \<^verbatim>\<open>platform/macos/src/nsync_semaphore_gcd.c\<close>.  As in theory \<open>Sem\<close>, what the system calls
  report is a list of observations, one for each round of a loop.  The Windows semaphore keeps the
  contract \<open>deadline_sem\<close>.
\<close>

section \<open>Windows semaphore\<close>

datatype win_status = W_OBJECT_0 | WAIT_TIMEOUT | W_FAILED

record win_obs =
  w_result :: win_status
  w_now :: nsync_time

text \<open>The count of a semaphore whose maximum is 1; \<^verbatim>\<open>None\<close> is the call of \<^verbatim>\<open>abort\<close>.\<close>

definition win32_semaphore_init :: "bool \<Rightarrow> u32 option" where
  "win32_semaphore_init created = (if created then Some 0 else None)"

text \<open>The milliseconds passed to \<^verbatim>\<open>WaitForSingleObject\<close>; \<open>None\<close> is an overflow in \<^verbatim>\<open>nsync_time_sub\<close>.\<close>

definition win32_timeout :: "nsync_time \<Rightarrow> nsync_time \<Rightarrow> u32 option" where
  "win32_timeout abs_deadline now =
     (if nsync_time_cmp abs_deadline now \<le> 0 then Some 0
      else
        map_option
          (\<lambda>delay.
             if tv_sec delay > 1000 * 1000 then 1000 * 1000
             else word_of_int (tv_sec delay * 1000 + (tv_nsec delay + 999999) div (1000 * 1000)))
          (nsync_time_sub abs_deadline now))"

text \<open>Any result but \<^verbatim>\<open>WAIT_TIMEOUT\<close> makes the function return 0.\<close>

fun win32_semaphore_p :: "win_obs list \<Rightarrow> sem_result option" where
  "win32_semaphore_p [] = None"
| "win32_semaphore_p (x # xs) = Some (if w_result x = WAIT_TIMEOUT then Timed_out else Acquired 0)"

fun win32_timedwait :: "nsync_time \<Rightarrow> win_obs list \<Rightarrow> sem_result option" where
  "win32_timedwait abs_deadline [] = None"
| "win32_timedwait abs_deadline (x # xs) =
     (if w_result x = WAIT_TIMEOUT
      then (if nsync_time_cmp abs_deadline (w_now x) > 0 then win32_timedwait abs_deadline xs else Some Timed_out)
      else Some (Acquired 0))"

definition win32_semaphore_p_with_deadline :: "nsync_time \<Rightarrow> win_obs list \<Rightarrow> sem_result option" where
  "win32_semaphore_p_with_deadline abs_deadline xs =
     (if nsync_time_cmp abs_deadline nsync_time_no_deadline = 0 then win32_semaphore_p xs
      else win32_timedwait abs_deadline xs)"

text \<open>\<^verbatim>\<open>ReleaseSemaphore\<close> fails, and changes nothing, when the count is at its maximum.\<close>

definition win32_semaphore_v :: "u32 \<Rightarrow> u32" where
  "win32_semaphore_v i = (if i < 1 then i + 1 else i)"

section \<open>macOS semaphore\<close>

text \<open>
  \<open>wait\<close> is \<^verbatim>\<open>dispatch_semaphore_wait\<close>: whether it times out (\<open>None\<close> is
  \<^verbatim>\<open>DISPATCH_TIME_FOREVER\<close>).
\<close>

definition gcd_semaphore_p_with_deadline :: "(nsync_time option \<Rightarrow> bool) \<Rightarrow> nsync_time \<Rightarrow> bool" where
  "gcd_semaphore_p_with_deadline wait abs_deadline =
     (if nsync_time_cmp abs_deadline nsync_time_no_deadline = 0
      then (let _ = wait None in False)
      else wait (Some abs_deadline))"

section \<open>Windows condition variables\<close>

text \<open>
  One round: the clock, what \<^verbatim>\<open>SleepConditionVariableCS\<close> returns, and the clock afterwards.
\<close>

record cs_obs =
  cs_now :: nsync_time
  cs_result :: int
  cs_after :: nsync_time

definition timespec_le :: "nsync_time \<Rightarrow> nsync_time \<Rightarrow> bool" where
  "timespec_le a b \<longleftrightarrow> tv_sec a < tv_sec b \<or> tv_sec a = tv_sec b \<and> tv_nsec a \<le> tv_nsec b"

definition cs_delay :: "nsync_time \<Rightarrow> nsync_time \<Rightarrow> nsync_time" where
  "cs_delay d now =
     (let sec = tv_sec d - tv_sec now; nsec = tv_nsec d
      in if nsec < tv_nsec now then Timespec (sec - 1) (nsec + 1000 * 1000 * 1000 - tv_nsec now)
         else Timespec sec (nsec - tv_nsec now))"

text \<open>Whether the loop goes on after the round.\<close>

definition cs_again :: "int \<Rightarrow> nsync_time \<Rightarrow> cs_obs \<Rightarrow> bool" where
  "cs_again error_timeout d x =
     (if timespec_le d (cs_now x) then False
      else if tv_sec (cs_delay d (cs_now x)) > 1000 * 1000 then cs_result x = error_timeout
      else cs_result x = error_timeout \<and> \<not> timespec_le d (cs_after x))"

text \<open>
  \<open>abs_deadline\<close> is \<open>None\<close> for NULL.  The result: whether it is \<^verbatim>\<open>ETIMEDOUT\<close>;
  \<open>error_timeout\<close> is the constant \<^verbatim>\<open>ERROR_TIMEOUT\<close> of the Windows headers.
\<close>

fun nsync_pthread_cond_timedwait :: "int \<Rightarrow> nsync_time option \<Rightarrow> cs_obs list \<Rightarrow> bool option" where
  "nsync_pthread_cond_timedwait error_timeout abs_deadline [] = None"
| "nsync_pthread_cond_timedwait error_timeout None (x # xs) = Some (cs_result x = error_timeout)"
| "nsync_pthread_cond_timedwait error_timeout (Some d) (x # xs) =
     (if cs_again error_timeout d x then nsync_pthread_cond_timedwait error_timeout (Some d) xs
      else Some (cs_result x = error_timeout))"

section \<open>Sleeping and clocks\<close>

text \<open>The arguments, in milliseconds, of the calls of \<^verbatim>\<open>Sleep\<close>, in order.\<close>

function sleep_calls :: "int \<Rightarrow> int \<Rightarrow> u32 list" where
  "sleep_calls x nsec =
     (if x > 1000 then 1000 * 1000 # sleep_calls (x - 1000) nsec
      else [word_of_int (x * 1000 + (nsec + 999999) div (1000 * 1000))])"
  by auto
termination by (relation "measure (\<lambda>(x, nsec). nat x)") auto

declare sleep_calls.simps [simp del]

definition win32_nanosleep :: "nsync_time \<Rightarrow> u32 list \<times> nsync_time" where
  "win32_nanosleep request = (sleep_calls (tv_sec request) (tv_nsec request), Timespec 0 0)"

text \<open>The fields \<^verbatim>\<open>time\<close> and \<^verbatim>\<open>millitm\<close> of \<^verbatim>\<open>struct timeb\<close>, and those of \<^verbatim>\<open>struct timeval\<close>.\<close>

definition win32_clock_gettime :: "int \<times> int \<Rightarrow> nsync_time" where
  "win32_clock_gettime tb = Timespec (fst tb) (snd tb * 1000 * 1000)"

definition posix_clock_gettime :: "(int \<times> int) option \<Rightarrow> nsync_time option" where
  "posix_clock_gettime tv = map_option (\<lambda>(sec, usec). Timespec sec (usec * 1000)) tv"

section \<open>The contracts\<close>

definition win_grant :: "win_obs \<Rightarrow> bool" where
  "win_grant x \<longleftrightarrow> w_result x = W_OBJECT_0"

definition win_sane :: "nsync_time \<Rightarrow> win_obs \<Rightarrow> bool" where
  "win_sane d x \<longleftrightarrow> w_result x \<noteq> W_FAILED \<and> (no_deadline d \<longrightarrow> w_result x \<noteq> WAIT_TIMEOUT)"

interpretation win32_sem: deadline_sem win32_semaphore_p_with_deadline win_grant w_now win_sane
proof unfold_locales
  fix e :: win_obs and d es
  assume s: "win_sane d e"
  show "win_grant e \<Longrightarrow> \<exists>n. win32_semaphore_p_with_deadline d (e # es) = Some (Acquired n)"
    by (simp add: win_grant_def win32_semaphore_p_with_deadline_def)
  assume "\<not> win_grant e"
  with s show "win32_semaphore_p_with_deadline d (e # es) = win32_semaphore_p_with_deadline d es \<or>
      win32_semaphore_p_with_deadline d (e # es) = Some Timed_out \<and> \<not> no_deadline d \<and> nsync_time_cmp d (w_now e) \<le> 0"
    by (cases "w_result e") (auto simp: win_grant_def win_sane_def win32_semaphore_p_with_deadline_def no_deadline_def)
qed (simp add: win32_semaphore_p_with_deadline_def)

lemma round_up: "0 \<le> n \<Longrightarrow> n \<le> (n + 999999) div 1000000 * 1000000 \<and> (n + 999999) div 1000000 * 1000000 < n + 1000000" for n :: int
  by linarith

lemma u32_of_int: "0 \<le> v \<Longrightarrow> v < 2 ^ 32 \<Longrightarrow> uint (word_of_int v :: u32) = v"
  by (simp only: uint_word_of_int) simp

lemma u32_million: "uint (1000 * 1000 :: u32) = 1000000"
  using u32_of_int [of 1000000] by simp

lemma ms_round:
  fixes s n :: int
  assumes "0 \<le> s" "s \<le> 1000000" "0 \<le> n" "n < 1000000000"
  defines "m \<equiv> uint (word_of_int (s * 1000 + (n + 999999) div (1000 * 1000)) :: u32)"
  shows "s * 1000000000 + n \<le> m * 1000000 \<and> m * 1000000 < s * 1000000000 + n + 1000000"
proof -
  have "m = s * 1000 + (n + 999999) div (1000 * 1000)" unfolding m_def using assms(1-4) by (intro u32_of_int) auto
  then show ?thesis using round_up [OF assms(3)] by (simp add: algebra_simps)
qed

lemma win32_timeout_spec:
  assumes "time_ok d" "time_ok now" "win32_timeout d now = Some ms"
  shows "uint ms * 1000000 < time_ns d - time_ns now + 1000000 \<or> time_ns d \<le> time_ns now \<and> ms = 0"
    "time_ns d - time_ns now \<le> uint ms * 1000000 \<or> ms = 1000000"
proof -
  have "(uint ms * 1000000 < time_ns d - time_ns now + 1000000 \<or> time_ns d \<le> time_ns now \<and> ms = 0) \<and>
    (time_ns d - time_ns now \<le> uint ms * 1000000 \<or> ms = 1000000)"
  proof (cases "nsync_time_cmp d now \<le> 0")
    case True
    then show ?thesis using assms timespec.cmp_le [OF assms(1,2)] by (auto simp: win32_timeout_def)
  next
    case False
    then obtain delay where d: "nsync_time_sub d now = Some delay"
      "ms = (if tv_sec delay > 1000 * 1000 then 1000 * 1000 else word_of_int (tv_sec delay * 1000 + (tv_nsec delay + 999999) div (1000 * 1000)))"
      using assms(3) by (auto simp: win32_timeout_def)
    have t: "time_ok delay" "time_ns delay = time_ns d - time_ns now" using time_sub_ns [OF assms(1,2) d(1)] by auto
    have pos: "0 < time_ns delay" using False timespec.cmp_le [OF assms(1,2)] t(2) by linarith
    then have s: "0 \<le> tv_sec delay" "0 \<le> tv_nsec delay" "tv_nsec delay < 1000000000"
      "time_ns delay = tv_sec delay * 1000000000 + tv_nsec delay"
      using t(1) by (auto simp: time_ok_def time_ns_def NSYNC_NS_IN_S_def)
    show ?thesis
    proof (cases "tv_sec delay > 1000 * 1000")
      case True
      then have "ms = 1000000" "1000000 * 1000000 < time_ns delay" using d(2) s by simp_all
      then show ?thesis using t(2) by simp
    next
      case False
      then have "time_ns delay \<le> uint ms * 1000000 \<and> uint ms * 1000000 < time_ns delay + 1000000"
        using ms_round [of "tv_sec delay" "tv_nsec delay"] s d(2) by simp
      then show ?thesis using t(2) by linarith
    qed
  qed
  then show "uint ms * 1000000 < time_ns d - time_ns now + 1000000 \<or> time_ns d \<le> time_ns now \<and> ms = 0"
    "time_ns d - time_ns now \<le> uint ms * 1000000 \<or> ms = 1000000" by blast+
qed

lemma sleep_calls_sum:
  assumes "0 \<le> x" "0 \<le> n" "n < 1000000000"
  shows "x * 1000000000 + n \<le> (\<Sum>ms\<leftarrow>sleep_calls x n. uint ms) * 1000000 \<and>
    (\<Sum>ms\<leftarrow>sleep_calls x n. uint ms) * 1000000 < x * 1000000000 + n + 1000000"
  using assms
proof (induction x n rule: sleep_calls.induct)
  case (1 x n)
  show ?case
  proof (cases "x > 1000")
    case True
    then have "(\<Sum>ms\<leftarrow>sleep_calls x n. uint ms) = 1000000 + (\<Sum>ms\<leftarrow>sleep_calls (x - 1000) n. uint ms)"
      using u32_million by (subst sleep_calls.simps) simp
    then show ?thesis using 1 True by (simp add: algebra_simps)
  next
    case False
    then have "(\<Sum>ms\<leftarrow>sleep_calls x n. uint ms) = uint (word_of_int (x * 1000 + (n + 999999) div (1000 * 1000)) :: u32)"
      by (subst sleep_calls.simps) simp
    then show ?thesis using 1(2-) False ms_round [of x n] by simp
  qed
qed

section \<open>Properties\<close>

text \<open>The Windows semaphore keeps the contract of \<^verbatim>\<open>nsync_mu_semaphore_p_with_deadline\<close>,
  as long as the wait does not fail, however often the system times out early: success only with a
  count, a timeout only after the deadline, and a return once a count can be had.  The milliseconds
  passed to a wait are not short of the time left, unless they are the maximum of 1000 seconds, and
  less than a millisecond above it.\<close>

theorem win32_semaphore_correct:
  assumes "list_all (win_sane d) xs" "time_ok d" "time_ok t" "win32_timeout d t = Some ms"
  shows "(\<forall>r. win32_semaphore_p_with_deadline d xs = Some r \<longrightarrow>
      (\<exists>n. r = Acquired n) \<and> (\<exists>e\<in>set xs. w_result e = W_OBJECT_0) \<or>
      r = Timed_out \<and> \<not> no_deadline d \<and> (\<exists>e\<in>set xs. nsync_time_cmp d (w_now e) \<le> 0)) \<and>
    ((\<exists>e\<in>set xs. w_result e = W_OBJECT_0) \<longrightarrow> win32_semaphore_p_with_deadline d xs \<noteq> None) \<and>
    (time_ns d - time_ns t \<le> uint ms * 1000000 \<or> ms = 1000000) \<and>
    (uint ms * 1000000 < time_ns d - time_ns t + 1000000 \<or> time_ns d \<le> time_ns t \<and> ms = 0)"
  using win32_sem.wait_contract [OF assms(1)] win32_timeout_spec [OF assms(2-4)] unfolding win_grant_def by metis

theorem win32_semaphore_correct_witness:
  "win32_timeout (Timespec 5 1) (Timespec 4 0) = Some 1001 \<and>
   win32_semaphore_p_with_deadline (Timespec 5 1)
     [\<lparr>w_result = WAIT_TIMEOUT, w_now = Timespec 5 0\<rparr>, \<lparr>w_result = WAIT_TIMEOUT, w_now = Timespec 5 2\<rparr>] = Some Timed_out \<and>
   (\<exists>e\<in>set [\<lparr>w_result = WAIT_TIMEOUT, w_now = Timespec 5 0\<rparr>, \<lparr>w_result = WAIT_TIMEOUT, w_now = Timespec 5 2\<rparr>].
      nsync_time_cmp (Timespec 5 1) (w_now e) \<le> 0)"
proof -
  let ?xs = "[\<lparr>w_result = WAIT_TIMEOUT, w_now = Timespec 5 0\<rparr>, \<lparr>w_result = WAIT_TIMEOUT, w_now = Timespec 5 2\<rparr>]"
  have t: "win32_timeout (Timespec 5 1) (Timespec 4 0) = Some 1001"
    by (simp add: win32_timeout_def nsync_time_cmp_def nsync_time_sub_def i64_def)
  have r: "win32_semaphore_p_with_deadline (Timespec 5 1) ?xs = Some Timed_out"
    by (simp add: win32_semaphore_p_with_deadline_def nsync_time_cmp_def nsync_time_no_deadline_def)
  have "time_ok (Timespec 5 1)" "time_ok (Timespec 4 0)" "list_all (win_sane (Timespec 5 1)) ?xs"
    by (simp_all add: nsync_time_no_deadline_def time_ok_def NSYNC_NS_IN_S_def win_sane_def no_deadline_def nsync_time_cmp_def)
  then show ?thesis using win32_semaphore_correct [OF _ _ _ t, of ?xs] t r by (auto simp: nsync_time_cmp_def)
qed

text \<open>
  \<^verbatim>\<open>SleepConditionVariableCS\<close> is documented to return 0 or 1 and to report the reason of a
  failure by \<^verbatim>\<open>GetLastError\<close>; the code compares its result with \<^verbatim>\<open>ERROR_TIMEOUT\<close>, which is
  neither.  So the first wait ends the call, and a timeout is reported as success.
\<close>

lemma cond_timedwait_never_times_out:
  assumes "cs_result x \<in> {0, 1}" "error_timeout \<notin> {0, 1}"
  shows "nsync_pthread_cond_timedwait error_timeout d (x # xs) = Some False"
  using assms by (cases d) (auto simp: cs_again_def)

text \<open>\<^verbatim>\<open>nanosleep\<close> on Windows sleeps for the time asked for, rounded up to a millisecond.\<close>

lemma win32_nanosleep_time:
  assumes "time_ok r" "0 \<le> time_ns r" "win32_nanosleep r = (calls, remain)"
  shows "time_ns r \<le> (\<Sum>ms\<leftarrow>calls. uint ms) * 1000000 \<and> (\<Sum>ms\<leftarrow>calls. uint ms) * 1000000 < time_ns r + 1000000 \<and>
    remain = nsync_time_zero"
  using assms sleep_calls_sum [of "tv_sec r" "tv_nsec r"]
  by (simp add: time_ok_def time_ns_def NSYNC_NS_IN_S_def win32_nanosleep_def nsync_time_zero_def)

text \<open>The clocks give times in the range that the functions on times expect.\<close>

lemma clocks_ok:
  "0 \<le> snd tb \<Longrightarrow> snd tb < 1000 \<Longrightarrow> - (2 ^ 63) \<le> fst tb \<Longrightarrow> fst tb < 2 ^ 63 \<Longrightarrow> time_ok (win32_clock_gettime tb)"
  "0 \<le> usec \<Longrightarrow> usec < 1000000 \<Longrightarrow> - (2 ^ 63) \<le> sec \<Longrightarrow> sec < 2 ^ 63 \<Longrightarrow>
    \<exists>t. posix_clock_gettime (Some (sec, usec)) = Some t \<and> time_ok t"
  by (auto simp: win32_clock_gettime_def posix_clock_gettime_def time_ok_def NSYNC_NS_IN_S_def)

text \<open>
  The macOS semaphore reports a timeout just when the wait for the deadline does; without a
  deadline never.
\<close>

lemma gcd_times_out:
  "gcd_semaphore_p_with_deadline wait d \<longleftrightarrow> d \<noteq> nsync_time_no_deadline \<and> wait (Some d)"
  by (auto simp: gcd_semaphore_p_with_deadline_def cmp_order_time)

end
