(* ===== verification/Spin.thy ===== *)
theory Spin
  imports Prelude
begin

text \<open>
  The spin loops of \<^verbatim>\<open>internal/common.c\<close>.  As for the semaphores, what a loop sees of
  the memory that other threads change is an argument: for each iteration the value loaded and
  whether the compare-and-swap that may follow succeeds.
\<close>

text \<open>\<open>Some n\<close> is an empty loop of \<open>n\<close> iterations, \<open>None\<close> a call of \<^verbatim>\<open>nsync_yield_\<close>.\<close>

definition nsync_spin_delay :: "u32 \<Rightarrow> u32 \<times> nat option" where
  "nsync_spin_delay attempts =
     (if attempts < 7 then (attempts + 1, Some (push_bit (unat attempts) 1)) else (attempts, None))"

text \<open>The value returned, the value stored and the number of attempts counted.\<close>

fun spin_loop :: "u32 \<Rightarrow> u32 \<Rightarrow> u32 \<Rightarrow> u32 \<Rightarrow> (u32 \<times> bool) list \<Rightarrow> (u32 \<times> u32 \<times> u32) option" where
  "spin_loop test st clear attempts [] = None"
| "spin_loop test st clear attempts ((old, cas) # xs) =
     (if old AND test \<noteq> 0 \<or> \<not> cas
      then spin_loop test st clear (fst (nsync_spin_delay attempts)) xs
      else Some (old, (old OR st) AND NOT clear, attempts))"

definition nsync_spin_test_and_set ::
  "u32 \<Rightarrow> u32 \<Rightarrow> u32 \<Rightarrow> (u32 \<times> bool) list \<Rightarrow> (u32 \<times> u32) option" where
  "nsync_spin_test_and_set test st clear xs =
     map_option (\<lambda>(old, new, attempts). (old, new)) (spin_loop test st clear 0 xs)"

lemma spin_delay_le: "a \<le> 7 \<Longrightarrow> fst (nsync_spin_delay a) \<le> 7"
  by (auto simp: nsync_spin_delay_def inc_le)

lemma spin_delay_iterations: "snd (nsync_spin_delay a) = Some n \<Longrightarrow> n \<le> 64"
proof -
  assume a: "snd (nsync_spin_delay a) = Some n"
  then have "a < 7" "n = 2 ^ unat a" by (auto simp: nsync_spin_delay_def push_bit_eq_mult split: if_splits)
  moreover from this have "unat a \<le> 6" by (simp add: word_less_nat_alt)
  ultimately have "n \<le> 2 ^ 6" by (metis one_le_numeral power_increasing)
  then show ?thesis by simp
qed

text \<open>The first observation that lets the loop through.\<close>

definition spin_granted :: "u32 \<Rightarrow> u32 \<times> bool \<Rightarrow> bool" where
  "spin_granted test x \<longleftrightarrow> fst x AND test = 0 \<and> snd x"

lemma spin_loop_find:
  "map_option (\<lambda>(old, new, a). (old, new)) (spin_loop test st clear a xs) =
     map_option (\<lambda>(old, cas). (old, (old OR st) AND NOT clear)) (find (spin_granted test) xs)"
  by (induction xs arbitrary: a) (auto simp: spin_granted_def)

lemma spin_loop_attempts: "spin_loop test st clear a xs = Some (old, new, a') \<Longrightarrow> a \<le> 7 \<Longrightarrow> a' \<le> 7"
proof (induction xs arbitrary: a)
  case (Cons x xs)
  obtain v c where x: "x = (v, c)" by (cases x)
  then show ?case using Cons.IH [of "fst (nsync_spin_delay a)"] Cons.prems spin_delay_le [of a]
    by (cases "v AND test \<noteq> 0 \<or> \<not> c") simp_all
qed simp

section \<open>Properties\<close>

text \<open>\<^verbatim>\<open>nsync_spin_test_and_set_\<close> returns in the first iteration that finds the
  tested bits clear and whose compare-and-swap succeeds, and spins on just when there is none.
  It returns the value it replaced and leaves that value with the bits set and cleared as
  asked.\<close>

theorem spin_test_and_set_correct:
  "nsync_spin_test_and_set test st clear xs =
     map_option (\<lambda>(old, cas). (old, (old OR st) AND NOT clear))
       (find (\<lambda>(old, cas). old AND test = 0 \<and> cas) xs)"
proof -
  have "spin_granted test = (\<lambda>(old, cas). old AND test = 0 \<and> cas)"
    by (auto simp: spin_granted_def fun_eq_iff)
  then show ?thesis using spin_loop_find [of test st clear 0 xs] by (simp add: nsync_spin_test_and_set_def)
qed

text \<open>The back-off of a spin loop is bounded: however long it spins, the attempt count stays
  at most 7 and one delay is at most 64 empty iterations or one yield.\<close>

theorem spin_backoff_bounded:
  assumes "spin_loop test st clear 0 xs = Some (old, new, attempts)"
  shows "attempts \<le> 7 \<and> (case snd (nsync_spin_delay attempts) of None \<Rightarrow> attempts = 7 | Some n \<Rightarrow> n \<le> 64)"
  using spin_loop_attempts [OF assms] spin_delay_iterations [of attempts]
  by (auto simp: nsync_spin_delay_def split: if_splits option.splits)

theorem spin_backoff_bounded_witness:
  "spin_loop 1 1 0 0 (replicate 9 (1, False) @ [(0, True)]) = Some (0, 1, 7) \<and> (7::u32) \<le> 7"
proof -
  have "spin_loop 1 1 0 0 (replicate 9 (1, False) @ [(0, True)]) = Some (0, 1, 7)" by code_simp
  then show ?thesis using spin_backoff_bounded by blast
qed

end
