(* ===== verification/Once.thy ===== *)
theory Once
  imports Spin Time Dll Refinement
begin

text \<open>
  \<^verbatim>\<open>internal/once.c\<close>: the one-time initialisers, as a system of threads each of which
  takes one step per access to shared memory.  A mutex of the array \<^verbatim>\<open>once_sync\<close> is its
  owner, which is what the mutual exclusion of \<^verbatim>\<open>nsync_mu\<close> provides; a wait on the
  condition variable gives the mutex up and may end at any time, as it does when its deadline
  passes.  The clients may call the four variants on any number of \<^verbatim>\<open>nsync_once\<close> words,
  several of which may share a mutex.  For each word the state also records which calls of the
  initialiser have begun and how many have returned.
\<close>

text \<open>The arguments: the word, whether the variant spins (\<^verbatim>\<open>s == NULL\<close>), and \<^verbatim>\<open>arg\<close> for the variants with \<^verbatim>\<open>farg\<close>.\<close>

record once_call =
  oc_once :: addr
  oc_spin :: bool
  oc_arg :: "addr option"

datatype once_pc =
    O_idle | O_run once_call | O_load once_call | O_lock once_call u32 | O_cas once_call u32
  | O_reload once_call | O_unlock once_call | O_call once_call | O_in once_call
  | O_relock once_call | O_broadcast once_call | O_store once_call
  | O_check once_call u32 | O_sleep once_call u32 | O_wake once_call u32
  | O_final once_call | O_returned once_call

record once_sys =
  once_word :: "addr \<Rightarrow> u32"
  once_mu :: "nat \<Rightarrow> tid option"
  once_begun :: "addr \<Rightarrow> (tid \<times> addr option) list"
  once_ended :: "addr \<Rightarrow> nat"
  once_pcs :: "tid \<Rightarrow> once_pc"

text \<open>The macro \<^verbatim>\<open>NSYNC_ONCE_SYNC_\<close>: \<^verbatim>\<open>sizeof (nsync_once)\<close> is 4, the array has 64 elements.\<close>

definition NSYNC_ONCE_SYNC :: "addr \<Rightarrow> nat" where
  "NSYNC_ONCE_SYNC p = (p div 4) mod 64"

definition ogoto :: "tid \<Rightarrow> once_pc \<Rightarrow> once_sys \<Rightarrow> once_sys" where
  "ogoto t p s = s\<lparr>once_pcs := (once_pcs s)(t := p)\<rparr>"

text \<open>\<^verbatim>\<open>nsync_mu_lock\<close>: the thread stays where it is while another holds the mutex.\<close>

definition once_lock :: "tid \<Rightarrow> once_call \<Rightarrow> once_pc \<Rightarrow> once_sys \<Rightarrow> once_sys" where
  "once_lock t c p s =
     (let k = NSYNC_ONCE_SYNC (oc_once c)
      in if once_mu s k = None then ogoto t p (s\<lparr>once_mu := (once_mu s)(k := Some t)\<rparr>) else s)"

definition once_unlock :: "tid \<Rightarrow> once_call \<Rightarrow> once_pc \<Rightarrow> once_sys \<Rightarrow> once_sys" where
  "once_unlock t c p s =
     ogoto t p (s\<lparr>once_mu := (once_mu s)(NSYNC_ONCE_SYNC (oc_once c) := None)\<rparr>)"

text \<open>The time the wait is given: \<^verbatim>\<open>attempts\<close> milliseconds from now.\<close>

definition once_deadline :: "nsync_time \<Rightarrow> u32 \<Rightarrow> nsync_time option" where
  "once_deadline now attempts = nsync_time_add now (nsync_time_ms attempts)"

fun nsync_run_once_impl :: "tid \<Rightarrow> once_pc \<Rightarrow> once_sys \<Rightarrow> once_sys" where
  "nsync_run_once_impl t (O_load c) s =
     (let o' = once_word s (oc_once c)
      in if o' \<noteq> 2 then ogoto t (if oc_spin c then O_cas c o' else O_lock c o') s
         else ogoto t (O_returned c) s)"
| "nsync_run_once_impl t (O_lock c o') s = once_lock t c (O_cas c o') s"
| "nsync_run_once_impl t (O_cas c o') s =
     (if o' = 0
      then (if once_word s (oc_once c) = 0
            then ogoto t (if oc_spin c then O_call c else O_unlock c)
                   (s\<lparr>once_word := (once_word s)(oc_once c := 1)\<rparr>)
            else ogoto t (O_reload c) s)
      else ogoto t (O_check c 0) s)"
| "nsync_run_once_impl t (O_reload c) s = ogoto t (O_cas c (once_word s (oc_once c))) s"
| "nsync_run_once_impl t (O_unlock c) s = once_unlock t c (O_call c) s"
| "nsync_run_once_impl t (O_call c) s =
     ogoto t (O_in c)
       (s\<lparr>once_begun := (once_begun s)(oc_once c := once_begun s (oc_once c) @ [(t, oc_arg c)])\<rparr>)"
| "nsync_run_once_impl t (O_in c) s =
     ogoto t (if oc_spin c then O_store c else O_relock c)
       (s\<lparr>once_ended := (once_ended s)(oc_once c := once_ended s (oc_once c) + 1)\<rparr>)"
| "nsync_run_once_impl t (O_relock c) s = once_lock t c (O_broadcast c) s"
| "nsync_run_once_impl t (O_broadcast c) s = ogoto t (O_store c) s"
| "nsync_run_once_impl t (O_store c) s =
     ogoto t (O_check c 0) (s\<lparr>once_word := (once_word s)(oc_once c := 2)\<rparr>)"
| "nsync_run_once_impl t (O_check c attempts) s =
     (if once_word s (oc_once c) \<noteq> 2
      then (if oc_spin c then ogoto t (O_check c (fst (nsync_spin_delay attempts))) s
            else
              (let attempts = (if attempts < 50 then attempts + 10 else attempts)
               in once_unlock t c (O_sleep c attempts) s))
      else ogoto t (if oc_spin c then O_returned c else O_final c) s)"
| "nsync_run_once_impl t (O_sleep c attempts) s = ogoto t (O_wake c attempts) s"
| "nsync_run_once_impl t (O_wake c attempts) s = once_lock t c (O_check c attempts) s"
| "nsync_run_once_impl t (O_final c) s = once_unlock t c (O_returned c) s"
| "nsync_run_once_impl t p s = s"

text \<open>The test in the four entry points, and the entry points.\<close>

definition run_once_test :: "tid \<Rightarrow> once_call \<Rightarrow> once_sys \<Rightarrow> once_sys" where
  "run_once_test t c s =
     (if once_word s (oc_once c) \<noteq> 2 then ogoto t (O_load c) s else ogoto t (O_returned c) s)"

definition nsync_run_once :: "tid \<Rightarrow> addr \<Rightarrow> once_sys \<Rightarrow> once_sys" where
  "nsync_run_once t p s = ogoto t (O_run \<lparr>oc_once = p, oc_spin = False, oc_arg = None\<rparr>) s"

definition nsync_run_once_arg :: "tid \<Rightarrow> addr \<Rightarrow> addr \<Rightarrow> once_sys \<Rightarrow> once_sys" where
  "nsync_run_once_arg t p arg s = ogoto t (O_run \<lparr>oc_once = p, oc_spin = False, oc_arg = Some arg\<rparr>) s"

definition nsync_run_once_spin :: "tid \<Rightarrow> addr \<Rightarrow> once_sys \<Rightarrow> once_sys" where
  "nsync_run_once_spin t p s = ogoto t (O_run \<lparr>oc_once = p, oc_spin = True, oc_arg = None\<rparr>) s"

definition nsync_run_once_arg_spin :: "tid \<Rightarrow> addr \<Rightarrow> addr \<Rightarrow> once_sys \<Rightarrow> once_sys" where
  "nsync_run_once_arg_spin t p arg s = ogoto t (O_run \<lparr>oc_once = p, oc_spin = True, oc_arg = Some arg\<rparr>) s"

fun once_at :: "tid \<Rightarrow> once_pc \<Rightarrow> once_sys \<Rightarrow> once_sys" where
  "once_at t (O_run c) s = run_once_test t c s"
| "once_at t p s = nsync_run_once_impl t p s"

definition once_run :: "tid \<Rightarrow> once_sys \<Rightarrow> once_sys" where
  "once_run t s = once_at t (once_pcs s t) s"

definition once_outside :: "once_pc \<Rightarrow> bool" where
  "once_outside p = (case p of O_idle \<Rightarrow> True | O_returned _ \<Rightarrow> True | _ \<Rightarrow> False)"

inductive once_step :: "nat \<Rightarrow> once_sys \<Rightarrow> once_sys \<Rightarrow> bool" for N where
  run: "t < N \<Longrightarrow> once_step N s (once_run t s)"
| once: "t < N \<Longrightarrow> once_outside (once_pcs s t) \<Longrightarrow> once_step N s (nsync_run_once t p s)"
| once_arg: "t < N \<Longrightarrow> once_outside (once_pcs s t) \<Longrightarrow> once_step N s (nsync_run_once_arg t p a s)"
| spin: "t < N \<Longrightarrow> once_outside (once_pcs s t) \<Longrightarrow> once_step N s (nsync_run_once_spin t p s)"
| arg_spin: "t < N \<Longrightarrow> once_outside (once_pcs s t) \<Longrightarrow> once_step N s (nsync_run_once_arg_spin t p a s)"

definition once_init :: once_sys where
  "once_init = \<lparr>once_word = \<lambda>_. 0, once_mu = \<lambda>_. None, once_begun = \<lambda>_. [], once_ended = \<lambda>_. 0,
     once_pcs = \<lambda>_. O_idle\<rparr>"

section \<open>The invariant\<close>

text \<open>The initialiser's thread, from its compare-and-swap to the store of 2, and its progress.\<close>

definition once_runner :: "addr \<Rightarrow> once_pc \<Rightarrow> bool" where
  "once_runner p q =
     (case q of O_unlock c \<Rightarrow> oc_once c = p | O_call c \<Rightarrow> oc_once c = p | O_in c \<Rightarrow> oc_once c = p
      | O_relock c \<Rightarrow> oc_once c = p | O_broadcast c \<Rightarrow> oc_once c = p | O_store c \<Rightarrow> oc_once c = p | _ \<Rightarrow> False)"

definition begun_by :: "once_pc \<Rightarrow> nat" where
  "begun_by q = (case q of O_unlock c \<Rightarrow> 0 | O_call c \<Rightarrow> 0 | _ \<Rightarrow> 1)"

definition ended_by :: "once_pc \<Rightarrow> nat" where
  "ended_by q = (case q of O_unlock c \<Rightarrow> 0 | O_call c \<Rightarrow> 0 | O_in c \<Rightarrow> 0 | _ \<Rightarrow> 1)"

text \<open>The mutex a thread holds at each point.\<close>

definition once_held :: "once_pc \<Rightarrow> nat option" where
  "once_held q =
     (case q of
        O_cas c _ \<Rightarrow> if oc_spin c then None else Some (NSYNC_ONCE_SYNC (oc_once c))
      | O_reload c \<Rightarrow> if oc_spin c then None else Some (NSYNC_ONCE_SYNC (oc_once c))
      | O_unlock c \<Rightarrow> Some (NSYNC_ONCE_SYNC (oc_once c))
      | O_broadcast c \<Rightarrow> Some (NSYNC_ONCE_SYNC (oc_once c))
      | O_store c \<Rightarrow> if oc_spin c then None else Some (NSYNC_ONCE_SYNC (oc_once c))
      | O_check c _ \<Rightarrow> if oc_spin c then None else Some (NSYNC_ONCE_SYNC (oc_once c))
      | O_final c \<Rightarrow> Some (NSYNC_ONCE_SYNC (oc_once c))
      | _ \<Rightarrow> None)"

text \<open>The values \<^verbatim>\<open>attempts\<close> can have after a sleep.\<close>

definition slept :: "u32 \<Rightarrow> bool" where
  "slept a \<longleftrightarrow> a \<in> {10, 20, 30, 40, 50}"

text \<open>What a thread knows of the word at each point, and the bound on its attempts.\<close>

definition once_knows :: "once_sys \<Rightarrow> once_pc \<Rightarrow> bool" where
  "once_knows s q =
     (case q of
        O_lock c o' \<Rightarrow> \<not> oc_spin c \<and> (o' \<noteq> 0 \<longrightarrow> once_word s (oc_once c) \<noteq> 0)
      | O_cas c o' \<Rightarrow> o' \<noteq> 0 \<longrightarrow> once_word s (oc_once c) \<noteq> 0
      | O_check c a \<Rightarrow>
          once_word s (oc_once c) \<noteq> 0 \<and> (if oc_spin c then a \<le> 7 else (a = 0 \<or> slept a))
      | O_sleep c a \<Rightarrow> \<not> oc_spin c \<and> once_word s (oc_once c) \<noteq> 0 \<and> slept a
      | O_wake c a \<Rightarrow> \<not> oc_spin c \<and> once_word s (oc_once c) \<noteq> 0 \<and> slept a
      | O_unlock c \<Rightarrow> \<not> oc_spin c
      | O_relock c \<Rightarrow> \<not> oc_spin c
      | O_broadcast c \<Rightarrow> \<not> oc_spin c
      | O_final c \<Rightarrow> \<not> oc_spin c \<and> once_word s (oc_once c) = 2
      | O_returned c \<Rightarrow> once_word s (oc_once c) = 2
      | _ \<Rightarrow> True)"

definition once_phase :: "nat \<Rightarrow> once_sys \<Rightarrow> addr \<Rightarrow> bool" where
  "once_phase N s p \<longleftrightarrow>
     once_word s p = 0 \<and> once_begun s p = [] \<and> once_ended s p = 0 \<and> (\<forall>t<N. \<not> once_runner p (once_pcs s t)) \<or>
     once_word s p = 1 \<and>
       (\<exists>t<N. once_runner p (once_pcs s t) \<and> (\<forall>u<N. once_runner p (once_pcs s u) \<longrightarrow> u = t) \<and>
          length (once_begun s p) = begun_by (once_pcs s t) \<and> once_ended s p = ended_by (once_pcs s t)) \<or>
     once_word s p = 2 \<and> length (once_begun s p) = 1 \<and> once_ended s p = 1 \<and>
       (\<forall>t<N. \<not> once_runner p (once_pcs s t))"

definition once_inv :: "nat \<Rightarrow> once_sys \<Rightarrow> bool" where
  "once_inv N s \<longleftrightarrow>
     (\<forall>p. once_phase N s p) \<and> (\<forall>t<N. once_knows s (once_pcs s t)) \<and>
     (\<forall>k t. once_mu s k = Some t \<longleftrightarrow> t < N \<and> once_held (once_pcs s t) = Some k)"

lemma ogoto_simps [simp]:
  "once_word (ogoto t q s) = once_word s" "once_mu (ogoto t q s) = once_mu s"
  "once_begun (ogoto t q s) = once_begun s" "once_ended (ogoto t q s) = once_ended s"
  "once_pcs (ogoto t q s) = (once_pcs s)(t := q)"
  by (simp_all add: ogoto_def)

text \<open>A thread that is not, and does not become, the initialiser's leaves the phase as it is.\<close>

lemma phase_keep:
  assumes "once_phase N s p" "t < N" "\<And>u. u \<noteq> t \<Longrightarrow> once_pcs s' u = once_pcs s u"
    "once_word s' p = once_word s p" "once_begun s' p = once_begun s p" "once_ended s' p = once_ended s p"
    "once_runner p (once_pcs s' t) = once_runner p (once_pcs s t)"
    "once_runner p (once_pcs s' t) \<Longrightarrow> begun_by (once_pcs s' t) = begun_by (once_pcs s t) \<and> ended_by (once_pcs s' t) = ended_by (once_pcs s t)"
  shows "once_phase N s' p"
proof -
  have "once_runner p (once_pcs s' u) = once_runner p (once_pcs s u)" for u using assms(3,7) by (cases "u = t") simp_all
  moreover have "once_runner p (once_pcs s u) \<Longrightarrow>
      begun_by (once_pcs s' u) = begun_by (once_pcs s u) \<and> ended_by (once_pcs s' u) = ended_by (once_pcs s u)" for u
    using assms(3,7,8) by (cases "u = t") simp_all
  ultimately show ?thesis using assms(1) unfolding once_phase_def assms(4-6) by metis
qed

text \<open>The initialiser's thread advances, when the counts advance with it.\<close>

lemma phase_runner:
  assumes "once_phase N s p" "t < N" "once_runner p (once_pcs s t)"
  shows "once_word s p = 1" "\<And>u. u < N \<Longrightarrow> once_runner p (once_pcs s u) \<Longrightarrow> u = t"
    "length (once_begun s p) = begun_by (once_pcs s t)" "once_ended s p = ended_by (once_pcs s t)"
  using assms unfolding once_phase_def by metis+

lemma phase_advance:
  assumes "once_phase N s p" "t < N" "once_runner p (once_pcs s t)" "\<And>u. u \<noteq> t \<Longrightarrow> once_pcs s' u = once_pcs s u"
    "once_word s' p = once_word s p" "once_runner p (once_pcs s' t)"
    "length (once_begun s' p) = begun_by (once_pcs s' t)" "once_ended s' p = ended_by (once_pcs s' t)"
  shows "once_phase N s' p"
proof -
  have "once_runner p (once_pcs s' u) \<Longrightarrow> u = t" if "u < N" for u
    using phase_runner(2) [OF assms(1-3) that] assms(4) [of u] by (cases "u = t") auto
  moreover have "once_word s' p = 1" using phase_runner(1) [OF assms(1-3)] assms(5) by simp
  ultimately show ?thesis unfolding once_phase_def using assms(2,6-8) by blast
qed

lemma phase_start:
  assumes "once_phase N s p" "t < N" "once_word s p = 0" "\<And>u. u \<noteq> t \<Longrightarrow> once_pcs s' u = once_pcs s u"
    "once_word s' p = 1" "once_begun s' p = once_begun s p" "once_ended s' p = once_ended s p"
    "once_runner p (once_pcs s' t)" "begun_by (once_pcs s' t) = 0" "ended_by (once_pcs s' t) = 0"
  shows "once_phase N s' p"
proof -
  have z: "once_begun s p = []" "once_ended s p = 0" "\<And>u. u < N \<Longrightarrow> \<not> once_runner p (once_pcs s u)"
    using assms(1,3) unfolding once_phase_def by auto
  have "once_runner p (once_pcs s' u) \<Longrightarrow> u = t" if "u < N" for u
    using z(3) [OF that] assms(4) [of u] by (cases "u = t") auto
  moreover have "length (once_begun s' p) = begun_by (once_pcs s' t)" "once_ended s' p = ended_by (once_pcs s' t)"
    using z(1,2) assms(6,7,9,10) by simp_all
  ultimately show ?thesis unfolding once_phase_def using assms(2,5,8) by blast
qed

lemma phase_end:
  assumes "once_phase N s p" "t < N" "once_runner p (once_pcs s t)" "\<And>u. u \<noteq> t \<Longrightarrow> once_pcs s' u = once_pcs s u"
    "once_word s' p = 2" "once_begun s' p = once_begun s p" "once_ended s' p = once_ended s p"
    "\<not> once_runner p (once_pcs s' t)" "begun_by (once_pcs s t) = 1" "ended_by (once_pcs s t) = 1"
  shows "once_phase N s' p"
proof -
  have "\<not> once_runner p (once_pcs s' u)" if "u < N" for u
    using phase_runner(2) [OF assms(1-3) that] assms(4) [of u] assms(8) by (cases "u = t") auto
  then show ?thesis unfolding once_phase_def using phase_runner(3,4) [OF assms(1-3)] assms(5-7,9,10) by auto
qed

lemmas once_pc_simps = once_runner_def begun_by_def ended_by_def once_held_def once_knows_def

lemma impl_phase:
  assumes inv: "once_inv N s" and t: "t < N" and q: "once_pcs s t = q"
  shows "once_phase N (nsync_run_once_impl t q s) p"
proof -
  have ph: "once_phase N s p" and k: "once_knows s q" using inv t q by (auto simp: once_inv_def)
  show ?thesis
  proof (cases q)
    case (O_cas c o')
    then show ?thesis
    proof (cases "o' = 0 \<and> once_word s (oc_once c) = 0 \<and> p = oc_once c")
      case True
      then show ?thesis using O_cas by (intro phase_start [OF ph t]) (auto simp: once_pc_simps)
    next
      case False
      then show ?thesis using O_cas q
        by (intro phase_keep [OF ph t]) (auto simp: once_pc_simps split: if_splits)
    qed
  next
    case (O_call c)
    show ?thesis
    proof (cases "p = oc_once c")
      case True
      then show ?thesis using O_call q phase_runner(3,4) [OF ph t]
        by (intro phase_advance [OF ph t]) (auto simp: once_pc_simps)
    next
      case False
      then show ?thesis using O_call q by (intro phase_keep [OF ph t]) (auto simp: once_pc_simps)
    qed
  next
    case (O_in c)
    show ?thesis
    proof (cases "p = oc_once c")
      case True
      then show ?thesis using O_in q phase_runner(3,4) [OF ph t]
        by (intro phase_advance [OF ph t]) (auto simp: once_pc_simps)
    next
      case False
      then show ?thesis using O_in q
        by (intro phase_keep [OF ph t]) (auto simp: once_pc_simps split: if_splits)
    qed
  next
    case (O_store c)
    show ?thesis
    proof (cases "p = oc_once c")
      case True
      then show ?thesis using O_store q by (intro phase_end [OF ph t]) (auto simp: once_pc_simps)
    next
      case False
      then show ?thesis using O_store q by (intro phase_keep [OF ph t]) (auto simp: once_pc_simps)
    qed
  qed (use q in \<open>auto intro!: phase_keep [OF ph t] simp: once_lock_def once_unlock_def Let_def once_pc_simps\<close>)
qed

text \<open>Words only go up.\<close>

lemma impl_word:
  assumes "once_word s p \<noteq> 0"
  shows "once_word (nsync_run_once_impl t q s) p \<in> {once_word s p, 2}"
  using assms by (cases q) (auto simp: once_lock_def once_unlock_def Let_def)

lemma knows_mono:
  assumes "once_knows s q" "\<And>p. once_word s p \<noteq> 0 \<Longrightarrow> once_word s' p \<in> {once_word s p, 2}"
  shows "once_knows s' q"
proof -
  have "once_word s p \<noteq> 0 \<Longrightarrow> once_word s' p \<noteq> 0" "once_word s p = 2 \<Longrightarrow> once_word s' p = 2" for p
    using assms(2) [of p] by auto
  then show ?thesis using assms(1) unfolding once_knows_def by (cases q) auto
qed

lemma slept_next: "a = 0 \<or> slept a \<Longrightarrow> slept (if a < 50 then a + 10 else a)"
  by (auto simp: slept_def)

lemma impl_knows_self:
  assumes "once_knows s q" "once_pcs s t = q"
  shows "once_knows (nsync_run_once_impl t q s) (once_pcs (nsync_run_once_impl t q s) t)"
proof (cases q)
  case (O_check c a)
  then show ?thesis using assms spin_delay_le [of a] slept_next [of a]
    by (simp add: once_unlock_def Let_def once_knows_def)
qed (use assms in \<open>auto simp: once_lock_def once_unlock_def Let_def once_knows_def\<close>)

lemma impl_other: "u \<noteq> t \<Longrightarrow> once_pcs (nsync_run_once_impl t q s) u = once_pcs s u"
  by (cases q) (auto simp: once_lock_def once_unlock_def Let_def)

text \<open>Who holds a mutex: a step of thread \<open>t\<close> gives up what it held or takes one that is free.\<close>

definition mu_ok :: "nat \<Rightarrow> once_sys \<Rightarrow> bool" where
  "mu_ok N s \<longleftrightarrow> (\<forall>k t. once_mu s k = Some t \<longleftrightarrow> t < N \<and> once_held (once_pcs s t) = Some k)"

lemma mu_keep:
  assumes "mu_ok N s" "t < N" "once_held (once_pcs s' t) = once_held (once_pcs s t)" "once_mu s' = once_mu s"
    "\<And>u. u \<noteq> t \<Longrightarrow> once_pcs s' u = once_pcs s u"
  shows "mu_ok N s'"
proof -
  have "once_held (once_pcs s' u) = once_held (once_pcs s u)" for u using assms(3,5) by (cases "u = t") auto
  then show ?thesis using assms(1,4) unfolding mu_ok_def by simp
qed

lemma mu_lock:
  assumes "mu_ok N s" "t < N" "once_held (once_pcs s t) = None" "once_held q = Some (NSYNC_ONCE_SYNC (oc_once c))"
  shows "mu_ok N (once_lock t c q s)"
proof (cases "once_mu s (NSYNC_ONCE_SYNC (oc_once c)) = None")
  case True
  then have "\<not> (u < N \<and> once_held (once_pcs s u) = Some (NSYNC_ONCE_SYNC (oc_once c)))" for u
    using assms(1) unfolding mu_ok_def by (metis option.distinct(1))
  then show ?thesis using True assms unfolding mu_ok_def once_lock_def Let_def by auto
next
  case False
  then have "once_lock t c q s = s" unfolding once_lock_def Let_def by (rule if_not_P)
  then show ?thesis using assms(1) by simp
qed

lemma mu_unlock:
  assumes "mu_ok N s" "t < N" "once_held q = None" "once_held (once_pcs s t) = Some (NSYNC_ONCE_SYNC (oc_once c))"
  shows "mu_ok N (once_unlock t c q s)"
proof -
  have "once_mu s (NSYNC_ONCE_SYNC (oc_once c)) = Some t" using assms(1,2,4) unfolding mu_ok_def by blast
  then have o: "u < N \<and> once_held (once_pcs s u) = Some (NSYNC_ONCE_SYNC (oc_once c)) \<longleftrightarrow> u = t" for u
    using assms(1) unfolding mu_ok_def by (metis option.inject)
  show ?thesis unfolding mu_ok_def
  proof (intro allI)
    fix k u
    show "once_mu (once_unlock t c q s) k = Some u \<longleftrightarrow>
        u < N \<and> once_held (once_pcs (once_unlock t c q s) u) = Some k"
      using o [of u] assms unfolding mu_ok_def once_unlock_def
      by (cases "u = t"; cases "k = NSYNC_ONCE_SYNC (oc_once c)") auto
  qed
qed

lemma impl_mu:
  assumes m: "mu_ok N s" and t: "t < N" and q: "once_pcs s t = q" and k: "once_knows s q"
  shows "mu_ok N (nsync_run_once_impl t q s)"
proof (cases q)
  case (O_check c a)
  then show ?thesis using q
    by (auto intro!: mu_keep [OF m t] mu_unlock [OF m t] simp: once_held_def Let_def)
next
  case (O_cas c o')
  then show ?thesis using q by (auto intro!: mu_keep [OF m t] simp: once_held_def)
qed (use q k m in \<open>auto intro!: mu_keep [OF m t] mu_lock [OF m t] mu_unlock [OF m t] simp: once_held_def once_knows_def Let_def\<close>)

section \<open>Reachable states\<close>

lemma once_invD:
  assumes "once_inv N s"
  shows "once_phase N s p" "t < N \<Longrightarrow> once_knows s (once_pcs s t)" "mu_ok N s"
  using assms by (auto simp: once_inv_def mu_ok_def)

lemma once_invI:
  "(\<And>p. once_phase N s p) \<Longrightarrow> (\<And>t. t < N \<Longrightarrow> once_knows s (once_pcs s t)) \<Longrightarrow> mu_ok N s \<Longrightarrow> once_inv N s"
  by (auto simp: once_inv_def mu_ok_def)

lemma impl_inv:
  assumes inv: "once_inv N s" and t: "t < N"
  shows "once_inv N (nsync_run_once_impl t (once_pcs s t) s)"
proof -
  let ?s = "nsync_run_once_impl t (once_pcs s t) s"
  have "once_knows ?s (once_pcs ?s u)" if "u < N" for u
  proof (cases "u = t")
    case True
    then show ?thesis using impl_knows_self [OF once_invD(2) [OF inv t]] by simp
  next
    case False
    then show ?thesis
      using knows_mono [OF once_invD(2) [OF inv that] impl_word] impl_other [of u t] by simp
  qed
  moreover have "mu_ok N ?s" using impl_mu [OF once_invD(3) [OF inv] t _ once_invD(2) [OF inv t]] by simp
  ultimately show ?thesis by (rule once_invI [OF impl_phase [OF inv t refl]])
qed

lemma goto_inv:
  assumes inv: "once_inv N s" and t: "t < N" and q: "once_held (once_pcs s t) = None" "once_held q = None"
    "\<And>p. \<not> once_runner p (once_pcs s t)" "\<And>p. \<not> once_runner p q" "once_knows s q"
  shows "once_inv N (ogoto t q s)"
proof -
  have "once_phase N (ogoto t q s) p" for p using q by (intro phase_keep [OF once_invD(1) [OF inv] t]) auto
  moreover have "mu_ok N (ogoto t q s)" using q by (intro mu_keep [OF once_invD(3) [OF inv] t]) auto
  moreover have "once_knows (ogoto t q s) r = once_knows s r" for r by (simp add: once_knows_def cong: once_pc.case_cong)
  ultimately show ?thesis using once_invD(2) [OF inv] q(5) by (auto intro: once_invI)
qed

lemma once_run_inv:
  assumes inv: "once_inv N s" and t: "t < N"
  shows "once_inv N (once_run t s)"
proof (cases "once_pcs s t")
  case (O_run c)
  then show ?thesis using t
    by (auto simp: once_run_def run_once_test_def once_pc_simps intro!: goto_inv [OF inv t])
qed (use impl_inv [OF inv t] in \<open>simp_all add: once_run_def\<close>)

lemma once_step_inv:
  assumes "once_step N s s'" "once_inv N s"
  shows "once_inv N s'"
  using assms
proof cases
  case (run t)
  then show ?thesis using once_run_inv assms(2) by simp
qed (auto simp: nsync_run_once_def nsync_run_once_arg_def nsync_run_once_spin_def nsync_run_once_arg_spin_def
      once_outside_def once_pc_simps intro!: goto_inv [OF assms(2)] split: once_pc.splits)

lemma once_init_inv: "once_inv N once_init"
  by (simp add: once_inv_def once_init_def once_phase_def once_pc_simps)

lemma once_reach_inv: "(once_step N)\<^sup>*\<^sup>* once_init s \<Longrightarrow> once_inv N s"
  by (induction rule: rtranclp_induct) (auto intro: once_init_inv once_step_inv)

section \<open>The specification\<close>

text \<open>What a client sees of one word: the initialiser has not begun, is running, or has returned.
  Every other number of calls begun and ended is \<open>Broken\<close>, which no step of the specification
  reaches.\<close>

datatype once_spec = Fresh | Running | Done | Broken

definition once_state :: "nat \<Rightarrow> nat \<Rightarrow> once_spec" where
  "once_state begun ended =
     (if begun = 0 \<and> ended = 0 then Fresh else if begun = 1 \<and> ended = 0 then Running
      else if begun = 1 \<and> ended = 1 then Done else Broken)"

inductive once_spec_step :: "(addr \<Rightarrow> once_spec) \<Rightarrow> (addr \<Rightarrow> once_spec) \<Rightarrow> bool" where
  begin_once: "a p = Fresh \<Longrightarrow> once_spec_step a (a(p := Running))"
| end_once: "a p = Running \<Longrightarrow> once_spec_step a (a(p := Done))"

definition once_abs :: "once_sys \<Rightarrow> addr \<Rightarrow> once_spec" where
  "once_abs s p = once_state (length (once_begun s p)) (once_ended s p)"

lemma once_state_simps [simp]:
  "once_state 0 0 = Fresh" "once_state 1 0 = Running" "once_state (Suc 0) 0 = Running" "once_state 1 1 = Done"
  "once_state (Suc 0) (Suc 0) = Done"
  by (simp_all add: once_state_def)

text \<open>A word of the specification is never \<open>Broken\<close>.\<close>

lemma once_spec_ok: "once_spec_step\<^sup>*\<^sup>* a b \<Longrightarrow> a p \<noteq> Broken \<Longrightarrow> b p \<noteq> Broken"
  by (induction rule: rtranclp_induct) (auto simp: once_spec_step.simps split: if_splits)

lemma phase_counts:
  assumes "once_phase N s p"
  shows "length (once_begun s p) \<le> 1" "once_ended s p \<le> length (once_begun s p)"
    "once_word s p = 2 \<Longrightarrow> length (once_begun s p) = 1 \<and> once_ended s p = 1"
  using assms unfolding once_phase_def begun_by_def ended_by_def by (auto split: once_pc.splits)

lemma returned_counts:
  assumes "once_inv N s" "t < N" "once_pcs s t = O_returned c"
  shows "length (once_begun s (oc_once c)) = 1 \<and> once_ended s (oc_once c) = 1"
proof -
  have "once_word s (oc_once c) = 2" using once_invD(2) [OF assms(1,2)] assms(3) by (simp add: once_knows_def)
  then show ?thesis using phase_counts(3) [OF once_invD(1) [OF assms(1)]] by blast
qed

lemma impl_counts:
  "once_begun (nsync_run_once_impl t q s) =
     (case q of O_call c \<Rightarrow> (once_begun s)(oc_once c := once_begun s (oc_once c) @ [(t, oc_arg c)]) | _ \<Rightarrow> once_begun s)"
  "once_ended (nsync_run_once_impl t q s) =
     (case q of O_in c \<Rightarrow> (once_ended s)(oc_once c := once_ended s (oc_once c) + 1) | _ \<Rightarrow> once_ended s)"
  by (cases q; simp add: once_lock_def once_unlock_def Let_def)+

lemma once_run_simulates:
  assumes inv: "once_inv N s" and t: "t < N"
  shows "once_abs (once_run t s) = once_abs s \<or> once_spec_step (once_abs s) (once_abs (once_run t s))"
proof (cases "once_pcs s t")
  case (O_run c)
  then show ?thesis by (auto simp: once_run_def run_once_test_def once_abs_def fun_eq_iff)
next
  case (O_call c)
  have "length (once_begun s (oc_once c)) = 0" "once_ended s (oc_once c) = 0"
    using phase_runner(3,4) [OF once_invD(1) [OF inv] t] O_call by (simp_all add: once_pc_simps)
  then have "once_abs s (oc_once c) = Fresh" "once_abs (once_run t s) = (once_abs s)(oc_once c := Running)"
    using O_call by (auto simp: once_abs_def once_run_def impl_counts)
  then show ?thesis using begin_once [of "once_abs s" "oc_once c"] by simp
next
  case (O_in c)
  have "length (once_begun s (oc_once c)) = 1" "once_ended s (oc_once c) = 0"
    using phase_runner(3,4) [OF once_invD(1) [OF inv] t] O_in by (simp_all add: once_pc_simps)
  then have "once_abs s (oc_once c) = Running" "once_abs (once_run t s) = (once_abs s)(oc_once c := Done)"
    using O_in by (auto simp: once_abs_def once_run_def fun_eq_iff)
  then show ?thesis using end_once [of "once_abs s" "oc_once c"] by simp
qed (simp_all add: once_run_def once_abs_def impl_counts fun_eq_iff del: nsync_run_once_impl.simps)

lemma once_step_simulates:
  assumes "once_inv N s" "once_step N s s'"
  shows "once_abs s' = once_abs s \<or> once_spec_step (once_abs s) (once_abs s')"
  using assms(2)
proof cases
  case (run t)
  then show ?thesis using once_run_simulates [OF assms(1)] by simp
qed (auto simp: nsync_run_once_def nsync_run_once_arg_def nsync_run_once_spin_def nsync_run_once_arg_spin_def
      once_abs_def fun_eq_iff)

interpretation once: refinement once_init "once_step N" once_abs once_spec_step for N
  by unfold_locales (rule once_step_simulates [OF once_reach_inv])

section \<open>Progress\<close>

text \<open>A thread inside that is not waiting for a mutex or for another thread's initialiser moves on.\<close>

definition once_wants :: "once_pc \<Rightarrow> nat option" where
  "once_wants q =
     (case q of
        O_lock c _ \<Rightarrow> Some (NSYNC_ONCE_SYNC (oc_once c))
      | O_relock c \<Rightarrow> Some (NSYNC_ONCE_SYNC (oc_once c))
      | O_wake c _ \<Rightarrow> Some (NSYNC_ONCE_SYNC (oc_once c))
      | _ \<Rightarrow> None)"

lemma once_moves:
  assumes "\<not> once_outside (once_pcs s t)" "\<And>k. once_wants (once_pcs s t) = Some k \<Longrightarrow> once_mu s k = None"
    "\<And>c a. once_pcs s t = O_check c a \<Longrightarrow> oc_spin c \<Longrightarrow> once_word s (oc_once c) = 2"
  shows "once_run t s \<noteq> s"
proof -
  have "once_pcs (once_run t s) t \<noteq> once_pcs s t"
    using assms
    by (cases "once_pcs s t")
       (auto simp: once_run_def run_once_test_def once_outside_def once_lock_def once_unlock_def Let_def once_wants_def)
  then show ?thesis by metis
qed

lemma held_moves: "once_held (once_pcs s t) = Some k \<Longrightarrow> once_run t s \<noteq> s"
  by (rule once_moves) (auto simp: once_held_def once_wants_def once_outside_def split: once_pc.splits if_splits)

lemma free_mutexes:
  assumes "mu_ok N s" "\<forall>t<N. once_held (once_pcs s t) = None"
  shows "once_mu s k = None"
proof (rule ccontr)
  assume "once_mu s k \<noteq> None"
  then obtain t where "once_mu s k = Some t" by blast
  then show False using assms unfolding mu_ok_def by (metis option.distinct(1))
qed

lemma running_moves:
  assumes "once_inv N s" "\<forall>t<N. once_held (once_pcs s t) = None" "once_word s p = 1"
  shows "\<exists>u<N. once_run u s \<noteq> s"
proof -
  obtain r where r: "r < N" "once_runner p (once_pcs s r)"
    using once_invD(1) [OF assms(1), of p] assms(3) unfolding once_phase_def by auto
  then have "once_run r s \<noteq> s" using free_mutexes [OF once_invD(3) [OF assms(1)] assms(2)]
    by (intro once_moves) (auto simp: once_runner_def once_outside_def split: once_pc.splits)
  then show ?thesis using r by blast
qed

section \<open>A concrete run\<close>

definition demo_once :: "nat \<Rightarrow> once_sys" where
  "demo_once n = (once_run 0 ^^ n) (nsync_run_once 0 8 once_init)"

lemma demo_once_reach: "(once_step 2)\<^sup>*\<^sup>* once_init (demo_once n)"
proof (induction n)
  case 0
  show ?case unfolding demo_once_def
    by (rule r_into_rtranclp) (auto intro!: once_step.once simp: once_init_def once_outside_def)
next
  case (Suc n)
  then show ?case unfolding demo_once_def
    by (auto intro!: rtranclp.rtrancl_into_rtrancl [OF Suc [unfolded demo_once_def]] once_step.run)
qed

fun once_schedule :: "tid list \<Rightarrow> once_sys \<Rightarrow> once_sys" where
  "once_schedule [] s = s"
| "once_schedule (t # ts) s = once_schedule ts (once_run t s)"

lemma once_schedule_replicate: "once_schedule (replicate n t) s = (once_run t ^^ n) s"
  by (induction n arbitrary: s) (simp_all add: funpow_swap1)

lemma demo_once_pcs:
  "once_pcs (demo_once 12) 0 = O_returned \<lparr>oc_once = 8, oc_spin = False, oc_arg = None\<rparr>"
  "once_pcs (demo_once 6) 0 = O_in \<lparr>oc_once = 8, oc_spin = False, oc_arg = None\<rparr>"
proof -
  have "once_pcs (once_schedule [0, 0, 0, 0, 0, 0, 0, 0, 0, 0, 0, 0] (nsync_run_once 0 8 once_init)) 0 =
      O_returned \<lparr>oc_once = 8, oc_spin = False, oc_arg = None\<rparr>"
    "once_pcs (once_schedule [0, 0, 0, 0, 0, 0] (nsync_run_once 0 8 once_init)) 0 =
      O_in \<lparr>oc_once = 8, oc_spin = False, oc_arg = None\<rparr>"
    by (simp_all add: once_run_def nsync_run_once_def once_init_def run_once_test_def once_lock_def
        once_unlock_def NSYNC_ONCE_SYNC_def)
  moreover have "[0, 0, 0, 0, 0, 0, 0, 0, 0, 0, 0, 0] = replicate 12 (0::nat)" "[0, 0, 0, 0, 0, 0] = replicate 6 (0::nat)"
    by (simp_all add: eval_nat_numeral)
  ultimately show
    "once_pcs (demo_once 12) 0 = O_returned \<lparr>oc_once = 8, oc_spin = False, oc_arg = None\<rparr>"
    "once_pcs (demo_once 6) 0 = O_in \<lparr>oc_once = 8, oc_spin = False, oc_arg = None\<rparr>"
    by (simp_all only: demo_once_def once_schedule_replicate)
qed

section \<open>Properties\<close>

text \<open>C30. Exactly once: whatever the threads do, the initialiser of a word is called at most once,
  and when a call of any of the four functions has returned, it has been called and has
  returned.\<close>

theorem once_exactly_once:
  assumes "(once_step N)\<^sup>*\<^sup>* once_init s"
  shows "length (once_begun s p) \<le> 1 \<and> once_ended s p \<le> length (once_begun s p) \<and>
    (\<forall>t c. t < N \<and> once_pcs s t = O_returned c \<longrightarrow>
       length (once_begun s (oc_once c)) = 1 \<and> once_ended s (oc_once c) = 1)"
proof -
  have inv: "once_inv N s" using once_reach_inv [OF assms] .
  show ?thesis using phase_counts(1,2) [OF once_invD(1) [OF inv], of p] returned_counts [OF inv] by blast
qed

theorem once_exactly_once_witness: "length (once_begun (demo_once 12) 8) = 1 \<and> once_ended (demo_once 12) 8 = 1"
proof -
  let ?c = "\<lparr>oc_once = 8, oc_spin = False, oc_arg = None\<rparr>"
  have "\<forall>t c. t < 2 \<and> once_pcs (demo_once 12) t = O_returned c \<longrightarrow>
      length (once_begun (demo_once 12) (oc_once c)) = 1 \<and> once_ended (demo_once 12) (oc_once c) = 1"
    using once_exactly_once [OF demo_once_reach, of 12] by blast
  then show ?thesis using demo_once_pcs(1) spec [of _ 0] by (metis once_call.select_convs(1) zero_less_numeral)
qed

text \<open>C31. Refinement: each step of the threads is a step of the specification, in which a word
  goes from fresh (no call of its initialiser has begun) to running (one call has begun, none has
  ended) to done (one call has begun and ended), or changes nothing in it.  A second call would be no
  step of the specification, so in no reachable state a word is in a state other than these three;
  and the word of a call that has returned is done.\<close>

theorem once_refines_spec:
  assumes "(once_step N)\<^sup>*\<^sup>* once_init s"
  shows "once_spec_step\<^sup>*\<^sup>* (\<lambda>_. Fresh) (once_abs s) \<and> once_abs s p \<noteq> Broken \<and>
    (\<forall>s'. once_step N s s' \<longrightarrow> once_abs s' = once_abs s \<or> once_spec_step (once_abs s) (once_abs s')) \<and>
    (\<forall>t c. t < N \<and> once_pcs s t = O_returned c \<longrightarrow> once_abs s (oc_once c) = Done)"
proof -
  have "once_abs once_init = (\<lambda>_. Fresh)" by (simp add: once_abs_def once_init_def fun_eq_iff)
  then have r: "once_spec_step\<^sup>*\<^sup>* (\<lambda>_. Fresh) (once_abs s)" using once.abs_reach [OF assms] by simp
  moreover have "once_abs s (oc_once c) = Done" if "t < N" "once_pcs s t = O_returned c" for t c
    using returned_counts [OF once_reach_inv [OF assms] that] by (simp add: once_abs_def)
  ultimately show ?thesis using once.simulates [OF assms] once_spec_ok [OF r, of p] by blast
qed

theorem once_refines_spec_witness: "once_spec_step\<^sup>*\<^sup>* (\<lambda>_. Fresh) (once_abs (demo_once 12)) \<and> once_abs (demo_once 12) 8 = Done"
  using once_refines_spec [OF demo_once_reach, of 12] demo_once_pcs(1) by (metis once_call.select_convs(1) zero_less_numeral)

text \<open>No deadlock: while some thread is inside one of the functions, some thread can take a
  step that changes the state (the end of an initialiser counts as a step).  No thread holds
  a mutex of \<^verbatim>\<open>once_sync\<close> while an initialiser runs on its behalf.\<close>

theorem once_no_deadlock:
  assumes "(once_step N)\<^sup>*\<^sup>* once_init s" "t < N" "\<not> once_outside (once_pcs s t)"
  shows "(\<exists>u<N. once_run u s \<noteq> s) \<and> (\<forall>c k. once_pcs s t = O_in c \<longrightarrow> once_mu s k \<noteq> Some t)"
proof -
  have inv: "once_inv N s" using once_reach_inv [OF assms(1)] .
  have "\<exists>u<N. once_run u s \<noteq> s"
  proof (cases "\<forall>u<N. once_held (once_pcs s u) = None")
    case False
    then show ?thesis using held_moves by (metis option.exhaust)
  next
    case free: True
    show ?thesis
    proof (cases "\<exists>c a. once_pcs s t = O_check c a \<and> once_word s (oc_once c) \<noteq> 2")
      case True
      then obtain c a where ca: "once_pcs s t = O_check c a" "once_word s (oc_once c) \<noteq> 2" by blast
      then have "once_word s (oc_once c) \<noteq> 0" using once_invD(2) [OF inv assms(2)] by (simp add: once_knows_def)
      then have "once_word s (oc_once c) = 1"
        using once_invD(1) [OF inv, of "oc_once c"] ca(2) by (auto simp: once_phase_def)
      then show ?thesis using running_moves [OF inv free] by blast
    next
      case False
      then have "once_run t s \<noteq> s"
        using free_mutexes [OF once_invD(3) [OF inv] free] assms(3) by (intro once_moves) auto
      then show ?thesis using assms(2) by blast
    qed
  qed
  moreover have "once_mu s k \<noteq> Some t" if "once_pcs s t = O_in c" for c k
    using once_invD(3) [OF inv] that unfolding mu_ok_def by (simp add: once_held_def)
  ultimately show ?thesis by blast
qed

theorem once_no_deadlock_witness:
  "once_mu (demo_once 6) 2 \<noteq> Some 0 \<and> (\<exists>u. once_run u (demo_once 6) \<noteq> demo_once 6)"
  using once_no_deadlock [OF demo_once_reach, of 0 6] demo_once_pcs(2)
  by (auto simp: once_outside_def)

end
