(* ===== verification/Pool.thy ===== *)
theory Pool
  imports Common Dll
begin

text \<open>
  The pool of waiter structs of \<^verbatim>\<open>internal/common.c\<close>: a free list and one struct
  reserved for each thread.  A struct is named by its address; \<open>layout\<close> holds the offsets
  of the fields whose addresses the code takes.  The critical sections under
  \<^verbatim>\<open>free_waiters_mu\<close> are not interrupted (theory \<open>Spin\<close> has the loop that
  enters them), and the thread-local pointer is a function of the thread.  \<open>None\<close> is a failed
  assertion or the use of a NULL pointer.
\<close>

text \<open>Offsets of \<^verbatim>\<open>nw\<close> and \<^verbatim>\<open>same_condition\<close> in a \<^verbatim>\<open>waiter\<close>, and of \<^verbatim>\<open>q\<close> in an \<^verbatim>\<open>nsync_waiter_s\<close>.\<close>

record layout =
  off_nw :: nat
  off_same :: nat
  off_q :: nat

definition q_of :: "layout \<Rightarrow> addr \<Rightarrow> addr" where "q_of y w = w + off_nw y + off_q y"
definition same_of :: "layout \<Rightarrow> addr \<Rightarrow> addr" where "same_of y w = w + off_same y"

text \<open>
  The fields: those of the embedded \<^verbatim>\<open>nsync_waiter_s\<close> by its address, the others by the
  address of the \<^verbatim>\<open>waiter\<close>.
\<close>

record pool =
  pl_heap :: dll_heap
  pl_free :: dll_list
  pl_thread :: "tid \<Rightarrow> addr option"
  pl_tag :: "addr \<Rightarrow> u32"
  pl_flags :: "addr \<Rightarrow> u32"
  pl_sem :: "addr \<Rightarrow> nat"
  pl_remove_count :: "addr \<Rightarrow> u32"
  pl_nw_tag :: "addr \<Rightarrow> u32"
  pl_nw_flags :: "addr \<Rightarrow> u32"
  pl_nw_waiting :: "addr \<Rightarrow> bool"
  pl_nw_sem :: "addr \<Rightarrow> addr"

section \<open>From list elements to structs\<close>

definition dll_nsync_waiter_ck :: "layout \<Rightarrow> pool \<Rightarrow> addr \<Rightarrow> addr option" where
  "dll_nsync_waiter_ck y s e =
     (let nw = container (pl_heap s) e
      in if pl_nw_tag s nw = NSYNC_WAITER_TAG \<and> e = nw + off_q y then Some nw else None)"

definition dll_waiter_ck :: "layout \<Rightarrow> pool \<Rightarrow> addr \<Rightarrow> addr option" where
  "dll_waiter_ck y s e =
     (case dll_nsync_waiter_ck y s e of
        None \<Rightarrow> None
      | Some nw \<Rightarrow>
          (let w = nw - off_nw y
           in if pl_nw_flags s nw AND NSYNC_WAITER_FLAG_MUCV \<noteq> 0 \<and> pl_tag s w = WAITER_TAG \<and> e = q_of y w
              then Some w else None))"

definition dll_waiter_samecond_ck :: "layout \<Rightarrow> pool \<Rightarrow> addr \<Rightarrow> addr option" where
  "dll_waiter_samecond_ck y s e =
     (let w = container (pl_heap s) e
      in if pl_tag s w = WAITER_TAG \<and> e = same_of y w then Some w else None)"

section \<open>The operations\<close>

text \<open>The initialisation of a struct that \<^verbatim>\<open>malloc\<close> returned.\<close>

definition waiter_init :: "layout \<Rightarrow> addr \<Rightarrow> pool \<Rightarrow> pool" where
  "waiter_init y w s =
     (let nw = w + off_nw y;
          h = nsync_dll_init (pl_heap s) (q_of y w) nw;
          h = nsync_dll_init h (same_of y w) w
      in s\<lparr>pl_tag := (pl_tag s)(w := WAITER_TAG), pl_nw_tag := (pl_nw_tag s)(nw := NSYNC_WAITER_TAG),
           pl_sem := (pl_sem s)(w := 0), pl_nw_sem := (pl_nw_sem s)(nw := w),
           pl_nw_waiting := (pl_nw_waiting s)(nw := False),
           pl_nw_flags := (pl_nw_flags s)(nw := NSYNC_WAITER_FLAG_MUCV),
           pl_remove_count := (pl_remove_count s)(w := 0), pl_flags := (pl_flags s)(w := 0), pl_heap := h\<rparr>)"

text \<open>Taking a struct from the free list, or else from \<^verbatim>\<open>malloc\<close>, whose result is \<open>alloc\<close>.\<close>

definition take_waiter :: "layout \<Rightarrow> addr option \<Rightarrow> pool \<Rightarrow> (pool \<times> addr) option" where
  "take_waiter y alloc s =
     (case nsync_dll_first (pl_heap s) (pl_free s) of
        Some q \<Rightarrow>
          (case nsync_dll_remove (pl_heap s) (pl_free s) q of
             (h, l) \<Rightarrow>
               let s = s\<lparr>pl_heap := h, pl_free := l\<rparr>
               in map_option (Pair s) (dll_waiter_ck y s q))
      | None \<Rightarrow> map_option (\<lambda>w. (waiter_init y w s, w)) alloc)"

definition set_flags :: "addr \<Rightarrow> u32 \<Rightarrow> pool \<Rightarrow> pool" where
  "set_flags w f s = s\<lparr>pl_flags := (pl_flags s)(w := f)\<rparr>"

definition nsync_waiter_new :: "layout \<Rightarrow> addr option \<Rightarrow> tid \<Rightarrow> pool \<Rightarrow> (pool \<times> addr) option" where
  "nsync_waiter_new y alloc t s =
     (case (case pl_thread s t of
              Some w \<Rightarrow>
                if pl_flags s w AND (WAITER_RESERVED OR WAITER_IN_USE) \<noteq> WAITER_RESERVED
                then take_waiter y alloc s else Some (s, w)
            | None \<Rightarrow>
                map_option
                  (\<lambda>(s, w). ((set_flags w (pl_flags s w OR WAITER_RESERVED) s)\<lparr>pl_thread := (pl_thread s)(t := Some w)\<rparr>, w))
                  (take_waiter y alloc s)) of
        None \<Rightarrow> None
      | Some (s, w) \<Rightarrow> Some (set_flags w (pl_flags s w OR WAITER_IN_USE) s, w))"

definition make_free :: "layout \<Rightarrow> addr \<Rightarrow> pool \<Rightarrow> pool" where
  "make_free y w s =
     (case nsync_dll_make_first_in_list (pl_heap s) (pl_free s) (Some (q_of y w)) of
        (h, l) \<Rightarrow> s\<lparr>pl_heap := h, pl_free := l\<rparr>)"

definition nsync_waiter_free :: "layout \<Rightarrow> addr \<Rightarrow> pool \<Rightarrow> pool option" where
  "nsync_waiter_free y w s =
     (if pl_flags s w AND WAITER_IN_USE \<noteq> 0
      then (let s = set_flags w (pl_flags s w AND NOT WAITER_IN_USE) s
            in Some (if pl_flags s w AND WAITER_RESERVED = 0 then make_free y w s else s))
      else None)"

text \<open>The destructor of the thread-local pointer, run by thread \<open>t\<close> when it exits.\<close>

definition waiter_destroy :: "layout \<Rightarrow> tid \<Rightarrow> addr \<Rightarrow> pool \<Rightarrow> pool option" where
  "waiter_destroy y t w s =
     (let s = s\<lparr>pl_thread := (pl_thread s)(t := None)\<rparr>
      in if pl_flags s w AND (WAITER_RESERVED OR WAITER_IN_USE) = WAITER_RESERVED
         then Some (make_free y w (set_flags w (pl_flags s w AND NOT WAITER_RESERVED) s))
         else None)"

section \<open>The invariant\<close>

definition struct_ok :: "layout \<Rightarrow> pool \<Rightarrow> addr \<Rightarrow> bool" where
  "struct_ok y s w \<longleftrightarrow>
     pl_tag s w = WAITER_TAG \<and> pl_nw_tag s (w + off_nw y) = NSYNC_WAITER_TAG \<and>
     pl_nw_flags s (w + off_nw y) = NSYNC_WAITER_FLAG_MUCV \<and> container (pl_heap s) (q_of y w) = w + off_nw y"

text \<open>
  \<open>ws\<close> are the structs allocated so far.  Just those with no flag are on the free list; just
  those with the flag \<^verbatim>\<open>WAITER_RESERVED\<close> belong to a thread, each to one; and a reserved
  struct that is not in use is on no list.
\<close>

definition pool_inv :: "layout \<Rightarrow> addr set \<Rightarrow> pool \<Rightarrow> bool" where
  "pool_inv y ws s \<longleftrightarrow>
     (\<exists>xs. is_dll (pl_heap s) (pl_free s) xs \<and> set xs = q_of y ` {w \<in> ws. pl_flags s w = 0}) \<and>
     (\<forall>w\<in>ws. struct_ok y s w \<and> pl_flags s w \<in> {0, 1, 2, 3}) \<and>
     (\<forall>w\<in>ws. pl_flags s w = 1 \<longrightarrow> ring (pl_heap s) [q_of y w]) \<and>
     (\<forall>w\<in>ws. pl_flags s w \<in> {1, 3} \<longleftrightarrow> (\<exists>t. pl_thread s t = Some w)) \<and>
     (\<forall>t w. pl_thread s t = Some w \<longrightarrow> w \<in> ws) \<and>
     (\<forall>t u w. pl_thread s t = Some w \<and> pl_thread s u = Some w \<longrightarrow> t = u)"

text \<open>What \<^verbatim>\<open>malloc\<close> guarantees: a struct that overlaps no other.\<close>

definition fresh_waiter :: "layout \<Rightarrow> addr set \<Rightarrow> addr \<Rightarrow> bool" where
  "fresh_waiter y ws a \<longleftrightarrow> a \<notin> ws \<and> (\<forall>w\<in>insert a ws. q_of y w \<noteq> same_of y a)"

lemma q_of_inj [simp]: "q_of y v = q_of y w \<longleftrightarrow> v = w"
  by (simp add: q_of_def)

lemma pool_invE:
  assumes "pool_inv y ws s"
  obtains xs where "is_dll (pl_heap s) (pl_free s) xs" "set xs = q_of y ` {w \<in> ws. pl_flags s w = 0}"
    "\<And>w. w \<in> ws \<Longrightarrow> struct_ok y s w" "\<And>w. w \<in> ws \<Longrightarrow> pl_flags s w \<in> {0, 1, 2, 3}"
    "\<And>w. w \<in> ws \<Longrightarrow> pl_flags s w = 1 \<Longrightarrow> ring (pl_heap s) [q_of y w]"
    "\<And>w. w \<in> ws \<Longrightarrow> pl_flags s w \<in> {1, 3} \<longleftrightarrow> (\<exists>t. pl_thread s t = Some w)"
    "\<And>t w. pl_thread s t = Some w \<Longrightarrow> w \<in> ws"
    "\<And>t u w. pl_thread s t = Some w \<Longrightarrow> pl_thread s u = Some w \<Longrightarrow> t = u"
proof -
  obtain xs where 1: "is_dll (pl_heap s) (pl_free s) xs" "set xs = q_of y ` {w \<in> ws. pl_flags s w = 0}"
    using assms unfolding pool_inv_def by (elim conjE exE)
  have 2: "\<forall>w\<in>ws. struct_ok y s w \<and> pl_flags s w \<in> {0, 1, 2, 3}"
    "\<forall>w\<in>ws. pl_flags s w = 1 \<longrightarrow> ring (pl_heap s) [q_of y w]"
    "\<forall>w\<in>ws. pl_flags s w \<in> {1, 3} \<longleftrightarrow> (\<exists>t. pl_thread s t = Some w)"
    "\<forall>t w. pl_thread s t = Some w \<longrightarrow> w \<in> ws"
    "\<forall>t u w. pl_thread s t = Some w \<and> pl_thread s u = Some w \<longrightarrow> t = u"
    using assms unfolding pool_inv_def by - (elim conjE, assumption)+
  show ?thesis by (rule that [OF 1]) (use 2 in \<open>blast+\<close>)
qed

lemma dll_waiter_ok:
  assumes "struct_ok y s w"
  shows "dll_waiter_ck y s (q_of y w) = Some w"
  using assms
  by (simp add: dll_waiter_ck_def dll_nsync_waiter_ck_def struct_ok_def Let_def q_of_def NSYNC_WAITER_FLAG_MUCV_def)

text \<open>Taking a struct: it had no flag, is now on no list, and nothing else of the pool changes.\<close>

definition taken :: "layout \<Rightarrow> addr set \<Rightarrow> pool \<Rightarrow> pool \<Rightarrow> addr \<Rightarrow> bool" where
  "taken y ws s s' w \<longleftrightarrow>
     (w \<in> ws \<longrightarrow> pl_flags s w = 0) \<and> pl_flags s' w = 0 \<and> ring (pl_heap s') [q_of y w] \<and>
     (\<exists>xs. is_dll (pl_heap s') (pl_free s') xs \<and> set xs = q_of y ` {v \<in> ws - {w}. pl_flags s v = 0}) \<and>
     (\<forall>v\<in>insert w ws. struct_ok y s' v) \<and> (\<forall>v\<in>ws - {w}. pl_flags s' v = pl_flags s v) \<and>
     (\<forall>v\<in>ws - {w}. pl_flags s v = 1 \<longrightarrow> ring (pl_heap s') [q_of y v]) \<and> pl_thread s' = pl_thread s"

lemma takenD:
  assumes "taken y ws s s' w"
  shows "w \<in> ws \<longrightarrow> pl_flags s w = 0" "pl_flags s' w = 0"
    "\<exists>xs. is_dll (pl_heap s') (pl_free s') xs \<and> set xs = q_of y ` {v \<in> ws - {w}. pl_flags s v = 0}"
    "\<forall>v\<in>insert w ws. struct_ok y s' v" "\<forall>v\<in>ws - {w}. pl_flags s' v = pl_flags s v"
    "\<forall>v\<in>ws - {w}. pl_flags s v = 1 \<longrightarrow> ring (pl_heap s') [q_of y v]" "pl_thread s' = pl_thread s"
  using assms unfolding taken_def by - (elim conjE, assumption)+

lemma take_from_list:
  assumes inv: "pool_inv y ws s" and q: "nsync_dll_first (pl_heap s) (pl_free s) = Some q"
  shows "\<exists>s' w. take_waiter y alloc s = Some (s', w) \<and> w \<in> ws \<and> taken y ws s s' w"
  using inv
proof (rule pool_invE)
  fix xs
  assume d: "is_dll (pl_heap s) (pl_free s) xs" "set xs = q_of y ` {w \<in> ws. pl_flags s w = 0}"
    and ok: "\<And>w. w \<in> ws \<Longrightarrow> struct_ok y s w" and one: "\<And>w. w \<in> ws \<Longrightarrow> pl_flags s w = 1 \<Longrightarrow> ring (pl_heap s) [q_of y w]"
  have qx: "q \<in> set xs" using first_list [OF d(1)] q by (auto split: if_splits)
  then obtain w where w: "w \<in> ws" "pl_flags s w = 0" "q = q_of y w" using d(2) by auto
  obtain h l where rm: "nsync_dll_remove (pl_heap s) (pl_free s) q = (h, l)" by fastforce
  note m = remove_list [OF d(1) qx rm]
  let ?s = "s\<lparr>pl_heap := h, pl_free := l\<rparr>"
  have ok': "struct_ok y ?s v" if "v \<in> ws" for v using ok [OF that] m(4) by (simp add: struct_ok_def)
  have t: "take_waiter y alloc s = Some (?s, w)"
    using q rm dll_waiter_ok [OF ok' [OF w(1)]] w(3) by (simp add: take_waiter_def Let_def)
  have "set (remove1 q xs) = set xs - {q}" using is_dll_distinct [OF d(1)] by simp
  then have "set (remove1 q xs) = q_of y ` {v \<in> ws - {w}. pl_flags s v = 0}" using d(2) w by auto
  moreover have "ring h [q_of y v]" if "v \<in> ws" "pl_flags s v = 1" for v
  proof (rule ring_cong [rotated])
    show "ring (pl_heap s) [q_of y v]" using one that by blast
    show "same_links (set [q_of y v]) (pl_heap s) h" using m(3) that d(2) by (auto simp: same_links_def)
  qed
  ultimately have "taken y ws s ?s w"
    using m(1,2) w ok' unfolding taken_def by auto
  then show ?thesis using t w(1) by blast
qed

lemma take_from_malloc:
  assumes inv: "pool_inv y ws s" and q: "nsync_dll_first (pl_heap s) (pl_free s) = None" and a: "fresh_waiter y ws a"
  shows "\<exists>s'. take_waiter y (Some a) s = Some (s', a) \<and> taken y ws s s' a"
  using inv
proof (rule pool_invE)
  fix xs
  assume d: "is_dll (pl_heap s) (pl_free s) xs" "set xs = q_of y ` {w \<in> ws. pl_flags s w = 0}"
    and ok: "\<And>w. w \<in> ws \<Longrightarrow> struct_ok y s w" and one: "\<And>w. w \<in> ws \<Longrightarrow> pl_flags s w = 1 \<Longrightarrow> ring (pl_heap s) [q_of y w]"
  have x: "xs = []" using first_list [OF d(1)] q by (auto split: if_splits)
  then have f: "pl_free s = None" using d(1) by simp
  have nz: "pl_flags s v \<noteq> 0" if "v \<in> ws" for v using d(2) x that by auto
  have na: "a \<notin> ws" "q_of y a \<noteq> same_of y a" and ns: "\<And>v. v \<in> ws \<Longrightarrow> q_of y v \<noteq> same_of y a \<and> v \<noteq> a"
    using a by (auto simp: fresh_waiter_def)
  have "struct_ok y (waiter_init y a s) v" if "v \<in> insert a ws" for v
    using ok [of v] ns [of v] na that
    by (auto simp: struct_ok_def waiter_init_def nsync_dll_init_def Let_def)
  moreover have "ring (pl_heap (waiter_init y a s)) [q_of y v]" if "v = a \<or> v \<in> ws \<and> pl_flags s v = 1" for v
    using one [of v] ns [of v] na that by (auto simp: waiter_init_def nsync_dll_init_def Let_def)
  ultimately have "taken y ws s (waiter_init y a s) a"
    using na nz f unfolding taken_def by (auto simp: waiter_init_def Let_def)
  then show ?thesis using q by (simp add: take_waiter_def)
qed

lemma take_waiter_ok:
  assumes "pool_inv y ws s" "fresh_waiter y ws a"
  shows "\<exists>s' w. take_waiter y (Some a) s = Some (s', w) \<and> taken y ws s s' w \<and> (w \<in> ws \<or> w = a)"
  using take_from_list [OF assms(1)] take_from_malloc [OF assms(1) _ assms(2)]
  by (cases "nsync_dll_first (pl_heap s) (pl_free s)") blast+

section \<open>Every operation keeps the invariant\<close>

lemma pool_invI:
  assumes "is_dll (pl_heap s) (pl_free s) xs" "set xs = q_of y ` {w \<in> ws. pl_flags s w = 0}"
    "\<And>w. w \<in> ws \<Longrightarrow> struct_ok y s w" "\<And>w. w \<in> ws \<Longrightarrow> pl_flags s w \<in> {0, 1, 2, 3}"
    "\<And>w. w \<in> ws \<Longrightarrow> pl_flags s w = 1 \<Longrightarrow> ring (pl_heap s) [q_of y w]"
    "\<And>w. w \<in> ws \<Longrightarrow> pl_flags s w \<in> {1, 3} \<longleftrightarrow> (\<exists>t. pl_thread s t = Some w)"
    "\<And>t w. pl_thread s t = Some w \<Longrightarrow> w \<in> ws"
    "\<And>t u w. pl_thread s t = Some w \<Longrightarrow> pl_thread s u = Some w \<Longrightarrow> t = u"
  shows "pool_inv y ws s"
proof -
  have 1: "\<exists>xs. is_dll (pl_heap s) (pl_free s) xs \<and> set xs = q_of y ` {w \<in> ws. pl_flags s w = 0}"
    using assms(1,2) by (intro exI conjI)
  have 2: "\<forall>w\<in>ws. struct_ok y s w \<and> pl_flags s w \<in> {0, 1, 2, 3}" using assms(3,4) by (intro ballI conjI)
  have 3: "\<forall>w\<in>ws. pl_flags s w = 1 \<longrightarrow> ring (pl_heap s) [q_of y w]" using assms(5) by (intro ballI impI)
  have 4: "\<forall>w\<in>ws. pl_flags s w \<in> {1, 3} \<longleftrightarrow> (\<exists>t. pl_thread s t = Some w)" using assms(6) by (intro ballI)
  have 5: "\<forall>t w. pl_thread s t = Some w \<longrightarrow> w \<in> ws" using assms(7) by (intro allI impI)
  have 6: "\<forall>t u w. pl_thread s t = Some w \<and> pl_thread s u = Some w \<longrightarrow> t = u"
    using assms(8) by (intro allI impI) (elim conjE)
  show ?thesis unfolding pool_inv_def by (intro conjI 1 2 3 4 5 6)
qed

lemma struct_ok_cong:
  "struct_ok y s w \<Longrightarrow> pl_tag s' = pl_tag s \<Longrightarrow> pl_nw_tag s' = pl_nw_tag s \<Longrightarrow> pl_nw_flags s' = pl_nw_flags s \<Longrightarrow>
     container (pl_heap s') = container (pl_heap s) \<Longrightarrow> struct_ok y s' w"
  by (simp add: struct_ok_def)

text \<open>A struct that was taken is marked: in use only, or in use and reserved for a thread that had none.\<close>

lemma mark_taken:
  assumes inv: "pool_inv y ws s" and tk: "taken y ws s s' w"
    and th: "f = 2 \<and> th = pl_thread s \<or> f = 3 \<and> pl_thread s t = None \<and> th = (pl_thread s)(t := Some w)"
  shows "pool_inv y (insert w ws) ((set_flags w f s')\<lparr>pl_thread := th\<rparr>)"
  using inv
proof (rule pool_invE)
  assume fl: "\<And>v. v \<in> ws \<Longrightarrow> pl_flags s v \<in> {0, 1, 2, 3}"
    and own: "\<And>v. v \<in> ws \<Longrightarrow> pl_flags s v \<in> {1, 3} \<longleftrightarrow> (\<exists>t. pl_thread s t = Some v)"
    and dm: "\<And>t v. pl_thread s t = Some v \<Longrightarrow> v \<in> ws"
    and inj: "\<And>t u v. pl_thread s t = Some v \<Longrightarrow> pl_thread s u = Some v \<Longrightarrow> t = u"
  let ?s = "(set_flags w f s')\<lparr>pl_thread := th\<rparr>"
  obtain xs where x: "is_dll (pl_heap s') (pl_free s') xs" "set xs = q_of y ` {v \<in> ws - {w}. pl_flags s v = 0}"
    using takenD(3) [OF tk] by blast
  have f: "f \<in> {2, 3}" "f \<noteq> 0" "f \<noteq> 1" using th by auto
  have ff: "pl_flags ?s v = (if v = w then f else pl_flags s v)" if "v \<in> insert w ws" for v
    using takenD(5) [OF tk] that by (auto simp: set_flags_def)
  have nt: "pl_thread s u \<noteq> Some w" for u
  proof
    assume "pl_thread s u = Some w"
    then have "w \<in> ws" "pl_flags s w \<in> {1, 3}" using dm own by blast+
    then show False using takenD(1) [OF tk] by auto
  qed
  show ?thesis
  proof (rule pool_invI)
    show "is_dll (pl_heap ?s) (pl_free ?s) xs" using x by (simp add: set_flags_def)
    show "set xs = q_of y ` {v \<in> insert w ws. pl_flags ?s v = 0}"
      unfolding x(2)
    proof (intro arg_cong [of _ _ "(`) (q_of y)"] set_eqI)
      fix v show "v \<in> {v \<in> ws - {w}. pl_flags s v = 0} \<longleftrightarrow> v \<in> {v \<in> insert w ws. pl_flags ?s v = 0}"
        using ff [of v] f(2) by (cases "v = w") auto
    qed
  next
    fix v assume v: "v \<in> insert w ws"
    show "struct_ok y ?s v"
      by (rule struct_ok_cong [OF bspec [OF takenD(4) [OF tk] v]]) (simp_all add: set_flags_def)
    show "pl_flags ?s v \<in> {0, 1, 2, 3}" using ff [OF v] f(1) fl [of v] v by (cases "v = w") auto
    show "pl_flags ?s v = 1 \<Longrightarrow> ring (pl_heap ?s) [q_of y v]"
      using ff [OF v] f(3) takenD(6) [OF tk] v by (cases "v = w") (simp_all add: set_flags_def)
    show "pl_flags ?s v \<in> {1, 3} \<longleftrightarrow> (\<exists>t. pl_thread ?s t = Some v)"
    proof (cases "v = w")
      case True
      then show ?thesis using ff [OF v] nt th by auto
    next
      case False
      have "pl_thread ?s u = Some v \<longleftrightarrow> pl_thread s u = Some v" for u using th False by (cases "u = t") auto
      then show ?thesis using ff [OF v] own [of v] v False by simp
    qed
  next
    fix u v assume "pl_thread ?s u = Some v"
    then show "v \<in> insert w ws" using th dm by (auto split: if_splits)
  next
    fix u u' v assume "pl_thread ?s u = Some v" "pl_thread ?s u' = Some v"
    then show "u = u'" using th inj nt by (auto split: if_splits)
  qed
qed


text \<open>A reserved struct is marked as in use, or no longer so.\<close>

lemma mark_reserved:
  assumes inv: "pool_inv y ws s" and w: "w \<in> ws" "pl_flags s w \<in> {1, 3}"
    and f: "f = 3 \<or> f = 1 \<and> ring (pl_heap s) [q_of y w]"
  shows "pool_inv y ws (set_flags w f s)"
  using inv
proof (rule pool_invE)
  fix xs
  assume a: "is_dll (pl_heap s) (pl_free s) xs" "set xs = q_of y ` {w \<in> ws. pl_flags s w = 0}"
    "\<And>w. w \<in> ws \<Longrightarrow> struct_ok y s w" "\<And>w. w \<in> ws \<Longrightarrow> pl_flags s w \<in> {0, 1, 2, 3}"
    "\<And>w. w \<in> ws \<Longrightarrow> pl_flags s w = 1 \<Longrightarrow> ring (pl_heap s) [q_of y w]"
    "\<And>w. w \<in> ws \<Longrightarrow> pl_flags s w \<in> {1, 3} \<longleftrightarrow> (\<exists>t. pl_thread s t = Some w)"
    "\<And>t w. pl_thread s t = Some w \<Longrightarrow> w \<in> ws"
    "\<And>t u w. pl_thread s t = Some w \<Longrightarrow> pl_thread s u = Some w \<Longrightarrow> t = u"
  have z: "{v \<in> ws. pl_flags (set_flags w f s) v = 0} = {v \<in> ws. pl_flags s v = 0}"
    using w f by (auto simp: set_flags_def)
  show ?thesis
  proof (rule pool_invI)
    show "is_dll (pl_heap (set_flags w f s)) (pl_free (set_flags w f s)) xs" using a(1) by (simp add: set_flags_def)
    show "set xs = q_of y ` {v \<in> ws. pl_flags (set_flags w f s) v = 0}" unfolding z by (rule a(2))
    show "\<And>t v. pl_thread (set_flags w f s) t = Some v \<Longrightarrow> v \<in> ws" using a(7) by (simp add: set_flags_def)
    show "\<And>t u v. pl_thread (set_flags w f s) t = Some v \<Longrightarrow> pl_thread (set_flags w f s) u = Some v \<Longrightarrow> t = u"
      using a(8) by (simp add: set_flags_def)
  next
    fix v assume v: "v \<in> ws"
    show "struct_ok y (set_flags w f s) v" by (rule struct_ok_cong [OF a(3) [OF v]]) (simp_all add: set_flags_def)
    show "pl_flags (set_flags w f s) v \<in> {0, 1, 2, 3}" using a(4) [OF v] f by (auto simp: set_flags_def)
    show "pl_flags (set_flags w f s) v = 1 \<Longrightarrow> ring (pl_heap (set_flags w f s)) [q_of y v]"
      using a(5) [OF v] f by (cases "v = w") (auto simp: set_flags_def)
    show "pl_flags (set_flags w f s) v \<in> {1, 3} \<longleftrightarrow> (\<exists>t. pl_thread (set_flags w f s) t = Some v)"
      using a(6) [OF v] w(2) f by (cases "v = w") (auto simp: set_flags_def)
  qed
qed

lemma thread_flags:
  assumes "pool_inv y ws s" "pl_thread s t = Some w"
  shows "w \<in> ws" "pl_flags s w = 1 \<or> pl_flags s w = 3"
proof -
  have own: "\<forall>w\<in>ws. pl_flags s w \<in> {1, 3} \<longleftrightarrow> (\<exists>t. pl_thread s t = Some w)"
    and dm: "\<forall>t w. pl_thread s t = Some w \<longrightarrow> w \<in> ws"
    using assms(1) unfolding pool_inv_def by - (elim conjE, assumption)+
  show "w \<in> ws" using dm assms(2) by blast
  then show "pl_flags s w = 1 \<or> pl_flags s w = 3" using own assms(2) by auto
qed

lemmas flag_defs = WAITER_RESERVED_def WAITER_IN_USE_def

lemma waiter_new_spec:
  assumes inv: "pool_inv y ws s" and a: "fresh_waiter y ws a"
  shows "\<exists>s' w. nsync_waiter_new y (Some a) t s = Some (s', w) \<and> pool_inv y (insert w ws) s' \<and>
    (w \<in> ws \<or> w = a) \<and> (w \<in> ws \<longrightarrow> pl_flags s w AND WAITER_IN_USE = 0) \<and> pl_flags s' w AND WAITER_IN_USE \<noteq> 0 \<and>
    (\<forall>v\<in>ws - {w}. pl_flags s' v = pl_flags s v)"
proof (cases "pl_thread s t")
  case None
  obtain s1 w where t: "take_waiter y (Some a) s = Some (s1, w)" "taken y ws s s1 w" "w \<in> ws \<or> w = a"
    using take_waiter_ok [OF inv a] by blast
  let ?s = "(set_flags w 3 s1)\<lparr>pl_thread := (pl_thread s)(t := Some w)\<rparr>"
  have "nsync_waiter_new y (Some a) t s = Some (?s, w)"
    using None t(1,2) by (simp add: nsync_waiter_new_def set_flags_def flag_defs taken_def)
  moreover have "pool_inv y (insert w ws) ?s" using mark_taken [OF inv t(2), of 3] None by simp
  ultimately show ?thesis using t(2,3) by (auto simp: set_flags_def flag_defs taken_def)
next
  case (Some w0)
  have w0: "w0 \<in> ws" "pl_flags s w0 = 1 \<or> pl_flags s w0 = 3" using thread_flags [OF inv Some] .
  show ?thesis
  proof (cases "pl_flags s w0 = 1")
    case True
    then have "nsync_waiter_new y (Some a) t s = Some (set_flags w0 3 s, w0)"
      using Some by (simp add: nsync_waiter_new_def flag_defs)
    then show ?thesis using mark_reserved [OF inv w0(1), of 3] w0(1) True
      by (auto simp: set_flags_def flag_defs insert_absorb)
  next
    case False
    then have three: "pl_flags s w0 = 3" using w0(2) by blast
    obtain s1 w where t: "take_waiter y (Some a) s = Some (s1, w)" "taken y ws s s1 w" "w \<in> ws \<or> w = a"
      using take_waiter_ok [OF inv a] by blast
    have th: "(set_flags w 2 s1)\<lparr>pl_thread := pl_thread s\<rparr> = set_flags w 2 s1"
      using t(2) by (simp add: set_flags_def taken_def)
    have "nsync_waiter_new y (Some a) t s = Some (set_flags w 2 s1, w)"
      using Some three t(1,2) by (simp add: nsync_waiter_new_def flag_defs taken_def)
    moreover have "pool_inv y (insert w ws) (set_flags w 2 s1)"
      using mark_taken [OF inv t(2), of 2 "pl_thread s"] th by simp
    ultimately show ?thesis using t(2,3) by (auto simp: set_flags_def flag_defs taken_def)
  qed
qed


text \<open>A struct that is given up belongs to no thread, and the other structs keep their threads.\<close>

lemma dropped_thread:
  assumes inv: "pool_inv y ws s" and w: "w \<in> ws"
    and th: "th = pl_thread s \<and> pl_flags s w = 2 \<or> pl_thread s t = Some w \<and> th = (pl_thread s)(t := None)"
  shows "th u \<noteq> Some w" "v \<noteq> w \<Longrightarrow> th u = Some v \<longleftrightarrow> pl_thread s u = Some v"
proof -
  have own: "pl_flags s w \<in> {1, 3} \<longleftrightarrow> (\<exists>t. pl_thread s t = Some w)"
    and inj: "\<And>u. pl_thread s t = Some w \<Longrightarrow> pl_thread s u = Some w \<Longrightarrow> t = u"
    using inv w unfolding pool_inv_def by blast+
  show "th u \<noteq> Some w"
  proof
    assume "th u = Some w"
    then show False using th own inj [of u] by (cases "u = t") auto
  qed
  show "v \<noteq> w \<Longrightarrow> th u = Some v \<longleftrightarrow> pl_thread s u = Some v" using th by (cases "u = t") auto
qed

text \<open>A struct with no flag left goes to the front of the free list; the caller has unlinked it.\<close>

lemma make_free_inv:
  assumes inv: "pool_inv y ws s" and w: "w \<in> ws" "pl_flags s w \<noteq> 0" "ring (pl_heap s) [q_of y w]"
    and th: "th = pl_thread s \<and> pl_flags s w = 2 \<or> pl_thread s t = Some w \<and> th = (pl_thread s)(t := None)"
  shows "pool_inv y ws (make_free y w ((set_flags w 0 s)\<lparr>pl_thread := th\<rparr>))"
  using inv
proof (rule pool_invE)
  fix xs
  assume d: "is_dll (pl_heap s) (pl_free s) xs" "set xs = q_of y ` {w \<in> ws. pl_flags s w = 0}"
    and ok: "\<And>w. w \<in> ws \<Longrightarrow> struct_ok y s w" and fl: "\<And>w. w \<in> ws \<Longrightarrow> pl_flags s w \<in> {0, 1, 2, 3}"
    and one: "\<And>w. w \<in> ws \<Longrightarrow> pl_flags s w = 1 \<Longrightarrow> ring (pl_heap s) [q_of y w]"
    and own: "\<And>w. w \<in> ws \<Longrightarrow> pl_flags s w \<in> {1, 3} \<longleftrightarrow> (\<exists>t. pl_thread s t = Some w)"
    and dm: "\<And>t w. pl_thread s t = Some w \<Longrightarrow> w \<in> ws"
    and inj: "\<And>t u w. pl_thread s t = Some w \<Longrightarrow> pl_thread s u = Some w \<Longrightarrow> t = u"
  obtain h l where mk: "nsync_dll_make_first_in_list (pl_heap s) (pl_free s) (Some (q_of y w)) = (h, l)" by fastforce
  have nq: "q_of y w \<notin> set xs" using d(2) w by auto
  note m = make_first_list [OF d(1), of "q_of y w" "[]" h l, OF w(3) _ mk]
  let ?s = "make_free y w ((set_flags w 0 s)\<lparr>pl_thread := th\<rparr>)"
  have s: "pl_heap ?s = h" "pl_free ?s = l" "pl_thread ?s = th" "\<And>v. pl_flags ?s v = (if v = w then 0 else pl_flags s v)"
    using mk by (simp_all add: make_free_def set_flags_def)
  note nt = dropped_thread(1) [OF inv w(1) th] and same = dropped_thread(2) [OF inv w(1) th]
  show ?thesis
  proof (rule pool_invI)
    show "is_dll (pl_heap ?s) (pl_free ?s) (q_of y w # xs)" using m(1) nq s(1,2) by simp
    show "set (q_of y w # xs) = q_of y ` {v \<in> ws. pl_flags ?s v = 0}" using d(2) w s(4) by auto
  next
    fix v assume v: "v \<in> ws"
    show "struct_ok y ?s v"
      by (rule struct_ok_cong [OF ok [OF v]]) (use m(3) nq mk in \<open>simp_all add: make_free_def set_flags_def\<close>)
    show "pl_flags ?s v \<in> {0, 1, 2, 3}" using fl [OF v] s(4) by (cases "v = w") simp_all
    show "ring (pl_heap ?s) [q_of y v]" if "pl_flags ?s v = 1"
    proof (rule ring_cong [rotated])
      have vw: "v \<noteq> w" "pl_flags s v = 1" using that s(4) by (auto split: if_splits)
      then show "ring (pl_heap s) [q_of y v]" using one [OF v] by blast
      have "q_of y v \<notin> set xs" using d(2) vw by auto
      then show "same_links (set [q_of y v]) (pl_heap s) (pl_heap ?s)"
        using m(2) nq vw(1) s(1) by (simp add: same_links_def)
    qed
    show "pl_flags ?s v \<in> {1, 3} \<longleftrightarrow> (\<exists>t. pl_thread ?s t = Some v)"
    proof (cases "v = w")
      case True
      then show ?thesis using s(3,4) nt by simp
    next
      case False
      then show ?thesis using s(3,4) same [OF False] own [OF v] by simp
    qed
  next
    fix u v assume u: "pl_thread ?s u = Some v"
    then have "v \<noteq> w" using nt s(3) by auto
    then show "v \<in> ws" using u same dm s(3) by auto
  next
    fix u u' v assume u: "pl_thread ?s u = Some v" "pl_thread ?s u' = Some v"
    then have "v \<noteq> w" using nt s(3) by auto
    then show "u = u'" using u same inj s(3) by auto
  qed
qed


lemma waiter_free_spec:
  assumes inv: "pool_inv y ws s" and w: "w \<in> ws" "pl_flags s w AND WAITER_IN_USE \<noteq> 0" "ring (pl_heap s) [q_of y w]"
  shows "\<exists>s'. nsync_waiter_free y w s = Some s' \<and> pool_inv y ws s' \<and> pl_flags s' w AND WAITER_IN_USE = 0"
proof -
  have "pl_flags s w \<in> {0, 1, 2, 3}" using inv by (rule pool_invE) (use w(1) in blast)
  then consider (two) "pl_flags s w = 2" | (three) "pl_flags s w = 3" using w(2) by (auto simp: flag_defs)
  then show ?thesis
  proof cases
    case two
    have e: "(set_flags w 0 s)\<lparr>pl_thread := pl_thread s\<rparr> = set_flags w 0 s" by (simp add: set_flags_def)
    have "nsync_waiter_free y w s = Some (make_free y w (set_flags w 0 s))"
      using two by (simp add: nsync_waiter_free_def flag_defs set_flags_def)
    then show ?thesis using make_free_inv [OF inv w(1) _ w(3), of "pl_thread s"] two e
      by (auto simp: make_free_def set_flags_def split: prod.splits)
  next
    case three
    have "nsync_waiter_free y w s = Some (set_flags w 1 s)"
      using three by (simp add: nsync_waiter_free_def flag_defs set_flags_def)
    then show ?thesis using mark_reserved [OF inv w(1), of 1] three w(3) by (auto simp: set_flags_def flag_defs)
  qed
qed

lemma waiter_destroy_spec:
  assumes inv: "pool_inv y ws s" and t: "pl_thread s t = Some w" "pl_flags s w AND WAITER_IN_USE = 0"
  shows "\<exists>s'. waiter_destroy y t w s = Some s' \<and> pool_inv y ws s' \<and> pl_thread s' t = None \<and> pl_flags s' w = 0"
proof -
  have w: "w \<in> ws" "pl_flags s w = 1" using thread_flags [OF inv t(1)] t(2) by (auto simp: flag_defs)
  have r: "ring (pl_heap s) [q_of y w]" using inv by (rule pool_invE) (use w in blast)
  let ?s = "make_free y w ((set_flags w 0 s)\<lparr>pl_thread := (pl_thread s)(t := None)\<rparr>)"
  have "waiter_destroy y t w s = Some ?s" using w(2) r
    by (simp add: waiter_destroy_def flag_defs set_flags_def make_free_def split: prod.splits)
  moreover have "pool_inv y ws ?s" using make_free_inv [OF inv w(1) _ r, of _ t] w(2) t(1) by simp
  ultimately show ?thesis by (simp add: make_free_def set_flags_def split: prod.splits)
qed

section \<open>Properties\<close>

text \<open>C39. \<^verbatim>\<open>nsync_waiter_new_\<close> hands out a struct to one user at a time: the struct it returns
  was not in use (or did not exist), now is, and no other struct changes hands; the invariant of
  the pool is kept, with the new struct if one was allocated.\<close>

theorem waiter_new_exclusive:
  assumes "pool_inv y ws s" "fresh_waiter y ws a"
  shows "\<exists>s' w. nsync_waiter_new y (Some a) t s = Some (s', w) \<and> pool_inv y (insert w ws) s' \<and>
    (w \<in> ws \<or> w = a) \<and> (w \<in> ws \<longrightarrow> pl_flags s w AND WAITER_IN_USE = 0) \<and> pl_flags s' w AND WAITER_IN_USE \<noteq> 0 \<and>
    (\<forall>v\<in>ws - {w}. pl_flags s' v = pl_flags s v)"
  by (rule waiter_new_spec [OF assms])

definition demo_layout :: layout where "demo_layout = \<lparr>off_nw = 8, off_same = 48, off_q = 8\<rparr>"

definition demo_pool :: pool where
  "demo_pool = \<lparr>pl_heap = \<lparr>nxt = id, prv = id, container = id\<rparr>, pl_free = None, pl_thread = \<lambda>_. None, pl_tag = \<lambda>_. 0,
     pl_flags = \<lambda>_. 0, pl_sem = \<lambda>_. 0, pl_remove_count = \<lambda>_. 0, pl_nw_tag = \<lambda>_. 0, pl_nw_flags = \<lambda>_. 0,
     pl_nw_waiting = \<lambda>_. False, pl_nw_sem = \<lambda>_. 0\<rparr>"

lemma demo_pool_inv: "pool_inv demo_layout {} demo_pool"
  by (simp add: pool_inv_def demo_pool_def)

lemma pool_demo_fresh: "fresh_waiter demo_layout {} 100"
  by (simp add: fresh_waiter_def demo_layout_def q_of_def same_of_def)

theorem waiter_new_exclusive_witness:
  "\<exists>s'. nsync_waiter_new demo_layout (Some 100) 7 demo_pool = Some (s', 100) \<and> pool_inv demo_layout {100} s' \<and>
     pl_flags s' 100 AND WAITER_IN_USE \<noteq> 0"
  using waiter_new_exclusive [OF demo_pool_inv pool_demo_fresh, of 7] by auto

text \<open>The assertions of \<^verbatim>\<open>nsync_waiter_free_\<close>, of the destructor and of the conversions
  from list elements never fail: a struct in use that its user has unlinked can be freed, the
  reserved struct of a thread that is not using it can be destroyed, both keep the invariant,
  and every allocated struct is found again from the address of its list element.\<close>

theorem waiter_release_safe:
  assumes "pool_inv y ws s"
  shows "(\<forall>w\<in>ws. dll_waiter_ck y s (q_of y w) = Some w \<and>
      (pl_flags s w AND WAITER_IN_USE \<noteq> 0 \<and> ring (pl_heap s) [q_of y w] \<longrightarrow>
         (\<exists>s'. nsync_waiter_free y w s = Some s' \<and> pool_inv y ws s' \<and> pl_flags s' w AND WAITER_IN_USE = 0))) \<and>
    (\<forall>t w. pl_thread s t = Some w \<and> pl_flags s w AND WAITER_IN_USE = 0 \<longrightarrow>
       (\<exists>s'. waiter_destroy y t w s = Some s' \<and> pool_inv y ws s' \<and> pl_thread s' t = None))"
proof -
  have ck: "dll_waiter_ck y s (q_of y w) = Some w" if "w \<in> ws" for w
  proof (rule dll_waiter_ok)
    show "struct_ok y s w" using assms by (rule pool_invE) (use that in blast)
  qed
  show ?thesis
  proof (intro conjI ballI allI impI; (elim conjE)?)
    fix w assume w: "w \<in> ws"
    show "dll_waiter_ck y s (q_of y w) = Some w" by (rule ck [OF w])
    assume "pl_flags s w AND WAITER_IN_USE \<noteq> 0" "ring (pl_heap s) [q_of y w]"
    then show "\<exists>s'. nsync_waiter_free y w s = Some s' \<and> pool_inv y ws s' \<and> pl_flags s' w AND WAITER_IN_USE = 0"
      by (rule waiter_free_spec [OF assms w])
  next
    fix t w assume "pl_thread s t = Some w" "pl_flags s w AND WAITER_IN_USE = 0"
    then show "\<exists>s'. waiter_destroy y t w s = Some s' \<and> pool_inv y ws s' \<and> pl_thread s' t = None"
      using waiter_destroy_spec [OF assms] by blast
  qed
qed

theorem waiter_release_safe_witness:
  "\<exists>s s'. nsync_waiter_new demo_layout (Some 100) 7 demo_pool = Some (s, 100) \<and>
     nsync_waiter_free demo_layout 100 s = Some s' \<and> pl_flags s' 100 AND WAITER_IN_USE = 0"
proof -
  obtain s where s: "nsync_waiter_new demo_layout (Some 100) 7 demo_pool = Some (s, 100)"
    "pool_inv demo_layout {100} s" "pl_flags s 100 AND WAITER_IN_USE \<noteq> 0"
    using waiter_new_spec [OF demo_pool_inv pool_demo_fresh, of 7] by auto
  have "nxt (pl_heap s) 116 = 116" "prv (pl_heap s) 116 = 116"
    using s(1) by (auto simp: nsync_waiter_new_def take_waiter_def demo_pool_def nsync_dll_first_def set_flags_def
        waiter_init_def Let_def nsync_dll_init_def q_of_def same_of_def demo_layout_def)
  then have "ring (pl_heap s) [q_of demo_layout 100]" by (simp add: q_of_def demo_layout_def)
  then show ?thesis using waiter_release_safe [OF s(2)] s(1,3) by blast
qed

end
