(* ===== verification/Debug.thy ===== *)
theory Debug
  imports Common Spin Dll "HOL-Library.Monad_Syntax"
begin

text \<open>
  \<^verbatim>\<open>internal/debug.c\<close>: a bounded buffer, a small printf on top of it, and the functions
  that print the state of a mutex or a condition variable.  \<open>None\<close> is a write outside the
  buffer, a failed assertion, or a loop that does not end; the theorems exclude it.  Characters
  are HOL characters, \<^verbatim>\<open>uintptr_t\<close> has 64 bits.
\<close>

type_synonym uintptr = "64 word"

section \<open>The buffer\<close>

record emit_buf =
  eb_start :: "char list"
  eb_len :: int
  eb_pos :: int
  eb_overflow :: bool

definition emit_init :: "char list \<Rightarrow> int \<Rightarrow> emit_buf" where
  "emit_init start len = \<lparr>eb_start = start, eb_len = len, eb_pos = 0, eb_overflow = False\<rparr>"

text \<open>A store to \<^verbatim>\<open>start[i]\<close>.\<close>

definition buf_put :: "char list \<Rightarrow> int \<Rightarrow> char \<Rightarrow> char list option" where
  "buf_put s i c = (if 0 \<le> i \<and> i < int (length s) then Some (s[nat i := c]) else None)"

text \<open>The loop that copies the suffix backwards: \<open>sfx\<close> is what is left of it, reversed.\<close>

fun copy_back :: "char list \<Rightarrow> int \<Rightarrow> char list \<Rightarrow> char list option" where
  "copy_back [] p s = Some s"
| "copy_back (c # sfx) p s =
     (if p > 0 then do { s \<leftarrow> buf_put s (p - 1) c; copy_back sfx (p - 1) s } else Some s)"

definition NUL :: char where "NUL = CHR 0x00"
definition NL :: char where "NL = CHR 0x0A"

definition suffix :: "char list" where "suffix = ''...'' @ [NUL]"

definition emit_c :: "emit_buf \<Rightarrow> char \<Rightarrow> emit_buf option" where
  "emit_c b c =
     (if eb_pos b < eb_len b
      then do { s \<leftarrow> buf_put (eb_start b) (eb_pos b) c; Some (b\<lparr>eb_start := s, eb_pos := eb_pos b + 1\<rparr>) }
      else if \<not> eb_overflow b
      then do { s \<leftarrow> copy_back (rev suffix) (eb_len b) (eb_start b);
                Some (b\<lparr>eb_start := s, eb_overflow := True\<rparr>) }
      else Some b)"

section \<open>Printing\<close>

datatype emit_arg = Str string | Uint uintptr

fun emit_s :: "emit_buf \<Rightarrow> string \<Rightarrow> emit_buf option" where
  "emit_s b [] = Some b"
| "emit_s b (c # cs) = do { b \<leftarrow> emit_c b c; emit_s b cs }"

text \<open>The first loop of \<^verbatim>\<open>%i\<close>: the least multiple of 4 from \<open>i\<close> on that leaves one digit.\<close>

function hex_shift :: "uintptr \<Rightarrow> nat \<Rightarrow> nat" where
  "hex_shift n i = (if drop_bit i n \<ge> 0x10 then hex_shift n (i + 4) else i)"
  by auto
termination
proof (relation "measure (\<lambda>(n, i). 64 - i)")
  fix n :: uintptr and i
  assume "drop_bit i n \<ge> 0x10"
  moreover have "drop_bit i n = 0" if "64 \<le> i" using that
    by (intro bit_word_eqI) (auto simp: bit_drop_bit_eq dest: bit_imp_le_length)
  ultimately have "i < 64" by (cases "i < 64") auto
  then show "((n, i + 4), (n, i)) \<in> measure (\<lambda>(n, i). 64 - i)" by simp
qed simp

declare hex_shift.simps [simp del]

definition hex_digit :: "uintptr \<Rightarrow> nat \<Rightarrow> char" where
  "hex_digit n i = ''0123456789abcdef'' ! unat (drop_bit i n AND 0xf)"

text \<open>The second loop, which ends when \<^verbatim>\<open>i\<close> becomes negative.\<close>

fun emit_hex :: "emit_buf \<Rightarrow> uintptr \<Rightarrow> nat \<Rightarrow> emit_buf option" where
  "emit_hex b n i = do { b \<leftarrow> emit_c b (hex_digit n i); if i < 4 then Some b else emit_hex b n (i - 4) }"

declare emit_hex.simps [simp del]

fun emit_print :: "emit_buf \<Rightarrow> string \<Rightarrow> emit_arg list \<Rightarrow> emit_buf option" where
  "emit_print b [] ap = Some b"
| "emit_print b (c # fmt) ap =
     (if c \<noteq> CHR ''%'' then do { b \<leftarrow> emit_c b c; emit_print b fmt ap }
      else case (fmt, ap) of
        (CHR ''s'' # fmt, Str s # ap) \<Rightarrow> do { b \<leftarrow> emit_s b s; emit_print b fmt ap }
      | (CHR ''i'' # fmt, Uint n # ap) \<Rightarrow> do { b \<leftarrow> emit_hex b n (hex_shift n 0); emit_print b fmt ap }
      | _ \<Rightarrow> None)"

section \<open>Words\<close>

type_synonym bit_name = "u32 \<times> string"

definition mu_bit :: "bit_name list" where
  "mu_bit = [(MU_WLOCK, ''wlock''), (MU_SPINLOCK, ''spin''), (MU_WAITING, ''wait''), (MU_DESIG_WAKER, ''desig''),
     (MU_CONDITION, ''cond''), (MU_WRITER_WAITING, ''writer''), (MU_LONG_WAIT, ''long''),
     (MU_ALL_FALSE, ''false''), (0, '''')]"

definition cv_bit :: "bit_name list" where
  "cv_bit = [(CV_SPINLOCK, ''spin''), (CV_NON_EMPTY, ''wait''), (0, '''')]"


definition waiter_flags_bit :: "bit_name list" where
  "waiter_flags_bit = [(WAITER_RESERVED, ''rsrvd''), (WAITER_IN_USE, ''in_use''), (0, '''')]"

text \<open>The tables end with a mask of 0; running past the end of one is \<open>None\<close>.\<close>

fun emit_word :: "emit_buf \<Rightarrow> bit_name list \<Rightarrow> u32 \<Rightarrow> emit_buf option" where
  "emit_word b [] w = None"
| "emit_word b ((msk, name) # names) w =
     (if msk = 0 then Some b
      else do { b \<leftarrow> (if w AND msk \<noteq> 0 then emit_print b '' %s'' [Str name] else Some b);
                emit_word b names w })"

section \<open>Waiters\<close>

text \<open>
  The fields of a \<^verbatim>\<open>waiter\<close> that are printed; \<open>wt_l_type\<close> is \<open>None\<close> for a
  pointer to neither lock type.  Memory maps the address of the embedded list element to the struct.
\<close>

record waiter =
  wt_addr :: uintptr
  wt_tag :: u32
  wt_nw_tag :: u32
  wt_nw_waiting :: u32
  wt_l_type :: "lmode option"
  wt_remove_count :: u32
  wt_cond_f :: uintptr
  wt_cond_v :: uintptr
  wt_cond_eq :: uintptr
  wt_same_next :: uintptr
  wt_same_self :: uintptr
  wt_same_waiter :: uintptr
  wt_flags :: u32

definition l_type_name :: "lmode option \<Rightarrow> string" where
  "l_type_name l = (if l = Some nsync_writer_type then ''writer'' else if l = Some nsync_reader_type then ''reader'' else ''??????'')"

definition emit_waiter :: "emit_buf \<Rightarrow> waiter \<Rightarrow> emit_buf option" where
  "emit_waiter b w =
     do { b \<leftarrow> emit_print b ''   %i'' [Uint (wt_addr w)];
          b \<leftarrow> (if wt_tag w \<noteq> WAITER_TAG then emit_print b ''bad WAITER_TAG %i'' [Uint (ucast (wt_tag w))]
               else do {
                 b \<leftarrow> (if wt_nw_tag w \<noteq> NSYNC_WAITER_TAG
                      then emit_print b '' bad WAITER_TAG %i'' [Uint (ucast (wt_nw_tag w))]
                      else emit_print b '' embedded=%i waiting=%i''
                             [Uint (ucast (wt_flags w AND NSYNC_WAITER_FLAG_MUCV)), Uint (ucast (wt_nw_waiting w))]);
                 b \<leftarrow> emit_word b waiter_flags_bit (wt_flags w);
                 b \<leftarrow> emit_print b '' %s removes=%i cond=(%i %i %i)''
                        [Str (l_type_name (wt_l_type w)), Uint (ucast (wt_remove_count w)),
                         Uint (wt_cond_f w), Uint (wt_cond_v w), Uint (wt_cond_eq w)];
                 if wt_same_next w \<noteq> wt_same_self w then emit_print b '' same_as %i'' [Uint (wt_same_waiter w)]
                 else Some b });
          emit_c b NL }"

text \<open>The list is followed no further from a struct with a bad tag.\<close>

partial_function (option) emit_waiters_loop ::
  "dll_heap \<Rightarrow> (addr \<Rightarrow> waiter) \<Rightarrow> dll_list \<Rightarrow> addr option \<Rightarrow> emit_buf \<Rightarrow> emit_buf option" where
  "emit_waiters_loop h m l p b =
     (case p of
        None \<Rightarrow> Some b
      | Some e \<Rightarrow>
          if eb_overflow b then Some b
          else do { b \<leftarrow> emit_waiter b (m e);
                    emit_waiters_loop h m l (if wt_tag (m e) \<noteq> WAITER_TAG then None else nsync_dll_next h l e) b })"

definition emit_waiters :: "emit_buf \<Rightarrow> dll_heap \<Rightarrow> (addr \<Rightarrow> waiter) \<Rightarrow> dll_list \<Rightarrow> emit_buf option" where
  "emit_waiters b h m l =
     (let p = nsync_dll_first h l
      in do { b \<leftarrow> (if p \<noteq> None then emit_print b (NL # ''waiters ='' @ [NL]) [] else Some b);
              emit_waiters_loop h m l p b })"

section \<open>Mutexes and condition variables\<close>

text \<open>
  \<open>w\<close> is the word as first loaded, \<open>obs\<close> what the spin loop observes.  The result is
  the buffer and, when the spinlock was acquired, the value stored to the word at the end.
\<close>

definition emit_mu_body :: "emit_buf \<Rightarrow> uintptr \<Rightarrow> u32 \<Rightarrow> dll_heap \<Rightarrow> (addr \<Rightarrow> waiter) \<Rightarrow> dll_list \<Rightarrow> bool \<Rightarrow> emit_buf option" where
  "emit_mu_body b mu word h m l print_waiters =
     (let readers = word div MU_RLOCK
      in do { b \<leftarrow> emit_print b ''mu 0x%i -> 0x%i = {'' [Uint mu, Uint (ucast word)];
              b \<leftarrow> emit_word b mu_bit word;
              b \<leftarrow> (if readers \<noteq> 0 then emit_print b '' readers=0x%i'' [Uint (ucast readers)] else Some b);
              b \<leftarrow> emit_print b '' }'' [];
              b \<leftarrow> (if print_waiters then emit_waiters b h m l else Some b);
              emit_c b NUL })"

definition emit_mu_state :: "emit_buf \<Rightarrow> uintptr \<Rightarrow> u32 \<Rightarrow> (u32 \<times> bool) list \<Rightarrow> dll_heap \<Rightarrow> (addr \<Rightarrow> waiter) \<Rightarrow>
    dll_list \<Rightarrow> bool \<Rightarrow> bool \<Rightarrow> (char list \<times> u32 option) option" where
  "emit_mu_state b mu w obs h m l blocking print_waiters =
     (if w AND MU_WAITING \<noteq> 0 \<and> print_waiters \<and> (blocking \<or> w AND MU_SPINLOCK = 0)
      then do { (word, new) \<leftarrow> nsync_spin_test_and_set MU_SPINLOCK MU_SPINLOCK 0 obs;
                b \<leftarrow> emit_mu_body b mu word h m l print_waiters;
                Some (eb_start b, Some word) }
      else do { b \<leftarrow> emit_mu_body b mu w h m l print_waiters;
                Some (eb_start b, None) })"

definition emit_cv_body :: "emit_buf \<Rightarrow> uintptr \<Rightarrow> u32 \<Rightarrow> dll_heap \<Rightarrow> (addr \<Rightarrow> waiter) \<Rightarrow> dll_list \<Rightarrow> bool \<Rightarrow> emit_buf option" where
  "emit_cv_body b cv word h m l print_waiters =
     do { b \<leftarrow> emit_print b ''cv 0x%i -> 0x%i = {'' [Uint cv, Uint (ucast word)];
          b \<leftarrow> emit_word b cv_bit word;
          b \<leftarrow> emit_print b '' }'' [];
          b \<leftarrow> (if print_waiters then emit_waiters b h m l else Some b);
          emit_c b NUL }"

definition emit_cv_state :: "emit_buf \<Rightarrow> uintptr \<Rightarrow> u32 \<Rightarrow> (u32 \<times> bool) list \<Rightarrow> dll_heap \<Rightarrow> (addr \<Rightarrow> waiter) \<Rightarrow>
    dll_list \<Rightarrow> bool \<Rightarrow> bool \<Rightarrow> (char list \<times> u32 option) option" where
  "emit_cv_state b cv w obs h m l blocking print_waiters =
     (if w AND CV_NON_EMPTY \<noteq> 0 \<and> print_waiters \<and> (blocking \<or> w AND CV_SPINLOCK = 0)
      then do { (word, new) \<leftarrow> nsync_spin_test_and_set CV_SPINLOCK CV_SPINLOCK 0 obs;
                b \<leftarrow> emit_cv_body b cv word h m l print_waiters;
                Some (eb_start b, Some word) }
      else do { b \<leftarrow> emit_cv_body b cv w h m l print_waiters;
                Some (eb_start b, None) })"

definition nsync_mu_debug_state where
  "nsync_mu_debug_state mu w h m l buf n = emit_mu_state (emit_init buf n) mu w [] h m l False False"

definition nsync_cv_debug_state where
  "nsync_cv_debug_state cv w h m l buf n = emit_cv_state (emit_init buf n) cv w [] h m l False False"

definition nsync_mu_debug_state_and_waiters where
  "nsync_mu_debug_state_and_waiters mu w obs h m l buf n = emit_mu_state (emit_init buf n) mu w obs h m l True True"

definition nsync_cv_debug_state_and_waiters where
  "nsync_cv_debug_state_and_waiters cv w obs h m l buf n = emit_cv_state (emit_init buf n) cv w obs h m l True True"

text \<open>The static buffer of the debugger entry points has 1024 characters.\<close>

definition nsync_mu_debugger where
  "nsync_mu_debugger mu w obs h m l buf = emit_mu_state (emit_init buf 1024) mu w obs h m l False True"

definition nsync_cv_debugger where
  "nsync_cv_debugger cv w obs h m l buf = emit_cv_state (emit_init buf 1024) cv w obs h m l False True"

section \<open>What a buffer holds after a text\<close>

text \<open>
  A buffer of \<open>n\<close> characters after the text \<open>t\<close>: the text, if it fits; otherwise what
  fits of it with the suffix over its end.
\<close>

definition buffer_text :: "char list \<Rightarrow> char list \<Rightarrow> char list" where
  "buffer_text start t =
     (let n = length start
      in if length t \<le> n then t @ drop (length t) start
         else take (n - 4) t @ drop (4 - n) suffix)"

definition emitted :: "char list \<Rightarrow> char list \<Rightarrow> emit_buf \<Rightarrow> bool" where
  "emitted start t b \<longleftrightarrow>
     eb_len b = int (length start) \<and> eb_pos b = int (min (length t) (length start)) \<and>
     (eb_overflow b \<longleftrightarrow> length start < length t) \<and> eb_start b = buffer_text start t"

lemma emitted_init: "emitted start [] (emit_init start (int (length start)))"
  by (simp add: emitted_def emit_init_def buffer_text_def)

lemma emitted_full: "length start < length t \<Longrightarrow> emitted start t b \<Longrightarrow> emitted start (t @ u) b"
  by (simp add: emitted_def buffer_text_def Let_def)

lemma length_suffix: "length suffix = 4"
  by (simp add: suffix_def)

lemma copy_back_spec:
  "p \<le> length s \<Longrightarrow> copy_back r (int p) s =
     Some (take (p - length r) s @ drop (length r - p) (rev r) @ drop p s)"
proof (induction r arbitrary: p s)
  case (Cons c r)
  show ?case
  proof (cases p)
    case (Suc q)
    then have q: "buf_put s (int p - 1) c = Some (s[q := c])" "int p - 1 = int q" "q < length s"
      using Cons.prems by (auto simp: buf_put_def)
    have "copy_back (c # r) (int p) s = copy_back r (int q) (s[q := c])" using Suc q(1) by simp
    also have "\<dots> = Some (take (q - length r) s @ drop (length r - q) (rev r) @ c # drop (Suc q) s)"
      using Cons.IH [of q "s[q := c]"] q(3) by (simp add: take_update_swap [symmetric] drop_update_swap [symmetric] Cons_nth_drop_Suc [symmetric])
    finally show ?thesis using Suc by (auto simp: drop_append)
  qed simp
qed simp

lemma emit_c_emitted:
  assumes "emitted start t b"
  shows "\<exists>b'. emit_c b c = Some b' \<and> emitted start (t @ [c]) b'"
proof -
  let ?n = "length start"
  consider "length t < ?n" | "length t = ?n" | "?n < length t" by linarith
  then show ?thesis
  proof cases
    case 1
    then have "(t @ drop (length t) start)[length t := c] = (t @ [c]) @ drop (Suc (length t)) start"
      by (simp add: list_update_append Cons_nth_drop_Suc [symmetric])
    then show ?thesis using 1 assms
      by (auto simp: emitted_def emit_c_def buf_put_def buffer_text_def Let_def)
  next
    case 2
    have "copy_back (rev suffix) (int ?n) t = Some (take (?n - 4) t @ drop (4 - ?n) suffix)"
      using copy_back_spec [of ?n t "rev suffix"] 2 by (simp add: length_suffix del: copy_back.simps)
    then show ?thesis using 2 assms
      by (auto simp: emitted_def emit_c_def buffer_text_def Let_def)
  next
    case 3
    then show ?thesis using assms emitted_full [OF 3 assms] by (auto simp: emitted_def emit_c_def)
  qed
qed

section \<open>The text of each function\<close>

text \<open>An emitter with a known text: it never fails, and appends just that text.\<close>

definition emits :: "(emit_buf \<Rightarrow> emit_buf option) \<Rightarrow> char list \<Rightarrow> bool" where
  "emits f u \<longleftrightarrow> (\<forall>start t b. emitted start t b \<longrightarrow> (\<exists>b'. f b = Some b' \<and> emitted start (t @ u) b'))"

lemma emitsD: "emits f u \<Longrightarrow> emitted start t b \<Longrightarrow> \<exists>b'. f b = Some b' \<and> emitted start (t @ u) b'"
  by (simp add: emits_def)

lemma emits_c: "emits (\<lambda>b. emit_c b c) [c]"
  by (simp add: emits_def emit_c_emitted)

lemma emits_Nil: "emits Some []"
  by (simp add: emits_def)

lemma emits_bind:
  assumes "emits f u" "emits g v"
  shows "emits (\<lambda>b. f b \<bind> g) (u @ v)"
  unfolding emits_def
proof (intro allI impI)
  fix start t b assume "emitted start t b"
  then obtain b1 where 1: "f b = Some b1" "emitted start (t @ u) b1" using emitsD [OF assms(1)] by blast
  then obtain b2 where "g b1 = Some b2" "emitted start ((t @ u) @ v) b2" using emitsD [OF assms(2)] by blast
  with 1 show "\<exists>b'. (f b \<bind> g) = Some b' \<and> emitted start (t @ u @ v) b'" by simp
qed

lemma emits_if: "(c \<Longrightarrow> emits f u) \<Longrightarrow> (\<not> c \<Longrightarrow> emits g v) \<Longrightarrow> emits (\<lambda>b. if c then f b else g b) (if c then u else v)"
  by simp

lemma emits_s: "emits (\<lambda>b. emit_s b cs) cs"
proof (induction cs)
  case (Cons c cs)
  then show ?case using emits_bind [OF emits_c [of c] Cons.IH] by simp
qed (simp add: emits_Nil)

fun hex_from :: "uintptr \<Rightarrow> nat \<Rightarrow> string" where
  "hex_from n i = hex_digit n i # (if i < 4 then [] else hex_from n (i - 4))"

declare hex_from.simps [simp del]

definition hex :: "uintptr \<Rightarrow> string" where
  "hex n = hex_from n (hex_shift n 0)"

lemma emits_hex: "emits (\<lambda>b. emit_hex b n i) (hex_from n i)"
proof (induction i rule: less_induct)
  case (less i)
  show ?case
  proof (cases "i < 4")
    case True
    then show ?thesis using emits_bind [OF emits_c emits_Nil, of "hex_digit n i"]
      by (simp add: emit_hex.simps [of _ n i] hex_from.simps [of n i])
  next
    case False
    then show ?thesis using emits_bind [OF emits_c less [of "i - 4"], of "hex_digit n i"]
      by (simp add: emit_hex.simps [of _ n i] hex_from.simps [of n i])
  qed
qed

text \<open>The text of a format: \<open>None\<close> where \<^verbatim>\<open>emit_print\<close> would fail its assertion.\<close>

fun format :: "string \<Rightarrow> emit_arg list \<Rightarrow> string option" where
  "format [] ap = Some []"
| "format (c # fmt) ap =
     (if c \<noteq> CHR ''%'' then map_option ((#) c) (format fmt ap)
      else case (fmt, ap) of
        (CHR ''s'' # fmt, Str s # ap) \<Rightarrow> map_option ((@) s) (format fmt ap)
      | (CHR ''i'' # fmt, Uint n # ap) \<Rightarrow> map_option ((@) (hex n)) (format fmt ap)
      | _ \<Rightarrow> None)"

lemma format_cases:
  assumes "format (c # fmt) ap = Some u"
  obtains (char) v where "c \<noteq> CHR ''%''" "format fmt ap = Some v" "u = c # v"
  | (str) f' s ap' v where "c = CHR ''%''" "fmt = CHR ''s'' # f'" "ap = Str s # ap'" "format f' ap' = Some v" "u = s @ v"
  | (uint) f' n ap' v where "c = CHR ''%''" "fmt = CHR ''i'' # f'" "ap = Uint n # ap'" "format f' ap' = Some v" "u = hex n @ v"
  using assms by (auto split: if_splits list.splits emit_arg.splits char.splits bool.splits)

lemma emits_format: "format fmt ap = Some u \<Longrightarrow> emits (\<lambda>b. emit_print b fmt ap) u"
proof (induction fmt arbitrary: ap u rule: length_induct)
  case (1 fmt)
  show ?case
  proof (cases fmt)
    case Nil
    then show ?thesis using 1(2) by (simp add: emits_Nil)
  next
    case (Cons c cs)
    from 1(2) [unfolded Cons] show ?thesis
    proof (cases rule: format_cases)
      case (char v)
      have "emits (\<lambda>b. emit_print b cs ap) v" using 1(1) char(2) Cons by simp
      from emits_bind [OF emits_c this] show ?thesis using char Cons by simp
    next
      case (str f' s ap' v)
      have "emits (\<lambda>b. emit_print b f' ap') v" using 1(1) str Cons by simp
      from emits_bind [OF emits_s this] show ?thesis using str Cons by simp
    next
      case (uint f' n ap' v)
      have "emits (\<lambda>b. emit_print b f' ap') v" using 1(1) uint Cons by simp
      from emits_bind [OF emits_hex this] show ?thesis using uint Cons by (simp add: hex_def)
    qed
  qed
qed

declare emit_print.simps [simp del]

lemma emits_print: "format fmt ap \<noteq> None \<Longrightarrow> emits (\<lambda>b. emit_print b fmt ap) (the (format fmt ap))"
  using emits_format by auto

fun word_names :: "bit_name list \<Rightarrow> u32 \<Rightarrow> string" where
  "word_names [] w = []"
| "word_names ((msk, name) # names) w =
     (if msk = 0 then [] else (if w AND msk \<noteq> 0 then CHR '' '' # name else []) @ word_names names w)"

lemma emits_word: "0 \<in> fst ` set names \<Longrightarrow> emits (\<lambda>b. emit_word b names w) (word_names names w)"
proof (induction names)
  case (Cons x names)
  obtain msk name where x: "x = (msk, name)" by (cases x)
  have "emits (\<lambda>b. if w AND msk \<noteq> 0 then emit_print b '' %s'' [Str name] else Some b)
      (if w AND msk \<noteq> 0 then CHR '' '' # name else [])"
    using emits_print [of "'' %s''" "[Str name]"] by (simp add: emits_Nil)
  from emits_bind [OF this Cons.IH] show ?case
    using Cons.prems x by (cases "msk = 0") (auto simp: emits_Nil)
qed simp

definition waiter_text :: "waiter \<Rightarrow> string" where
  "waiter_text w =
     ''   '' @ hex (wt_addr w) @
     (if wt_tag w \<noteq> WAITER_TAG then ''bad WAITER_TAG '' @ hex (ucast (wt_tag w))
      else
        (if wt_nw_tag w \<noteq> NSYNC_WAITER_TAG then '' bad WAITER_TAG '' @ hex (ucast (wt_nw_tag w))
         else '' embedded='' @ hex (ucast (wt_flags w AND NSYNC_WAITER_FLAG_MUCV)) @
              '' waiting='' @ hex (ucast (wt_nw_waiting w))) @
        word_names waiter_flags_bit (wt_flags w) @
        '' '' @ l_type_name (wt_l_type w) @ '' removes='' @ hex (ucast (wt_remove_count w)) @
        '' cond=('' @ hex (wt_cond_f w) @ '' '' @ hex (wt_cond_v w) @ '' '' @ hex (wt_cond_eq w) @ '')'' @
        (if wt_same_next w \<noteq> wt_same_self w then '' same_as '' @ hex (wt_same_waiter w) else [])) @
     [NL]"

lemma tables: "0 \<in> fst ` set mu_bit" "0 \<in> fst ` set cv_bit" "0 \<in> fst ` set waiter_flags_bit"
  by (simp_all add: mu_bit_def cv_bit_def waiter_flags_bit_def)

lemma emits_cong: "emits f u \<Longrightarrow> u = v \<Longrightarrow> emits f v"
  by simp

lemmas emits_rules = emits_bind emits_if emits_c emits_Nil emits_word tables emits_print

lemma emits_waiter: "emits (\<lambda>b. emit_waiter b w) (waiter_text w)"
  unfolding emit_waiter_def waiter_text_def
  by (rule emits_cong, (rule emits_rules | simp; fail)+)

fun waiters_text :: "(addr \<Rightarrow> waiter) \<Rightarrow> addr list \<Rightarrow> string" where
  "waiters_text m [] = []"
| "waiters_text m (e # es) =
     waiter_text (m e) @ (if wt_tag (m e) \<noteq> WAITER_TAG then [] else waiters_text m es)"

lemma emits_waiters_loop:
  assumes "is_dll h l (ys @ xs)" "emitted start t b"
  shows "\<exists>b'. emit_waiters_loop h m l (if xs = [] then None else Some (hd xs)) b = Some b' \<and>
    emitted start (t @ waiters_text m xs) b'"
  using assms
proof (induction xs arbitrary: ys t b)
  case Nil
  then show ?case by (simp add: emit_waiters_loop.simps)
next
  case (Cons e es)
  show ?case
  proof (cases "eb_overflow b")
    case True
    then have "length start < length t" using Cons.prems(2) by (simp add: emitted_def)
    then show ?thesis using True emitted_full Cons.prems(2) by (simp add: emit_waiters_loop.simps)
  next
    case False
    obtain b1 where b1: "emit_waiter b (m e) = Some b1" "emitted start (t @ waiter_text (m e)) b1"
      using emitsD [OF emits_waiter Cons.prems(2)] by blast
    have nx: "nsync_dll_next h l e = (if es = [] then None else Some (hd es))"
      using next_list Cons.prems(1) by blast
    show ?thesis
    proof (cases "wt_tag (m e) = WAITER_TAG")
      case True
      have "\<exists>b'. emit_waiters_loop h m l (if es = [] then None else Some (hd es)) b1 = Some b' \<and>
          emitted start ((t @ waiter_text (m e)) @ waiters_text m es) b'"
        using Cons.IH [of "ys @ [e]" "t @ waiter_text (m e)" b1] Cons.prems(1) b1(2) by simp
      then show ?thesis using True False b1(1) nx by (simp add: emit_waiters_loop.simps [of h m l "Some e"])
    next
      case bad: False
      then show ?thesis using False b1
        by (simp add: emit_waiters_loop.simps [of h m l "Some e"] emit_waiters_loop.simps [of h m l None])
    qed
  qed
qed

definition queue_text :: "(addr \<Rightarrow> waiter) \<Rightarrow> addr list \<Rightarrow> string" where
  "queue_text m xs = (if xs = [] then [] else NL # ''waiters ='' @ [NL] @ waiters_text m xs)"

lemma emits_waiters:
  assumes "is_dll h l xs"
  shows "emits (\<lambda>b. emit_waiters b h m l) (queue_text m xs)"
proof -
  have loop: "emits (\<lambda>b. emit_waiters_loop h m l (if xs = [] then None else Some (hd xs)) b) (waiters_text m xs)"
    using emits_waiters_loop [of h l "[]" xs] assms by (simp add: emits_def)
  show ?thesis
  proof (cases "xs = []")
    case True
    then show ?thesis using loop first_list [OF assms] by (simp add: emit_waiters_def queue_text_def)
  next
    case False
    then show ?thesis
      using emits_bind [OF emits_print [of "NL # ''waiters ='' @ [NL]" "[]"] loop] first_list [OF assms]
      by (simp add: emit_waiters_def queue_text_def NL_def)
  qed
qed

text \<open>The state of a mutex and of a condition variable, as text.\<close>

definition mu_text :: "uintptr \<Rightarrow> u32 \<Rightarrow> string" where
  "mu_text mu w =
     ''mu 0x'' @ hex mu @ '' -> 0x'' @ hex (ucast w) @ '' = {'' @ word_names mu_bit w @
     (if w div MU_RLOCK \<noteq> 0 then '' readers=0x'' @ hex (ucast (w div MU_RLOCK)) else []) @ '' }''"

definition cv_text :: "uintptr \<Rightarrow> u32 \<Rightarrow> string" where
  "cv_text cv w = ''cv 0x'' @ hex cv @ '' -> 0x'' @ hex (ucast w) @ '' = {'' @ word_names cv_bit w @ '' }''"

lemma emits_mu:
  assumes "pw \<Longrightarrow> is_dll h l xs"
  shows "emits (\<lambda>b. emit_mu_body b mu word h m l pw) (mu_text mu word @ (if pw then queue_text m xs else []) @ [NUL])"
  unfolding mu_text_def emit_mu_body_def Let_def
  by (rule emits_cong, (rule emits_rules emits_waiters assms | assumption | simp; fail)+)

lemma emits_cv:
  assumes "pw \<Longrightarrow> is_dll h l xs"
  shows "emits (\<lambda>b. emit_cv_body b cv word h m l pw) (cv_text cv word @ (if pw then queue_text m xs else []) @ [NUL])"
  unfolding cv_text_def emit_cv_body_def
  by (rule emits_cong, (rule emits_rules emits_waiters assms | assumption | simp; fail)+)

section \<open>Hexadecimal numbers\<close>

definition hex_val :: "char \<Rightarrow> nat" where
  "hex_val c = (let k = (of_char c :: nat) in if k < 58 then k - 48 else k - 87)"

definition hex_read :: "nat \<Rightarrow> string \<Rightarrow> nat" where
  "hex_read = foldl (\<lambda>v c. 16 * v + hex_val c)"

lemma hex_val_nth:
  assumes "k < 16"
  shows "hex_val (''0123456789abcdef'' ! k) = k"
proof -
  have "list_all (\<lambda>k. hex_val (''0123456789abcdef'' ! k) = k) [0..<16]" by code_simp
  then show ?thesis using assms by (simp add: list_all_iff del: upt_rec_numeral)
qed

lemma unat_drop: "unat (drop_bit i n) = unat n div 2 ^ i" for n :: uintptr
  by (simp only: unat_drop_bit_eq drop_bit_eq_div [where ?'a = nat])

lemma pow16: "(2::nat) ^ (4 * k) = 16 ^ k"
  by (simp only: power_mult) simp

lemma hex_val_digit: "hex_val (hex_digit n i) = unat n div 2 ^ i mod 16"
proof -
  have "drop_bit i n AND 0xf = take_bit 4 (drop_bit i n)"
    by (simp add: take_bit_eq_mask mask_eq_exp_minus_1)
  then have "unat (drop_bit i n AND 0xf) = take_bit 4 (unat (drop_bit i n))"
    by (simp only: unsigned_take_bit_eq)
  then have "unat (drop_bit i n AND 0xf) = unat n div 2 ^ i mod 16"
    by (simp add: unat_drop take_bit_eq_mod)
  then show ?thesis using hex_val_nth [of "unat n div 2 ^ i mod 16"] by (simp add: hex_digit_def)
qed

lemma hex_read_from: "hex_read a (hex_from n (4 * k)) = a * 16 ^ Suc k + unat n mod 16 ^ Suc k"
proof (induction k arbitrary: a)
  case 0
  then show ?case by (simp add: hex_from.simps hex_read_def hex_val_digit)
next
  case (Suc k)
  have "hex_from n (4 * Suc k) = hex_digit n (4 * Suc k) # hex_from n (4 * k)"
    using hex_from.simps [of n "4 * Suc k"] by simp
  then have "hex_read a (hex_from n (4 * Suc k)) =
      hex_read (16 * a + unat n div 16 ^ Suc k mod 16) (hex_from n (4 * k))"
    unfolding hex_read_def by (simp only: foldl_Cons hex_val_digit pow16)
  also have "\<dots> = 16 * a * 16 ^ Suc k + (16 ^ Suc k * (unat n div 16 ^ Suc k mod 16) + unat n mod 16 ^ Suc k)"
    unfolding Suc.IH by (simp add: algebra_simps)
  also have "16 ^ Suc k * (unat n div 16 ^ Suc k mod 16) + unat n mod 16 ^ Suc k = unat n mod (16 ^ Suc k * 16)"
    by (rule mod_mult2_eq [symmetric])
  finally show ?case by (simp add: algebra_simps)
qed

lemma hex_shift_spec:
  "\<exists>k. hex_shift n (4 * j) = 4 * k \<and> drop_bit (4 * k) n < 0x10 \<and> (j < k \<longrightarrow> drop_bit (4 * (k - 1)) n \<ge> 0x10) \<and> j \<le> k"
proof (induction n "4 * j" arbitrary: j rule: hex_shift.induct)
  case (1 n)
  show ?case
  proof (cases "drop_bit (4 * j) n \<ge> 0x10")
    case True
    then obtain k where k: "hex_shift n (4 * Suc j) = 4 * k" "drop_bit (4 * k) n < 0x10"
      "Suc j < k \<longrightarrow> drop_bit (4 * (k - 1)) n \<ge> 0x10" "Suc j \<le> k"
      using 1 [of "Suc j"] by (auto simp: add.commute)
    moreover have "k = Suc j \<Longrightarrow> drop_bit (4 * (k - 1)) n \<ge> 0x10" using True by simp
    ultimately show ?thesis using True hex_shift.simps [of n "4 * j"]
      by (intro exI [of _ k]) (auto simp: add.commute le_less)
  next
    case False
    have "hex_shift n (4 * j) = 4 * j" using hex_shift.simps [of n "4 * j"] unfolding if_not_P [OF False] .
    then show ?thesis using False by (intro exI [of _ j]) (simp add: not_le)
  qed
qed

lemma hex_form:
  obtains k where "hex n = hex_from n (4 * k)" "unat n < 16 ^ Suc k" "0 < k \<Longrightarrow> 16 ^ k \<le> unat n"
proof -
  obtain k where k: "hex_shift n (4 * 0) = 4 * k" "drop_bit (4 * k) n < 0x10"
    "0 < k \<longrightarrow> drop_bit (4 * (k - 1)) n \<ge> 0x10" using hex_shift_spec [of n 0] by blast
  have "unat n div 16 ^ k < 16" using k(2) unat_drop [of "4 * k" n] unfolding pow16 by (simp add: word_less_nat_alt)
  then have "unat n < 16 ^ Suc k" by (simp add: div_less_iff_less_mult mult.commute)
  moreover have "16 ^ k \<le> unat n" if "0 < k"
  proof -
    have "16 \<le> unat n div 16 ^ (k - 1)" using k(3) that unat_drop [of "4 * (k - 1)" n] unfolding pow16 by (simp add: word_le_nat_alt)
    then have "16 * 16 ^ (k - 1) \<le> unat n" by (simp add: less_eq_div_iff_mult_less_eq)
    then show ?thesis using that by (cases k) auto
  qed
  ultimately show ?thesis using that [of k] k(1) by (simp add: hex_def)
qed

section \<open>Properties\<close>

text \<open>Numbers are printed exactly: reading the text of \<^verbatim>\<open>%i\<close> as a hexadecimal numeral
  gives back the number, and its first digit is not 0 unless it is the only one.\<close>

theorem hex_roundtrip: "hex_read 0 (hex n) = unat n \<and> (length (hex n) = 1 \<or> 0 < hex_val (hd (hex n)))"
proof (rule hex_form [of n])
  fix k assume k: "hex n = hex_from n (4 * k)" "unat n < 16 ^ Suc k" "0 < k \<Longrightarrow> 16 ^ k \<le> unat n"
  have "hex_read 0 (hex n) = unat n" using k(1,2) hex_read_from [of 0 n k] by simp
  moreover have "hex_val (hd (hex n)) = unat n div 16 ^ k mod 16"
    using k(1) hex_from.simps [of n "4 * k"] by (simp add: hex_val_digit pow16)
  moreover have "length (hex n) = 1" if "k = 0" using that k(1) by (simp add: hex_from.simps)
  moreover have "unat n div 16 ^ k mod 16 \<noteq> 0" if "0 < k"
  proof -
    have "unat n div 16 ^ k < 16" using k(2) by (simp add: div_less_iff_less_mult)
    moreover have "0 < unat n div 16 ^ k" using k(3) [OF that] by (simp add: div_greater_zero_iff)
    ultimately show ?thesis by simp
  qed
  ultimately show ?thesis by (cases "k = 0") auto
qed

lemma run_emitter:
  assumes "emits f t"
  shows "(f (emit_init buf (int (length buf))) \<bind> (\<lambda>b. Some (eb_start b, x))) = Some (buffer_text buf t, x)"
  using emitsD [OF assms emitted_init [of buf]] by (auto simp: emitted_def)

text \<open>The contract of \<^verbatim>\<open>public/nsync_debug.h\<close> for a text that ends in NUL.\<close>

definition debug_contract :: "string \<Rightarrow> char list \<Rightarrow> char list \<Rightarrow> bool" where
  "debug_contract t buf r \<longleftrightarrow>
     length r = length buf \<and> (buf = [] \<or> NUL \<in> set r) \<and>
     (if length t < length buf then take (length t + 1) r = t @ [NUL]
      else length buf < 4 \<or> r = take (length buf - 4) t @ ''...'' @ [NUL])"

lemma suffix_end: "buf \<noteq> [] \<Longrightarrow> NUL \<in> set (drop (4 - length buf) suffix)"
proof -
  assume "buf \<noteq> []"
  then have "0 < length buf" by simp
  then have "drop (4 - length buf) suffix \<noteq> []" by (simp add: length_suffix not_le)
  moreover have "last suffix = NUL" by (simp add: suffix_def)
  ultimately show ?thesis by (metis drop_eq_Nil last_drop last_in_set not_le)
qed

lemma buffer_text_contract: "debug_contract t buf (buffer_text buf (t @ [NUL]))"
proof (cases "length t < length buf")
  case True
  then show ?thesis by (simp add: debug_contract_def buffer_text_def)
next
  case False
  then have r: "buffer_text buf (t @ [NUL]) = take (length buf - 4) t @ drop (4 - length buf) suffix"
    by (simp add: buffer_text_def Let_def)
  have "drop (4 - length buf) suffix = ''...'' @ [NUL]" if "4 \<le> length buf" using that by (simp add: suffix_def)
  then show ?thesis using False suffix_end [of buf] unfolding debug_contract_def r
    by (cases "4 \<le> length buf") (auto simp: length_suffix not_less)
qed

text \<open>C40. \<^verbatim>\<open>nsync_mu_debug_state\<close> and \<^verbatim>\<open>nsync_cv_debug_state\<close> never write outside
  the buffer and keep the promise of \<^verbatim>\<open>nsync_debug.h\<close>: a non-empty buffer is left
  nul-terminated, it holds the whole text if that fits, and otherwise, given at least four
  characters, as much of it as fits in front of three dots.\<close>

theorem debug_state_correct:
  "(\<exists>r. nsync_mu_debug_state mu w h m l buf (int (length buf)) = Some (r, None) \<and>
      debug_contract (mu_text mu w) buf r) \<and>
   (\<exists>r. nsync_cv_debug_state cv v h m l buf (int (length buf)) = Some (r, None) \<and>
      debug_contract (cv_text cv v) buf r)"
proof -
  have "nsync_mu_debug_state mu w h m l buf (int (length buf)) = Some (buffer_text buf (mu_text mu w @ [NUL]), None)"
    using run_emitter [OF emits_mu [of False h l "[]" mu w m], of buf None]
    by (simp add: nsync_mu_debug_state_def emit_mu_state_def)
  moreover have "nsync_cv_debug_state cv v h m l buf (int (length buf)) = Some (buffer_text buf (cv_text cv v @ [NUL]), None)"
    using run_emitter [OF emits_cv [of False h l "[]" cv v m], of buf None]
    by (simp add: nsync_cv_debug_state_def emit_cv_state_def)
  ultimately show ?thesis using buffer_text_contract by simp
qed

text \<open>\<^verbatim>\<open>nsync_mu_debug_state_and_waiters\<close> and its counterpart for condition variables
  end, also with a full buffer, for every well-formed waiter list: as soon as the spinlock is
  granted they print the word and the waiters in the order of the list, keep the same promise
  for the buffer, and store back the word they found.\<close>

theorem debug_waiters_correct:
  assumes "is_dll h l xs" "w AND MU_WAITING \<noteq> 0" "v AND CV_NON_EMPTY \<noteq> 0"
    "nsync_spin_test_and_set MU_SPINLOCK MU_SPINLOCK 0 obs = Some (old, new)"
    "nsync_spin_test_and_set CV_SPINLOCK CV_SPINLOCK 0 cobs = Some (cold, cnew)"
  shows "(\<exists>r. nsync_mu_debug_state_and_waiters mu w obs h m l buf (int (length buf)) = Some (r, Some old) \<and>
      debug_contract (mu_text mu old @ queue_text m xs) buf r) \<and>
   (\<exists>r. nsync_cv_debug_state_and_waiters cv v cobs h m l buf (int (length buf)) = Some (r, Some cold) \<and>
      debug_contract (cv_text cv cold @ queue_text m xs) buf r)"
proof -
  have "nsync_mu_debug_state_and_waiters mu w obs h m l buf (int (length buf)) =
      Some (buffer_text buf ((mu_text mu old @ queue_text m xs) @ [NUL]), Some old)"
    using run_emitter [OF emits_mu [of True h l xs mu old m], of buf "Some old"] assms(1,2,4)
    by (simp add: nsync_mu_debug_state_and_waiters_def emit_mu_state_def)
  moreover have "nsync_cv_debug_state_and_waiters cv v cobs h m l buf (int (length buf)) =
      Some (buffer_text buf ((cv_text cv cold @ queue_text m xs) @ [NUL]), Some cold)"
    using run_emitter [OF emits_cv [of True h l xs cv cold m], of buf "Some cold"] assms(1,3,5)
    by (simp add: nsync_cv_debug_state_and_waiters_def emit_cv_state_def)
  ultimately show ?thesis using buffer_text_contract by blast
qed

definition demo_waiter :: waiter where
  "demo_waiter = \<lparr>wt_addr = 0x40, wt_tag = WAITER_TAG, wt_nw_tag = NSYNC_WAITER_TAG, wt_nw_waiting = 1,
     wt_l_type = Some nsync_writer_type, wt_remove_count = 0, wt_cond_f = 0, wt_cond_v = 0, wt_cond_eq = 0,
     wt_same_next = 8, wt_same_self = 8, wt_same_waiter = 0, wt_flags = 3\<rparr>"

theorem debug_waiters_correct_witness:
  "\<exists>r. nsync_mu_debug_state_and_waiters 0x100 5 [(7, False), (5, True)] dll_example (\<lambda>_. demo_waiter) (Some 3)
      (replicate 100 NUL) 100 = Some (r, Some 5) \<and> length r = 100"
proof -
  have "nsync_spin_test_and_set MU_SPINLOCK MU_SPINLOCK 0 [(7, False), (5, True)] = Some (5, 7)"
    "nsync_spin_test_and_set CV_SPINLOCK CV_SPINLOCK 0 [(2, True)] = Some (2, 3)"
    "(5::u32) AND MU_WAITING \<noteq> 0" "(2::u32) AND CV_NON_EMPTY \<noteq> 0" by code_simp+
  then show ?thesis
    using debug_waiters_correct [OF dll_example_ok(1), where w = 5 and v = 2 and obs = "[(7, False), (5, True)]"
        and old = 5 and new = 7 and cobs = "[(2, True)]" and cold = 2 and cnew = 3 and mu = "0x100"
        and m = "\<lambda>_. demo_waiter" and buf = "replicate 100 NUL"]
    by (auto simp: debug_contract_def)
qed

end
