(* ===== verification/Mkdep.thy ===== *)
theory Mkdep
  imports Prelude "HOL-Library.List_Lexorder"
begin

text \<open>
  \<^verbatim>\<open>tools/mkdep.c\<close>: the build tool that writes make dependencies from the output of the
  preprocessor.  A C string is a \<open>string\<close> (the bytes before the NUL); the commands that
  \<^verbatim>\<open>popen\<close> runs are a parameter, which gives for a command its output, whether reading fails,
  and its exit status, or \<open>None\<close> if it cannot be started.  \<^verbatim>\<open>malloc\<close> and \<^verbatim>\<open>realloc\<close> do not fail.
\<close>

section \<open>Strings\<close>

abbreviation quote :: char where "quote \<equiv> CHR 0x22"
abbreviation newline :: char where "newline \<equiv> CHR 0x0A"
abbreviation backslash :: char where "backslash \<equiv> CHR 0x5C"

text \<open>The C library's functions on strings, as far as they are used.\<close>

fun strcmp :: "string \<Rightarrow> string \<Rightarrow> int" where
  "strcmp [] [] = 0"
| "strcmp [] (d # ds) = - 1"
| "strcmp (c # cs) [] = 1"
| "strcmp (c # cs) (d # ds) = (if c = d then strcmp cs ds else of_char c - of_char d)"

definition strncmp :: "string \<Rightarrow> string \<Rightarrow> nat \<Rightarrow> int" where
  "strncmp s t n = strcmp (take n s) (take n t)"

definition strchr :: "string \<Rightarrow> char \<Rightarrow> string option" where
  "strchr s c = (let t = dropWhile (\<lambda>x. x \<noteq> c) s in if t = [] then None else Some t)"

definition snprintf :: "nat \<Rightarrow> string \<Rightarrow> string" where
  "snprintf n s = take (n - 1) s"

definition fgets :: "nat \<Rightarrow> string \<Rightarrow> string \<times> string" where
  "fgets n s =
     (let t = take (n - 1) s; m = length (takeWhile (\<lambda>c. c \<noteq> newline) t) + 1
      in (take m t, drop (length (take m t)) s))"

definition cmpstr :: "string \<Rightarrow> string \<Rightarrow> int" where
  "cmpstr a b = strcmp a b"

fun has_prefix :: "string \<Rightarrow> string list \<Rightarrow> bool" where
  "has_prefix s [] = False"
| "has_prefix s (pref # prefs) = (if strncmp s pref (length pref) \<noteq> 0 then has_prefix s prefs else True)"

fun has_suffix :: "string \<Rightarrow> string list \<Rightarrow> bool" where
  "has_suffix s [] = False"
| "has_suffix s (suf # sufs) =
     (if length s < length suf \<or> strcmp (drop (length s - length suf) s) suf \<noteq> 0 then has_suffix s sufs else True)"

definition prog_suffixes :: "string list" where
  "prog_suffixes = [''.c'', ''.h'', ''.s'', ''.cc'', ''.C'', ''.H'', ''.S'', ''.CC'']"

definition has_prog_suffix :: "string \<Rightarrow> bool" where
  "has_prog_suffix s = has_suffix s prog_suffixes"

text \<open>The loop, from position \<open>pos\<close> down.\<close>

fun pos_from :: "string \<Rightarrow> string \<Rightarrow> nat \<Rightarrow> nat" where
  "pos_from s sep 0 = 0"
| "pos_from s sep (Suc pos) = (if strchr sep (s ! pos) = None then pos_from s sep pos else Suc pos)"

definition pos_suffix_not_containing :: "string \<Rightarrow> string \<Rightarrow> nat" where
  "pos_suffix_not_containing s sep = pos_from s sep (length s)"

section \<open>A source file\<close>

text \<open>The name that a line of the preprocessor's output adds to the list, if any.\<close>

definition line_name :: "string \<Rightarrow> string option" where
  "line_name line =
     (if has_prefix line [''#line 1 '' @ [quote], ''# 1 '' @ [quote]]
      then (case strchr line quote of
              None \<Rightarrow> None
            | Some start \<Rightarrow>
                (let name =
                   (case strchr (tl start) quote of
                      None \<Rightarrow> start
                    | Some end \<Rightarrow>
                        (let start = take (length start - length end + 1) start
                         in if hd start = quote \<and> hd end = quote \<and> strchr start (CHR '' '') = None
                            then butlast (tl start) else start))
                 in if has_prog_suffix name then Some name else None))
      else None)"

text \<open>The calls of \<^verbatim>\<open>fgets\<close> with a buffer of 2048 bytes.\<close>

function fgets_all :: "string \<Rightarrow> string list" where
  "fgets_all s = (if s = [] then [] else fst (fgets 2048 s) # fgets_all (snd (fgets 2048 s)))"
  by auto
termination by (relation "measure length") (auto simp: fgets_def Let_def min_def)

declare fgets_all.simps [simp del]

definition qsort_strings :: "string list \<Rightarrow> string list" where
  "qsort_strings xs = sort_key (map (of_char :: char \<Rightarrow> nat)) xs"

text \<open>The loop that prints the list without repetitions.\<close>

fun print_deps :: "string \<Rightarrow> string list \<Rightarrow> string" where
  "print_deps prev [] = []"
| "print_deps prev (x # xs) =
     (if strcmp prev x \<noteq> 0 then '' '' @ [backslash, newline] @ '' '' @ x @ print_deps x xs else print_deps prev xs)"

datatype outcome = Finished | Exit_2 | Abort

type_synonym popen = "string \<Rightarrow> (string \<times> bool \<times> int) option"

text \<open>What is written to \<^verbatim>\<open>ofp\<close>, and whether the program goes on.\<close>

definition process_file :: "popen \<Rightarrow> string \<Rightarrow> string \<Rightarrow> string \<times> outcome" where
  "process_file popen cmd_prefix file =
     (let cmdlen = length cmd_prefix + length file + 10;
          basename = pos_suffix_not_containing file [CHR ''/'', backslash];
          ext = pos_suffix_not_containing file ''.'';
          cmd = snprintf cmdlen (cmd_prefix @ '' '' @ file)
      in case popen cmd of
           None \<Rightarrow> ([], Exit_2)
         | Some (text, err, status) \<Rightarrow>
             (let list = List.map_filter line_name (fgets_all text)
              in if basename < ext
                 then (take (ext - basename) (drop basename file) @ ''o:'' @ print_deps [] (qsort_strings list) @ [newline],
                       if err \<or> status \<noteq> 0 then Exit_2 else Finished)
                 else ([], Abort)))"

section \<open>The program\<close>

text \<open>Appending to a buffer of 2048 bytes that holds \<open>buf\<close>.\<close>

definition append_arg :: "string \<Rightarrow> string \<Rightarrow> string" where
  "append_arg buf arg = buf @ snprintf (2048 - length buf) (arg @ '' '')"

fun build_commands :: "string list \<Rightarrow> string \<Rightarrow> string \<Rightarrow> string \<times> string" where
  "build_commands [] cmd cpp = (cmd, cpp)"
| "build_commands (arg # args) cmd cpp =
     (if \<not> has_prog_suffix arg
      then (if has_prefix arg [''-c++='']
            then build_commands args cmd (append_arg cpp (drop 5 arg))
            else build_commands args (append_arg cmd arg) (append_arg cpp arg))
      else build_commands args cmd cpp)"

fun process_files :: "popen \<Rightarrow> string \<Rightarrow> string \<Rightarrow> string list \<Rightarrow> string \<times> outcome" where
  "process_files popen cmd cpp [] = ([], Finished)"
| "process_files popen cmd cpp (arg # args) =
     (if has_prog_suffix arg
      then (case process_file popen (if has_suffix arg [''.cc'', ''.CC''] then cpp else cmd) arg of
              (text, Finished) \<Rightarrow> (case process_files popen cmd cpp args of (rest, r) \<Rightarrow> (text @ rest, r))
            | (text, r) \<Rightarrow> (text, r))
      else process_files popen cmd cpp args)"

text \<open>The arguments after the program's name.\<close>

definition mkdep_main :: "popen \<Rightarrow> string list \<Rightarrow> string \<times> outcome" where
  "mkdep_main popen args =
     (case build_commands args [] [] of
        (cmd, cpp) \<Rightarrow>
          if length cmd \<ge> 2048 - 1 then ([], Exit_2)
          else if length cpp \<ge> 2048 - 1 then ([], Exit_2)
          else process_files popen cmd cpp args)"

section \<open>Strings: what the functions compute\<close>

lemma strcmp_0 [simp]: "strcmp s t = 0 \<longleftrightarrow> s = t"
proof (induction s t rule: strcmp.induct)
  case (4 c cs d ds)
  then show ?case by (auto simp: of_char_eq_iff)
qed auto

abbreviation key :: "string \<Rightarrow> nat list" where
  "key \<equiv> map of_char"

lemma strcmp_less: "strcmp s t < 0 \<longleftrightarrow> key s < key t"
proof (induction s t rule: strcmp.induct)
  case (4 c cs d ds)
  have e: "(of_char x :: int) = int (of_char x)" for x :: char by (rule of_nat_of_char [symmetric])
  have "(of_char c :: int) - of_char d < 0 \<longleftrightarrow> (of_char c :: nat) < of_char d"
    by (simp only: e diff_less_0_iff_less of_nat_less_iff)
  then show ?case using 4 by simp
qed auto

lemma key_inj [simp]: "key s = key t \<longleftrightarrow> s = t"
  by (auto simp: inj_map_eq_map [OF inj_of_char])

lemma has_prefix_iff: "has_prefix s prefs \<longleftrightarrow> (\<exists>p\<in>set prefs. \<exists>u. s = p @ u)"
proof -
  have "take (length p) s = p \<longleftrightarrow> (\<exists>u. s = p @ u)" for p :: string by (metis append_eq_conv_conj append_take_drop_id)
  then show ?thesis by (induction prefs) (auto simp: strncmp_def)
qed

lemma has_suffix_iff: "has_suffix s sufs \<longleftrightarrow> (\<exists>p\<in>set sufs. \<exists>u. s = u @ p)"
proof -
  have "\<not> (length s < length p \<or> drop (length s - length p) s \<noteq> p) \<longleftrightarrow> (\<exists>u. s = u @ p)" for p :: string
    by (metis append_take_drop_id append_eq_conv_conj diff_add_inverse2 length_append not_add_less2)
  then show ?thesis by (induction sufs) auto
qed

lemma strchr_None [simp]: "strchr s c = None \<longleftrightarrow> c \<notin> set s"
  by (auto simp: strchr_def Let_def)

lemma strchr_append: "c \<notin> set u \<Longrightarrow> strchr (u @ c # v) c = Some (c # v)"
  by (auto simp: strchr_def dropWhile_append3)

lemma pos_from_spec:
  assumes "n \<le> length s" "p = pos_from s sep n"
  shows "p \<le> n \<and> (\<forall>i. p \<le> i \<longrightarrow> i < n \<longrightarrow> s ! i \<notin> set sep) \<and> (0 < p \<longrightarrow> s ! (p - 1) \<in> set sep)"
  using assms
proof (induction n)
  case (Suc n)
  then show ?case by (cases "s ! n \<in> set sep") (auto simp: less_Suc_eq split: if_splits)
qed simp

lemma pos_suffix_spec:
  assumes "p = pos_suffix_not_containing s sep"
  shows "p \<le> length s" "\<And>i. p \<le> i \<Longrightarrow> i < length s \<Longrightarrow> s ! i \<notin> set sep" "0 < p \<Longrightarrow> s ! (p - 1) \<in> set sep"
  using pos_from_spec [OF order_refl, of p s sep] assms by (auto simp: pos_suffix_not_containing_def)

text \<open>
  A name with the suffix of a source file has a dot, and no separator after it: the call of
  \<^verbatim>\<open>abort\<close> in \<^verbatim>\<open>process_file\<close> is never reached.
\<close>

lemma prog_suffix_dot:
  assumes "has_prog_suffix file"
  shows "pos_suffix_not_containing file [CHR ''/'', backslash] < pos_suffix_not_containing file ''.''"
proof -
  obtain u suf where f: "file = u @ suf" "suf \<in> set prog_suffixes"
    using assms by (auto simp: has_prog_suffix_def has_suffix_iff)
  define b where "b = pos_suffix_not_containing file [CHR ''/'', backslash]"
  define e where "e = pos_suffix_not_containing file ''.''"
  note B = pos_suffix_spec [OF b_def] and E = pos_suffix_spec [OF e_def]
  have suf: "suf ! 0 = CHR ''.''" "suf \<noteq> []" "set suf \<inter> {CHR ''/'', backslash} = {}" using f(2) by (auto simp: prog_suffixes_def)
  have d: "file ! length u = CHR ''.''" "length u < length file" using f(1) suf(1,2) by (simp_all add: nth_append)
  have "length u < e" using E(2) [of "length u"] d by (cases "e \<le> length u") auto
  moreover have "b \<le> length u"
  proof (rule ccontr)
    assume "\<not> b \<le> length u"
    then have i: "length u \<le> b - 1" "b - 1 < length file" "0 < b" using B(1) by auto
    then have "file ! (b - 1) \<in> set suf" unfolding f(1) by (simp add: nth_append)
    then show False using B(3) i(3) suf(3) by auto
  qed
  ultimately show ?thesis unfolding b_def e_def by simp
qed

section \<open>The list of names\<close>

definition dep_text :: "string \<Rightarrow> string" where
  "dep_text x = '' '' @ [backslash, newline] @ '' '' @ x"

lemma print_deps_eq: "print_deps prev xs = concat (map dep_text (tl (remdups_adj (prev # xs))))"
  by (induction xs arbitrary: prev) (auto simp: dep_text_def remdups_adj_Cons' split: list.splits)

lemma strict_remdups_adj:
  "sorted (map key xs) \<Longrightarrow> sorted_wrt (\<lambda>a b. key a < key b) (remdups_adj xs)"
proof (induction xs rule: remdups_adj.induct)
  case (3 x y xs)
  then show ?case by (auto simp: order.strict_iff_order)
qed auto

lemma print_sorted:
  assumes "[] \<notin> set xs"
  shows "\<exists>ds. print_deps [] (qsort_strings xs) = concat (map dep_text ds) \<and> sorted_wrt (\<lambda>a b. strcmp a b < 0) ds \<and> set ds = set xs"
proof -
  let ?ys = "qsort_strings xs"
  have ys: "set ?ys = set xs" "sorted (map key ?ys)" by (simp_all add: qsort_strings_def)
  have "tl (remdups_adj ([] # ?ys)) = remdups_adj ?ys" using assms ys(1) by (cases ?ys) auto
  then have "print_deps [] ?ys = concat (map dep_text (remdups_adj ?ys))" using print_deps_eq [of "[]"] by simp
  moreover have "sorted_wrt (\<lambda>a b. strcmp a b < 0) (remdups_adj ?ys)" using strict_remdups_adj [OF ys(2)] by (simp add: strcmp_less)
  ultimately show ?thesis using ys(1) by (intro exI [of _ "remdups_adj ?ys"]) simp
qed

lemma line_name_suffix: "line_name line = Some name \<Longrightarrow> has_prog_suffix name"
  by (auto simp: line_name_def Let_def split: if_splits option.splits)

lemma prog_suffix_Nil [simp]: "\<not> has_prog_suffix []"
  by (simp add: has_prog_suffix_def has_suffix_iff prog_suffixes_def)

text \<open>The name in the first line marker of a file; a name with a space keeps its quotes, and so has no suffix.\<close>

lemma line_name_marker:
  assumes "quote \<notin> set name"
  shows "line_name (''# 1 '' @ quote # name @ quote # rest) =
    (if CHR '' '' \<notin> set name \<and> has_prog_suffix name then Some name else None)"
proof -
  have q: "strchr (''# 1 '' @ quote # name @ quote # rest) quote = Some (quote # name @ quote # rest)"
    by (rule strchr_append) simp
  have e: "strchr (name @ quote # rest) quote = Some (quote # rest)" by (rule strchr_append [OF assms])
  have p: "has_prefix (''# 1 '' @ quote # name @ quote # rest) [''#line 1 '' @ [quote], ''# 1 '' @ [quote]]"
    by (simp add: has_prefix_iff)
  have s: "\<not> has_prog_suffix (quote # name @ [quote])"
    by (auto simp: has_prog_suffix_def has_suffix_iff prog_suffixes_def append_eq_Cons_conv append_eq_append_conv2
        dest!: arg_cong [of _ _ last])
  show ?thesis unfolding line_name_def using q e p s by (simp add: Let_def del: has_prefix.simps)
qed

section \<open>The command lines\<close>

definition plain_arg :: "string \<Rightarrow> bool" where
  "plain_arg a \<longleftrightarrow> \<not> has_prog_suffix a \<and> \<not> has_prefix a [''-c++='']"

text \<open>The arguments for C, and for C++, without a limit on their length.\<close>

definition c_command :: "string list \<Rightarrow> string" where
  "c_command args = concat (map (\<lambda>a. a @ '' '') (filter plain_arg args))"

definition cpp_command :: "string list \<Rightarrow> string" where
  "cpp_command args =
     concat (map (\<lambda>a. (if has_prefix a [''-c++=''] then drop 5 a else a) @ '' '') (filter (\<lambda>a. \<not> has_prog_suffix a) args))"

lemma append_arg_take: "append_arg (take 2047 x) a = take 2047 (x @ a @ '' '')"
  by (simp add: append_arg_def snprintf_def min_def)

lemma build_commands_take:
  "build_commands args (take 2047 x) (take 2047 y) = (take 2047 (x @ c_command args), take 2047 (y @ cpp_command args))"
proof (induction args arbitrary: x y)
  case (Cons a args)
  show ?case
    using Cons [of x "y @ drop 5 a @ '' ''"] Cons [of "x @ a @ '' ''" "y @ a @ '' ''"] Cons [of x y]
    by (auto simp: append_arg_take c_command_def cpp_command_def plain_arg_def simp del: has_prefix.simps take_append)
qed (simp add: c_command_def cpp_command_def)

lemma build_commands_eq: "build_commands args [] [] = (take 2047 (c_command args), take 2047 (cpp_command args))"
  using build_commands_take [of args "[]" "[]"] by simp

lemma process_files_no_abort:
  "snd (process_file popen cmd file) = Abort \<Longrightarrow> \<not> has_prog_suffix file"
  using prog_suffix_dot [of "file"] by (auto simp: process_file_def Let_def split: option.splits if_splits)

section \<open>Properties\<close>

text \<open>\<^verbatim>\<open>process_file\<close> of \<^verbatim>\<open>tools/mkdep.c\<close>, for a file with the suffix of a source file whose
  preprocessor command can be started: the call of \<^verbatim>\<open>abort\<close> is not reached, and what is written
  is the object file's name, made of the part of the file's name after the last separator and up to
  the last dot, and then each name of a source file in the line markers of the preprocessor's
  output, exactly once and in the order of \<^verbatim>\<open>strcmp\<close>.\<close>

theorem mkdep_dependencies:
  assumes "has_prog_suffix file" "popen (cmd @ '' '' @ file) = Some (out, err, status)"
  shows "\<exists>dir stem sfx ds. file = dir @ stem @ sfx \<and> set sfx \<inter> {CHR ''.''} = {} \<and>
    set (stem @ sfx) \<inter> {CHR ''/'', backslash} = {} \<and> stem = butlast stem @ ''.'' \<and>
    process_file popen cmd file =
      (stem @ ''o:'' @ concat (map dep_text ds) @ [newline], if err \<or> status \<noteq> 0 then Exit_2 else Finished) \<and>
    sorted_wrt (\<lambda>a b. strcmp a b < 0) ds \<and>
    set ds = {name. \<exists>line\<in>set (fgets_all out). line_name line = Some name}"
proof -
  define b where "b = pos_suffix_not_containing file [CHR ''/'', backslash]"
  define e where "e = pos_suffix_not_containing file ''.''"
  note B = pos_suffix_spec [OF b_def] and E = pos_suffix_spec [OF e_def]
  have be: "b < e" using prog_suffix_dot [OF assms(1)] by (simp add: b_def e_def)
  let ?names = "List.map_filter line_name (fgets_all out)"
  have names: "set ?names = {name. \<exists>line\<in>set (fgets_all out). line_name line = Some name}"
    by (auto simp: List.map_filter_def image_iff split: option.splits) force
  have "[] \<notin> set ?names" unfolding names using line_name_suffix by fastforce
  then obtain ds where ds: "print_deps [] (qsort_strings ?names) = concat (map dep_text ds)"
    "sorted_wrt (\<lambda>a b. strcmp a b < 0) ds" "set ds = set ?names" using print_sorted by blast
  define stem where "stem = take (e - b) (drop b file)"
  have p: "process_file popen cmd file =
      (stem @ ''o:'' @ concat (map dep_text ds) @ [newline], if err \<or> status \<noteq> 0 then Exit_2 else Finished)"
    using assms(2) be ds(1) by (simp add: process_file_def Let_def snprintf_def b_def e_def stem_def)
  have ss: "stem @ drop e file = drop b file" unfolding stem_def using be
    by (metis append_take_drop_id drop_drop le_add_diff_inverse2 less_imp_le_nat)
  then have f: "file = take b file @ stem @ drop e file" by simp
  have sfx: "set (drop e file) \<inter> {CHR ''.''} = {}"
    using E(2) by (auto simp: in_set_conv_nth)
  have sep: "set (stem @ drop e file) \<inter> {CHR ''/'', backslash} = {}"
    unfolding ss using B(2) by (auto simp: in_set_conv_nth)
  have "stem \<noteq> []" "last stem = CHR ''.''" using be E(1,3) by (auto simp: stem_def last_conv_nth)
  then have "stem = butlast stem @ ''.''" using append_butlast_last_id by metis
  then show ?thesis
    by (intro exI conjI) (rule f sfx sep p ds(2) ds(3) [unfolded names] | assumption)+
qed

theorem mkdep_dependencies_witness:
  "\<exists>ds. set ds = {name. \<exists>line\<in>set (fgets_all (''# 1 '' @ quote # ''x.h'' @ [quote, newline])). line_name line = Some name} \<and>
     sorted_wrt (\<lambda>a b. strcmp a b < 0) ds"
  using mkdep_dependencies [of "''d/a.c''" "\<lambda>_. Some (''# 1 '' @ quote # ''x.h'' @ [quote, newline], False, 0)" "''cc -E''" "''# 1 '' @ quote # ''x.h'' @ [quote, newline]" False 0]
  by (auto simp: has_prog_suffix_def has_suffix_iff prog_suffixes_def)

text \<open>The command line of \<^verbatim>\<open>tools/mkdep.c\<close>: the program fails just when the arguments for the C
  or the C++ compiler are 2047 bytes or longer; otherwise both command prefixes hold all of their
  arguments, nothing is cut off at the end of the buffers, and the files are processed with them.\<close>

theorem mkdep_command_line:
  "mkdep_main popen args =
     (if 2047 \<le> length (c_command args) \<or> 2047 \<le> length (cpp_command args) then ([], Exit_2)
      else process_files popen (c_command args) (cpp_command args) args)"
  by (auto simp: mkdep_main_def build_commands_eq min_def)

text \<open>
  The name of a file is taken from its first line marker, unless it contains a space: such a file
  is missing among the dependencies, although the code means to write it in quotes.
\<close>

lemma mkdep_names_with_spaces:
  "quote \<notin> set name \<Longrightarrow> CHR '' '' \<in> set name \<Longrightarrow> line_name (''# 1 '' @ quote # name @ quote # rest) = None"
  using line_name_marker [of name rest] by simp

end
