(* ===== verification/Monitor.thy ===== *)
theory Monitor
  imports Prelude
begin

text \<open>
  Threads that share a mutex.  Each thread has a place in the code; \<open>inside\<close> says at which
  places the mutex is held.  \<open>owns_ok\<close>: the owner recorded in the mutex is the one thread that
  is inside.  The lemmas say how locking, unlocking and moving on keep that; the systems of
  threads over \<^verbatim>\<open>std::mutex\<close> use them.
\<close>

definition owns_ok :: "nat \<Rightarrow> ('pc \<Rightarrow> bool) \<Rightarrow> (tid \<Rightarrow> 'pc) \<Rightarrow> tid option \<Rightarrow> bool" where
  "owns_ok N inside pcs m \<longleftrightarrow> (\<forall>t. m = Some t \<longleftrightarrow> t < N \<and> inside (pcs t))"

lemma owns_okD: "owns_ok N inside pcs m \<Longrightarrow> t < N \<Longrightarrow> inside (pcs t) \<Longrightarrow> m = Some t"
  by (simp add: owns_ok_def)

lemma owns_one: "owns_ok N inside pcs m \<Longrightarrow> t < N \<Longrightarrow> u < N \<Longrightarrow> inside (pcs t) \<Longrightarrow> inside (pcs u) \<Longrightarrow> u = t"
  by (metis option.inject owns_okD)

lemma owns_free: "owns_ok N inside pcs None \<Longrightarrow> t < N \<Longrightarrow> \<not> inside (pcs t)"
  by (auto simp: owns_ok_def)

lemma owns_keep:
  assumes "owns_ok N inside pcs m" "inside q = inside (pcs t)"
  shows "owns_ok N inside (pcs(t := q)) m"
  using assms by (simp add: owns_ok_def)

lemma owns_lock:
  assumes "owns_ok N inside pcs None" "t < N" "inside q"
  shows "owns_ok N inside (pcs(t := q)) (Some t)"
  using assms by (auto simp: owns_ok_def)

lemma owns_unlock:
  assumes "owns_ok N inside pcs m" "t < N" "inside (pcs t)" "\<not> inside q"
  shows "owns_ok N inside (pcs(t := q)) None"
  using owns_one [OF assms(1,2) _ assms(3)] assms(4) by (auto simp: owns_ok_def)

text \<open>Waking sleepers moves threads that are outside to other places outside.\<close>

lemma owns_map: "(\<And>q. inside (f q) = inside q) \<Longrightarrow> owns_ok N inside (\<lambda>u. f (pcs u)) m = owns_ok N inside pcs m"
  by (simp add: owns_ok_def)

lemmas owns_intros = owns_keep owns_lock owns_unlock

end
