(* ===== verification/Rwlock.thy ===== *)
theory Rwlock
  imports Rw_Spec Monitor
begin

text \<open>
  \<^verbatim>\<open>nsync_pthread_rwlock_\<close> of \<^verbatim>\<open>platform/c++11/platform.h\<close>: a reader-writer lock made of a
  \<^verbatim>\<open>std::mutex\<close>, a \<^verbatim>\<open>std::condition_variable\<close> and an integer, as a system of threads.  A step
  is a statement of the source.  \<^verbatim>\<open>cv.wait\<close> gives the mutex up and sleeps in one step; a sleeper
  goes back to the mutex when \<^verbatim>\<open>notify_all\<close> is called, or at any other time, as C++ allows.
\<close>

section \<open>The program\<close>

datatype lock_at = At_lock | At_test | At_wait | At_unlock

datatype unlock_at = Un_lock | Un_body | Un_notify | Un_unlock

text \<open>The mode in \<open>Rw_unlock\<close> is what the client had locked; the code does not look at it.\<close>

datatype rwl_pc = Rw_idle | Rw_wrlock lock_at | Rw_rdlock lock_at | Rw_held lmode | Rw_unlock lmode unlock_at

record rwlock_sys =
  rwl_lock :: int
  rwl_mu :: "tid option"
  rwl_pcs :: "tid \<Rightarrow> rwl_pc"

definition rwlock_init :: rwlock_sys where
  "rwlock_init = \<lparr>rwl_lock = 0, rwl_mu = None, rwl_pcs = \<lambda>_. Rw_idle\<rparr>"

definition rgoto :: "tid \<Rightarrow> rwl_pc \<Rightarrow> rwlock_sys \<Rightarrow> rwlock_sys" where
  "rgoto t q s = s\<lparr>rwl_pcs := (rwl_pcs s)(t := q)\<rparr>"

definition rwl_enter :: "tid \<Rightarrow> rwl_pc \<Rightarrow> rwlock_sys \<Rightarrow> rwlock_sys" where
  "rwl_enter t q s = (if rwl_mu s = None then rgoto t q (s\<lparr>rwl_mu := Some t\<rparr>) else s)"

definition rwl_leave :: "tid \<Rightarrow> rwl_pc \<Rightarrow> rwlock_sys \<Rightarrow> rwlock_sys" where
  "rwl_leave t q s = rgoto t q (s\<lparr>rwl_mu := None\<rparr>)"

fun woken :: "rwl_pc \<Rightarrow> rwl_pc" where
  "woken (Rw_wrlock At_wait) = Rw_wrlock At_lock"
| "woken (Rw_rdlock At_wait) = Rw_rdlock At_lock"
| "woken q = q"

definition rwl_notify_all :: "rwlock_sys \<Rightarrow> rwlock_sys" where
  "rwl_notify_all s = s\<lparr>rwl_pcs := (\<lambda>u. woken (rwl_pcs s u))\<rparr>"

fun nsync_pthread_rwlock_wrlock :: "tid \<Rightarrow> lock_at \<Rightarrow> rwlock_sys \<Rightarrow> rwlock_sys" where
  "nsync_pthread_rwlock_wrlock t At_lock s = rwl_enter t (Rw_wrlock At_test) s"
| "nsync_pthread_rwlock_wrlock t At_test s =
     (if rwl_lock s \<noteq> 0 then rwl_leave t (Rw_wrlock At_wait) s
      else rgoto t (Rw_wrlock At_unlock) (s\<lparr>rwl_lock := -1\<rparr>))"
| "nsync_pthread_rwlock_wrlock t At_wait s = rgoto t (Rw_wrlock At_lock) s"
| "nsync_pthread_rwlock_wrlock t At_unlock s = rwl_leave t (Rw_held nsync_writer_type) s"

fun nsync_pthread_rwlock_rdlock :: "tid \<Rightarrow> lock_at \<Rightarrow> rwlock_sys \<Rightarrow> rwlock_sys" where
  "nsync_pthread_rwlock_rdlock t At_lock s = rwl_enter t (Rw_rdlock At_test) s"
| "nsync_pthread_rwlock_rdlock t At_test s =
     (if rwl_lock s = -1 then rwl_leave t (Rw_rdlock At_wait) s
      else rgoto t (Rw_rdlock At_unlock) (s\<lparr>rwl_lock := rwl_lock s + 1\<rparr>))"
| "nsync_pthread_rwlock_rdlock t At_wait s = rgoto t (Rw_rdlock At_lock) s"
| "nsync_pthread_rwlock_rdlock t At_unlock s = rwl_leave t (Rw_held nsync_reader_type) s"

definition unlocked :: "int \<Rightarrow> int" where
  "unlocked l = (if l = -1 then 0 else if l > 0 then l - 1 else l)"

fun nsync_pthread_rwlock_unlock :: "tid \<Rightarrow> lmode \<Rightarrow> unlock_at \<Rightarrow> rwlock_sys \<Rightarrow> rwlock_sys" where
  "nsync_pthread_rwlock_unlock t m Un_lock s = rwl_enter t (Rw_unlock m Un_body) s"
| "nsync_pthread_rwlock_unlock t m Un_body s =
     rgoto t (Rw_unlock m Un_notify) (s\<lparr>rwl_lock := unlocked (rwl_lock s)\<rparr>)"
| "nsync_pthread_rwlock_unlock t m Un_notify s =
     rgoto t (Rw_unlock m Un_unlock) (if rwl_lock s = 0 then rwl_notify_all s else s)"
| "nsync_pthread_rwlock_unlock t m Un_unlock s = rwl_leave t Rw_idle s"

fun rwl_at :: "tid \<Rightarrow> rwl_pc \<Rightarrow> rwlock_sys \<Rightarrow> rwlock_sys" where
  "rwl_at t (Rw_wrlock p) s = nsync_pthread_rwlock_wrlock t p s"
| "rwl_at t (Rw_rdlock p) s = nsync_pthread_rwlock_rdlock t p s"
| "rwl_at t (Rw_unlock m p) s = nsync_pthread_rwlock_unlock t m p s"
| "rwl_at t _ s = s"

definition rwl_run :: "tid \<Rightarrow> rwlock_sys \<Rightarrow> rwlock_sys" where
  "rwl_run t s = rwl_at t (rwl_pcs s t) s"

text \<open>The clients: a thread locks when it does not hold the lock, and unlocks what it holds.\<close>

inductive rwl_step :: "nat \<Rightarrow> rwlock_sys \<Rightarrow> rwlock_sys \<Rightarrow> bool" for N where
  run: "t < N \<Longrightarrow> rwl_step N s (rwl_run t s)"
| wrlock: "t < N \<Longrightarrow> rwl_pcs s t = Rw_idle \<Longrightarrow> rwl_step N s (rgoto t (Rw_wrlock At_lock) s)"
| rdlock: "t < N \<Longrightarrow> rwl_pcs s t = Rw_idle \<Longrightarrow> rwl_step N s (rgoto t (Rw_rdlock At_lock) s)"
| unlock: "t < N \<Longrightarrow> rwl_pcs s t = Rw_held m \<Longrightarrow> rwl_step N s (rgoto t (Rw_unlock m Un_lock) s)"

section \<open>The integer and the holders\<close>

text \<open>Who holds the lock: from the assignment to \<^verbatim>\<open>lock\<close> to the one in the unlock.\<close>

fun rwl_mode :: "rwl_pc \<Rightarrow> lmode option" where
  "rwl_mode (Rw_wrlock At_unlock) = Some nsync_writer_type"
| "rwl_mode (Rw_rdlock At_unlock) = Some nsync_reader_type"
| "rwl_mode (Rw_held m) = Some m"
| "rwl_mode (Rw_unlock m Un_lock) = Some m"
| "rwl_mode (Rw_unlock m Un_body) = Some m"
| "rwl_mode _ = None"

definition rwl_abs :: "rwlock_sys \<Rightarrow> rw" where
  "rwl_abs s t = rwl_mode (rwl_pcs s t)"

definition readers :: "rw \<Rightarrow> tid set" where
  "readers h = {t. h t = Some nsync_reader_type}"

definition lock_ok :: "nat \<Rightarrow> rw \<Rightarrow> int \<Rightarrow> bool" where
  "lock_ok N h l \<longleftrightarrow> (\<forall>t. h t \<noteq> None \<longrightarrow> t < N) \<and>
     (if l = -1 then \<exists>t. h t = Some nsync_writer_type \<and> (\<forall>u. u \<noteq> t \<longrightarrow> h u = None)
      else (\<forall>t. h t \<noteq> Some nsync_writer_type) \<and> l = int (card (readers h)))"

lemma lock_ok_finite: "lock_ok N h l \<Longrightarrow> finite (readers h)"
  by (rule finite_subset [of _ "{..<N}"]) (auto simp: lock_ok_def readers_def)

lemma mode_cases: "h t = None \<or> h t = Some nsync_writer_type \<or> h t = Some nsync_reader_type" for h :: rw
  by (cases "h t") (metis lmode.exhaust)+

lemma lock_ok_free:
  assumes "lock_ok N h 0"
  shows "h u = None"
proof -
  have "readers h = {}" using assms lock_ok_finite [OF assms] by (simp add: lock_ok_def)
  then show ?thesis using assms mode_cases [of h u] by (auto simp: lock_ok_def readers_def)
qed

lemma lock_ok_write:
  assumes "lock_ok N h 0" "t < N"
  shows "lock_ok N (h(t := Some nsync_writer_type)) (-1)" "rw_step h (h(t := Some nsync_writer_type))"
  using lock_ok_free [OF assms(1)] assms by (auto simp: lock_ok_def intro: acquire_write)

lemma lock_ok_read:
  assumes "lock_ok N h l" "l \<noteq> -1" "t < N" "h t = None"
  shows "lock_ok N (h(t := Some nsync_reader_type)) (l + 1)" "rw_step h (h(t := Some nsync_reader_type))"
proof -
  have r: "readers (h(t := Some nsync_reader_type)) = insert t (readers h)" "t \<notin> readers h"
    using assms(4) by (auto simp: readers_def)
  show "lock_ok N (h(t := Some nsync_reader_type)) (l + 1)"
    using assms lock_ok_finite [OF assms(1)] by (auto simp: lock_ok_def r)
  show "rw_step h (h(t := Some nsync_reader_type))" using assms by (auto simp: lock_ok_def intro: acquire_read)
qed

lemma lock_ok_release:
  assumes "lock_ok N h l" "h t \<noteq> None"
  shows "lock_ok N (h(t := None)) (unlocked l)"
proof (cases "l = -1")
  case True
  then obtain w where w: "\<forall>u. u \<noteq> w \<longrightarrow> h u = None" using assms(1) by (auto simp: lock_ok_def)
  then have "w = t" using assms(2) by metis
  then have "(h(t := None)) u = None" for u using w by simp
  then show ?thesis using True by (auto simp: lock_ok_def readers_def unlocked_def)
next
  case False
  then have "h t = Some nsync_reader_type" using assms mode_cases [of h t] by (auto simp: lock_ok_def)
  then have r: "readers (h(t := None)) = readers h - {t}" "t \<in> readers h" by (auto simp: readers_def)
  then have "0 < card (readers h)" using lock_ok_finite [OF assms(1)] card_gt_0_iff by blast
  then show ?thesis using assms(1) False r lock_ok_finite [OF assms(1)] by (auto simp: lock_ok_def unlocked_def)
qed

lemma lock_ok_range: "lock_ok N h l \<Longrightarrow> -1 \<le> l \<and> l \<le> int N"
  using card_mono [of "{..<N}" "readers h"] by (auto simp: lock_ok_def readers_def subset_iff split: if_splits)

section \<open>The invariant\<close>

fun rwl_inside :: "rwl_pc \<Rightarrow> bool" where
  "rwl_inside (Rw_wrlock p) = (p = At_test \<or> p = At_unlock)"
| "rwl_inside (Rw_rdlock p) = (p = At_test \<or> p = At_unlock)"
| "rwl_inside (Rw_unlock m p) = (p \<noteq> Un_lock)"
| "rwl_inside _ = False"

text \<open>Somebody has set \<^verbatim>\<open>lock\<close> to 0 and is about to notify.\<close>

definition notifying :: "rwlock_sys \<Rightarrow> bool" where
  "notifying s \<longleftrightarrow> rwl_lock s = 0 \<and> (\<exists>u m. rwl_pcs s u = Rw_unlock m Un_notify)"

text \<open>A sleeper may sleep: what it waits for does not hold, or it is about to be notified.\<close>

definition sleep_ok :: "rwlock_sys \<Rightarrow> rwl_pc \<Rightarrow> bool" where
  "sleep_ok s q \<longleftrightarrow>
     (q = Rw_wrlock At_wait \<longrightarrow> rwl_lock s \<noteq> 0 \<or> notifying s) \<and>
     (q = Rw_rdlock At_wait \<longrightarrow> rwl_lock s = -1 \<or> notifying s)"

definition rwl_inv :: "nat \<Rightarrow> rwlock_sys \<Rightarrow> bool" where
  "rwl_inv N s \<longleftrightarrow> lock_ok N (rwl_abs s) (rwl_lock s) \<and> owns_ok N rwl_inside (rwl_pcs s) (rwl_mu s) \<and>
     (\<forall>t. sleep_ok s (rwl_pcs s t)) \<and> (\<forall>t. N \<le> t \<longrightarrow> rwl_pcs s t = Rw_idle)"

lemma rwl_invD:
  assumes "rwl_inv N s"
  shows "lock_ok N (rwl_abs s) (rwl_lock s)" "owns_ok N rwl_inside (rwl_pcs s) (rwl_mu s)"
    "sleep_ok s (rwl_pcs s t)" "N \<le> t \<Longrightarrow> rwl_pcs s t = Rw_idle"
  using assms by (auto simp: rwl_inv_def)

lemma rgoto_fields [simp]:
  "rwl_lock (rgoto t q s) = rwl_lock s" "rwl_mu (rgoto t q s) = rwl_mu s" "rwl_pcs (rgoto t q s) = (rwl_pcs s)(t := q)"
  by (simp_all add: rgoto_def)

lemma rwl_abs_pcs: "rwl_pcs s' = (rwl_pcs s)(t := q) \<Longrightarrow> rwl_abs s' = (rwl_abs s)(t := rwl_mode q)"
  by (auto simp: rwl_abs_def)

text \<open>
  A step that moves one thread.  What is left to show: the new value of \<^verbatim>\<open>lock\<close> fits the new
  holders, the mutex fits, and the sleepers may still sleep.
\<close>

lemma rwl_inv_goto:
  assumes inv: "rwl_inv N s" and t: "t < N" and p: "rwl_pcs s' = (rwl_pcs s)(t := q)"
    and l: "lock_ok N ((rwl_abs s)(t := rwl_mode q)) (rwl_lock s')"
    and m: "owns_ok N rwl_inside ((rwl_pcs s)(t := q)) (rwl_mu s')"
    and sl: "sleep_ok s' q" "\<And>u. u \<noteq> t \<Longrightarrow> sleep_ok s (rwl_pcs s u) \<Longrightarrow> sleep_ok s' (rwl_pcs s u)"
  shows "rwl_inv N s'"
  unfolding rwl_inv_def rwl_abs_pcs [OF p] using l m sl rwl_invD(3,4) [OF inv] t p by auto

lemma rwl_abs_same: "rwl_mode q = rwl_mode (rwl_pcs s t) \<Longrightarrow> (rwl_abs s)(t := rwl_mode q) = rwl_abs s"
  by (auto simp: rwl_abs_def)

text \<open>Moves that touch neither \<^verbatim>\<open>lock\<close> nor who holds it.\<close>

lemma rwl_inv_quiet:
  assumes inv: "rwl_inv N s" and t: "t < N" and p: "rwl_pcs s' = (rwl_pcs s)(t := q)"
    and l: "rwl_lock s' = rwl_lock s" "rwl_mode q = rwl_mode (rwl_pcs s t)"
    and m: "owns_ok N rwl_inside ((rwl_pcs s)(t := q)) (rwl_mu s')"
    and n: "\<And>m. rwl_pcs s t \<noteq> Rw_unlock m Un_notify" "sleep_ok s' q"
  shows "rwl_inv N s'"
proof (rule rwl_inv_goto [OF inv t p _ m n(2)])
  show "lock_ok N ((rwl_abs s)(t := rwl_mode q)) (rwl_lock s')" using rwl_invD(1) [OF inv] rwl_abs_same [OF l(2)] l(1) by simp
  have "notifying s \<Longrightarrow> notifying s'" using n(1) l(1) p by (fastforce simp: notifying_def)
  then show "sleep_ok s' (rwl_pcs s u)" if "u \<noteq> t" "sleep_ok s (rwl_pcs s u)" for u
    using that l(1) by (auto simp: sleep_ok_def)
qed

lemma not_notifying:
  assumes "rwl_inv N s" "t < N" "rwl_inside (rwl_pcs s t)" "\<And>m. rwl_pcs s t \<noteq> Rw_unlock m Un_notify"
  shows "\<not> notifying s"
proof
  assume "notifying s"
  then obtain u m where u: "rwl_pcs s u = Rw_unlock m Un_notify" by (auto simp: notifying_def)
  then have "u < N" using rwl_invD(4) [OF assms(1), of u] by (cases "u < N") auto
  then have "u = t" using owns_one [OF rwl_invD(2) [OF assms(1)] assms(2) _ assms(3)] u by simp
  then show False using u assms(4) by blast
qed

lemma wrlock_inv:
  assumes inv: "rwl_inv N s" and t: "t < N" and q: "rwl_pcs s t = Rw_wrlock p"
  shows "rwl_inv N (nsync_pthread_rwlock_wrlock t p s)"
proof (cases p)
  case At_test
  have nn: "\<not> notifying s" using not_notifying [OF inv t] q At_test by simp
  show ?thesis
  proof (cases "rwl_lock s = 0")
    case True
    then show ?thesis using q At_test t nn lock_ok_write(1) [OF rwl_invD(1) [OF inv, unfolded True] t]
      by (intro rwl_inv_goto [OF inv t, of _ "Rw_wrlock At_unlock"])
         (auto simp: sleep_ok_def intro!: owns_keep [OF rwl_invD(2) [OF inv]])
  next
    case False
    then show ?thesis using q At_test t
      by (intro rwl_inv_quiet [OF inv t, of _ "Rw_wrlock At_wait"])
         (auto simp: rwl_leave_def sleep_ok_def intro!: owns_unlock [OF rwl_invD(2) [OF inv]])
  qed
next
  case At_lock
  show ?thesis
  proof (cases "rwl_mu s")
    case None
    then show ?thesis using q At_lock t rwl_invD(2) [OF inv]
      by (intro rwl_inv_quiet [OF inv t, of _ "Rw_wrlock At_test"]) (auto simp: rwl_enter_def sleep_ok_def intro!: owns_lock)
  qed (use inv At_lock in \<open>simp add: rwl_enter_def\<close>)
next
  case At_wait
  then show ?thesis using q t
    by (intro rwl_inv_quiet [OF inv t, of _ "Rw_wrlock At_lock"]) (auto simp: sleep_ok_def intro!: owns_keep [OF rwl_invD(2) [OF inv]])
next
  case At_unlock
  then show ?thesis using q t
    by (intro rwl_inv_quiet [OF inv t, of _ "Rw_held nsync_writer_type"])
       (auto simp: rwl_leave_def sleep_ok_def intro!: owns_unlock [OF rwl_invD(2) [OF inv]])
qed

lemma rdlock_inv:
  assumes inv: "rwl_inv N s" and t: "t < N" and q: "rwl_pcs s t = Rw_rdlock p"
  shows "rwl_inv N (nsync_pthread_rwlock_rdlock t p s)"
proof (cases p)
  case At_test
  have nn: "\<not> notifying s" using not_notifying [OF inv t] q At_test by simp
  have none: "rwl_abs s t = None" using q At_test by (simp add: rwl_abs_def)
  show ?thesis
  proof (cases "rwl_lock s = -1")
    case True
    then show ?thesis using q At_test t
      by (intro rwl_inv_quiet [OF inv t, of _ "Rw_rdlock At_wait"])
         (auto simp: rwl_leave_def sleep_ok_def intro!: owns_unlock [OF rwl_invD(2) [OF inv]])
  next
    case False
    have "-1 \<le> rwl_lock s" using lock_ok_range [OF rwl_invD(1) [OF inv]] by simp
    then have "rwl_lock s + 1 \<noteq> 0" using False by simp
    then show ?thesis using q At_test t nn False lock_ok_read(1) [OF rwl_invD(1) [OF inv] False t none]
      by (intro rwl_inv_goto [OF inv t, of _ "Rw_rdlock At_unlock"])
         (auto simp: sleep_ok_def intro!: owns_keep [OF rwl_invD(2) [OF inv]])
  qed
next
  case At_lock
  show ?thesis
  proof (cases "rwl_mu s")
    case None
    then show ?thesis using q At_lock t rwl_invD(2) [OF inv]
      by (intro rwl_inv_quiet [OF inv t, of _ "Rw_rdlock At_test"]) (auto simp: rwl_enter_def sleep_ok_def intro!: owns_lock)
  qed (use inv At_lock in \<open>simp add: rwl_enter_def\<close>)
next
  case At_wait
  then show ?thesis using q t
    by (intro rwl_inv_quiet [OF inv t, of _ "Rw_rdlock At_lock"]) (auto simp: sleep_ok_def intro!: owns_keep [OF rwl_invD(2) [OF inv]])
next
  case At_unlock
  then show ?thesis using q t
    by (intro rwl_inv_quiet [OF inv t, of _ "Rw_held nsync_reader_type"])
       (auto simp: rwl_leave_def sleep_ok_def intro!: owns_unlock [OF rwl_invD(2) [OF inv]])
qed

text \<open>Notifying: nobody sleeps afterwards.\<close>

lemma woken_simps [simp]:
  "rwl_mode (woken q) = rwl_mode q" "rwl_inside (woken q) = rwl_inside q"
  "woken q \<noteq> Rw_wrlock At_wait" "woken q \<noteq> Rw_rdlock At_wait" "woken q = Rw_idle \<longleftrightarrow> q = Rw_idle"
  "woken q = Rw_unlock m p \<longleftrightarrow> q = Rw_unlock m p"
  by (cases q rule: woken.cases; simp)+

lemma notify_all_inv:
  assumes "rwl_inv N s"
  shows "rwl_inv N (rwl_notify_all s)"
proof -
  have "rwl_abs (rwl_notify_all s) = rwl_abs s" by (rule ext) (simp add: rwl_abs_def rwl_notify_all_def)
  moreover have "owns_ok N rwl_inside (rwl_pcs (rwl_notify_all s)) (rwl_mu (rwl_notify_all s))"
    using rwl_invD(2) [OF assms] by (simp add: rwl_notify_all_def owns_map)
  ultimately show ?thesis using assms by (simp add: rwl_inv_def rwl_notify_all_def sleep_ok_def)
qed

lemma after_notify_inv:
  assumes inv: "rwl_inv N s" and t: "t < N" and q: "rwl_pcs s t = Rw_unlock m Un_notify"
    and n: "rwl_lock s \<noteq> 0 \<or> (\<forall>u. rwl_pcs s u \<noteq> Rw_wrlock At_wait \<and> rwl_pcs s u \<noteq> Rw_rdlock At_wait)"
  shows "rwl_inv N (rgoto t (Rw_unlock m Un_unlock) s)"
proof (rule rwl_inv_goto [OF inv t, of _ "Rw_unlock m Un_unlock"])
  show "lock_ok N ((rwl_abs s)(t := rwl_mode (Rw_unlock m Un_unlock))) (rwl_lock (rgoto t (Rw_unlock m Un_unlock) s))"
    using rwl_invD(1) [OF inv] rwl_abs_same [of "Rw_unlock m Un_unlock" s t] q by simp
  show "owns_ok N rwl_inside ((rwl_pcs s)(t := Rw_unlock m Un_unlock)) (rwl_mu (rgoto t (Rw_unlock m Un_unlock) s))"
    using q by (auto intro!: owns_keep [OF rwl_invD(2) [OF inv]])
  show "sleep_ok (rgoto t (Rw_unlock m Un_unlock) s) (rwl_pcs s u)" if "sleep_ok s (rwl_pcs s u)" for u
    using that n by (auto simp: sleep_ok_def notifying_def)
qed (auto simp: sleep_ok_def)

lemma unlock_inv:
  assumes inv: "rwl_inv N s" and t: "t < N" and q: "rwl_pcs s t = Rw_unlock m p"
  shows "rwl_inv N (nsync_pthread_rwlock_unlock t m p s)"
proof (cases p)
  case Un_lock
  show ?thesis
  proof (cases "rwl_mu s")
    case None
    then show ?thesis using q Un_lock t rwl_invD(2) [OF inv]
      by (intro rwl_inv_quiet [OF inv t, of _ "Rw_unlock m Un_body"]) (auto simp: rwl_enter_def sleep_ok_def intro!: owns_lock)
  qed (use inv Un_lock in \<open>simp add: rwl_enter_def\<close>)
next
  case Un_body
  let ?s = "nsync_pthread_rwlock_unlock t m p s"
  have a: "rwl_abs s t \<noteq> None" using q Un_body by (simp add: rwl_abs_def)
  have nn: "\<not> notifying s" using not_notifying [OF inv t] q Un_body by simp
  have s: "rwl_pcs ?s = (rwl_pcs s)(t := Rw_unlock m Un_notify)" "rwl_lock ?s = unlocked (rwl_lock s)" "rwl_mu ?s = rwl_mu s"
    using Un_body by simp_all
  have "notifying ?s" if "unlocked (rwl_lock s) = 0" using that s by (auto simp: notifying_def)
  then have "sleep_ok s r \<Longrightarrow> sleep_ok ?s r" for r using nn s(2) by (auto simp: sleep_ok_def unlocked_def)
  then show ?thesis using q Un_body lock_ok_release [OF rwl_invD(1) [OF inv] a]
    by (intro rwl_inv_goto [OF inv t s(1)])
       (auto simp: s(2,3) sleep_ok_def [of _ "Rw_unlock m Un_notify"] intro!: owns_keep [OF rwl_invD(2) [OF inv]])
next
  case Un_notify
  show ?thesis
  proof (cases "rwl_lock s = 0")
    case True
    have "rwl_inv N (rgoto t (Rw_unlock m Un_unlock) (rwl_notify_all s))"
      by (rule after_notify_inv [OF notify_all_inv [OF inv] t]) (use q Un_notify in \<open>simp_all add: rwl_notify_all_def\<close>)
    then show ?thesis using True Un_notify by simp
  qed (use after_notify_inv [OF inv t] q Un_notify in simp)
next
  case Un_unlock
  then show ?thesis using q t
    by (intro rwl_inv_quiet [OF inv t, of _ Rw_idle])
       (auto simp: rwl_leave_def sleep_ok_def intro!: owns_unlock [OF rwl_invD(2) [OF inv]])
qed

lemma rwl_step_inv:
  assumes st: "rwl_step N s s'" and inv: "rwl_inv N s"
  shows "rwl_inv N s'"
  using st
proof cases
  case (run t)
  then show ?thesis using wrlock_inv [OF inv] rdlock_inv [OF inv] unlock_inv [OF inv] inv
    by (cases "rwl_pcs s t") (auto simp: rwl_run_def)
qed (auto intro!: rwl_inv_quiet [OF inv] owns_keep [OF rwl_invD(2) [OF inv]] simp: sleep_ok_def)

lemma rwl_reach_inv: "(rwl_step N)\<^sup>*\<^sup>* rwlock_init s \<Longrightarrow> rwl_inv N s"
proof (induction rule: rtranclp_induct)
  case base
  show ?case by (simp add: rwl_inv_def rwlock_init_def lock_ok_def rwl_abs_def readers_def owns_ok_def sleep_ok_def)
qed (rule rwl_step_inv)

section \<open>Refinement\<close>

lemma rwl_abs_notify [simp]: "rwl_abs (rwl_notify_all s) = rwl_abs s"
  by (rule ext) (simp add: rwl_abs_def rwl_notify_all_def)

lemma rwl_run_simulates:
  assumes inv: "rwl_inv N s" and t: "t < N"
  shows "rwl_abs (rwl_run t s) = rwl_abs s \<or> rw_step (rwl_abs s) (rwl_abs (rwl_run t s))"
proof -
  have upd: "rwl_abs (rgoto t q x) = (rwl_abs x)(t := rwl_mode q)" for q x by (auto simp: rwl_abs_def)
  have same: "rwl_abs (x\<lparr>rwl_mu := m\<rparr>) = rwl_abs x" "rwl_abs (x\<lparr>rwl_lock := l\<rparr>) = rwl_abs x" for x m l
    by (auto simp: rwl_abs_def)
  note eqs = rwl_run_def rwl_enter_def rwl_leave_def upd same
  have at: "rwl_abs s t = rwl_mode (rwl_pcs s t)" by (simp add: rwl_abs_def)
  show ?thesis
  proof (cases "rwl_pcs s t")
    case (Rw_wrlock p)
    then show ?thesis using at lock_ok_write(2) [OF _ t, of "rwl_abs s"] rwl_invD(1) [OF inv]
      by (cases p) (auto simp: eqs fun_upd_idem)
  next
    case (Rw_rdlock p)
    then show ?thesis using at lock_ok_read(2) [OF rwl_invD(1) [OF inv] _ t]
      by (cases p) (auto simp: eqs fun_upd_idem)
  next
    case (Rw_unlock m p)
    then show ?thesis using at release [of "rwl_abs s" t]
      by (cases p) (auto simp: eqs fun_upd_idem)
  qed (simp_all add: rwl_run_def)
qed

interpretation rwl: refinement rwlock_init "rwl_step N" rwl_abs rw_step for N
proof unfold_locales
  fix s s' assume r: "(rwl_step N)\<^sup>*\<^sup>* rwlock_init s" and "rwl_step N s s'"
  from this(2) show "rwl_abs s' = rwl_abs s \<or> rw_step (rwl_abs s) (rwl_abs s')"
  proof cases
    case (run t)
    then show ?thesis using rwl_run_simulates [OF rwl_reach_inv [OF r]] by simp
  qed (auto simp: rwl_abs_def fun_eq_iff)
qed

section \<open>Progress\<close>

text \<open>The threads inside a call, and those among them that sleep.\<close>

definition rwl_busy :: "rwl_pc \<Rightarrow> bool" where
  "rwl_busy q = (case q of Rw_idle \<Rightarrow> False | Rw_held _ \<Rightarrow> False | _ \<Rightarrow> True)"

definition rwl_asleep :: "rwl_pc \<Rightarrow> bool" where
  "rwl_asleep q \<longleftrightarrow> q = Rw_wrlock At_wait \<or> q = Rw_rdlock At_wait"

lemma rwl_moves:
  assumes "rwl_busy (rwl_pcs s t)" "\<not> rwl_asleep (rwl_pcs s t)" "rwl_inside (rwl_pcs s t) \<or> rwl_mu s = None"
  shows "rwl_run t s \<noteq> s"
proof -
  have "rwl_pcs (rwl_run t s) t \<noteq> rwl_pcs s t"
  proof (cases "rwl_pcs s t")
    case (Rw_wrlock p)
    then show ?thesis using assms by (cases p) (auto simp: rwl_run_def rwl_enter_def rwl_leave_def rwl_asleep_def)
  next
    case (Rw_rdlock p)
    then show ?thesis using assms by (cases p) (auto simp: rwl_run_def rwl_enter_def rwl_leave_def rwl_asleep_def)
  next
    case (Rw_unlock m p)
    then show ?thesis using assms by (cases p) (auto simp: rwl_run_def rwl_enter_def rwl_leave_def)
  qed (use assms(1) in \<open>simp_all add: rwl_busy_def\<close>)
  then show ?thesis by metis
qed

lemma sleeper_waits_for:
  assumes inv: "rwl_inv N s" and t: "rwl_asleep (rwl_pcs s t)" and n: "\<not> notifying s"
  shows "\<exists>u. rwl_abs s u \<noteq> None \<and> (rwl_pcs s t = Rw_rdlock At_wait \<longrightarrow> rwl_abs s u = Some nsync_writer_type)"
proof -
  have l: "rwl_lock s \<noteq> 0" "rwl_pcs s t = Rw_rdlock At_wait \<Longrightarrow> rwl_lock s = -1"
    using rwl_invD(3) [OF inv, of t] t n by (auto simp: sleep_ok_def rwl_asleep_def)
  show ?thesis
  proof (cases "rwl_lock s = -1")
    case True
    then show ?thesis using rwl_invD(1) [OF inv] by (auto simp: lock_ok_def)
  next
    case False
    then have "readers (rwl_abs s) \<noteq> {}" using rwl_invD(1) [OF inv] l(1) by (auto simp: lock_ok_def)
    then show ?thesis using False l(2) by (auto simp: readers_def)
  qed
qed

section \<open>Properties\<close>

text \<open>A run of two threads: one locks for writing, the other then sleeps.\<close>

definition demo_rwl :: rwlock_sys where
  "demo_rwl = (rwl_run 1 ^^ 2) (rgoto 1 (Rw_rdlock At_lock) ((rwl_run 0 ^^ 3) (rgoto 0 (Rw_wrlock At_lock) rwlock_init)))"

lemma rwl_run_reach: "(rwl_step N)\<^sup>*\<^sup>* a s \<Longrightarrow> t < N \<Longrightarrow> (rwl_step N)\<^sup>*\<^sup>* a ((rwl_run t ^^ n) s)"
  by (induction n) (auto intro: rtranclp.rtrancl_into_rtrancl rwl_step.run)

lemma demo_rwl_state:
  "rwl_pcs demo_rwl 0 = Rw_held nsync_writer_type" "rwl_pcs demo_rwl 1 = Rw_rdlock At_wait" "rwl_lock demo_rwl = -1" "rwl_mu demo_rwl = None"
  by (simp_all add: demo_rwl_def rwlock_init_def numeral_2_eq_2 numeral_3_eq_3 rwl_run_def rwl_enter_def rwl_leave_def)

lemma demo_rwl_reach: "(rwl_step 2)\<^sup>*\<^sup>* rwlock_init demo_rwl"
proof -
  let ?a = "rgoto 0 (Rw_wrlock At_lock) rwlock_init"
  have "(rwl_step 2)\<^sup>*\<^sup>* rwlock_init ?a" by (rule r_into_rtranclp) (simp add: rwl_step.wrlock rwlock_init_def)
  then have "(rwl_step 2)\<^sup>*\<^sup>* rwlock_init ((rwl_run 0 ^^ 3) ?a)" by (rule rwl_run_reach) simp
  moreover have "rwl_pcs ((rwl_run 0 ^^ 3) ?a) 1 = Rw_idle"
    by (simp add: rwlock_init_def numeral_3_eq_3 rwl_run_def rwl_enter_def rwl_leave_def)
  ultimately have "(rwl_step 2)\<^sup>*\<^sup>* rwlock_init (rgoto 1 (Rw_rdlock At_lock) ((rwl_run 0 ^^ 3) ?a))"
    by (meson rtranclp.rtrancl_into_rtrancl rwl_step.rdlock one_less_numeral_iff semiring_norm(76))
  then show ?thesis unfolding demo_rwl_def by (rule rwl_run_reach) simp
qed

text \<open>C32. The reader-writer lock of the C++11 platform refines the specification of a reader-writer
  lock, so that a writer excludes all others; and its integer is -1 just if a writer holds it, else
  the number of readers, which stays in the range of a C \<^verbatim>\<open>int\<close> for fewer than \<open>2 ^ 31\<close> threads.\<close>

theorem rwlock_refines_spec:
  assumes "(rwl_step N)\<^sup>*\<^sup>* rwlock_init s" "N < 2 ^ 31"
  shows "rw_step\<^sup>*\<^sup>* (\<lambda>_. None) (rwl_abs s) \<and> rw_excl (rwl_abs s) \<and>
    (\<forall>s'. rwl_step N s s' \<longrightarrow> rwl_abs s' = rwl_abs s \<or> rw_step (rwl_abs s) (rwl_abs s')) \<and>
    rwl_lock s = (if \<exists>t. rwl_abs s t = Some nsync_writer_type then -1 else int (card (readers (rwl_abs s)))) \<and>
    rwl_lock s < 2 ^ 31"
proof -
  note inv = rwl_reach_inv [OF assms(1)]
  have "rwl_abs rwlock_init = (\<lambda>_. None)" by (auto simp: rwl_abs_def rwlock_init_def)
  then have r: "rw_step\<^sup>*\<^sup>* (\<lambda>_. None) (rwl_abs s)" using rwl.abs_reach [OF assms(1)] by simp
  have "rwl_lock s = (if \<exists>t. rwl_abs s t = Some nsync_writer_type then -1 else int (card (readers (rwl_abs s))))"
    using rwl_invD(1) [OF inv] by (auto simp: lock_ok_def split: if_splits)
  moreover have "rwl_lock s < 2 ^ 31" using lock_ok_range [OF rwl_invD(1) [OF inv]] assms(2) by simp
  ultimately show ?thesis using r rw_reach_excl [OF r] rwl.simulates [OF assms(1)] by blast
qed

theorem rwlock_refines_spec_witness: "rw_excl (rwl_abs demo_rwl) \<and> rwl_abs demo_rwl 0 = Some nsync_writer_type \<and> rwl_lock demo_rwl = -1"
  using rwlock_refines_spec [OF demo_rwl_reach] demo_rwl_state(1,3) by (auto simp: rwl_abs_def)

text \<open>C33. No lost wakeup and no deadlock in the reader-writer lock of the C++11 platform: while the
  mutex is free, a thread that sleeps for writing does so beside a holder, one that sleeps for
  reading beside a writer; and whenever a thread is in a call and no client holds the lock, some
  thread that does not sleep can take a step that changes the state.\<close>

theorem rwlock_progress:
  assumes "(rwl_step N)\<^sup>*\<^sup>* rwlock_init s" "t < N" "rwl_busy (rwl_pcs s t)"
  shows "(rwl_mu s = None \<and> rwl_asleep (rwl_pcs s t) \<longrightarrow>
      (\<exists>u. rwl_abs s u \<noteq> None \<and> (rwl_pcs s t = Rw_rdlock At_wait \<longrightarrow> rwl_abs s u = Some nsync_writer_type))) \<and>
    ((\<exists>u m. rwl_pcs s u = Rw_held m) \<or> (\<exists>u<N. \<not> rwl_asleep (rwl_pcs s u) \<and> rwl_run u s \<noteq> s))"
proof -
  note inv = rwl_reach_inv [OF assms(1)]
  have quiet: "\<not> notifying s" if "rwl_mu s = None"
  proof
    assume "notifying s"
    then obtain u m where u: "rwl_pcs s u = Rw_unlock m Un_notify" by (auto simp: notifying_def)
    then have "u < N" using rwl_invD(4) [OF inv, of u] by (cases "u < N") auto
    then show False using owns_free [OF rwl_invD(2) [OF inv, unfolded that]] u by fastforce
  qed
  have "\<exists>u<N. \<not> rwl_asleep (rwl_pcs s u) \<and> rwl_run u s \<noteq> s" if nh: "\<And>u m. rwl_pcs s u \<noteq> Rw_held m"
  proof (cases "rwl_mu s")
    case (Some u)
    then have u: "u < N" "rwl_inside (rwl_pcs s u)" using rwl_invD(2) [OF inv] by (auto simp: owns_ok_def)
    then have "rwl_busy (rwl_pcs s u)" "\<not> rwl_asleep (rwl_pcs s u)" by (auto simp: rwl_busy_def rwl_asleep_def split: rwl_pc.splits)
    then show ?thesis using rwl_moves u by blast
  next
    case None
    show ?thesis
    proof (cases "rwl_asleep (rwl_pcs s t)")
      case True
      then obtain u where u: "rwl_abs s u \<noteq> None" using sleeper_waits_for [OF inv _ quiet [OF None]] by blast
      then have "u < N" using rwl_invD(1) [OF inv] by (auto simp: lock_ok_def)
      moreover have "\<not> rwl_inside (rwl_pcs s u)" using owns_free [OF rwl_invD(2) [OF inv, unfolded None] calculation] .
      then have "\<exists>m. rwl_pcs s u = Rw_unlock m Un_lock" using u nh [of u]
        by (cases "rwl_pcs s u" rule: rwl_mode.cases) (auto simp: rwl_abs_def)
      then have "rwl_busy (rwl_pcs s u)" "\<not> rwl_asleep (rwl_pcs s u)" by (auto simp: rwl_busy_def rwl_asleep_def)
      ultimately show ?thesis using rwl_moves None by blast
    qed (use rwl_moves None assms(2,3) in blast)
  qed
  then show ?thesis using sleeper_waits_for [OF inv _ quiet] by blast
qed

theorem rwlock_progress_witness: "\<exists>u. rwl_abs demo_rwl u = Some nsync_writer_type"
  using rwlock_progress [OF demo_rwl_reach, of 1] demo_rwl_state by (auto simp: rwl_busy_def rwl_asleep_def)

end
