(* ===== verification/Tls.thy ===== *)
theory Tls
  imports Dll
begin

text \<open>
  Thread-specific data on Windows, \<^verbatim>\<open>platform/win32/src/pthread_key_win32.cc\<close>: a table of 128
  slots of which keys are made, and for every thread an array of values.  The low bits of a key are
  its slot, the high bits a version, so that a value stored under a deleted key is not read under
  a later one.  The class of \<^verbatim>\<open>platform/c++11/src/per_thread_waiter.cc\<close> holds a single value.
  Function pointers and values are addresses; 0 is \<^verbatim>\<open>nullptr\<close>.
\<close>

section \<open>Keys and values\<close>

record key_destructor =
  kd_allocated :: bool
  kd_key :: int
  kd_dest :: addr

record key_value =
  kv_key :: int
  kv_value :: addr

definition kMaxKeyShift :: nat where "kMaxKeyShift = 7"
definition kMaxKeys :: int where "kMaxKeys = push_bit kMaxKeyShift 1"
definition kKeyMask :: int where "kKeyMask = kMaxKeys - 1"

text \<open>The table \<^verbatim>\<open>dest\<close>, protected by \<^verbatim>\<open>mu\<close>, and the variable \<^verbatim>\<open>per_thread_data\<close> of every thread.\<close>

record key_sys =
  ks_dest :: "nat \<Rightarrow> key_destructor"
  ks_data :: "tid \<Rightarrow> nat \<Rightarrow> key_value"

definition key_init :: key_sys where
  "key_init = \<lparr>ks_dest = \<lambda>_. \<lparr>kd_allocated = False, kd_key = 0, kd_dest = 0\<rparr>, ks_data = \<lambda>_ _. \<lparr>kv_key = 0, kv_value = 0\<rparr>\<rparr>"

definition slot :: "int \<Rightarrow> nat" where "slot key = nat (key AND kKeyMask)"

text \<open>\<^verbatim>\<open>PerThreadData::value\<close> and \<^verbatim>\<open>PerThreadData::set_value\<close>.\<close>

definition per_thread_value :: "int \<Rightarrow> (nat \<Rightarrow> key_value) \<Rightarrow> addr" where
  "per_thread_value key arr = (if kv_key (arr (slot key)) = key then kv_value (arr (slot key)) else 0)"

definition per_thread_set_value :: "int \<Rightarrow> addr \<Rightarrow> (nat \<Rightarrow> key_value) \<Rightarrow> nat \<Rightarrow> key_value" where
  "per_thread_set_value key v arr = arr(slot key := \<lparr>kv_key = key, kv_value = v\<rparr>)"

text \<open>
  \<open>None\<close>: the addition overflows \<^verbatim>\<open>int\<close>, which is undefined.  \<open>Some (s, None)\<close> is \<^verbatim>\<open>EAGAIN\<close>.
\<close>

definition next_key :: "int \<Rightarrow> nat \<Rightarrow> int option" where
  "next_key key i = (if key + kMaxKeys < 2 ^ 31 then Some ((key + kMaxKeys) OR int i) else None)"

definition free_slot :: "(nat \<Rightarrow> key_destructor) \<Rightarrow> nat option" where
  "free_slot dest = List.find (\<lambda>i. \<not> kd_allocated (dest i)) [1..<nat kMaxKeys]"

definition nsync_pthread_key_create :: "addr \<Rightarrow> key_sys \<Rightarrow> (key_sys \<times> int option) option" where
  "nsync_pthread_key_create destructor s =
     (case free_slot (ks_dest s) of
        None \<Rightarrow> Some (s, None)
      | Some i \<Rightarrow>
          (case next_key (kd_key (ks_dest s i)) i of
             None \<Rightarrow> None
           | Some key \<Rightarrow>
               Some (s\<lparr>ks_dest := (ks_dest s)(i := \<lparr>kd_allocated = True, kd_key = key, kd_dest = destructor\<rparr>)\<rparr>, Some key)))"

text \<open>The results of the next two: whether they return 0, not \<^verbatim>\<open>EINVAL\<close>.\<close>

definition nsync_pthread_key_delete :: "int \<Rightarrow> key_sys \<Rightarrow> key_sys \<times> bool" where
  "nsync_pthread_key_delete key s =
     (let i = slot key
      in if key > 0 \<and> kd_allocated (ks_dest s i)
         then (s\<lparr>ks_dest := (ks_dest s)(i := (ks_dest s i)\<lparr>kd_allocated := False, kd_dest := 0\<rparr>)\<rparr>, True)
         else (s, False))"

definition nsync_pthread_getspecific :: "tid \<Rightarrow> int \<Rightarrow> key_sys \<Rightarrow> addr" where
  "nsync_pthread_getspecific t key s = per_thread_value key (ks_data s t)"

definition nsync_pthread_setspecific :: "tid \<Rightarrow> int \<Rightarrow> addr \<Rightarrow> key_sys \<Rightarrow> key_sys \<times> bool" where
  "nsync_pthread_setspecific t key v s =
     (if key > 0 then (s\<lparr>ks_data := (ks_data s)(t := per_thread_set_value key v (ks_data s t))\<rparr>, True) else (s, False))"

section \<open>The end of a thread\<close>

text \<open>
  \<^verbatim>\<open>PerThreadData::~PerThreadData\<close>.  \<open>call d v\<close> is what the client's destructor \<open>d\<close> does to the
  keys and values when it is called with \<open>v\<close>.  The last component lists the calls.
\<close>

definition clear_value :: "tid \<Rightarrow> nat \<Rightarrow> key_sys \<Rightarrow> key_sys" where
  "clear_value t i s = s\<lparr>ks_data := (ks_data s)(t := (ks_data s t)(i := (ks_data s t i)\<lparr>kv_value := 0\<rparr>))\<rparr>"

fun exit_slots :: "(addr \<Rightarrow> addr \<Rightarrow> key_sys \<Rightarrow> key_sys) \<Rightarrow> tid \<Rightarrow> (nat \<Rightarrow> key_destructor) \<Rightarrow> nat list \<Rightarrow> key_sys \<Rightarrow>
    key_sys \<times> bool \<times> (addr \<times> addr) list" where
  "exit_slots call t dest_copy [] s = (s, False, [])"
| "exit_slots call t dest_copy (i # is) s =
     (if kd_allocated (dest_copy i)
      then (let destructor = kd_dest (dest_copy i); value = kv_value (ks_data s t i); s = clear_value t i s
            in if kd_key (dest_copy i) = kv_key (ks_data s t i) \<and> destructor \<noteq> 0 \<and> value \<noteq> 0
               then (case exit_slots call t dest_copy is (call destructor value s) of
                       (s, again, calls) \<Rightarrow> (s, True, (destructor, value) # calls))
               else exit_slots call t dest_copy is s)
      else exit_slots call t dest_copy is s)"

fun exit_attempts :: "(addr \<Rightarrow> addr \<Rightarrow> key_sys \<Rightarrow> key_sys) \<Rightarrow> tid \<Rightarrow> nat \<Rightarrow> key_sys \<Rightarrow> key_sys \<times> (addr \<times> addr) list" where
  "exit_attempts call t 0 s = (s, [])"
| "exit_attempts call t (Suc n) s =
     (case exit_slots call t (ks_dest s) [1..<nat kMaxKeys] s of
        (s, again, calls) \<Rightarrow>
          if again then (case exit_attempts call t n s of (s, calls') \<Rightarrow> (s, calls @ calls')) else (s, calls))"

definition per_thread_data_exit :: "(addr \<Rightarrow> addr \<Rightarrow> key_sys \<Rightarrow> key_sys) \<Rightarrow> tid \<Rightarrow> key_sys \<Rightarrow> key_sys \<times> (addr \<times> addr) list" where
  "per_thread_data_exit call t s = exit_attempts call t 4 s"

section \<open>A single value\<close>

record per_thread =
  pt_value :: addr
  pt_dest :: addr

definition per_thread_new :: per_thread where "per_thread_new = \<lparr>pt_value = 0, pt_dest = 0\<rparr>"

definition per_thread_get :: "addr \<Rightarrow> per_thread \<Rightarrow> per_thread \<times> addr" where
  "per_thread_get dest p = (p\<lparr>pt_dest := dest\<rparr>, pt_value p)"

definition per_thread_set :: "addr \<Rightarrow> addr \<Rightarrow> per_thread \<Rightarrow> per_thread" where
  "per_thread_set v dest p = p\<lparr>pt_value := v, pt_dest := dest\<rparr>"

definition per_thread_end :: "per_thread \<Rightarrow> per_thread \<times> (addr \<times> addr) list" where
  "per_thread_end p =
     (\<lparr>pt_value = 0, pt_dest = 0\<rparr>, if pt_dest p \<noteq> 0 \<and> pt_value p \<noteq> 0 then [(pt_dest p, pt_value p)] else [])"

section \<open>Slots and versions\<close>

lemma kMaxKeys_eq [simp]: "kMaxKeys = 128" "kKeyMask = 127"
  by (simp_all add: kMaxKeys_def kMaxKeyShift_def kKeyMask_def)

lemma mask_mod: "key AND 127 = key mod 128" for key :: int
  using take_bit_eq_mask [of 7 key] by (simp add: mask_eq_exp_minus_1 take_bit_eq_mod)

lemma slot_mod: "slot key = nat (key mod 128)"
  by (simp add: slot_def mask_mod)

lemma slot_less [simp]: "slot key < 128"
  by (simp add: slot_mod nat_less_iff)

lemma version_or:
  assumes "i < 128" "key mod 128 = 0 \<or> key mod 128 = int i"
  shows "key OR int i = key div 128 * 128 + int i"
proof -
  have i: "int i mod 128 = int i" "int i div 128 = 0" using assms(1) by simp_all
  have l: "(key OR int i) mod 128 = int i"
  proof -
    have "take_bit 7 (key OR int i) = take_bit 7 key OR take_bit 7 (int i)" by simp
    then show ?thesis using assms(2) i(1) by (auto simp: take_bit_eq_mod)
  qed
  have h: "(key OR int i) div 128 = key div 128"
  proof -
    have "drop_bit 7 (key OR int i) = drop_bit 7 key OR drop_bit 7 (int i)" by simp
    then show ?thesis using i(2) by (simp add: drop_bit_eq_div)
  qed
  show ?thesis using l h mult_div_mod_eq [of 128 "key OR int i"] by linarith
qed

text \<open>What the slots hold: 0 if never used, else a version and the slot's number.\<close>

definition slot_key_ok :: "nat \<Rightarrow> int \<Rightarrow> bool" where
  "slot_key_ok i key \<longleftrightarrow> key = 0 \<or> 0 < i \<and> i < 128 \<and> 128 < key \<and> key < 2 ^ 31 \<and> slot key = i"

lemma next_key_ok:
  assumes "slot_key_ok i old" "0 < i" "i < 128" "next_key old i = Some key"
  shows "slot_key_ok i key" "old < key" "key \<noteq> 0"
proof -
  have o: "old mod 128 = 0 \<or> old mod 128 = int i" "0 \<le> old"
    using assms(1) by (auto simp: slot_key_ok_def slot_mod)
  have lt: "old + 128 < 2 ^ 31" "key = (old + 128) OR int i" using assms(4) by (auto simp: next_key_def split: if_splits)
  then have k: "key = (old + 128) div 128 * 128 + int i" using version_or [of i "old + 128"] o(1) assms(3) by simp
  have d: "(old + 128) div 128 = old div 128 + 1" by simp
  have "old div 128 * 128 + old mod 128 = old" by simp
  then have a: "key = old - old mod 128 + 128 + int i" using k d by linarith
  then show "old < key" using o assms(2,3) by auto
  have "0 \<le> old div 128" using o(2) by (simp add: pos_imp_zdiv_nonneg_iff)
  then have g: "128 < key" using k d assms(2) by linarith
  then show "key \<noteq> 0" by simp
  have m: "key mod 128 = int i" using k assms(3) by simp
  have "(old + 128) div 128 * 128 \<le> (2 ^ 31 - 1) div 128 * 128" using lt(1) by (intro mult_right_mono zdiv_mono1) auto
  then have "key < 2 ^ 31" using k assms(3) by simp
  then show "slot_key_ok i key" using g m assms(2,3) by (simp add: slot_key_ok_def slot_mod)
qed

lemma free_slot_Some:
  assumes "free_slot d = Some i"
  shows "0 < i" "i < 128" "\<not> kd_allocated (d i)"
proof -
  have "i \<in> set [1..<128] \<and> \<not> kd_allocated (d i)"
    using assms by (auto simp: free_slot_def find_Some_iff in_set_conv_nth)
  then show "0 < i" "i < 128" "\<not> kd_allocated (d i)" by auto
qed

lemma free_slot_None: "free_slot d = None \<longleftrightarrow> (\<forall>i. 0 < i \<and> i < 128 \<longrightarrow> kd_allocated (d i))"
  by (auto simp: free_slot_def find_None_iff Suc_le_eq)

section \<open>The invariant\<close>

definition key_inv :: "key_sys \<Rightarrow> bool" where
  "key_inv s \<longleftrightarrow>
     (\<forall>i. slot_key_ok i (kd_key (ks_dest s i)) \<and> (kd_allocated (ks_dest s i) \<longrightarrow> kd_key (ks_dest s i) \<noteq> 0)) \<and>
     (\<forall>t i. let x = ks_data s t i in kv_key x = 0 \<and> kv_value x = 0 \<or> slot (kv_key x) = i \<and> 0 < kv_key x \<and> kv_key x \<le> kd_key (ks_dest s i))"

text \<open>A key that was created and not deleted.\<close>

definition key_live :: "key_sys \<Rightarrow> int \<Rightarrow> bool" where
  "key_live s key \<longleftrightarrow> key > 0 \<and> kd_allocated (ks_dest s (slot key)) \<and> kd_key (ks_dest s (slot key)) = key"

text \<open>All that threads may do to keys and values; \<open>G\<close> are the keys given out so far.\<close>

inductive key_reach :: "int set \<Rightarrow> key_sys \<Rightarrow> bool" where
  init: "key_reach {} key_init"
| create: "key_reach G s \<Longrightarrow> nsync_pthread_key_create d s = Some (s', Some key) \<Longrightarrow> key_reach (insert key G) s'"
| delete: "key_reach G s \<Longrightarrow> key_reach G (fst (nsync_pthread_key_delete key s))"
| set: "key_reach G s \<Longrightarrow> key \<in> G \<Longrightarrow> key_reach G (fst (nsync_pthread_setspecific t key v s))"
| clear: "key_reach G s \<Longrightarrow> key_reach G (clear_value t i s)"

lemma key_invD:
  assumes "key_inv s"
  shows "slot_key_ok i (kd_key (ks_dest s i))" "kd_allocated (ks_dest s i) \<Longrightarrow> kd_key (ks_dest s i) \<noteq> 0"
    "kv_key (ks_data s t i) = 0 \<and> kv_value (ks_data s t i) = 0 \<or>
     slot (kv_key (ks_data s t i)) = i \<and> 0 < kv_key (ks_data s t i) \<and> kv_key (ks_data s t i) \<le> kd_key (ks_dest s i)"
  using assms by (auto simp: key_inv_def Let_def)

lemma key_invI:
  assumes "\<And>i. slot_key_ok i (kd_key (ks_dest s i))" "\<And>i. kd_allocated (ks_dest s i) \<Longrightarrow> kd_key (ks_dest s i) \<noteq> 0"
    "\<And>t i. kv_key (ks_data s t i) = 0 \<and> kv_value (ks_data s t i) = 0 \<or>
     slot (kv_key (ks_data s t i)) = i \<and> 0 < kv_key (ks_data s t i) \<and> kv_key (ks_data s t i) \<le> kd_key (ks_dest s i)"
  shows "key_inv s"
  using assms by (simp add: key_inv_def Let_def)

lemma create_cases:
  assumes "key_inv s" "nsync_pthread_key_create d s = Some (s', Some key)"
  obtains i where "slot key = i" "\<not> kd_allocated (ks_dest s i)" "kd_key (ks_dest s i) < key" "0 < key" "key < 2 ^ 31" "slot_key_ok i key"
    "s' = s\<lparr>ks_dest := (ks_dest s)(i := \<lparr>kd_allocated = True, kd_key = key, kd_dest = d\<rparr>)\<rparr>"
proof -
  obtain i where i: "free_slot (ks_dest s) = Some i" "next_key (kd_key (ks_dest s i)) i = Some key"
    "s' = s\<lparr>ks_dest := (ks_dest s)(i := \<lparr>kd_allocated = True, kd_key = key, kd_dest = d\<rparr>)\<rparr>"
    using assms(2) by (auto simp: nsync_pthread_key_create_def split: option.splits)
  note f = free_slot_Some [OF i(1)]
  note n = next_key_ok [OF key_invD(1) [OF assms(1)] f(1,2) i(2)]
  show ?thesis by (rule that [OF _ f(3) n(2) _ _ n(1) i(3)]) (use n in \<open>auto simp: slot_key_ok_def\<close>)
qed

lemma create_inv:
  assumes "key_inv s" "nsync_pthread_key_create d s = Some (s', Some key)"
  shows "key_inv s'"
proof -
  obtain i where i: "slot key = i" "kd_key (ks_dest s i) < key" "0 < key" "slot_key_ok i key"
    "s' = s\<lparr>ks_dest := (ks_dest s)(i := \<lparr>kd_allocated = True, kd_key = key, kd_dest = d\<rparr>)\<rparr>"
    by (rule create_cases [OF assms])
  show ?thesis
  proof (rule key_invI)
    show "slot_key_ok j (kd_key (ks_dest s' j))" for j using i(4,5) key_invD(1) [OF assms(1), of j] by simp
    show "kd_allocated (ks_dest s' j) \<Longrightarrow> kd_key (ks_dest s' j) \<noteq> 0" for j
      using i(3,5) key_invD(2) [OF assms(1), of j] by (auto split: if_splits)
    show "kv_key (ks_data s' t j) = 0 \<and> kv_value (ks_data s' t j) = 0 \<or>
      slot (kv_key (ks_data s' t j)) = j \<and> 0 < kv_key (ks_data s' t j) \<and> kv_key (ks_data s' t j) \<le> kd_key (ks_dest s' j)" for t j
      using i(2,5) key_invD(3) [OF assms(1), of t j] by auto
  qed
qed

lemma delete_inv: "key_inv s \<Longrightarrow> key_inv (fst (nsync_pthread_key_delete key s))"
  by (auto simp: nsync_pthread_key_delete_def key_inv_def Let_def)

lemma setspecific_inv:
  assumes "key_inv s" "0 < key" "key \<le> kd_key (ks_dest s (slot key))"
  shows "key_inv (fst (nsync_pthread_setspecific t key v s))"
  using assms by (auto simp: nsync_pthread_setspecific_def per_thread_set_value_def key_inv_def Let_def)

lemma clear_inv: "key_inv s \<Longrightarrow> key_inv (clear_value t i s)"
  by (auto simp: clear_value_def key_inv_def Let_def)

lemma clear_dest [simp]: "ks_dest (clear_value t i s) = ks_dest s"
  by (simp add: clear_value_def)

lemma delete_key: "kd_key (ks_dest (fst (nsync_pthread_key_delete key s)) i) = kd_key (ks_dest s i)"
  by (simp add: nsync_pthread_key_delete_def Let_def)

lemma key_reach_inv:
  assumes "key_reach G s"
  shows "key_inv s \<and> (\<forall>key\<in>G. 0 < key \<and> key \<le> kd_key (ks_dest s (slot key)))"
  using assms
proof induction
  case init
  show ?case by (simp add: key_inv_def key_init_def slot_key_ok_def Let_def)
next
  case (create G s d s' key)
  obtain i where i: "slot key = i" "kd_key (ks_dest s i) < key" "0 < key"
    "s' = s\<lparr>ks_dest := (ks_dest s)(i := \<lparr>kd_allocated = True, kd_key = key, kd_dest = d\<rparr>)\<rparr>"
    by (rule create_cases [OF _ create(2)]) (use create.IH in auto)
  then have "k \<le> kd_key (ks_dest s' (slot k))" if "k \<le> kd_key (ks_dest s (slot k))" for k using that by auto
  then show ?case using create.IH create_inv [OF _ create(2)] i by auto
next
  case (set G s key t v)
  then show ?case using setspecific_inv [of s key t v] by (auto simp: nsync_pthread_setspecific_def)
qed (auto simp: delete_inv delete_key clear_inv)

section \<open>The interface\<close>

text \<open>What a client may rely on, for keys that are live.\<close>

locale thread_keys =
  fixes inv :: "'s \<Rightarrow> bool" and live :: "'s \<Rightarrow> int \<Rightarrow> bool" and create :: "'s \<Rightarrow> ('s \<times> int option) option"
    and get :: "tid \<Rightarrow> int \<Rightarrow> 's \<Rightarrow> addr" and set :: "tid \<Rightarrow> int \<Rightarrow> addr \<Rightarrow> 's \<Rightarrow> 's"
  assumes live_nonzero: "live s k \<Longrightarrow> k \<noteq> 0"
    and create_law: "inv s \<Longrightarrow> create s = Some (s', Some k) \<Longrightarrow> inv s' \<and> live s' k \<and> \<not> live s k \<and> get t k s' = 0"
    and create_fail: "inv s \<Longrightarrow> create s = Some (s', None) \<Longrightarrow> s' = s"
    and create_others: "inv s \<Longrightarrow> create s = Some (s', Some k) \<Longrightarrow> live s l \<Longrightarrow> live s' l \<and> get t l s' = get t l s"
    and set_law: "inv s \<Longrightarrow> live s k \<Longrightarrow> inv (set t k v s) \<and> live (set t k v s) l = live s l \<and> get t k (set t k v s) = v"
    and set_zero: "inv s \<Longrightarrow> set t 0 v s = s"
    and set_others: "inv s \<Longrightarrow> live s k \<Longrightarrow> live s l \<Longrightarrow> u \<noteq> t \<or> l \<noteq> k \<Longrightarrow> get u l (set t k v s) = get u l s"

lemma live_slots: "key_live s k \<Longrightarrow> key_live s l \<Longrightarrow> slot k = slot l \<Longrightarrow> k = l"
  by (simp add: key_live_def)

lemma get_slot:
  assumes "ks_data s' t (slot k) = ks_data s t (slot k)"
  shows "nsync_pthread_getspecific t k s' = nsync_pthread_getspecific t k s"
  using assms by (simp add: nsync_pthread_getspecific_def per_thread_value_def)

lemma create_gives_null:
  assumes "key_inv s" "nsync_pthread_key_create d s = Some (s', Some key)"
  shows "nsync_pthread_getspecific t key s' = 0"
proof -
  obtain i where i: "slot key = i" "kd_key (ks_dest s i) < key" "0 < key"
    "s' = s\<lparr>ks_dest := (ks_dest s)(i := \<lparr>kd_allocated = True, kd_key = key, kd_dest = d\<rparr>)\<rparr>"
    by (rule create_cases [OF assms])
  then have "kv_key (ks_data s t (slot key)) \<noteq> key" using key_invD(3) [OF assms(1), of t i] by auto
  then show ?thesis using i(4) by (simp add: nsync_pthread_getspecific_def per_thread_value_def)
qed

interpretation win_keys: thread_keys key_inv key_live "nsync_pthread_key_create d" nsync_pthread_getspecific
  "\<lambda>t k v s. fst (nsync_pthread_setspecific t k v s)" for d
proof unfold_locales
  fix s s' :: key_sys and k l :: int and t u :: tid and v :: addr
  show "key_live s k \<Longrightarrow> k \<noteq> 0" by (simp add: key_live_def)
  assume inv: "key_inv s"
  show "nsync_pthread_key_create d s = Some (s', None) \<Longrightarrow> s' = s"
    by (auto simp: nsync_pthread_key_create_def split: option.splits)
  show "fst (nsync_pthread_setspecific t 0 v s) = s" by (simp add: nsync_pthread_setspecific_def)
  show "key_inv s' \<and> key_live s' k \<and> \<not> key_live s k \<and> nsync_pthread_getspecific t k s' = 0"
    if c: "nsync_pthread_key_create d s = Some (s', Some k)"
    by (rule create_cases [OF inv c]) (use create_inv [OF inv c] create_gives_null [OF inv c] in \<open>auto simp: key_live_def\<close>)
  show "key_live s' l \<and> nsync_pthread_getspecific t l s' = nsync_pthread_getspecific t l s"
    if c: "nsync_pthread_key_create d s = Some (s', Some k)" and l: "key_live s l"
    by (rule create_cases [OF inv c]) (use l in \<open>auto intro!: get_slot simp: key_live_def\<close>)
  assume k: "key_live s k"
  have p: "0 < k" "k \<le> kd_key (ks_dest s (slot k))" using k by (auto simp: key_live_def)
  show "key_inv (fst (nsync_pthread_setspecific t k v s)) \<and> key_live (fst (nsync_pthread_setspecific t k v s)) l = key_live s l \<and>
      nsync_pthread_getspecific t k (fst (nsync_pthread_setspecific t k v s)) = v"
    using setspecific_inv [OF inv p] p
    by (simp add: nsync_pthread_setspecific_def nsync_pthread_getspecific_def per_thread_value_def per_thread_set_value_def key_live_def)
  show "nsync_pthread_getspecific u l (fst (nsync_pthread_setspecific t k v s)) = nsync_pthread_getspecific u l s"
    if "key_live s l" "u \<noteq> t \<or> l \<noteq> k"
    using live_slots [OF that(1) k] that(2) p
    by (intro get_slot) (auto simp: nsync_pthread_setspecific_def per_thread_set_value_def)
qed

section \<open>The end of a thread, in detail\<close>

text \<open>Destructors that leave the keys and the thread's values alone.\<close>

definition tame :: "tid \<Rightarrow> (addr \<Rightarrow> addr \<Rightarrow> key_sys \<Rightarrow> key_sys) \<Rightarrow> bool" where
  "tame t call \<longleftrightarrow> (\<forall>d v s. ks_data (call d v s) t = ks_data s t \<and> ks_dest (call d v s) = ks_dest s)"

text \<open>The slots whose value a destructor is waiting for, and the calls that they lead to.\<close>

definition due :: "(nat \<Rightarrow> key_destructor) \<Rightarrow> (nat \<Rightarrow> key_value) \<Rightarrow> nat \<Rightarrow> bool" where
  "due d a i \<longleftrightarrow> kd_allocated (d i) \<and> kd_key (d i) = kv_key (a i) \<and> kd_dest (d i) \<noteq> 0 \<and> kv_value (a i) \<noteq> 0"

definition due_calls :: "(nat \<Rightarrow> key_destructor) \<Rightarrow> (nat \<Rightarrow> key_value) \<Rightarrow> nat list \<Rightarrow> (addr \<times> addr) list" where
  "due_calls d a js = map (\<lambda>i. (kd_dest (d i), kv_value (a i))) (filter (due d a) js)"

lemma due_calls_cong: "(\<And>i. i \<in> set js \<Longrightarrow> a i = b i) \<Longrightarrow> due_calls d a js = due_calls d b js"
  by (induction js) (auto simp: due_calls_def due_def)

lemma clear_data: "ks_data (clear_value t i s) t j = (if j = i then (ks_data s t i)\<lparr>kv_value := 0\<rparr> else ks_data s t j)"
  by (simp add: clear_value_def)

lemma exit_slots_calls: "length (snd (snd (exit_slots call t d js s))) \<le> length js"
  by (induction js arbitrary: s) (auto simp: Let_def split: prod.splits intro: le_SucI, (metis snd_conv)+)

lemma exit_slots_tame:
  assumes c: "tame t call" and d: "distinct js"
  shows "case exit_slots call t d js s of (s', again, calls) \<Rightarrow>
    calls = due_calls d (ks_data s t) js \<and> again = (calls \<noteq> []) \<and> ks_dest s' = ks_dest s \<and>
    (\<forall>i. ks_data s' t i = (if i \<in> set js \<and> kd_allocated (d i) then (ks_data s t i)\<lparr>kv_value := 0\<rparr> else ks_data s t i))"
  using d
proof (induction js arbitrary: s)
  case Nil
  show ?case by (simp add: due_calls_def)
next
  case (Cons i js)
  define s1 where "s1 = (if \<not> kd_allocated (d i) then s
    else if due d (ks_data s t) i then call (kd_dest (d i)) (kv_value (ks_data s t i)) (clear_value t i s) else clear_value t i s)"
  have s1: "ks_dest s1 = ks_dest s" "ks_data s1 t j = (if j = i \<and> kd_allocated (d i) then (ks_data s t i)\<lparr>kv_value := 0\<rparr> else ks_data s t j)" for j
    using c by (auto simp: s1_def tame_def clear_data)
  obtain s' again calls where e: "exit_slots call t d js s1 = (s', again, calls)" by (metis prod_cases3)
  have ni: "i \<notin> set js" "distinct js" using Cons.prems by auto
  have I: "calls = due_calls d (ks_data s1 t) js" "again = (calls \<noteq> [])" "ks_dest s' = ks_dest s1"
    "ks_data s' t j = (if j \<in> set js \<and> kd_allocated (d j) then (ks_data s1 t j)\<lparr>kv_value := 0\<rparr> else ks_data s1 t j)" for j
    using Cons.IH [OF ni(2), of s1] e by auto
  have same: "due_calls d (ks_data s1 t) js = due_calls d (ks_data s t) js"
    by (rule due_calls_cong) (use s1(2) ni(1) in auto)
  have "exit_slots call t d (i # js) s =
      (if due d (ks_data s t) i then (s', True, (kd_dest (d i), kv_value (ks_data s t i)) # calls) else (s', again, calls))"
    using e by (auto simp: s1_def due_def Let_def clear_data split: if_splits)
  moreover have "due_calls d (ks_data s t) (i # js) =
      (if due d (ks_data s t) i then [(kd_dest (d i), kv_value (ks_data s t i))] else []) @ calls"
    using I(1) same by (simp add: due_calls_def)
  ultimately show ?case using I(2-4) s1 ni(1) by auto
qed

lemma exit_tame:
  assumes c: "tame t call" and e: "per_thread_data_exit call t s = (s', calls)"
  shows "calls = due_calls (ks_dest s) (ks_data s t) [1..<128] \<and>
    (\<forall>i. 0 < i \<and> i < 128 \<and> kd_allocated (ks_dest s i) \<longrightarrow> kv_value (ks_data s' t i) = 0)"
proof -
  obtain s1 a1 c1 where e1: "exit_slots call t (ks_dest s) [1..<128] s = (s1, a1, c1)" by (metis prod_cases3)
  have 1: "c1 = due_calls (ks_dest s) (ks_data s t) [1..<128]" "a1 = (c1 \<noteq> [])" "ks_dest s1 = ks_dest s"
    "ks_data s1 t i = (if i \<in> set [1..<128] \<and> kd_allocated (ks_dest s i) then (ks_data s t i)\<lparr>kv_value := 0\<rparr> else ks_data s t i)" for i
    using exit_slots_tame [OF c, of "[1..<128]" "ks_dest s" s] e1 by auto
  have null: "kv_value (ks_data s1 t i) = 0" if "0 < i" "i < 128" "kd_allocated (ks_dest s i)" for i using 1(4) [of i] that by simp
  show ?thesis
  proof (cases a1)
    case False
    then show ?thesis using e e1 1(1) null by (auto simp: per_thread_data_exit_def numeral_eq_Suc)
  next
    case True
    obtain s2 a2 c2 where e2: "exit_slots call t (ks_dest s1) [1..<128] s1 = (s2, a2, c2)" by (metis prod_cases3)
    have 2: "c2 = due_calls (ks_dest s1) (ks_data s1 t) [1..<128]" "a2 = (c2 \<noteq> [])"
      "ks_data s2 t i = (if i \<in> set [1..<128] \<and> kd_allocated (ks_dest s1 i) then (ks_data s1 t i)\<lparr>kv_value := 0\<rparr> else ks_data s1 t i)" for i
      using exit_slots_tame [OF c, of "[1..<128]" "ks_dest s1" s1] e2 by auto
    have "c2 = []" using 2(1) null by (auto simp: due_calls_def filter_empty_conv due_def 1(3))
    then have "s' = s2" "calls = c1" using e e1 e2 True 2(2) by (auto simp: per_thread_data_exit_def numeral_eq_Suc)
    then show ?thesis using 1(1,3) 2(3) null by auto
  qed
qed

lemma exit_attempts_calls: "length (snd (exit_attempts call t n s)) \<le> n * 127"
proof (induction n arbitrary: s)
  case (Suc n)
  obtain s1 again calls where e: "exit_slots call t (ks_dest s) [1..<128] s = (s1, again, calls)" by (metis prod_cases3)
  have "length calls \<le> 127" using exit_slots_calls [of call t "ks_dest s" "[1..<128]" s] e by simp
  then show ?case using Suc [of s1] e by (auto split: prod.splits)
qed simp

section \<open>Properties\<close>

definition demo_keys :: key_sys where
  "demo_keys = (case nsync_pthread_key_create 7 key_init of Some (s, _) \<Rightarrow> fst (nsync_pthread_setspecific 0 129 5 s) | None \<Rightarrow> key_init)"

lemma demo_create: "nsync_pthread_key_create d key_init = Some (key_init\<lparr>ks_dest := (ks_dest key_init)(1 := \<lparr>kd_allocated = True, kd_key = 129, kd_dest = d\<rparr>)\<rparr>, Some 129)"
proof -
  have "free_slot (ks_dest key_init) = Some 1" by (simp add: free_slot_def key_init_def upt_rec)
  moreover have "next_key 0 1 = Some 129" by (simp add: next_key_def)
  ultimately show ?thesis by (simp add: nsync_pthread_key_create_def key_init_def)
qed

lemma demo_keys_reach: "key_reach {129} demo_keys"
proof -
  have "key_reach {129} (key_init\<lparr>ks_dest := (ks_dest key_init)(1 := \<lparr>kd_allocated = True, kd_key = 129, kd_dest = 7\<rparr>)\<rparr>)"
    using key_reach.create [OF key_reach.init demo_create] by simp
  then show ?thesis unfolding demo_keys_def demo_create by (auto intro: key_reach.set)
qed

text \<open>C36. Thread-specific keys on Windows: a new key is positive, fits an \<^verbatim>\<open>int\<close> and was never given
  out before, in every thread its value is \<^verbatim>\<open>nullptr\<close>, and what other keys hold is unchanged; a
  value stored under a live key is read back by that thread, and neither other threads nor other
  live keys notice.  Creation fails with \<^verbatim>\<open>EAGAIN\<close> just if all of the 127 slots are in use.\<close>

theorem thread_keys_correct:
  assumes "key_reach G s"
  shows "(\<forall>s' key t. nsync_pthread_key_create d s = Some (s', Some key) \<longrightarrow>
      0 < key \<and> key < 2 ^ 31 \<and> key \<notin> G \<and> nsync_pthread_getspecific t key s' = 0 \<and>
      (\<forall>l. key_live s l \<longrightarrow> key_live s' l \<and> nsync_pthread_getspecific t l s' = nsync_pthread_getspecific t l s)) \<and>
    (\<forall>t key v. key_live s key \<longrightarrow>
      nsync_pthread_getspecific t key (fst (nsync_pthread_setspecific t key v s)) = v \<and>
      (\<forall>u l. key_live s l \<and> (u \<noteq> t \<or> l \<noteq> key) \<longrightarrow>
        nsync_pthread_getspecific u l (fst (nsync_pthread_setspecific t key v s)) = nsync_pthread_getspecific u l s)) \<and>
    ((\<exists>s'. nsync_pthread_key_create d s = Some (s', None)) \<longleftrightarrow> (\<forall>i. 0 < i \<and> i < 128 \<longrightarrow> kd_allocated (ks_dest s i)))"
proof (intro conjI allI impI)
  have inv: "key_inv s" and G: "\<And>k. k \<in> G \<Longrightarrow> k \<le> kd_key (ks_dest s (slot k))" using key_reach_inv [OF assms] by auto
  note L = win_keys.create_law [OF inv] win_keys.create_others [OF inv] win_keys.set_law [OF inv] win_keys.set_others [OF inv]
  fix s' key t v u l
  {
    assume c: "nsync_pthread_key_create d s = Some (s', Some key)"
    show "0 < key" "key < 2 ^ 31" "key \<notin> G" by (rule create_cases [OF inv c], use G [of key] in auto)+
    show "nsync_pthread_getspecific t key s' = 0" using L(1) [OF c] by simp
    assume "key_live s l"
    then show "key_live s' l" "nsync_pthread_getspecific t l s' = nsync_pthread_getspecific t l s" using L(2) [OF c] by simp_all
  }
  assume k: "key_live s key"
  show "nsync_pthread_getspecific t key (fst (nsync_pthread_setspecific t key v s)) = v" using L(3) [OF k] by simp
  assume "key_live s l \<and> (u \<noteq> t \<or> l \<noteq> key)"
  then show "nsync_pthread_getspecific u l (fst (nsync_pthread_setspecific t key v s)) = nsync_pthread_getspecific u l s"
    using L(4) [OF k] by simp
next
  show "(\<exists>s'. nsync_pthread_key_create d s = Some (s', None)) \<longleftrightarrow> (\<forall>i. 0 < i \<and> i < 128 \<longrightarrow> kd_allocated (ks_dest s i))"
    unfolding free_slot_None [symmetric] by (auto simp: nsync_pthread_key_create_def split: option.splits)
qed

theorem thread_keys_correct_witness:
  "nsync_pthread_getspecific 0 129 (fst (nsync_pthread_setspecific 0 129 6 demo_keys)) = 6 \<and> nsync_pthread_getspecific 0 129 demo_keys = 5"
proof -
  have "slot 129 = 1" by (simp add: slot_mod)
  then have "key_live demo_keys 129" "nsync_pthread_getspecific 0 129 demo_keys = 5"
    by (simp_all add: demo_keys_def demo_create nsync_pthread_setspecific_def key_live_def nsync_pthread_getspecific_def
        per_thread_value_def per_thread_set_value_def)
  then show ?thesis using thread_keys_correct [OF demo_keys_reach] by blast
qed

text \<open>At the end of a thread the destructors of its values are called at most 508 times,
  whatever they do.  If they leave the keys and the thread's values alone, each value under a live
  key with a destructor is passed to it exactly once, in the order of the slots, and no value under
  a live key is left.\<close>

theorem thread_exit_correct:
  assumes "per_thread_data_exit call t s = (s', calls)"
  shows "length calls \<le> 508 \<and>
    (tame t call \<longrightarrow>
      calls = map (\<lambda>i. (kd_dest (ks_dest s i), kv_value (ks_data s t i))) (filter (due (ks_dest s) (ks_data s t)) [1..<128]) \<and>
      (\<forall>i. 0 < i \<and> i < 128 \<and> kd_allocated (ks_dest s i) \<longrightarrow> kv_value (ks_data s' t i) = 0))"
proof -
  have "length calls \<le> 4 * 127" using exit_attempts_calls [of call t 4 s] assms by (simp add: per_thread_data_exit_def)
  then show ?thesis using exit_tame [OF _ assms] by (simp add: due_calls_def)
qed

theorem thread_exit_correct_witness: "kv_value (ks_data (fst (per_thread_data_exit (\<lambda>d v s. s) 0 demo_keys)) 0 1) = 0"
proof -
  have "kd_allocated (ks_dest demo_keys 1)"
    by (simp add: demo_keys_def demo_create nsync_pthread_setspecific_def)
  moreover have "tame 0 (\<lambda>d v s. s)" by (simp add: tame_def)
  moreover obtain s' calls where e: "per_thread_data_exit (\<lambda>d v s. s) 0 demo_keys = (s', calls)" by (metis surj_pair)
  ultimately show ?thesis using thread_exit_correct [OF e] by simp
qed

text \<open>
  A key that was deleted can be deleted again once its slot has been given to another key: the
  call succeeds and takes the slot from the new key.
\<close>

lemma delete_of_stale_key:
  assumes "key_inv s" "key_live s new" "0 < old" "slot old = slot new"
  shows "snd (nsync_pthread_key_delete old s) \<and> \<not> key_live (fst (nsync_pthread_key_delete old s)) new"
  using assms by (simp add: nsync_pthread_key_delete_def key_live_def Let_def)

text \<open>The class that holds a single value: the destructor last named gets it, once.\<close>

lemma per_thread_ends_once:
  "per_thread_end (per_thread_set v d p) = (per_thread_new, if d \<noteq> 0 \<and> v \<noteq> 0 then [(d, v)] else [])"
  "snd (per_thread_get d (per_thread_set v d' p)) = v" "snd (per_thread_end (fst (per_thread_end p))) = []"
  by (simp_all add: per_thread_end_def per_thread_set_def per_thread_get_def per_thread_new_def)

end
