(* ===== verification/Per_Thread.thy ===== *)
theory Per_Thread
  imports Tls
begin

text \<open>
  \<^verbatim>\<open>nsync_per_thread_waiter_\<close> and \<^verbatim>\<open>nsync_set_per_thread_waiter_\<close> of
  \<^verbatim>\<open>platform/posix/src/per_thread_waiter.c\<close> and \<^verbatim>\<open>platform/win32/src/per_thread_waiter.c\<close>, which are
  the same: threads that create a key of thread-specific data once and then use it.  The functions
  on keys are an argument, in the library of the system on POSIX; on Windows they are those of
  theory \<open>Tls\<close>.  A step is an access to shared memory.
\<close>

section \<open>The program\<close>

record 's key_ops =
  op_create :: "'s \<Rightarrow> ('s \<times> int option) option"
  op_get :: "tid \<Rightarrow> int \<Rightarrow> 's \<Rightarrow> addr"
  op_set :: "tid \<Rightarrow> int \<Rightarrow> addr \<Rightarrow> 's \<Rightarrow> 's"

text \<open>Which of the two functions a thread is in, and where.\<close>

datatype pt_call = Pt_get | Pt_set addr

datatype pt_pc =
    Pt_idle | Pt_load pt_call | Pt_cas pt_call u32 | Pt_reload pt_call | Pt_create pt_call | Pt_store pt_call
  | Pt_spin pt_call | Pt_op pt_call | Pt_got addr | Pt_undefined

text \<open>The last two fields are for the properties: calls of \<^verbatim>\<open>pthread_key_create\<close>, and what each thread set last.\<close>

record 's pt_sys =
  pt_once :: u32
  waiter_key :: int
  pt_tls :: 's
  pt_pcs :: "tid \<Rightarrow> pt_pc"
  pt_created :: nat
  pt_last :: "tid \<Rightarrow> addr"

definition pt_init :: "'s \<Rightarrow> 's pt_sys" where
  "pt_init s = \<lparr>pt_once = 0, waiter_key = 0, pt_tls = s, pt_pcs = \<lambda>_. Pt_idle, pt_created = 0, pt_last = \<lambda>_. 0\<rparr>"

definition pgoto :: "tid \<Rightarrow> pt_pc \<Rightarrow> 's pt_sys \<Rightarrow> 's pt_sys" where
  "pgoto t q s = s\<lparr>pt_pcs := (pt_pcs s)(t := q)\<rparr>"

text \<open>The result of \<^verbatim>\<open>pthread_key_create\<close> is ignored; when it fails, \<^verbatim>\<open>waiter_key\<close> stays as it was.\<close>

definition create_waiter_key :: "'s key_ops \<Rightarrow> tid \<Rightarrow> pt_call \<Rightarrow> 's pt_sys \<Rightarrow> 's pt_sys" where
  "create_waiter_key ops t c s =
     (case op_create ops (pt_tls s) of
        None \<Rightarrow> pgoto t Pt_undefined s
      | Some (tls, r) \<Rightarrow>
          pgoto t (Pt_store c)
            (s\<lparr>pt_tls := tls, waiter_key := (case r of Some key \<Rightarrow> key | None \<Rightarrow> waiter_key s), pt_created := pt_created s + 1\<rparr>))"

fun do_once :: "'s key_ops \<Rightarrow> tid \<Rightarrow> pt_pc \<Rightarrow> 's pt_sys \<Rightarrow> 's pt_sys" where
  "do_once ops t (Pt_load c) s = pgoto t (if pt_once s \<noteq> 2 then Pt_cas c (pt_once s) else Pt_op c) s"
| "do_once ops t (Pt_cas c o') s =
     (if o' = 0
      then (if pt_once s = 0 then pgoto t (Pt_create c) (s\<lparr>pt_once := 1\<rparr>) else pgoto t (Pt_reload c) s)
      else pgoto t (Pt_spin c) s)"
| "do_once ops t (Pt_reload c) s = pgoto t (Pt_cas c (pt_once s)) s"
| "do_once ops t (Pt_create c) s = create_waiter_key ops t c s"
| "do_once ops t (Pt_store c) s = pgoto t (Pt_spin c) (s\<lparr>pt_once := 2\<rparr>)"
| "do_once ops t (Pt_spin c) s = (if pt_once s \<noteq> 2 then s else pgoto t (Pt_op c) s)"
| "do_once ops t _ s = s"

definition nsync_per_thread_waiter :: "'s key_ops \<Rightarrow> tid \<Rightarrow> 's pt_sys \<Rightarrow> 's pt_sys" where
  "nsync_per_thread_waiter ops t s = pgoto t (Pt_got (op_get ops t (waiter_key s) (pt_tls s))) s"

definition nsync_set_per_thread_waiter :: "'s key_ops \<Rightarrow> tid \<Rightarrow> addr \<Rightarrow> 's pt_sys \<Rightarrow> 's pt_sys" where
  "nsync_set_per_thread_waiter ops t v s =
     pgoto t Pt_idle (s\<lparr>pt_tls := op_set ops t (waiter_key s) v (pt_tls s), pt_last := (pt_last s)(t := v)\<rparr>)"

definition pt_run :: "'s key_ops \<Rightarrow> tid \<Rightarrow> 's pt_sys \<Rightarrow> 's pt_sys" where
  "pt_run ops t s =
     (case pt_pcs s t of
        Pt_op Pt_get \<Rightarrow> nsync_per_thread_waiter ops t s
      | Pt_op (Pt_set v) \<Rightarrow> nsync_set_per_thread_waiter ops t v s
      | q \<Rightarrow> do_once ops t q s)"

definition pt_outside :: "pt_pc \<Rightarrow> bool" where
  "pt_outside q = (case q of Pt_idle \<Rightarrow> True | Pt_got _ \<Rightarrow> True | _ \<Rightarrow> False)"

text \<open>\<open>others key\<close>: what other users of thread-specific data do, who do not use \<open>key\<close>.\<close>

inductive pt_step :: "'s key_ops \<Rightarrow> (int \<Rightarrow> 's \<Rightarrow> 's \<Rightarrow> bool) \<Rightarrow> nat \<Rightarrow> 's pt_sys \<Rightarrow> 's pt_sys \<Rightarrow> bool"
  for ops others N where
  run: "t < N \<Longrightarrow> pt_step ops others N s (pt_run ops t s)"
| call: "t < N \<Longrightarrow> pt_outside (pt_pcs s t) \<Longrightarrow> pt_step ops others N s (pgoto t (Pt_load c) s)"
| other: "others (waiter_key s) (pt_tls s) x \<Longrightarrow> pt_step ops others N s (s\<lparr>pt_tls := x\<rparr>)"

section \<open>The invariant\<close>

definition pt_runner :: "pt_pc \<Rightarrow> bool" where
  "pt_runner q = (case q of Pt_create _ \<Rightarrow> True | Pt_store _ \<Rightarrow> True | Pt_undefined \<Rightarrow> True | _ \<Rightarrow> False)"

definition pt_knows :: "'s pt_sys \<Rightarrow> tid \<Rightarrow> pt_pc \<Rightarrow> bool" where
  "pt_knows s t q =
     (case q of
        Pt_cas c o' \<Rightarrow> o' \<noteq> 0 \<longrightarrow> pt_once s \<noteq> 0
      | Pt_spin c \<Rightarrow> pt_once s \<noteq> 0
      | Pt_op c \<Rightarrow> pt_once s = 2
      | Pt_got v \<Rightarrow> pt_once s = 2 \<and> (waiter_key s \<noteq> 0 \<longrightarrow> v = pt_last s t)
      | Pt_create c \<Rightarrow> pt_created s = 0
      | Pt_undefined \<Rightarrow> pt_created s = 0
      | Pt_store c \<Rightarrow> pt_created s = 1
      | _ \<Rightarrow> True)"

text \<open>The word, and who creates the key.\<close>

definition pt_phase :: "nat \<Rightarrow> 's pt_sys \<Rightarrow> bool" where
  "pt_phase N s \<longleftrightarrow>
     (pt_once s = 0 \<and> pt_created s = 0 \<and> (\<forall>t<N. \<not> pt_runner (pt_pcs s t)) \<or>
      pt_once s = 1 \<and> (\<exists>t<N. pt_runner (pt_pcs s t) \<and> (\<forall>u<N. pt_runner (pt_pcs s u) \<longrightarrow> u = t)) \<or>
      pt_once s = 2 \<and> pt_created s = 1 \<and> (\<forall>t<N. \<not> pt_runner (pt_pcs s t)))"

text \<open>The key: not there yet, or one under which every thread finds what it set last.\<close>

definition pt_key_ok :: "('s \<Rightarrow> bool) \<Rightarrow> ('s \<Rightarrow> int \<Rightarrow> bool) \<Rightarrow> 's key_ops \<Rightarrow> 's pt_sys \<Rightarrow> bool" where
  "pt_key_ok ok live ops s \<longleftrightarrow> ok (pt_tls s) \<and>
     (pt_created s = 0 \<longrightarrow> waiter_key s = 0 \<and> (\<forall>t. pt_last s t = 0)) \<and>
     (waiter_key s \<noteq> 0 \<longrightarrow> live (pt_tls s) (waiter_key s) \<and> (\<forall>t. op_get ops t (waiter_key s) (pt_tls s) = pt_last s t))"

definition pt_inv :: "('s \<Rightarrow> bool) \<Rightarrow> ('s \<Rightarrow> int \<Rightarrow> bool) \<Rightarrow> 's key_ops \<Rightarrow> nat \<Rightarrow> 's pt_sys \<Rightarrow> bool" where
  "pt_inv ok live ops N s \<longleftrightarrow> pt_phase N s \<and> pt_key_ok ok live ops s \<and> (\<forall>t<N. pt_knows s t (pt_pcs s t))"

lemma pgoto_fields [simp]:
  "pt_once (pgoto t q s) = pt_once s" "waiter_key (pgoto t q s) = waiter_key s" "pt_tls (pgoto t q s) = pt_tls s"
  "pt_pcs (pgoto t q s) = (pt_pcs s)(t := q)" "pt_created (pgoto t q s) = pt_created s" "pt_last (pgoto t q s) = pt_last s"
  by (simp_all add: pgoto_def)

text \<open>A thread that is not, and does not become, the creator leaves the phase as it is.\<close>

lemma pt_phase_keep:
  assumes "pt_phase N s" "pt_runner q = pt_runner (pt_pcs s t)" "pt_pcs s' = (pt_pcs s)(t := q)"
    "pt_once s' = pt_once s" "pt_created s' = pt_created s \<or> pt_once s = 1"
  shows "pt_phase N s'"
proof -
  have "pt_runner (pt_pcs s' u) = pt_runner (pt_pcs s u)" for u using assms(2,3) by simp
  then show ?thesis using assms(1,4,5) unfolding pt_phase_def by auto
qed

lemma pt_runner_phase:
  assumes "pt_phase N s" "t < N" "pt_runner (pt_pcs s t)"
  shows "pt_once s = 1" "u < N \<Longrightarrow> pt_runner (pt_pcs s u) \<Longrightarrow> u = t"
  using assms unfolding pt_phase_def by metis+

lemma pt_phase_start:
  assumes "pt_phase N s" "pt_once s = 0" "t < N" "pt_runner q" "pt_pcs s' = (pt_pcs s)(t := q)" "pt_once s' = 1"
  shows "pt_phase N s'"
  using assms unfolding pt_phase_def by auto

lemma pt_phase_end:
  assumes "pt_phase N s" "t < N" "pt_runner (pt_pcs s t)" "\<not> pt_runner q" "pt_pcs s' = (pt_pcs s)(t := q)"
    "pt_once s' = 2" "pt_created s' = 1"
  shows "pt_phase N s'"
  using pt_runner_phase(2) [OF assms(1-3)] assms(4-7) unfolding pt_phase_def by auto

text \<open>What a thread knows stays true while others move on.\<close>

lemma pt_knows_mono:
  assumes "pt_knows s u q" "pt_once s \<noteq> 0 \<Longrightarrow> pt_once s' \<noteq> 0" "pt_once s = 2 \<Longrightarrow> pt_once s' = 2 \<and> waiter_key s' = waiter_key s"
    "pt_runner q \<Longrightarrow> pt_created s' = pt_created s" "pt_last s' u = pt_last s u"
  shows "pt_knows s' u q"
  using assms unfolding pt_knows_def pt_runner_def by (cases q) auto

lemma pt_invD:
  assumes "pt_inv ok live ops N s"
  shows "pt_phase N s" "pt_key_ok ok live ops s" "t < N \<Longrightarrow> pt_knows s t (pt_pcs s t)"
  using assms by (auto simp: pt_inv_def)

text \<open>A step of thread \<open>t\<close>: what is left to show of the invariant.\<close>

lemma pt_inv_step:
  assumes i: "pt_inv ok live ops N s" and p: "pt_pcs s' = (pt_pcs s)(t := q)" and ph: "pt_phase N s'" and k: "pt_key_ok ok live ops s'"
    and q: "t < N \<Longrightarrow> pt_knows s' t q" and w: "pt_once s' = pt_once s \<or> pt_once s = 0 \<or> pt_once s' = 2"
    and z: "pt_once s' = 0 \<longrightarrow> pt_once s = 0" and key: "pt_once s = 2 \<Longrightarrow> pt_once s' = 2 \<and> waiter_key s' = waiter_key s"
    and c: "\<And>u. u < N \<Longrightarrow> u \<noteq> t \<Longrightarrow> pt_runner (pt_pcs s u) \<Longrightarrow> pt_created s' = pt_created s"
    and l: "\<And>u. u \<noteq> t \<Longrightarrow> pt_last s' u = pt_last s u"
  shows "pt_inv ok live ops N s'"
proof -
  have "pt_knows s' u (pt_pcs s u)" if "u < N" "u \<noteq> t" for u
    by (rule pt_knows_mono [OF pt_invD(3) [OF i that(1)]]) (use z key c l that in auto)
  then show ?thesis using ph k q p by (auto simp: pt_inv_def)
qed

lemma pt_inv_goto:
  assumes i: "pt_inv ok live ops N s" and r: "pt_runner q = pt_runner (pt_pcs s t)" and q: "t < N \<Longrightarrow> pt_knows s t q"
  shows "pt_inv ok live ops N (pgoto t q s)"
proof (rule pt_inv_step [OF i, of _ t q])
  show "pt_phase N (pgoto t q s)" by (rule pt_phase_keep [OF pt_invD(1) [OF i] r]) simp_all
  show "pt_key_ok ok live ops (pgoto t q s)" using pt_invD(2) [OF i] by (simp add: pt_key_ok_def)
  show "pt_knows (pgoto t q s) t q" if "t < N" using q [OF that] by (simp add: pt_knows_def cong: pt_pc.case_cong)
qed auto

section \<open>Over any keys that keep the contract\<close>

locale shared_keys = thread_keys +
  fixes others :: "int \<Rightarrow> 'a \<Rightarrow> 'a \<Rightarrow> bool"
  assumes others_law: "inv s \<Longrightarrow> others k s s' \<Longrightarrow> inv s' \<and> (live s k \<longrightarrow> live s' k \<and> get t k s' = get t k s)"
begin

lemma create_waiter_key_inv:
  assumes i: "pt_inv inv live \<lparr>op_create = create, op_get = get, op_set = set\<rparr> N s" and t: "t < N" and q: "pt_pcs s t = Pt_create c"
  shows "pt_inv inv live \<lparr>op_create = create, op_get = get, op_set = set\<rparr> N (create_waiter_key \<lparr>op_create = create, op_get = get, op_set = set\<rparr> t c s)"
proof (cases "create (pt_tls s)")
  case None
  then show ?thesis using q pt_invD(3) [OF i t]
    by (auto intro!: pt_inv_goto [OF i] simp: create_waiter_key_def pt_runner_def pt_knows_def)
next
  case (Some x)
  obtain tls r where x: "x = (tls, r)" by fastforce
  let ?s = "create_waiter_key \<lparr>op_create = create, op_get = get, op_set = set\<rparr> t c s"
  have s: "pt_pcs ?s = (pt_pcs s)(t := Pt_store c)" "pt_once ?s = pt_once s" "pt_last ?s = pt_last s" "pt_created ?s = pt_created s + 1"
    "pt_tls ?s = tls" "waiter_key ?s = (case r of Some key \<Rightarrow> key | None \<Rightarrow> waiter_key s)"
    using Some x by (simp_all add: create_waiter_key_def)
  have z: "pt_created s = 0" using pt_invD(3) [OF i t] q by (simp add: pt_knows_def)
  have run: "pt_runner (pt_pcs s t)" using q by (simp add: pt_runner_def)
  note R = pt_runner_phase [OF pt_invD(1) [OF i] t run]
  have k: "inv (pt_tls s)" "waiter_key s = 0" "\<And>u. pt_last s u = 0" using pt_invD(2) [OF i] z by (auto simp: pt_key_ok_def)
  show ?thesis
  proof (rule pt_inv_step [OF i s(1)])
    show "pt_phase N ?s" by (rule pt_phase_keep [OF pt_invD(1) [OF i] _ s(1,2)]) (use R(1) run in \<open>auto simp: pt_runner_def\<close>)
    show "pt_key_ok inv live \<lparr>op_create = create, op_get = get, op_set = set\<rparr> ?s"
    proof (cases r)
      case None
      then show ?thesis using create_fail [OF k(1)] Some x k by (simp add: pt_key_ok_def s)
    next
      case key: (Some key)
      then show ?thesis using create_law [OF k(1)] Some x k(3) by (simp add: pt_key_ok_def s)
    qed
    show "pt_created ?s = pt_created s" if "u < N" "u \<noteq> t" "pt_runner (pt_pcs s u)" for u using R(2) that by blast
  qed (use s R(1) z in \<open>auto simp: pt_knows_def\<close>)
qed

lemma set_waiter_inv:
  assumes i: "pt_inv inv live \<lparr>op_create = create, op_get = get, op_set = set\<rparr> N s" and t: "t < N" and q: "pt_pcs s t = Pt_op (Pt_set v)"
  shows "pt_inv inv live \<lparr>op_create = create, op_get = get, op_set = set\<rparr> N (nsync_set_per_thread_waiter \<lparr>op_create = create, op_get = get, op_set = set\<rparr> t v s)"
proof -
  let ?s = "nsync_set_per_thread_waiter \<lparr>op_create = create, op_get = get, op_set = set\<rparr> t v s"
  have s: "pt_pcs ?s = (pt_pcs s)(t := Pt_idle)" "pt_once ?s = pt_once s" "pt_last ?s = (pt_last s)(t := v)" "pt_created ?s = pt_created s"
    "pt_tls ?s = set t (waiter_key s) v (pt_tls s)" "waiter_key ?s = waiter_key s"
    by (simp_all add: nsync_set_per_thread_waiter_def)
  have o: "pt_once s = 2" using pt_invD(3) [OF i t] q by (simp add: pt_knows_def)
  then have c: "pt_created s = 1" using pt_invD(1) [OF i] by (auto simp: pt_phase_def)
  have k: "inv (pt_tls s)" "waiter_key s \<noteq> 0 \<Longrightarrow> live (pt_tls s) (waiter_key s)" "\<And>u. waiter_key s \<noteq> 0 \<Longrightarrow> get u (waiter_key s) (pt_tls s) = pt_last s u"
    using pt_invD(2) [OF i] by (auto simp: pt_key_ok_def)
  have key: "pt_key_ok inv live \<lparr>op_create = create, op_get = get, op_set = set\<rparr> ?s"
  proof (cases "waiter_key s = 0")
    case True
    then show ?thesis using set_zero [OF k(1)] c k(1) by (simp add: pt_key_ok_def s)
  next
    case False
    then show ?thesis using set_law [OF k(1) k(2)] set_others [OF k(1) k(2) k(2)] k(2,3) c by (auto simp: pt_key_ok_def s)
  qed
  show ?thesis
    by (rule pt_inv_step [OF i s(1) pt_phase_keep [OF pt_invD(1) [OF i] _ s(1,2)] key]) (use s q in \<open>auto simp: pt_knows_def pt_runner_def\<close>)
qed

text \<open>The two changes of the word of \<^verbatim>\<open>do_once\<close>.\<close>

lemma once_start_inv:
  assumes i: "pt_inv inv live \<lparr>op_create = create, op_get = get, op_set = set\<rparr> N s" and t: "t < N"
    and o: "pt_once s = 0"
  shows "pt_inv inv live \<lparr>op_create = create, op_get = get, op_set = set\<rparr> N
    (pgoto t (Pt_create c) (s\<lparr>pt_once := 1\<rparr>))"
proof -
  have "pt_created s = 0" using pt_invD(1) [OF i] o by (auto simp: pt_phase_def)
  then show ?thesis
    by (intro pt_inv_step [OF i, of _ t "Pt_create c", OF _ pt_phase_start [OF pt_invD(1) [OF i] _ t, of "Pt_create c"]])
       (use o pt_invD(2) [OF i] in \<open>auto simp: pt_runner_def pt_knows_def pt_key_ok_def\<close>)
qed

lemma once_end_inv:
  assumes i: "pt_inv inv live \<lparr>op_create = create, op_get = get, op_set = set\<rparr> N s" and t: "t < N"
    and q: "pt_pcs s t = Pt_store c"
  shows "pt_inv inv live \<lparr>op_create = create, op_get = get, op_set = set\<rparr> N
    (pgoto t (Pt_spin c) (s\<lparr>pt_once := 2\<rparr>))"
proof -
  have c: "pt_created s = 1" using pt_invD(3) [OF i t] q by (simp add: pt_knows_def)
  have "pt_once s = 1" using pt_runner_phase(1) [OF pt_invD(1) [OF i] t] q by (simp add: pt_runner_def)
  then show ?thesis
    by (intro pt_inv_step [OF i, of _ t "Pt_spin c", OF _ pt_phase_end [OF pt_invD(1) [OF i] t, of "Pt_spin c"]])
       (use c q pt_invD(2) [OF i] in \<open>auto simp: pt_runner_def pt_knows_def pt_key_ok_def\<close>)
qed

lemma pt_step_inv:
  assumes i: "pt_inv inv live \<lparr>op_create = create, op_get = get, op_set = set\<rparr> N s"
    and st: "pt_step \<lparr>op_create = create, op_get = get, op_set = set\<rparr> others N s s'"
  shows "pt_inv inv live \<lparr>op_create = create, op_get = get, op_set = set\<rparr> N s'"
  using st
proof cases
  case (other x)
  have "pt_key_ok inv live \<lparr>op_create = create, op_get = get, op_set = set\<rparr> s'"
    using pt_invD(2) [OF i] others_law [of "pt_tls s" "waiter_key s" x] other by (auto simp: pt_key_ok_def)
  moreover have "pt_knows s' u q = pt_knows s u q" for u q using other by (simp add: pt_knows_def cong: pt_pc.case_cong)
  ultimately show ?thesis using pt_invD(1,3) [OF i] other by (auto simp: pt_inv_def pt_phase_def)
next
  case (call t c)
  then show ?thesis by (auto intro!: pt_inv_goto [OF i] simp: pt_outside_def pt_runner_def pt_knows_def split: pt_pc.splits)
next
  case (run t)
  note K = pt_invD(3) [OF i run(2)]
  show ?thesis
  proof (cases "pt_pcs s t")
    case (Pt_cas c o')
    then show ?thesis using run K once_start_inv [OF i run(2), of c]
      by (cases "o' = 0 \<and> pt_once s = 0")
        (auto intro!: pt_inv_goto [OF i] simp: pt_run_def pt_runner_def pt_knows_def)
  next
    case (Pt_store c)
    then show ?thesis using run once_end_inv [OF i run(2) Pt_store] by (simp add: pt_run_def)
  next
    case (Pt_create c)
    then show ?thesis using create_waiter_key_inv [OF i run(2)] run(1) by (simp add: pt_run_def)
  next
    case (Pt_op c)
    show ?thesis
    proof (cases c)
      case Pt_get
      have "pt_knows s t (Pt_got (get t (waiter_key s) (pt_tls s)))"
        using K Pt_op pt_invD(2) [OF i] by (auto simp: pt_knows_def pt_key_ok_def)
      then show ?thesis using run Pt_op Pt_get
        by (auto intro!: pt_inv_goto [OF i] simp: pt_run_def nsync_per_thread_waiter_def pt_runner_def)
    next
      case (Pt_set v)
      then show ?thesis using set_waiter_inv [OF i run(2)] run(1) Pt_op by (simp add: pt_run_def)
    qed
  qed (use run K i in \<open>auto intro!: pt_inv_goto [OF i] simp: pt_run_def pt_runner_def pt_knows_def\<close>)
qed

end

section \<open>On Windows\<close>

definition win_ops :: "addr \<Rightarrow> key_sys key_ops" where
  "win_ops dest = \<lparr>op_create = nsync_pthread_key_create dest, op_get = nsync_pthread_getspecific,
     op_set = \<lambda>t k v s. fst (nsync_pthread_setspecific t k v s)\<rparr>"

text \<open>Other users create keys, and set and delete live keys of their own.\<close>

inductive other_keys :: "int \<Rightarrow> key_sys \<Rightarrow> key_sys \<Rightarrow> bool" where
  other_create: "nsync_pthread_key_create d s = Some (s', Some l) \<Longrightarrow> other_keys k s s'"
| other_set: "key_live s l \<Longrightarrow> l \<noteq> k \<Longrightarrow> other_keys k s (fst (nsync_pthread_setspecific t l v s))"
| other_delete: "key_live s l \<Longrightarrow> l \<noteq> k \<Longrightarrow> other_keys k s (fst (nsync_pthread_key_delete l s))"

interpretation win_shared: shared_keys key_inv key_live "nsync_pthread_key_create d" nsync_pthread_getspecific
  "\<lambda>t k v s. fst (nsync_pthread_setspecific t k v s)" other_keys for d
proof unfold_locales
  fix s s' :: key_sys and k :: int and t :: tid
  assume inv: "key_inv s" and o: "other_keys k s s'"
  from o show "key_inv s' \<and> (key_live s k \<longrightarrow> key_live s' k \<and> nsync_pthread_getspecific t k s' = nsync_pthread_getspecific t k s)"
  proof cases
    case (other_create d l)
    then show ?thesis using win_keys.create_law [OF inv] win_keys.create_others [OF inv] by blast
  next
    case (other_set l u v)
    then show ?thesis using win_keys.set_law [OF inv, of l] win_keys.set_others [OF inv, of l k] by blast
  next
    case (other_delete l)
    have "slot l \<noteq> slot k" if "key_live s k" using live_slots [OF that other_delete(2)] other_delete(3) by auto
    then have "key_live s k \<longrightarrow> key_live s' k \<and> nsync_pthread_getspecific t k s' = nsync_pthread_getspecific t k s"
      unfolding other_delete(1) by (auto simp: nsync_pthread_key_delete_def key_live_def Let_def nsync_pthread_getspecific_def)
    then show ?thesis using other_delete(1) delete_inv [OF inv] by simp
  qed
qed

lemma pt_init_inv: "pt_inv key_inv key_live (win_ops d) N (pt_init key_init)"
  using key_reach_inv [OF key_reach.init]
  by (simp add: pt_inv_def pt_init_def pt_phase_def pt_key_ok_def pt_runner_def pt_knows_def)

lemma pt_reach_inv: "(pt_step (win_ops d) other_keys N)\<^sup>*\<^sup>* (pt_init key_init) s \<Longrightarrow> pt_inv key_inv key_live (win_ops d) N s"
proof (induction rule: rtranclp_induct)
  case base
  show ?case by (rule pt_init_inv)
next
  case (step s s')
  then show ?case using win_shared.pt_step_inv [of d N s s'] by (simp add: win_ops_def)
qed

lemma pt_moves:
  assumes "\<not> pt_outside (pt_pcs s t)" "pt_pcs s t \<noteq> Pt_undefined" "\<And>c. pt_pcs s t = Pt_spin c \<Longrightarrow> pt_once s = 2"
  shows "pt_run ops t s \<noteq> s"
proof -
  have "pt_pcs (pt_run ops t s) t \<noteq> pt_pcs s t"
    using assms
    by (cases "pt_pcs s t")
       (auto simp: pt_run_def pt_outside_def create_waiter_key_def nsync_per_thread_waiter_def nsync_set_per_thread_waiter_def
         split: pt_call.splits option.splits)
  then show ?thesis by metis
qed

section \<open>Properties\<close>

definition demo_pt :: "nat \<Rightarrow> key_sys pt_sys" where
  "demo_pt n = (pt_run (win_ops 7) 0 ^^ n) (pgoto 0 (Pt_load Pt_get) (pt_init key_init))"

lemma demo_pt_reach: "(pt_step (win_ops 7) other_keys 2)\<^sup>*\<^sup>* (pt_init key_init) (demo_pt n)"
proof (induction n)
  case 0
  show ?case unfolding demo_pt_def
    by (rule r_into_rtranclp) (auto intro!: pt_step.call simp: pt_init_def pt_outside_def)
next
  case (Suc n)
  then show ?case unfolding demo_pt_def
    by (auto intro!: rtranclp.rtrancl_into_rtrancl [OF Suc [unfolded demo_pt_def]] pt_step.run)
qed

lemma key_init_data: "ks_data key_init t i = \<lparr>kv_key = 0, kv_value = 0\<rparr>"
  by (simp add: key_init_def)

lemma demo_pt_end: "pt_pcs (demo_pt 6) 0 = Pt_got 0" "waiter_key (demo_pt 6) = 129" "pt_pcs (demo_pt 2) 0 = Pt_create Pt_get"
  by (simp_all add: demo_pt_def pt_init_def pt_run_def numeral_eq_Suc create_waiter_key_def win_ops_def demo_create
      nsync_per_thread_waiter_def nsync_pthread_getspecific_def per_thread_value_def key_init_data
      del: One_nat_def)

text \<open>C35. The per-thread waiter on Windows: whatever the threads and other users of thread-specific
  data do, the key is created at most once; a call of \<^verbatim>\<open>nsync_per_thread_waiter_\<close> returns only after
  that, with what the same thread set last or \<^verbatim>\<open>nullptr\<close>, unless no key could be had.  While a
  thread is inside, some thread can take a step, unless the creation of the key has overflowed.\<close>

theorem per_thread_waiter_correct:
  assumes "(pt_step (win_ops dest) other_keys N)\<^sup>*\<^sup>* (pt_init key_init) s" "t < N"
  shows "pt_created s \<le> 1 \<and>
    (\<forall>v. pt_pcs s t = Pt_got v \<longrightarrow> pt_created s = 1 \<and> (waiter_key s \<noteq> 0 \<longrightarrow> v = pt_last s t)) \<and>
    (pt_outside (pt_pcs s t) \<or> (\<exists>u<N. pt_run (win_ops dest) u s \<noteq> s \<or> pt_pcs s u = Pt_undefined))"
proof (intro conjI)
  note inv = pt_reach_inv [OF assms(1)]
  show "pt_created s \<le> 1"
  proof (cases "pt_once s = 1")
    case True
    then obtain u where "u < N" "pt_runner (pt_pcs s u)" using pt_invD(1) [OF inv] by (auto simp: pt_phase_def)
    then show ?thesis using pt_invD(3) [OF inv, of u] by (auto simp: pt_runner_def pt_knows_def split: pt_pc.splits)
  qed (use pt_invD(1) [OF inv] in \<open>auto simp: pt_phase_def\<close>)
  show "\<forall>v. pt_pcs s t = Pt_got v \<longrightarrow> pt_created s = 1 \<and> (waiter_key s \<noteq> 0 \<longrightarrow> v = pt_last s t)"
    using pt_invD(1) [OF inv] pt_invD(3) [OF inv assms(2)] by (auto simp: pt_phase_def pt_knows_def)
  show "pt_outside (pt_pcs s t) \<or> (\<exists>u<N. pt_run (win_ops dest) u s \<noteq> s \<or> pt_pcs s u = Pt_undefined)"
  proof (cases "\<exists>c. pt_pcs s t = Pt_spin c \<and> pt_once s \<noteq> 2")
    case True
    then have "pt_once s \<noteq> 0" using pt_invD(3) [OF inv assms(2)] by (auto simp: pt_knows_def)
    then obtain u where u: "u < N" "pt_runner (pt_pcs s u)" using True pt_invD(1) [OF inv] by (auto simp: pt_phase_def)
    then show ?thesis using pt_moves [of s u "win_ops dest"] by (auto simp: pt_runner_def pt_outside_def split: pt_pc.splits)
  next
    case False
    then show ?thesis using pt_moves [of s t "win_ops dest"] assms(2) by auto
  qed
qed

theorem per_thread_waiter_correct_witness: "pt_created (demo_pt 6) = 1 \<and> (\<exists>u. pt_run (win_ops 7) u (demo_pt 2) \<noteq> demo_pt 2)"
proof -
  have "pt_created (demo_pt 6) = 1" using per_thread_waiter_correct [OF demo_pt_reach, of 0 6] demo_pt_end(1) by simp
  moreover have "pt_run (win_ops 7) 0 (demo_pt 2) \<noteq> demo_pt 2"
    by (rule pt_moves) (simp_all add: demo_pt_end(3) pt_outside_def)
  ultimately show ?thesis by blast
qed

end
