(* ===== verification/Cxx.thy ===== *)
theory Cxx
  imports Sem "HOL-Library.Signed_Division"
begin

text \<open>
  The C++11 versions of the platform layer: the conversions between times and time points and the
  sleep of \<^verbatim>\<open>platform/c++11/src/time_rep_timespec.cc\<close> (whose other functions are those of
  theory \<open>Time\<close>), the semaphore of \<^verbatim>\<open>platform/c++11/src/nsync_semaphore_mutex.cc\<close>, and the timed
  wait on a condition variable of \<^verbatim>\<open>platform/c++11/platform.h\<close>.  A time point of
  \<^verbatim>\<open>std::chrono::system_clock\<close> is its number of ticks since the epoch; \<open>tick\<close>, the nanoseconds in
  a tick, depends on the C++ library.  \<open>None\<close> is an overflow of \<^verbatim>\<open>int64_t\<close>.
\<close>

section \<open>Time points\<close>

definition nsync_from_time_point :: "int \<Rightarrow> int \<Rightarrow> nsync_time option" where
  "nsync_from_time_point tick tp =
     map_option (\<lambda>ns. let sec = ns sdiv NSYNC_NS_IN_S in Timespec sec (ns - sec * NSYNC_NS_IN_S)) (i64 (tp * tick))"

text \<open>The sum of nanoseconds on lines 69--70 and 84--85 and in \<^verbatim>\<open>nsync_pthread_cond_timedwait_\<close>.\<close>

definition all_ns :: "nsync_time \<Rightarrow> int option" where
  "all_ns t = (case i64 (NSYNC_NS_IN_S * tv_sec t) of None \<Rightarrow> None | Some x \<Rightarrow> i64 (tv_nsec t + x))"

definition nsync_to_time_point :: "int \<Rightarrow> nsync_time \<Rightarrow> int option" where
  "nsync_to_time_point tick t = map_option (\<lambda>t_ns. t_ns sdiv tick) (all_ns t)"

text \<open>\<open>start\<close> and \<open>actual_end\<close> are what \<^verbatim>\<open>nsync_time_now\<close> returns before and after the sleep.\<close>

definition cxx_time_sleep :: "nsync_time \<Rightarrow> nsync_time \<Rightarrow> nsync_time \<Rightarrow> nsync_time option" where
  "cxx_time_sleep start actual_end delay =
     (case nsync_time_add start delay of
        None \<Rightarrow> None
      | Some expected_end \<Rightarrow>
          (case all_ns delay of
             None \<Rightarrow> None
           | Some delay_ns \<Rightarrow>
               if nsync_time_cmp actual_end expected_end < 0 then nsync_time_sub expected_end actual_end
               else Some nsync_time_zero))"

section \<open>Semaphore\<close>

text \<open>One call of \<^verbatim>\<open>cv.wait_until\<close>: whether it reports a timeout, the clock, and the count found afterwards.\<close>

record cxx_obs =
  x_timeout :: bool
  x_now :: nsync_time
  x_count :: u32

fun cxx_semaphore_p :: "u32 \<Rightarrow> cxx_obs list \<Rightarrow> sem_result option" where
  "cxx_semaphore_p i [] = (if i = 0 then None else Some (Acquired 0))"
| "cxx_semaphore_p i (x # xs) = (if i = 0 then cxx_semaphore_p (x_count x) xs else Some (Acquired 0))"

definition cxx_timedwait_end :: "bool \<Rightarrow> u32 \<Rightarrow> sem_result" where
  "cxx_timedwait_end res i = (if i \<noteq> 0 then Acquired 0 else if res then Timed_out else Acquired 0)"

fun cxx_timedwait :: "nsync_time \<Rightarrow> bool \<Rightarrow> u32 \<Rightarrow> cxx_obs list \<Rightarrow> sem_result option" where
  "cxx_timedwait abs_deadline res i [] = (if i = 0 then None else Some (cxx_timedwait_end res i))"
| "cxx_timedwait abs_deadline res i (x # xs) =
     (if i = 0
      then (if \<not> x_timeout x \<or> x_timeout x \<and> nsync_time_cmp abs_deadline (x_now x) > 0
            then cxx_timedwait abs_deadline (x_timeout x) (x_count x) xs
            else Some (cxx_timedwait_end (x_timeout x) (x_count x)))
      else Some (cxx_timedwait_end res i))"

text \<open>\<open>Crash\<close> stands for the overflow of the conversion, which is undefined.\<close>

definition cxx_semaphore_p_with_deadline :: "int \<Rightarrow> nsync_time \<Rightarrow> u32 \<Rightarrow> cxx_obs list \<Rightarrow> sem_result option" where
  "cxx_semaphore_p_with_deadline tick abs_deadline i xs =
     (if nsync_time_cmp abs_deadline nsync_time_no_deadline = 0 then cxx_semaphore_p i xs
      else (case nsync_to_time_point tick abs_deadline of
              None \<Rightarrow> Some Crash
            | Some tp_deadline \<Rightarrow> cxx_timedwait abs_deadline False i xs))"

definition cxx_semaphore_v :: "u32 \<Rightarrow> u32" where
  "cxx_semaphore_v i = 1"

section \<open>Condition variable\<close>

text \<open>
  \<open>wait_until\<close> is what \<^verbatim>\<open>std::condition_variable::wait_until\<close> reports for the deadline, in
  nanoseconds since the epoch.  The result: whether \<^verbatim>\<open>ETIMEDOUT\<close> is returned.
\<close>

definition cxx_cond_timedwait :: "(int \<Rightarrow> bool) \<Rightarrow> nsync_time option \<Rightarrow> bool option" where
  "cxx_cond_timedwait wait_until abstimeout =
     (case abstimeout of
        None \<Rightarrow> Some False
      | Some t \<Rightarrow> if tv_sec t \<ge> 0x7fffffff then Some False else map_option wait_until (all_ns t))"

section \<open>Conversions\<close>

lemma sdiv_bounds:
  fixes x K :: int
  assumes "0 < K"
  shows "0 \<le> x \<Longrightarrow> x sdiv K = x div K" "x < 0 \<Longrightarrow> x sdiv K = - ((- x) div K)"
  using assms by (simp_all add: signed_divide_int_def sgn_if)

lemma sdiv_multiple:
  fixes q K :: int
  assumes "0 < K"
  shows "(q * K) sdiv K = q"
proof (cases "0 \<le> q * K")
  case True
  then show ?thesis using sdiv_bounds(1) [OF assms True] assms by simp
next
  case False
  have "(- (q * K)) div K = - q" using nonzero_mult_div_cancel_right [of K "- q"] assms by simp
  then show ?thesis using sdiv_bounds(2) [OF assms, of "q * K"] False by simp
qed

text \<open>The remainder after truncation has the sign of the number.\<close>

lemma trunc_rest:
  fixes x K :: int
  assumes "0 < K"
  shows "0 \<le> x \<Longrightarrow> 0 \<le> x - x sdiv K * K \<and> x - x sdiv K * K < K" "x < 0 \<Longrightarrow> - K < x - x sdiv K * K \<and> x - x sdiv K * K \<le> 0"
    "\<bar>x sdiv K * K\<bar> \<le> \<bar>x\<bar>"
proof -
  show a: "0 \<le> x \<Longrightarrow> 0 \<le> x - x sdiv K * K \<and> x - x sdiv K * K < K"
    using sdiv_bounds(1) [OF assms, of x] assms minus_mult_div_eq_mod [of x K]
    by (simp add: mult.commute [of _ K])
  show b: "x < 0 \<Longrightarrow> - K < x - x sdiv K * K \<and> x - x sdiv K * K \<le> 0"
    using sdiv_bounds(2) [OF assms, of x] assms minus_mult_div_eq_mod [of "- x" K] pos_mod_bound [OF assms, of "- x"] pos_mod_sign [OF assms, of "- x"]
    by (simp add: mult.commute [of _ K])
  show "\<bar>x sdiv K * K\<bar> \<le> \<bar>x\<bar>"
  proof (cases "0 \<le> x")
    case True
    have "0 \<le> x div K * K" using True assms by (simp add: pos_imp_zdiv_nonneg_iff)
    then show ?thesis using a [OF True] sdiv_bounds(1) [OF assms True] by simp
  next
    case False
    have "0 \<le> (- x) div K * K" using False assms by (simp add: pos_imp_zdiv_nonneg_iff)
    then show ?thesis using b False sdiv_bounds(2) [OF assms, of x] by simp
  qed
qed

lemma from_time_point_ns:
  assumes "nsync_from_time_point tick tp = Some t"
  shows "time_ns t = tp * tick" "all_ns t = Some (tp * tick)" "time_ok t \<longleftrightarrow> 0 \<le> tp * tick \<or> tv_nsec t = 0"
proof -
  let ?ns = "tp * tick"
  have r: "- (2 ^ 63) \<le> ?ns" "?ns < 2 ^ 63" and t: "t = Timespec (?ns sdiv NSYNC_NS_IN_S) (?ns - ?ns sdiv NSYNC_NS_IN_S * NSYNC_NS_IN_S)"
    using assms by (auto simp: nsync_from_time_point_def i64_Some Let_def)
  show n: "time_ns t = ?ns" by (simp add: t time_ns_def)
  have K: "(0 :: int) < NSYNC_NS_IN_S" by (simp add: NSYNC_NS_IN_S_def)
  note T = trunc_rest [OF K, of ?ns]
  have s: "- (2 ^ 63) \<le> NSYNC_NS_IN_S * tv_sec t" "NSYNC_NS_IN_S * tv_sec t < 2 ^ 63"
  proof -
    have "\<bar>NSYNC_NS_IN_S * tv_sec t\<bar> \<le> \<bar>?ns\<bar>" "0 \<le> ?ns \<Longrightarrow> NSYNC_NS_IN_S * tv_sec t \<le> ?ns" "?ns < 0 \<Longrightarrow> NSYNC_NS_IN_S * tv_sec t \<le> 0"
      using T sdiv_bounds(2) [OF K, of ?ns] K by (auto simp: t mult.commute [of NSYNC_NS_IN_S] pos_imp_zdiv_nonneg_iff)
    then show "- (2 ^ 63) \<le> NSYNC_NS_IN_S * tv_sec t" "NSYNC_NS_IN_S * tv_sec t < 2 ^ 63" using r by linarith+
  qed
  then show "all_ns t = Some ?ns" using r n by (simp add: all_ns_def i64_def time_ns_def algebra_simps)
  have "- (2 ^ 63) \<le> tv_sec t" "tv_sec t < 2 ^ 63" using s unfolding NSYNC_NS_IN_S_def by linarith+
  then show "time_ok t \<longleftrightarrow> 0 \<le> ?ns \<or> tv_nsec t = 0" using T(1,2) K by (cases "0 \<le> ?ns") (auto simp: t time_ok_def)
qed

lemma all_ns_Some: "all_ns t = Some x \<Longrightarrow> x = time_ns t"
  by (auto simp: all_ns_def i64_Some time_ns_def split: option.splits)

lemma to_time_point_near:
  assumes "0 < tick" "nsync_to_time_point tick t = Some tp" "0 \<le> time_ns t"
  shows "tp * tick \<le> time_ns t \<and> time_ns t < tp * tick + tick"
proof -
  have "tp = time_ns t sdiv tick" using assms(2) all_ns_Some by (auto simp: nsync_to_time_point_def)
  then show ?thesis using trunc_rest(1) [OF assms(1) assms(3)] by auto
qed

section \<open>The contract of the semaphore\<close>

definition cxx_grant :: "cxx_obs \<Rightarrow> bool" where
  "cxx_grant x \<longleftrightarrow> x_count x \<noteq> 0"

lemma cxx_timedwait_res: "cxx_timedwait d r i xs = cxx_timedwait d False i xs"
  by (cases xs) (auto simp: cxx_timedwait_end_def)

interpretation cxx_sem: deadline_sem "\<lambda>d. cxx_timedwait d False 0" cxx_grant x_now "\<lambda>d _. \<not> no_deadline d"
proof unfold_locales
  fix e :: cxx_obs and d es
  show "cxx_grant e \<Longrightarrow> \<exists>n. cxx_timedwait d False 0 (e # es) = Some (Acquired n)"
    by (cases es) (auto simp: cxx_grant_def cxx_timedwait_end_def)
  assume "\<not> no_deadline d"
  then show "\<not> cxx_grant e \<Longrightarrow> cxx_timedwait d False 0 (e # es) = cxx_timedwait d False 0 es \<or>
      cxx_timedwait d False 0 (e # es) = Some Timed_out \<and> \<not> no_deadline d \<and> nsync_time_cmp d (x_now e) \<le> 0"
    using cxx_timedwait_res [of d "x_timeout e" 0 es] by (auto simp: cxx_grant_def cxx_timedwait_end_def)
qed simp

section \<open>Properties\<close>

text \<open>C27. Time points of C++11: a time made from a time point stands for the same nanoseconds, and the
  time point made from it is the one it came from; it is well formed, with nanoseconds from 0 to 999999999,
  just if it does not lie before the epoch or has whole seconds.  A time point made from a time
  after the epoch is less than a tick before it.\<close>

theorem time_points_correct:
  assumes "0 < tick" "nsync_from_time_point tick tp = Some t" "nsync_to_time_point tick u = Some tq" "0 \<le> time_ns u"
  shows "time_ns t = tp * tick \<and> nsync_to_time_point tick t = Some tp \<and> (time_ok t \<longleftrightarrow> 0 \<le> tp \<or> tp * tick mod NSYNC_NS_IN_S = 0) \<and>
    tq * tick \<le> time_ns u \<and> time_ns u < tq * tick + tick"
proof -
  note F = from_time_point_ns [OF assms(2)]
  have "nsync_to_time_point tick t = Some tp" using F(2) sdiv_multiple [OF assms(1)] by (simp add: nsync_to_time_point_def)
  moreover have K: "(0 :: int) < NSYNC_NS_IN_S" by (simp add: NSYNC_NS_IN_S_def)
  have "tv_nsec t = 0 \<longleftrightarrow> tp * tick mod NSYNC_NS_IN_S = 0"
  proof -
    have v: "tv_nsec t = tp * tick - tv_sec t * NSYNC_NS_IN_S" using F(1) by (simp add: time_ns_def)
    have lt: "\<bar>tv_nsec t\<bar> < NSYNC_NS_IN_S"
      using assms(2) trunc_rest(1,2) [OF K, of "tp * tick"] by (cases "0 \<le> tp * tick") (auto simp: nsync_from_time_point_def Let_def i64_Some)
    have "tp * tick mod NSYNC_NS_IN_S = tv_nsec t mod NSYNC_NS_IN_S" unfolding v by (simp add: mod_diff_eq [symmetric])
    moreover have "tv_nsec t mod NSYNC_NS_IN_S = 0 \<longleftrightarrow> tv_nsec t = 0"
      using lt zdvd_imp_le [of NSYNC_NS_IN_S "\<bar>tv_nsec t\<bar>"] by (auto simp: mod_eq_0_iff_dvd)
    ultimately show ?thesis by simp
  qed
  moreover have "0 \<le> tp * tick \<longleftrightarrow> 0 \<le> tp" using assms(1) by (simp add: zero_le_mult_iff)
  ultimately show ?thesis using F(1,3) to_time_point_near [OF assms(1,3,4)] by simp
qed

theorem time_points_correct_witness:
  "nsync_from_time_point 100 (-5) = Some (Timespec 0 (-500)) \<and> \<not> time_ok (Timespec 0 (-500)) \<and> nsync_to_time_point 100 (Timespec 0 (-500)) = Some (-5)"
proof -
  have f: "nsync_from_time_point 100 (-5) = Some (Timespec 0 (-500))"
    by (simp add: nsync_from_time_point_def i64_def NSYNC_NS_IN_S_def signed_divide_int_def)
  have g: "nsync_to_time_point 100 (Timespec 2 50) = Some 20000000"
    by (simp add: nsync_to_time_point_def all_ns_def i64_def NSYNC_NS_IN_S_def signed_divide_int_def)
  show ?thesis using time_points_correct [OF _ f g] f by (simp add: time_ns_def NSYNC_NS_IN_S_def)
qed

text \<open>The C++11 semaphore keeps the contract of \<^verbatim>\<open>nsync_mu_semaphore_p_with_deadline\<close> for every
  deadline that a time point can express, however early \<^verbatim>\<open>wait_until\<close> times out: success only with
  a count, a timeout only after the deadline, and a return once there is a count.\<close>

theorem cxx_semaphore_correct:
  assumes "nsync_to_time_point tick d = Some tp" "d < nsync_time_no_deadline"
  shows "(\<forall>r. cxx_semaphore_p_with_deadline tick d i xs = Some r \<longrightarrow>
      (\<exists>n. r = Acquired n) \<and> (i \<noteq> 0 \<or> (\<exists>e\<in>set xs. x_count e \<noteq> 0)) \<or>
      r = Timed_out \<and> i = 0 \<and> (\<exists>e\<in>set xs. nsync_time_cmp d (x_now e) \<le> 0)) \<and>
    (i \<noteq> 0 \<or> (\<exists>e\<in>set xs. x_count e \<noteq> 0) \<longrightarrow> cxx_semaphore_p_with_deadline tick d i xs \<noteq> None)"
proof -
  have w: "cxx_semaphore_p_with_deadline tick d i xs = cxx_timedwait d False i xs"
    using assms by (auto simp: cxx_semaphore_p_with_deadline_def cmp_order_time)
  have "\<not> no_deadline d" using assms(2) by (auto simp: no_deadline_def cmp_order_time)
  then have l: "list_all (\<lambda>_. \<not> no_deadline d) xs" by (simp add: list_all_iff)
  show ?thesis
  proof (cases "i = 0")
    case True
    then show ?thesis using cxx_sem.wait_contract [OF l] unfolding w cxx_grant_def by blast
  next
    case False
    then show ?thesis unfolding w by (cases xs) (auto simp: cxx_timedwait_end_def)
  qed
qed

theorem cxx_semaphore_correct_witness:
  "cxx_semaphore_p_with_deadline 1 (Timespec 5 0) 0 [\<lparr>x_timeout = True, x_now = Timespec 4 0, x_count = 0\<rparr>,
     \<lparr>x_timeout = True, x_now = Timespec 5 1, x_count = 1\<rparr>] \<noteq> None"
proof -
  have "nsync_to_time_point 1 (Timespec 5 0) = Some 5000000000"
    by (simp add: nsync_to_time_point_def all_ns_def i64_def NSYNC_NS_IN_S_def signed_divide_int_def)
  moreover have "Timespec 5 0 < nsync_time_no_deadline" by (simp add: nsync_time_no_deadline_def less_nsync_time_def)
  ultimately show ?thesis using cxx_semaphore_correct by auto
qed

text \<open>The sleep reports what is left of the delay.\<close>

lemma cxx_sleep_remains:
  assumes "time_ok start" "time_ok actual_end" "time_ok delay" "cxx_time_sleep start actual_end delay = Some r"
  shows "time_ok r \<and> time_ns r = max 0 (time_ns start + time_ns delay - time_ns actual_end)"
proof -
  obtain e where e: "nsync_time_add start delay = Some e" using assms(4) by (auto simp: cxx_time_sleep_def split: option.splits)
  have E: "time_ok e" "time_ns e = time_ns start + time_ns delay" using time_add_ns [OF assms(1,3) e] by auto
  have c: "nsync_time_cmp actual_end e < 0 \<longleftrightarrow> time_ns actual_end < time_ns e" using timespec.cmp_ns [OF assms(2) E(1)] by (simp add: sgn_if)
  show ?thesis
  proof (cases "nsync_time_cmp actual_end e < 0")
    case True
    then have "nsync_time_sub e actual_end = Some r" using assms(4) e by (auto simp: cxx_time_sleep_def split: option.splits)
    then show ?thesis using time_sub_ns [OF E(1) assms(2)] True c E(2) by simp
  next
    case False
    then have "r = nsync_time_zero" using assms(4) e by (auto simp: cxx_time_sleep_def split: option.splits)
    then show ?thesis using False c E(2) by (simp add: time_ok_def time_ns_def nsync_time_zero_def NSYNC_NS_IN_S_def)
  qed
qed

text \<open>
  The timed wait on a condition variable never times out for a deadline of \<open>2 ^ 31 - 1\<close> seconds
  after the epoch, in January 2038, or later.
\<close>

lemma cxx_cond_timedwait_2038: "2 ^ 31 - 1 \<le> tv_sec t \<Longrightarrow> cxx_cond_timedwait w (Some t) = Some False"
  by (simp add: cxx_cond_timedwait_def)

end
