(* ===== verification/Cxx_Once.thy ===== *)
theory Cxx_Once
  imports Once Monitor
begin

text \<open>
  \<^verbatim>\<open>nsync_pthread_once_\<close> of \<^verbatim>\<open>platform/c++11/platform.h\<close>, as a system of threads: initialisers
  that all use one \<^verbatim>\<open>std::mutex\<close> and one \<^verbatim>\<open>std::condition_variable\<close>.  It implements the
  specification of theory \<open>Once\<close>.  A step is a statement of the source; a thread that sleeps in
  \<^verbatim>\<open>cv.wait\<close> goes back to the mutex when it is notified, or at any other time.
\<close>

section \<open>The program\<close>

datatype co_at =
    Co_lock | Co_test | Co_leave | Co_call | Co_in | Co_relock | Co_store | Co_notify
  | Co_check | Co_wait | Co_wake | Co_final | Co_returned

text \<open>A thread is outside, or at a place in a call for a word.  \<open>co_begun\<close> and \<open>co_ended\<close> count the calls of \<^verbatim>\<open>f\<close>.\<close>

type_synonym co_pc = "(co_at \<times> addr) option"

record co_sys =
  co_word :: "addr \<Rightarrow> int"
  co_mu :: "tid option"
  co_begun :: "addr \<Rightarrow> nat"
  co_ended :: "addr \<Rightarrow> nat"
  co_pcs :: "tid \<Rightarrow> co_pc"

definition co_init :: co_sys where
  "co_init = \<lparr>co_word = \<lambda>_. 0, co_mu = None, co_begun = \<lambda>_. 0, co_ended = \<lambda>_. 0, co_pcs = \<lambda>_. None\<rparr>"

definition co_goto :: "tid \<Rightarrow> co_pc \<Rightarrow> co_sys \<Rightarrow> co_sys" where
  "co_goto t q s = s\<lparr>co_pcs := (co_pcs s)(t := q)\<rparr>"

definition co_enter :: "tid \<Rightarrow> co_pc \<Rightarrow> co_sys \<Rightarrow> co_sys" where
  "co_enter t q s = (if co_mu s = None then co_goto t q (s\<lparr>co_mu := Some t\<rparr>) else s)"

definition co_release :: "tid \<Rightarrow> co_pc \<Rightarrow> co_sys \<Rightarrow> co_sys" where
  "co_release t q s = co_goto t q (s\<lparr>co_mu := None\<rparr>)"

definition co_woken :: "co_pc \<Rightarrow> co_pc" where
  "co_woken q = (case q of Some (Co_wait, p) \<Rightarrow> Some (Co_wake, p) | _ \<Rightarrow> q)"

definition co_notify_all :: "co_sys \<Rightarrow> co_sys" where
  "co_notify_all s = s\<lparr>co_pcs := (\<lambda>u. co_woken (co_pcs s u))\<rparr>"

fun nsync_pthread_once :: "tid \<Rightarrow> co_at \<Rightarrow> addr \<Rightarrow> co_sys \<Rightarrow> co_sys" where
  "nsync_pthread_once t Co_lock p s = co_enter t (Some (Co_test, p)) s"
| "nsync_pthread_once t Co_test p s =
     (if co_word s p = 0 then co_goto t (Some (Co_leave, p)) (s\<lparr>co_word := (co_word s)(p := 1)\<rparr>)
      else co_goto t (Some (Co_check, p)) s)"
| "nsync_pthread_once t Co_leave p s = co_release t (Some (Co_call, p)) s"
| "nsync_pthread_once t Co_call p s = co_goto t (Some (Co_in, p)) (s\<lparr>co_begun := (co_begun s)(p := co_begun s p + 1)\<rparr>)"
| "nsync_pthread_once t Co_in p s = co_goto t (Some (Co_relock, p)) (s\<lparr>co_ended := (co_ended s)(p := co_ended s p + 1)\<rparr>)"
| "nsync_pthread_once t Co_relock p s = co_enter t (Some (Co_store, p)) s"
| "nsync_pthread_once t Co_store p s = co_goto t (Some (Co_notify, p)) (s\<lparr>co_word := (co_word s)(p := 2)\<rparr>)"
| "nsync_pthread_once t Co_notify p s = co_goto t (Some (Co_final, p)) (co_notify_all s)"
| "nsync_pthread_once t Co_check p s =
     (if co_word s p \<noteq> 2 then co_release t (Some (Co_wait, p)) s else co_goto t (Some (Co_final, p)) s)"
| "nsync_pthread_once t Co_wait p s = co_goto t (Some (Co_wake, p)) s"
| "nsync_pthread_once t Co_wake p s = co_enter t (Some (Co_check, p)) s"
| "nsync_pthread_once t Co_final p s = co_release t (Some (Co_returned, p)) s"
| "nsync_pthread_once t Co_returned p s = s"

definition co_run :: "tid \<Rightarrow> co_sys \<Rightarrow> co_sys" where
  "co_run t s = (case co_pcs s t of None \<Rightarrow> s | Some (x, p) \<Rightarrow> nsync_pthread_once t x p s)"

definition co_outside :: "co_pc \<Rightarrow> bool" where
  "co_outside q = (case q of None \<Rightarrow> True | Some (x, _) \<Rightarrow> x = Co_returned)"

inductive co_step :: "nat \<Rightarrow> co_sys \<Rightarrow> co_sys \<Rightarrow> bool" for N where
  run: "t < N \<Longrightarrow> co_step N s (co_run t s)"
| call: "t < N \<Longrightarrow> co_outside (co_pcs s t) \<Longrightarrow> co_step N s (co_goto t (Some (Co_lock, p)) s)"

section \<open>The invariant\<close>

definition co_inside :: "co_pc \<Rightarrow> bool" where
  "co_inside q = (case q of None \<Rightarrow> False | Some (x, _) \<Rightarrow> x \<in> {Co_test, Co_leave, Co_store, Co_notify, Co_check, Co_final})"

text \<open>The thread that calls \<^verbatim>\<open>f\<close>, and how far it is.\<close>

definition co_runner :: "addr \<Rightarrow> co_pc \<Rightarrow> bool" where
  "co_runner p q \<longleftrightarrow> q \<in> {Some (Co_leave, p), Some (Co_call, p), Some (Co_in, p), Some (Co_relock, p), Some (Co_store, p)}"

definition co_done :: "co_pc \<Rightarrow> nat \<times> nat" where
  "co_done q = (case q of Some (Co_in, _) \<Rightarrow> (1, 0) | Some (Co_relock, _) \<Rightarrow> (1, 1) | Some (Co_store, _) \<Rightarrow> (1, 1) | _ \<Rightarrow> (0, 0))"

definition co_counts :: "co_sys \<Rightarrow> addr \<Rightarrow> nat \<times> nat" where
  "co_counts s p = (co_begun s p, co_ended s p)"

definition co_phase :: "nat \<Rightarrow> co_sys \<Rightarrow> addr \<Rightarrow> bool" where
  "co_phase N s p \<longleftrightarrow>
     co_word s p = 0 \<and> co_counts s p = (0, 0) \<and> (\<forall>t<N. \<not> co_runner p (co_pcs s t)) \<or>
     co_word s p = 1 \<and>
       (\<exists>t<N. co_runner p (co_pcs s t) \<and> (\<forall>u<N. co_runner p (co_pcs s u) \<longrightarrow> u = t) \<and> co_counts s p = co_done (co_pcs s t)) \<or>
     co_word s p = 2 \<and> co_counts s p = (1, 1) \<and> (\<forall>t<N. \<not> co_runner p (co_pcs s t))"

definition co_notifying :: "co_sys \<Rightarrow> bool" where
  "co_notifying s \<longleftrightarrow> (\<exists>u r. co_pcs s u = Some (Co_notify, r))"

text \<open>What a thread knows of its word; a sleeper's initialiser is running, or the sleeper is about to be notified.\<close>

definition co_knows :: "co_sys \<Rightarrow> co_pc \<Rightarrow> bool" where
  "co_knows s q = (case q of None \<Rightarrow> True | Some (x, p) \<Rightarrow>
     (x \<in> {Co_check, Co_wait, Co_wake} \<longrightarrow> co_word s p \<noteq> 0) \<and>
     (x \<in> {Co_notify, Co_final, Co_returned} \<longrightarrow> co_word s p = 2) \<and>
     (x = Co_wait \<longrightarrow> co_word s p = 1 \<or> co_notifying s))"

definition co_inv :: "nat \<Rightarrow> co_sys \<Rightarrow> bool" where
  "co_inv N s \<longleftrightarrow> (\<forall>p. co_phase N s p) \<and> owns_ok N co_inside (co_pcs s) (co_mu s) \<and>
     (\<forall>t. co_knows s (co_pcs s t)) \<and> (\<forall>t. N \<le> t \<longrightarrow> co_pcs s t = None)"

lemma co_invD:
  assumes "co_inv N s"
  shows "co_phase N s p" "owns_ok N co_inside (co_pcs s) (co_mu s)" "co_knows s (co_pcs s t)" "N \<le> t \<Longrightarrow> co_pcs s t = None"
  using assms by (auto simp: co_inv_def)

lemma co_goto_fields [simp]:
  "co_word (co_goto t q s) = co_word s" "co_mu (co_goto t q s) = co_mu s" "co_begun (co_goto t q s) = co_begun s"
  "co_ended (co_goto t q s) = co_ended s" "co_pcs (co_goto t q s) = (co_pcs s)(t := q)"
  by (simp_all add: co_goto_def)

lemma co_phase_runner:
  assumes "co_phase N s p" "t < N" "co_runner p (co_pcs s t)"
  shows "co_word s p = 1" "u < N \<Longrightarrow> co_runner p (co_pcs s u) \<Longrightarrow> u = t" "co_counts s p = co_done (co_pcs s t)"
  using assms unfolding co_phase_def by metis+

lemma co_done_le: "fst (co_done q) \<le> 1 \<and> snd (co_done q) \<le> fst (co_done q)"
proof (cases q)
  case (Some y)
  obtain x p where y: "y = (x, p)" by fastforce
  show ?thesis by (cases x) (simp_all add: Some y co_done_def)
qed (simp add: co_done_def)

lemma co_phase_counts:
  assumes "co_phase N s p"
  shows "fst (co_counts s p) \<le> 1 \<and> snd (co_counts s p) \<le> fst (co_counts s p)"
proof -
  have "co_counts s p = (0, 0) \<or> co_counts s p = (1, 1) \<or> (\<exists>q. co_counts s p = co_done q)"
    using assms unfolding co_phase_def by blast
  then show ?thesis using co_done_le by auto
qed

text \<open>How a step of thread \<open>t\<close> keeps the phase of a word, starts it or ends it.\<close>

lemma co_phase_keep:
  assumes "co_phase N s p" "\<And>u. co_runner p (co_pcs s u) \<or> co_runner p (co_pcs s' u) \<Longrightarrow> co_pcs s' u = co_pcs s u"
    "co_word s' p = co_word s p" "co_counts s' p = co_counts s p"
  shows "co_phase N s' p"
proof -
  have "co_runner p (co_pcs s' u) = co_runner p (co_pcs s u)" for u using assms(2) [of u] by auto
  moreover have "co_runner p (co_pcs s u) \<Longrightarrow> co_done (co_pcs s' u) = co_done (co_pcs s u)" for u using assms(2) [of u] by simp
  ultimately show ?thesis using assms(1) unfolding co_phase_def assms(3,4) by metis
qed

lemma co_phase_advance:
  assumes "co_phase N s p" "t < N" "co_runner p (co_pcs s t)" "co_pcs s' = (co_pcs s)(t := q)" "co_runner p q"
    "co_word s' p = co_word s p" "co_counts s' p = co_done q"
  shows "co_phase N s' p"
proof -
  note R = co_phase_runner [OF assms(1-3)]
  have "u = t" if "u < N" "co_runner p (co_pcs s' u)" for u using R(2) [OF that(1)] that(2) assms(4) by (cases "u = t") auto
  moreover have "co_word s' p = 1" "co_runner p (co_pcs s' t)" "co_counts s' p = co_done (co_pcs s' t)" using R(1) assms(4-7) by simp_all
  ultimately show ?thesis unfolding co_phase_def using assms(2) by blast
qed

lemma co_phase_start:
  assumes "co_phase N s p" "co_word s p = 0" "t < N" "co_pcs s' = (co_pcs s)(t := q)" "co_runner p q" "co_done q = (0, 0)"
    "co_word s' p = 1" "co_counts s' p = co_counts s p"
  shows "co_phase N s' p"
  using assms unfolding co_phase_def by auto

lemma co_phase_end:
  assumes "co_phase N s p" "t < N" "co_runner p (co_pcs s t)" "co_pcs s' = (co_pcs s)(t := q)" "\<not> co_runner p q" "co_done (co_pcs s t) = (1, 1)"
    "co_word s' p = 2" "co_counts s' p = co_counts s p"
  shows "co_phase N s' p"
proof -
  note R = co_phase_runner [OF assms(1-3)]
  have "\<not> co_runner p (co_pcs s' u)" if "u < N" for u using R(2) [OF that] assms(4,5) by (cases "u = t") auto
  then show ?thesis using R(3) assms(6-8) unfolding co_phase_def by simp
qed

lemma co_notifying_keep:
  assumes "co_notifying s" "co_pcs s' = (co_pcs s)(t := q)" "\<And>p. co_pcs s t \<noteq> Some (Co_notify, p)"
  shows "co_notifying s'"
proof -
  obtain u r where u: "co_pcs s u = Some (Co_notify, r)" using assms(1) by (auto simp: co_notifying_def)
  then have "u \<noteq> t" using assms(3) by auto
  then show ?thesis using u assms(2) by (auto simp: co_notifying_def)
qed

text \<open>A step of thread \<open>t\<close>: what is left to show.\<close>

lemma co_inv_step:
  assumes i: "co_inv N s" and t: "t < N" and p: "co_pcs s' = (co_pcs s)(t := q)" and ph: "\<And>p. co_phase N s' p"
    and m: "owns_ok N co_inside ((co_pcs s)(t := q)) (co_mu s')" and q: "co_knows s' q"
    and w: "\<And>p. co_word s p \<noteq> 0 \<Longrightarrow> co_word s' p \<noteq> 0" "\<And>p. co_word s p = 2 \<Longrightarrow> co_word s' p = 2"
    and n: "\<And>p. co_word s p = 1 \<Longrightarrow> co_word s' p = 1 \<or> co_notifying s'" "co_notifying s \<Longrightarrow> co_notifying s'"
  shows "co_inv N s'"
proof -
  have "co_knows s' (co_pcs s u)" for u
    using co_invD(3) [OF i, of u] w n unfolding co_knows_def by (auto split: option.splits)
  then show ?thesis using ph m q p t co_invD(4) [OF i] by (auto simp: co_inv_def)
qed

text \<open>Moves that change no word and no count, of threads that are not calling \<^verbatim>\<open>f\<close> and not notifying.\<close>

lemma co_inv_quiet:
  assumes i: "co_inv N s" and t: "t < N" and p: "co_pcs s' = (co_pcs s)(t := q)"
    and e: "co_word s' = co_word s" "co_begun s' = co_begun s" "co_ended s' = co_ended s"
    and r: "\<And>p. \<not> co_runner p (co_pcs s t)" "\<And>p. \<not> co_runner p q" "\<And>p. co_pcs s t \<noteq> Some (Co_notify, p)"
    and m: "owns_ok N co_inside ((co_pcs s)(t := q)) (co_mu s')" and q: "co_knows s' q"
  shows "co_inv N s'"
proof (rule co_inv_step [OF i t p _ m q])
  show "co_phase N s' x" for x
    by (rule co_phase_keep [OF co_invD(1) [OF i]]) (use p e r in \<open>auto simp: co_counts_def split: if_splits\<close>)
  show "co_notifying s \<Longrightarrow> co_notifying s'" by (rule co_notifying_keep [OF _ p r(3)])
qed (use e in auto)

text \<open>Moves of the thread that calls \<^verbatim>\<open>f\<close>.\<close>

lemma co_inv_advance:
  assumes i: "co_inv N s" and t: "t < N" and p: "co_pcs s' = (co_pcs s)(t := q)" and r: "co_runner a (co_pcs s t)" "co_runner a q"
    and e: "co_word s' = co_word s" "co_counts s' a = co_done q" "\<And>b. b \<noteq> a \<Longrightarrow> co_counts s' b = co_counts s b"
    and m: "owns_ok N co_inside ((co_pcs s)(t := q)) (co_mu s')"
  shows "co_inv N s'"
proof (rule co_inv_step [OF i t p _ m])
  have o: "\<not> co_runner b (co_pcs s t)" "\<not> co_runner b q" if "b \<noteq> a" for b using r that by (auto simp: co_runner_def)
  show "co_phase N s' x" for x
  proof (cases "x = a")
    case True
    then show ?thesis using co_phase_advance [OF co_invD(1) [OF i] t r(1) p r(2)] e by simp
  next
    case False
    then show ?thesis using o [OF False] p e by (intro co_phase_keep [OF co_invD(1) [OF i]]) (auto split: if_splits)
  qed
  show "co_notifying s \<Longrightarrow> co_notifying s'" by (rule co_notifying_keep [OF _ p]) (use r(1) in \<open>auto simp: co_runner_def\<close>)
  show "co_knows s' q" using r(2) by (auto simp: co_runner_def co_knows_def)
qed (use e in auto)

lemma co_not_notifying:
  assumes "co_inv N s" "t < N" "co_inside (co_pcs s t)" "\<And>p. co_pcs s t \<noteq> Some (Co_notify, p)"
  shows "\<not> co_notifying s"
proof
  assume "co_notifying s"
  then obtain u r where u: "co_pcs s u = Some (Co_notify, r)" by (auto simp: co_notifying_def)
  then have "u < N" using co_invD(4) [OF assms(1), of u] by (cases "u < N") auto
  then have "u = t" using owns_one [OF co_invD(2) [OF assms(1)] assms(2) _ assms(3)] u by (simp add: co_inside_def)
  then show False using u assms(4) by blast
qed

lemmas co_points = co_inside_def co_runner_def co_knows_def co_done_def co_counts_def co_release_def co_enter_def

lemma co_test_inv:
  assumes i: "co_inv N s" and t: "t < N" and q: "co_pcs s t = Some (Co_test, p)"
  shows "co_inv N (nsync_pthread_once t Co_test p s)"
proof (cases "co_word s p = 0")
  case True
  let ?s = "co_goto t (Some (Co_leave, p)) (s\<lparr>co_word := (co_word s)(p := 1)\<rparr>)"
  have ph: "co_phase N ?s x" for x
  proof (cases "x = p")
    case same: True
    then show ?thesis using True
      by (intro co_phase_start [OF co_invD(1) [OF i] _ t, of _ _ "Some (Co_leave, p)"]) (auto simp: co_points)
  next
    case False
    then show ?thesis using q
      by (intro co_phase_keep [OF co_invD(1) [OF i]]) (auto simp: co_runner_def co_counts_def split: if_splits)
  qed
  have "co_inv N ?s"
  proof (rule co_inv_step [OF i t _ ph, of "Some (Co_leave, p)"])
    show "owns_ok N co_inside ((co_pcs s)(t := Some (Co_leave, p))) (co_mu ?s)"
      using q by (auto intro!: owns_keep [OF co_invD(2) [OF i]] simp: co_inside_def)
    show "co_notifying s \<Longrightarrow> co_notifying ?s" using co_not_notifying [OF i t] q by (simp add: co_inside_def)
  qed (use True in \<open>auto simp: co_knows_def\<close>)
  then show ?thesis using True by simp
next
  case False
  have "co_inv N (co_goto t (Some (Co_check, p)) s)"
    by (rule co_inv_quiet [OF i t, of _ "Some (Co_check, p)"])
       (use q False in \<open>auto simp: co_runner_def co_knows_def co_inside_def intro!: owns_keep [OF co_invD(2) [OF i]]\<close>)
  then show ?thesis using False by simp
qed

lemma co_store_inv:
  assumes i: "co_inv N s" and t: "t < N" and q: "co_pcs s t = Some (Co_store, p)"
  shows "co_inv N (nsync_pthread_once t Co_store p s)"
proof -
  let ?s = "co_goto t (Some (Co_notify, p)) (s\<lparr>co_word := (co_word s)(p := 2)\<rparr>)"
  have run: "co_runner p (co_pcs s t)" using q by (simp add: co_runner_def)
  have ph: "co_phase N ?s x" for x
  proof (cases "x = p")
    case True
    then show ?thesis using run q
      by (intro co_phase_end [OF co_invD(1) [OF i] t, of _ _ "Some (Co_notify, p)"]) (auto simp: co_points)
  next
    case False
    then show ?thesis using q
      by (intro co_phase_keep [OF co_invD(1) [OF i]]) (auto simp: co_runner_def co_counts_def split: if_splits)
  qed
  have n: "co_notifying ?s" by (auto simp: co_notifying_def)
  have "co_inv N ?s"
  proof (rule co_inv_step [OF i t _ ph, of "Some (Co_notify, p)"])
    show "owns_ok N co_inside ((co_pcs s)(t := Some (Co_notify, p))) (co_mu ?s)"
      using q by (auto intro!: owns_keep [OF co_invD(2) [OF i]] simp: co_inside_def)
  qed (use n in \<open>auto simp: co_knows_def\<close>)
  then show ?thesis by simp
qed

lemma co_woken_points [simp]:
  "co_inside (co_woken q) = co_inside q" "co_runner p (co_woken q) = co_runner p q" "co_woken q \<noteq> Some (Co_wait, p)"
  "co_woken q = None \<longleftrightarrow> q = None" "co_done (co_woken q) = co_done q" "co_woken q = Some (Co_notify, p) \<longleftrightarrow> q = Some (Co_notify, p)"
  by (auto simp: co_woken_def co_inside_def co_runner_def co_done_def split: option.splits co_at.splits)

lemma co_knows_woken: "co_knows s q \<Longrightarrow> co_word s' = co_word s \<Longrightarrow> co_knows s' (co_woken q)"
  by (auto simp: co_woken_def co_knows_def split: option.splits co_at.splits)

lemma co_phase_woken: "co_phase N (co_notify_all s) p \<longleftrightarrow> co_phase N s p"
  by (simp add: co_phase_def co_notify_all_def co_counts_def)

text \<open>The notification: nobody sleeps afterwards.\<close>

lemma co_notify_inv:
  assumes i: "co_inv N s" and t: "t < N" and q: "co_pcs s t = Some (Co_notify, p)"
  shows "co_inv N (nsync_pthread_once t Co_notify p s)"
proof -
  let ?s = "co_goto t (Some (Co_final, p)) (co_notify_all s)"
  have w: "co_word s p = 2" using co_invD(3) [OF i, of t] q by (simp add: co_knows_def)
  have ph: "co_phase N ?s x" for x
  proof (rule co_phase_keep [of _ "co_notify_all s"])
    show "co_phase N (co_notify_all s) x" using co_invD(1) [OF i] by (simp add: co_phase_woken)
    show "co_pcs ?s u = co_pcs (co_notify_all s) u" if "co_runner x (co_pcs (co_notify_all s) u) \<or> co_runner x (co_pcs ?s u)" for u
      using that q by (auto simp: co_notify_all_def co_runner_def co_woken_def split: if_splits)
  qed (simp_all add: co_counts_def)
  have "owns_ok N co_inside (\<lambda>u. co_woken (co_pcs s u)) (co_mu s)" using co_invD(2) [OF i] by (simp add: owns_map)
  then have m: "owns_ok N co_inside ((\<lambda>u. co_woken (co_pcs s u))(t := Some (Co_final, p))) (co_mu s)"
    by (rule owns_keep) (simp add: q co_inside_def co_woken_def)
  have k: "co_knows ?s (co_woken (co_pcs s u))" for u
    by (rule co_knows_woken [OF co_invD(3) [OF i]]) (simp add: co_notify_all_def)
  have f: "co_knows ?s (Some (Co_final, p))" using w by (simp add: co_knows_def co_notify_all_def)
  have "co_knows ?s (co_pcs ?s u)" for u using k f by (simp add: co_notify_all_def)
  moreover have "owns_ok N co_inside (co_pcs ?s) (co_mu ?s)" "\<And>u. N \<le> u \<Longrightarrow> co_pcs ?s u = None"
    using m t co_invD(4) [OF i] by (simp_all add: co_notify_all_def)
  ultimately have "co_inv N ?s" unfolding co_inv_def using ph by blast
  then show ?thesis by simp
qed

text \<open>Taking the mutex.\<close>

lemma co_enter_quiet:
  assumes i: "co_inv N s" and t: "t < N" and q: "\<not> co_inside (co_pcs s t)" "co_inside q"
    "\<And>p. \<not> co_runner p (co_pcs s t)" "\<And>p. \<not> co_runner p q" "co_knows s q" "\<And>p. q \<noteq> Some (Co_wait, p)"
  shows "co_inv N (co_enter t q s)"
proof (cases "co_mu s")
  case None
  have "co_inv N (co_goto t q (s\<lparr>co_mu := Some t\<rparr>))"
  proof (rule co_inv_quiet [OF i t, of _ q])
    show "owns_ok N co_inside ((co_pcs s)(t := q)) (co_mu (co_goto t q (s\<lparr>co_mu := Some t\<rparr>)))"
      using owns_lock [OF co_invD(2) [OF i, unfolded None] t q(2)] by simp
    show "co_knows (co_goto t q (s\<lparr>co_mu := Some t\<rparr>)) q" using q(5,6) by (auto simp: co_knows_def split: option.splits)
    show "\<And>p. co_pcs s t \<noteq> Some (Co_notify, p)" using q(1) by (auto simp: co_inside_def)
  qed (use q in auto)
  then show ?thesis using None by (simp add: co_enter_def)
qed (use i in \<open>simp add: co_enter_def\<close>)

lemma co_relock_inv:
  assumes i: "co_inv N s" and t: "t < N" and q: "co_pcs s t = Some (Co_relock, p)"
  shows "co_inv N (nsync_pthread_once t Co_relock p s)"
proof (cases "co_mu s")
  case None
  have run: "co_runner p (co_pcs s t)" using q by (simp add: co_runner_def)
  have c: "co_counts s p = (1, 1)" using co_phase_runner(3) [OF co_invD(1) [OF i] t run] q by (simp add: co_done_def)
  have "co_inv N (co_goto t (Some (Co_store, p)) (s\<lparr>co_mu := Some t\<rparr>))"
  proof (rule co_inv_advance [OF i t _ run, of _ "Some (Co_store, p)"])
    show "owns_ok N co_inside ((co_pcs s)(t := Some (Co_store, p))) (co_mu (co_goto t (Some (Co_store, p)) (s\<lparr>co_mu := Some t\<rparr>)))"
      using owns_lock [OF co_invD(2) [OF i, unfolded None] t] by (simp add: co_inside_def)
  qed (use c in \<open>simp_all add: co_runner_def co_counts_def co_done_def\<close>)
  then show ?thesis using None by (simp add: co_enter_def)
qed (use i in \<open>simp add: co_enter_def\<close>)

lemma co_caller_inv:
  assumes i: "co_inv N s" and t: "t < N" and q: "co_pcs s t = Some (x, p)" and x: "x \<in> {Co_leave, Co_call, Co_in}"
  shows "co_inv N (nsync_pthread_once t x p s)"
proof -
  have run: "co_runner p (co_pcs s t)" using q x by (auto simp: co_runner_def)
  note C = co_phase_runner(3) [OF co_invD(1) [OF i] t run]
  from x consider "x = Co_leave" | "x = Co_call" | "x = Co_in" by blast
  then show ?thesis
  proof cases
    case 1
    then show ?thesis using C q t
      by (intro co_inv_advance [OF i t _ run, of _ "Some (Co_call, p)"])
         (auto simp: co_points intro!: owns_unlock [OF co_invD(2) [OF i]])
  next
    case 2
    then show ?thesis using C q
      by (intro co_inv_advance [OF i t _ run, of _ "Some (Co_in, p)"])
         (auto simp: co_points intro!: owns_keep [OF co_invD(2) [OF i]])
  next
    case 3
    then show ?thesis using C q
      by (intro co_inv_advance [OF i t _ run, of _ "Some (Co_relock, p)"])
         (auto simp: co_points intro!: owns_keep [OF co_invD(2) [OF i]])
  qed
qed

lemma co_check_inv:
  assumes i: "co_inv N s" and t: "t < N" and q: "co_pcs s t = Some (Co_check, p)"
  shows "co_inv N (nsync_pthread_once t Co_check p s)"
proof (cases "co_word s p = 2")
  case True
  have "co_inv N (co_goto t (Some (Co_final, p)) s)"
    by (rule co_inv_quiet [OF i t, of _ "Some (Co_final, p)"])
       (use q True in \<open>auto simp: co_runner_def co_knows_def co_inside_def intro!: owns_keep [OF co_invD(2) [OF i]]\<close>)
  then show ?thesis using True by simp
next
  case False
  have "co_word s p \<noteq> 0" using co_invD(3) [OF i, of t] q by (simp add: co_knows_def)
  then have one: "co_word s p = 1" using False co_invD(1) [OF i, of p] by (auto simp: co_phase_def)
  have "co_inv N (co_release t (Some (Co_wait, p)) s)"
    by (rule co_inv_quiet [OF i t, of _ "Some (Co_wait, p)"])
       (use q one t in \<open>auto simp: co_release_def co_runner_def co_knows_def co_inside_def intro!: owns_unlock [OF co_invD(2) [OF i]]\<close>)
  then show ?thesis using False by simp
qed

lemma co_run_inv:
  assumes i: "co_inv N s" and t: "t < N"
  shows "co_inv N (co_run t s)"
proof (cases "co_pcs s t")
  case (Some y)
  obtain x p where q: "co_pcs s t = Some (x, p)" using Some by (cases y) auto
  note K = co_invD(3) [OF i, of t, unfolded q]
  have "co_inv N (nsync_pthread_once t x p s)"
  proof (cases x)
    case Co_lock
    then show ?thesis using q by (auto intro!: co_enter_quiet [OF i t] simp: co_inside_def co_runner_def co_knows_def)
  next
    case Co_wake
    then show ?thesis using q K by (auto intro!: co_enter_quiet [OF i t] simp: co_inside_def co_runner_def co_knows_def)
  next
    case Co_wait
    then show ?thesis using q K
      by (intro co_inv_quiet [OF i t, of _ "Some (Co_wake, p)"])
         (auto simp: co_inside_def co_runner_def co_knows_def intro!: owns_keep [OF co_invD(2) [OF i]])
  next
    case Co_final
    then show ?thesis using q K t
      by (intro co_inv_quiet [OF i t, of _ "Some (Co_returned, p)"])
         (auto simp: co_release_def co_inside_def co_runner_def co_knows_def intro!: owns_unlock [OF co_invD(2) [OF i]])
  qed (use co_test_inv [OF i t] co_store_inv [OF i t] co_notify_inv [OF i t] co_relock_inv [OF i t] co_caller_inv [OF i t]
      co_check_inv [OF i t] q i in \<open>simp_all del: nsync_pthread_once.simps(1-12)\<close>)
  then show ?thesis using q by (simp add: co_run_def)
qed (use i in \<open>simp add: co_run_def\<close>)

lemma co_step_inv:
  assumes "co_step N s s'" "co_inv N s"
  shows "co_inv N s'"
  using assms(1)
proof cases
  case (run t)
  then show ?thesis using co_run_inv assms(2) by simp
next
  case (call t p)
  then show ?thesis
    by (auto intro!: co_inv_quiet [OF assms(2) call(2), of _ "Some (Co_lock, p)"] owns_keep [OF co_invD(2) [OF assms(2)]]
        simp: co_outside_def co_inside_def co_runner_def co_knows_def split: option.splits)
qed

lemma co_reach_inv: "(co_step N)\<^sup>*\<^sup>* co_init s \<Longrightarrow> co_inv N s"
proof (induction rule: rtranclp_induct)
  case base
  show ?case by (simp add: co_inv_def co_init_def co_phase_def co_counts_def co_runner_def owns_ok_def co_inside_def co_knows_def)
qed (rule co_step_inv)

section \<open>Refinement\<close>

definition co_abs :: "co_sys \<Rightarrow> addr \<Rightarrow> once_spec" where
  "co_abs s p = once_state (co_begun s p) (co_ended s p)"

lemma co_once_counts:
  "co_begun (nsync_pthread_once t x p s) = (if x = Co_call then (co_begun s)(p := co_begun s p + 1) else co_begun s)"
  "co_ended (nsync_pthread_once t x p s) = (if x = Co_in then (co_ended s)(p := co_ended s p + 1) else co_ended s)"
  by (cases x; simp add: co_enter_def co_release_def co_notify_all_def)+

lemma co_run_simulates:
  assumes i: "co_inv N s" and t: "t < N"
  shows "co_abs (co_run t s) = co_abs s \<or> once_spec_step (co_abs s) (co_abs (co_run t s))"
proof (cases "co_pcs s t")
  case (Some y)
  obtain x p where q: "co_pcs s t = Some (x, p)" using Some by (cases y) auto
  show ?thesis
  proof (cases "x = Co_call \<or> x = Co_in")
    case True
    then have run: "co_runner p (co_pcs s t)" using q by (auto simp: co_runner_def)
    have c: "(co_begun s p, co_ended s p) = (if x = Co_in then (1, 0) else (0, 0))"
      using co_phase_runner(3) [OF co_invD(1) [OF i] t run] True q by (auto simp: co_done_def co_counts_def)
    then have "co_abs (co_run t s) = (co_abs s)(p := if x = Co_in then Done else Running)" "co_abs s p = (if x = Co_in then Running else Fresh)"
      using q True by (auto simp: co_run_def co_abs_def co_once_counts fun_eq_iff split: if_splits)
    then show ?thesis using begin_once [of "co_abs s" p] end_once [of "co_abs s" p] by (auto split: if_splits)
  qed (use q in \<open>auto simp: co_run_def co_abs_def co_once_counts fun_eq_iff\<close>)
qed (simp add: co_run_def)

interpretation co: refinement co_init "co_step N" co_abs once_spec_step for N
proof unfold_locales
  fix s s' assume r: "(co_step N)\<^sup>*\<^sup>* co_init s" and "co_step N s s'"
  from this(2) show "co_abs s' = co_abs s \<or> once_spec_step (co_abs s) (co_abs s')"
  proof cases
    case (run t)
    then show ?thesis using co_run_simulates [OF co_reach_inv [OF r]] by simp
  qed (auto simp: co_abs_def fun_eq_iff)
qed

section \<open>Progress\<close>

lemma co_moves:
  assumes "co_pcs s t = Some (x, p)" "x \<noteq> Co_returned" "co_inside (co_pcs s t) \<or> co_mu s = None"
  shows "co_run t s \<noteq> s"
proof -
  have "co_pcs (co_run t s) t \<noteq> co_pcs s t"
    using assms by (cases x) (auto simp: co_run_def co_enter_def co_release_def co_inside_def)
  then show ?thesis by metis
qed

lemma co_waits_for:
  assumes i: "co_inv N s" and m: "co_mu s = None" and q: "co_pcs s t = Some (Co_wait, p)"
  shows "\<exists>u<N. co_runner p (co_pcs s u)"
proof -
  have "\<not> co_notifying s"
  proof
    assume "co_notifying s"
    then obtain u r where u: "co_pcs s u = Some (Co_notify, r)" by (auto simp: co_notifying_def)
    then have "u < N" using co_invD(4) [OF i, of u] by (cases "u < N") auto
    then show False using owns_free [OF co_invD(2) [OF i, unfolded m]] u by (fastforce simp: co_inside_def)
  qed
  then have "co_word s p = 1" using co_invD(3) [OF i, of t] q by (simp add: co_knows_def)
  then show ?thesis using co_invD(1) [OF i, of p] by (auto simp: co_phase_def)
qed

lemma co_awake_moves:
  assumes i: "co_inv N s" and t: "t < N" and q: "\<not> co_outside (co_pcs s t)"
  shows "\<exists>u<N. (\<forall>p. co_pcs s u \<noteq> Some (Co_wait, p)) \<and> co_run u s \<noteq> s"
proof (cases "co_mu s")
  case (Some u)
  then have u: "u < N" "co_inside (co_pcs s u)" using co_invD(2) [OF i] by (auto simp: owns_ok_def)
  then obtain x p where x: "co_pcs s u = Some (x, p)" "x \<noteq> Co_returned" "x \<noteq> Co_wait"
    by (auto simp: co_inside_def split: option.splits)
  then show ?thesis using co_moves [OF x(1,2)] u by auto
next
  case None
  obtain x p where x: "co_pcs s t = Some (x, p)" "x \<noteq> Co_returned" using q by (auto simp: co_outside_def split: option.splits)
  show ?thesis
  proof (cases "x = Co_wait")
    case True
    then obtain u where u: "u < N" "co_runner p (co_pcs s u)" using co_waits_for [OF i None] x(1) by blast
    then obtain y where y: "co_pcs s u = Some (y, p)" "y \<noteq> Co_returned" "y \<noteq> Co_wait" by (auto simp: co_runner_def)
    then show ?thesis using co_moves [OF y(1,2)] None u(1) by auto
  next
    case False
    then show ?thesis using co_moves [OF x] None x(1) t by auto
  qed
qed

section \<open>Properties\<close>

definition demo_co :: "nat \<Rightarrow> co_sys" where
  "demo_co n = (co_run 0 ^^ n) (co_goto 0 (Some (Co_lock, 8)) co_init)"

lemma demo_co_reach: "(co_step 2)\<^sup>*\<^sup>* co_init (demo_co n)"
proof (induction n)
  case 0
  show ?case unfolding demo_co_def
    by (rule r_into_rtranclp) (auto intro!: co_step.call simp: co_init_def co_outside_def)
next
  case (Suc n)
  then show ?case unfolding demo_co_def
    by (auto intro!: rtranclp.rtrancl_into_rtrancl [OF Suc [unfolded demo_co_def]] co_step.run)
qed

lemma demo_co_pcs: "co_pcs (demo_co 9) 0 = Some (Co_returned, 8)" "co_pcs (demo_co 4) 0 = Some (Co_in, 8)"
  by (simp_all add: demo_co_def co_init_def co_run_def numeral_eq_Suc co_enter_def co_release_def co_notify_all_def co_woken_def)

text \<open>C34. \<^verbatim>\<open>pthread_once\<close> of the C++11 platform refines the specification of one-time initialisers: the
  function of a word is called at most once, and has returned when a call has; and while a thread
  is in a call, some thread that does not sleep can take a step that changes the state.\<close>

theorem cxx_once_correct:
  assumes "(co_step N)\<^sup>*\<^sup>* co_init s" "t < N"
  shows "once_spec_step\<^sup>*\<^sup>* (\<lambda>_. Fresh) (co_abs s) \<and> co_begun s p \<le> 1 \<and> co_ended s p \<le> co_begun s p \<and>
    (\<forall>r. co_pcs s t = Some (Co_returned, r) \<longrightarrow> co_abs s r = Done) \<and>
    (co_outside (co_pcs s t) \<or> (\<exists>u<N. (\<forall>r. co_pcs s u \<noteq> Some (Co_wait, r)) \<and> co_run u s \<noteq> s))"
proof -
  note i = co_reach_inv [OF assms(1)]
  have "co_abs co_init = (\<lambda>_. Fresh)" by (simp add: co_abs_def co_init_def fun_eq_iff)
  then have "once_spec_step\<^sup>*\<^sup>* (\<lambda>_. Fresh) (co_abs s)" using co.abs_reach [OF assms(1)] by simp
  moreover have "co_begun s p \<le> 1 \<and> co_ended s p \<le> co_begun s p"
    using co_phase_counts [OF co_invD(1) [OF i, of p]] by (simp add: co_counts_def)
  moreover have "co_abs s r = Done" if "co_pcs s t = Some (Co_returned, r)" for r
    using co_invD(1) [OF i, of r] co_invD(3) [OF i, of t] that by (auto simp: co_knows_def co_phase_def co_counts_def co_abs_def)
  ultimately show ?thesis using co_awake_moves [OF i assms(2)] by blast
qed

theorem cxx_once_correct_witness: "co_abs (demo_co 9) 8 = Done \<and> (\<exists>u. co_run u (demo_co 4) \<noteq> demo_co 4)"
proof -
  have "co_abs (demo_co 9) 8 = Done" using cxx_once_correct [OF demo_co_reach, of 0 9] demo_co_pcs(1) by simp
  moreover have "\<not> co_outside (co_pcs (demo_co 4) 0)" using demo_co_pcs(2) by (simp add: co_outside_def)
  then have "\<exists>u. co_run u (demo_co 4) \<noteq> demo_co 4" using cxx_once_correct [OF demo_co_reach, of 0 4] by (meson zero_less_numeral)
  ultimately show ?thesis by blast
qed

end
