(* ===== verification/Atomic.thy ===== *)
theory Atomic
  imports Prelude
begin

text \<open>
  The atomic operations of \<^verbatim>\<open>platform/*/atomic.h\<close>: what each version of \<^verbatim>\<open>ATM_CAS\<close>, \<^verbatim>\<open>ATM_LOAD\<close>
  and \<^verbatim>\<open>ATM_STORE\<close> does to memory and which barriers it has.  A thread performs a sequence of
  accesses and barriers; the orders that the hardware and the compiler respect are those of
  \<open>precedes\<close>.  The locale \<open>atomics\<close> is the contract that the comment at the head of every version
  states; each version is shown to keep it, and in the locale it is shown that what a thread
  does between an acquiring compare-and-swap and a releasing store stays between them.  The versions
  here are the nine in C and C++; those in assembler, \<^verbatim>\<open>platform/*/src/nsync_atm_*.s\<close> and
  \<^verbatim>\<open>.S\<close>, one for each of fifteen CPUs, are not modelled.
\<close>

section \<open>Accesses, barriers and their order\<close>

type_synonym ptr = nat

text \<open>The memory orders of C11, of which GCC's \<^verbatim>\<open>__ATOMIC_RELAXED\<close> and so on are others' names.\<close>

datatype memory_order = memory_order_relaxed | memory_order_acquire | memory_order_release | memory_order_acq_rel

text \<open>
  A barrier for the compiler only, the full barriers of GCC, macOS and Windows, and the three of
  NetBSD that are used.
\<close>

datatype barrier = compiler_barrier | full_barrier | membar_sync | membar_enter | membar_exit

text \<open>A failed compare-and-swap is a load.\<close>

datatype action = Ld ptr memory_order | St ptr memory_order | Rmw ptr memory_order | Bar barrier

record mach =
  mem :: "ptr \<Rightarrow> u32"
  trace :: "action list"

fun access :: "action \<Rightarrow> bool" where
  "access (Bar b) = False"
| "access a = True"

fun reads :: "action \<Rightarrow> bool" where
  "reads (Ld p mo) = True"
| "reads (Rmw p mo) = True"
| "reads a = False"

fun writes :: "action \<Rightarrow> bool" where
  "writes (St p mo) = True"
| "writes (Rmw p mo) = True"
| "writes a = False"

fun place :: "action \<Rightarrow> ptr option" where
  "place (Ld p mo) = Some p"
| "place (St p mo) = Some p"
| "place (Rmw p mo) = Some p"
| "place (Bar b) = None"

fun order_of :: "action \<Rightarrow> memory_order" where
  "order_of (Ld p mo) = mo"
| "order_of (St p mo) = mo"
| "order_of (Rmw p mo) = mo"
| "order_of (Bar b) = memory_order_relaxed"

definition acquires :: "action \<Rightarrow> bool" where
  "acquires a \<longleftrightarrow> reads a \<and> order_of a \<in> {memory_order_acquire, memory_order_acq_rel}"

definition releases :: "action \<Rightarrow> bool" where
  "releases a \<longleftrightarrow> writes a \<and> order_of a \<in> {memory_order_release, memory_order_acq_rel}"

text \<open>
  Whether a barrier orders an access before it and an access after it.  The flag says whether on
  this CPU a load acquires and a store releases as far as the hardware is concerned, so that only
  the compiler must be kept from moving accesses.  The last two are as the manual of
  \<^verbatim>\<open>membar_ops\<close> describes them.
\<close>

fun orders :: "bool \<Rightarrow> barrier \<Rightarrow> action \<Rightarrow> action \<Rightarrow> bool" where
  "orders ld_acq compiler_barrier a c \<longleftrightarrow> ld_acq \<and> (reads a \<or> writes c)"
| "orders ld_acq full_barrier a c \<longleftrightarrow> True"
| "orders ld_acq membar_sync a c \<longleftrightarrow> True"
| "orders ld_acq membar_enter a c \<longleftrightarrow> writes a"
| "orders ld_acq membar_exit a c \<longleftrightarrow> writes c"

fun bar_orders :: "bool \<Rightarrow> action \<Rightarrow> action \<Rightarrow> action \<Rightarrow> bool" where
  "bar_orders ld_acq a (Bar b) c = orders ld_acq b a c"
| "bar_orders ld_acq a x c = False"

text \<open>Of two accesses of one thread, which must appear to others in their order.\<close>

definition precedes :: "bool \<Rightarrow> action list \<Rightarrow> nat \<Rightarrow> nat \<Rightarrow> bool" where
  "precedes ld_acq tr i j \<longleftrightarrow> i < j \<and> j < length tr \<and> access (tr ! i) \<and> access (tr ! j) \<and>
     (acquires (tr ! i) \<or> releases (tr ! j) \<or>
      (\<exists>k<j. i < k \<and> bar_orders ld_acq (tr ! i) (tr ! k) (tr ! j)))"

section \<open>The operations of the language and of the systems\<close>

definition act :: "action \<Rightarrow> mach \<Rightarrow> mach" where
  "act a s = s\<lparr>trace := trace s @ [a]\<rparr>"

text \<open>\<^verbatim>\<open>atomic_compare_exchange_strong_explicit\<close>, and \<^verbatim>\<open>__atomic_compare_exchange_n\<close>, strong.\<close>

definition compare_exchange ::
  "ptr \<Rightarrow> u32 \<Rightarrow> u32 \<Rightarrow> memory_order \<Rightarrow> memory_order \<Rightarrow> mach \<Rightarrow> bool \<times> mach" where
  "compare_exchange p old new succ fail s =
     (if mem s p = old then (True, act (Rmw p succ) (s\<lparr>mem := (mem s)(p := new)\<rparr>))
      else (False, act (Ld p fail) s))"

definition atomic_load :: "ptr \<Rightarrow> memory_order \<Rightarrow> mach \<Rightarrow> u32 \<times> mach" where
  "atomic_load p mo s = (mem s p, act (Ld p mo) s)"

definition atomic_store :: "ptr \<Rightarrow> u32 \<Rightarrow> memory_order \<Rightarrow> mach \<Rightarrow> mach" where
  "atomic_store p v mo s = act (St p mo) (s\<lparr>mem := (mem s)(p := v)\<rparr>)"

text \<open>GCC documents \<^verbatim>\<open>__sync_bool_compare_and_swap\<close> as a full barrier.\<close>

definition sync_bool_compare_and_swap :: "ptr \<Rightarrow> u32 \<Rightarrow> u32 \<Rightarrow> mach \<Rightarrow> bool \<times> mach" where
  "sync_bool_compare_and_swap p old new s =
     (let (r, s1) = compare_exchange p old new memory_order_relaxed memory_order_relaxed (act (Bar full_barrier) s)
      in (r, act (Bar full_barrier) s1))"

text \<open>
  What the systems document of their own operations: that they store the new value if the place
  has the old one, and report what it had, or whether it had it; and which barriers they include.
  They are arguments of the definitions below.
\<close>

type_synonym 'r swap = "ptr \<Rightarrow> u32 \<Rightarrow> u32 \<Rightarrow> mach \<Rightarrow> 'r \<times> mach"

definition barriers :: "action list \<Rightarrow> bool" where
  "barriers xs \<longleftrightarrow> (\<forall>x\<in>set xs. \<not> access x)"

definition swaps :: "(u32 \<Rightarrow> u32 \<Rightarrow> 'r) \<Rightarrow> action set \<Rightarrow> 'r swap \<Rightarrow> bool" where
  "swaps report has f \<longleftrightarrow> (\<forall>p old new s. \<exists>xs ys.
     f p old new s =
       (report (mem s p) old,
        \<lparr>mem = (if mem s p = old then (mem s)(p := new) else mem s),
         trace = trace s @ xs @
           (if mem s p = old then Rmw p memory_order_relaxed else Ld p memory_order_relaxed) # ys\<rparr>) \<and>
     barriers xs \<and> barriers ys \<and> has \<subseteq> set xs \<and> has \<subseteq> set ys)"

section \<open>The versions of the operations\<close>

record atm_ops =
  ATM_CAS :: "ptr \<Rightarrow> u32 \<Rightarrow> u32 \<Rightarrow> mach \<Rightarrow> bool \<times> mach"
  ATM_CAS_ACQ :: "ptr \<Rightarrow> u32 \<Rightarrow> u32 \<Rightarrow> mach \<Rightarrow> bool \<times> mach"
  ATM_CAS_REL :: "ptr \<Rightarrow> u32 \<Rightarrow> u32 \<Rightarrow> mach \<Rightarrow> bool \<times> mach"
  ATM_CAS_RELACQ :: "ptr \<Rightarrow> u32 \<Rightarrow> u32 \<Rightarrow> mach \<Rightarrow> bool \<times> mach"
  ATM_LOAD :: "ptr \<Rightarrow> mach \<Rightarrow> u32 \<times> mach"
  ATM_LOAD_ACQ :: "ptr \<Rightarrow> mach \<Rightarrow> u32 \<times> mach"
  ATM_STORE :: "ptr \<Rightarrow> u32 \<Rightarrow> mach \<Rightarrow> mach"
  ATM_STORE_REL :: "ptr \<Rightarrow> u32 \<Rightarrow> mach \<Rightarrow> mach"

subsection \<open>\<^verbatim>\<open>gcc_new/atomic.h\<close>, \<^verbatim>\<open>gcc_new_debug/atomic.h\<close>, \<^verbatim>\<open>c11\<close>, \<^verbatim>\<open>c++11\<close>, \<^verbatim>\<open>c_from_c++11\<close>\<close>

text \<open>Each has four functions, which differ in the order for the case of success.\<close>

definition gcc_new_cas :: "memory_order \<Rightarrow> ptr \<Rightarrow> u32 \<Rightarrow> u32 \<Rightarrow> mach \<Rightarrow> bool \<times> mach" where
  "gcc_new_cas mo p old new = compare_exchange p old new mo memory_order_relaxed"

definition gcc_new_atomics :: atm_ops where
  "gcc_new_atomics =
     \<lparr>ATM_CAS = gcc_new_cas memory_order_relaxed, ATM_CAS_ACQ = gcc_new_cas memory_order_acquire,
      ATM_CAS_REL = gcc_new_cas memory_order_release, ATM_CAS_RELACQ = gcc_new_cas memory_order_acq_rel,
      ATM_LOAD = (\<lambda>p. atomic_load p memory_order_relaxed),
      ATM_LOAD_ACQ = (\<lambda>p. atomic_load p memory_order_acquire),
      ATM_STORE = (\<lambda>p v. atomic_store p v memory_order_relaxed),
      ATM_STORE_REL = (\<lambda>p v. atomic_store p v memory_order_release)\<rparr>"

text \<open>
  \<^verbatim>\<open>gcc_new_debug/atomic.h\<close> with \<^verbatim>\<open>NSYNC_ATM_LOG\<close> 0, its default.  With 1, \<^verbatim>\<open>ATM_LOAD\<close> loads twice, once
  for the log and once for the result.
\<close>

definition gcc_new_debug_cas :: "memory_order \<Rightarrow> ptr \<Rightarrow> u32 \<Rightarrow> u32 \<Rightarrow> mach \<Rightarrow> bool \<times> mach" where
  "gcc_new_debug_cas mo p old new s =
     (case compare_exchange p old new mo memory_order_relaxed s of (r, s1) \<Rightarrow> (if r then True else False, s1))"

definition gcc_new_debug_atomics :: atm_ops where
  "gcc_new_debug_atomics =
     \<lparr>ATM_CAS = gcc_new_debug_cas memory_order_relaxed, ATM_CAS_ACQ = gcc_new_debug_cas memory_order_acquire,
      ATM_CAS_REL = gcc_new_debug_cas memory_order_release,
      ATM_CAS_RELACQ = gcc_new_debug_cas memory_order_acq_rel,
      ATM_LOAD = (\<lambda>p. atomic_load p memory_order_relaxed),
      ATM_LOAD_ACQ = (\<lambda>p. atomic_load p memory_order_acquire),
      ATM_STORE = (\<lambda>p v. atomic_store p v memory_order_relaxed),
      ATM_STORE_REL = (\<lambda>p v. atomic_store p v memory_order_release)\<rparr>"

definition c11_cas :: "memory_order \<Rightarrow> ptr \<Rightarrow> u32 \<Rightarrow> u32 \<Rightarrow> mach \<Rightarrow> bool \<times> mach" where
  "c11_cas mo p old new = compare_exchange p old new mo memory_order_relaxed"

definition c11_atomics :: atm_ops where
  "c11_atomics =
     \<lparr>ATM_CAS = c11_cas memory_order_relaxed, ATM_CAS_ACQ = c11_cas memory_order_acquire,
      ATM_CAS_REL = c11_cas memory_order_release, ATM_CAS_RELACQ = c11_cas memory_order_acq_rel,
      ATM_LOAD = (\<lambda>p. atomic_load p memory_order_relaxed),
      ATM_LOAD_ACQ = (\<lambda>p. atomic_load p memory_order_acquire),
      ATM_STORE = (\<lambda>p v. atomic_store p v memory_order_relaxed),
      ATM_STORE_REL = (\<lambda>p v. atomic_store p v memory_order_release)\<rparr>"

definition cxx_cas :: "memory_order \<Rightarrow> ptr \<Rightarrow> u32 \<Rightarrow> u32 \<Rightarrow> mach \<Rightarrow> bool \<times> mach" where
  "cxx_cas mo p old new = compare_exchange p old new mo memory_order_relaxed"

definition cxx_atomics :: atm_ops where
  "cxx_atomics =
     \<lparr>ATM_CAS = cxx_cas memory_order_relaxed, ATM_CAS_ACQ = cxx_cas memory_order_acquire,
      ATM_CAS_REL = cxx_cas memory_order_release, ATM_CAS_RELACQ = cxx_cas memory_order_acq_rel,
      ATM_LOAD = (\<lambda>p. atomic_load p memory_order_relaxed),
      ATM_LOAD_ACQ = (\<lambda>p. atomic_load p memory_order_acquire),
      ATM_STORE = (\<lambda>p v. atomic_store p v memory_order_relaxed),
      ATM_STORE_REL = (\<lambda>p v. atomic_store p v memory_order_release)\<rparr>"

definition nsync_atm_cas :: "memory_order \<Rightarrow> ptr \<Rightarrow> u32 \<Rightarrow> u32 \<Rightarrow> mach \<Rightarrow> bool \<times> mach" where
  "nsync_atm_cas mo p old_value new_value = compare_exchange p old_value new_value mo memory_order_relaxed"

definition nsync_atm_load :: "memory_order \<Rightarrow> ptr \<Rightarrow> mach \<Rightarrow> u32 \<times> mach" where
  "nsync_atm_load mo p = atomic_load p mo"

definition nsync_atm_store :: "memory_order \<Rightarrow> ptr \<Rightarrow> u32 \<Rightarrow> mach \<Rightarrow> mach" where
  "nsync_atm_store mo p value = atomic_store p value mo"

text \<open>The macros of \<^verbatim>\<open>atomic_ind/atomic.h\<close> name these functions.  Here they are linked with the
  bodies of \<^verbatim>\<open>c_from_c++11/src/nsync_atm_c++.cc\<close>; the other bodies of the same functions are in
  assembler and are not modelled.\<close>

definition atomic_ind_atomics :: atm_ops where
  "atomic_ind_atomics =
     \<lparr>ATM_CAS = nsync_atm_cas memory_order_relaxed, ATM_CAS_ACQ = nsync_atm_cas memory_order_acquire,
      ATM_CAS_REL = nsync_atm_cas memory_order_release, ATM_CAS_RELACQ = nsync_atm_cas memory_order_acq_rel,
      ATM_LOAD = nsync_atm_load memory_order_relaxed, ATM_LOAD_ACQ = nsync_atm_load memory_order_acquire,
      ATM_STORE = nsync_atm_store memory_order_relaxed, ATM_STORE_REL = nsync_atm_store memory_order_release\<rparr>"


subsection \<open>\<^verbatim>\<open>gcc_old/atomic.h\<close>, \<^verbatim>\<open>macos/atomic.h\<close>, \<^verbatim>\<open>win32/atomic.h\<close>, \<^verbatim>\<open>netbsd/atomic.h\<close>\<close>

text \<open>
  These four put barriers beside loads and stores of a volatile variable, with the same text:
  after the load, and before and after the store where one is asked for.
\<close>

definition atm_load_acq_u32 :: "barrier \<Rightarrow> ptr \<Rightarrow> mach \<Rightarrow> u32 \<times> mach" where
  "atm_load_acq_u32 ATM_LD_ACQ p s =
     (let (result, s1) = atomic_load p memory_order_relaxed s in (result, act (Bar ATM_LD_ACQ) s1))"

definition opt_bar :: "barrier option \<Rightarrow> mach \<Rightarrow> mach" where
  "opt_bar b s = (case b of None \<Rightarrow> s | Some c \<Rightarrow> act (Bar c) s)"

definition ATM_STORE_X :: "barrier option \<Rightarrow> barrier option \<Rightarrow> ptr \<Rightarrow> u32 \<Rightarrow> mach \<Rightarrow> mach" where
  "ATM_STORE_X b a p v s = opt_bar a (atomic_store p v memory_order_relaxed (opt_bar b s))"

text \<open>\<^verbatim>\<open>ATM_LD_ACQ_\<close> and \<^verbatim>\<open>ATM_ST_REL_\<close>, which \<^verbatim>\<open>ATM_LD_IS_ACQ_ST_IS_REL_\<close> chooses.\<close>

definition gcc_old_bar :: "bool \<Rightarrow> barrier" where
  "gcc_old_bar ld_acq = (if ld_acq then compiler_barrier else full_barrier)"

definition gcc_old_atomics :: "bool \<Rightarrow> atm_ops" where
  "gcc_old_atomics ld_acq =
     \<lparr>ATM_CAS = sync_bool_compare_and_swap, ATM_CAS_ACQ = sync_bool_compare_and_swap,
      ATM_CAS_REL = sync_bool_compare_and_swap, ATM_CAS_RELACQ = sync_bool_compare_and_swap,
      ATM_LOAD = (\<lambda>p. atomic_load p memory_order_relaxed),
      ATM_LOAD_ACQ = atm_load_acq_u32 (gcc_old_bar ld_acq),
      ATM_STORE = ATM_STORE_X None None,
      ATM_STORE_REL = ATM_STORE_X (Some (gcc_old_bar ld_acq)) None\<rparr>"

text \<open>macOS has a compare-and-swap with and one without a barrier, which return whether they stored.\<close>

definition macos_bar :: "bool \<Rightarrow> barrier" where
  "macos_bar ld_acq = (if ld_acq then compiler_barrier else full_barrier)"

definition macos_atomics :: "bool swap \<Rightarrow> bool swap \<Rightarrow> bool \<Rightarrow> atm_ops" where
  "macos_atomics OSAtomicCompareAndSwap32 OSAtomicCompareAndSwap32Barrier ld_acq =
     \<lparr>ATM_CAS = OSAtomicCompareAndSwap32, ATM_CAS_ACQ = OSAtomicCompareAndSwap32Barrier,
      ATM_CAS_REL = OSAtomicCompareAndSwap32Barrier, ATM_CAS_RELACQ = OSAtomicCompareAndSwap32Barrier,
      ATM_LOAD = (\<lambda>p. atomic_load p memory_order_relaxed),
      ATM_LOAD_ACQ = atm_load_acq_u32 (macos_bar ld_acq),
      ATM_STORE = ATM_STORE_X None None,
      ATM_STORE_REL = ATM_STORE_X (Some (macos_bar ld_acq)) None\<rparr>"

text \<open>The compare-and-swap of Windows returns the value it found.\<close>

definition win32_bar :: "bool \<Rightarrow> barrier" where
  "win32_bar ld_acq = (if ld_acq then compiler_barrier else full_barrier)"

definition win32_cas :: "u32 swap \<Rightarrow> ptr \<Rightarrow> u32 \<Rightarrow> u32 \<Rightarrow> mach \<Rightarrow> bool \<times> mach" where
  "win32_cas InterlockedCompareExchange p old new s =
     (let (found, s1) = InterlockedCompareExchange p old new s in (found = old, s1))"

definition win32_atomics :: "u32 swap \<Rightarrow> bool \<Rightarrow> atm_ops" where
  "win32_atomics InterlockedCompareExchange ld_acq =
     \<lparr>ATM_CAS = win32_cas InterlockedCompareExchange, ATM_CAS_ACQ = win32_cas InterlockedCompareExchange,
      ATM_CAS_REL = win32_cas InterlockedCompareExchange,
      ATM_CAS_RELACQ = win32_cas InterlockedCompareExchange,
      ATM_LOAD = (\<lambda>p. atomic_load p memory_order_relaxed),
      ATM_LOAD_ACQ = atm_load_acq_u32 (win32_bar ld_acq),
      ATM_STORE = ATM_STORE_X None None,
      ATM_STORE_REL = ATM_STORE_X (Some (win32_bar ld_acq)) None\<rparr>"

text \<open>NetBSD has different barriers for the two sides; \<open>gnuc\<close> is whether the compiler is GCC.\<close>

definition netbsd_ld_bar :: "bool \<Rightarrow> bool \<Rightarrow> barrier" where
  "netbsd_ld_bar gnuc ld_acq = (if ld_acq \<and> gnuc then compiler_barrier else membar_sync)"

definition netbsd_st_bar :: "bool \<Rightarrow> bool \<Rightarrow> barrier" where
  "netbsd_st_bar gnuc ld_acq = (if ld_acq \<and> gnuc then compiler_barrier else membar_exit)"

definition netbsd_cas_nomb :: "u32 swap \<Rightarrow> ptr \<Rightarrow> u32 \<Rightarrow> u32 \<Rightarrow> mach \<Rightarrow> bool \<times> mach" where
  "netbsd_cas_nomb atomic_cas_32 p old new s =
     (let (found, s1) = atomic_cas_32 p old new s in (found = old, s1))"

definition netbsd_cas_acq :: "u32 swap \<Rightarrow> ptr \<Rightarrow> u32 \<Rightarrow> u32 \<Rightarrow> mach \<Rightarrow> bool \<times> mach" where
  "netbsd_cas_acq atomic_cas_32 p old new s =
     (let (found, s1) = atomic_cas_32 p old new s in (found = old, act (Bar membar_enter) s1))"

definition netbsd_atomics :: "u32 swap \<Rightarrow> bool \<Rightarrow> bool \<Rightarrow> atm_ops" where
  "netbsd_atomics atomic_cas_32 gnuc ld_acq =
     \<lparr>ATM_CAS = netbsd_cas_nomb atomic_cas_32, ATM_CAS_ACQ = netbsd_cas_acq atomic_cas_32,
      ATM_CAS_REL = (\<lambda>p old new s. netbsd_cas_nomb atomic_cas_32 p old new (act (Bar membar_exit) s)),
      ATM_CAS_RELACQ = (\<lambda>p old new s. netbsd_cas_acq atomic_cas_32 p old new (act (Bar membar_exit) s)),
      ATM_LOAD = (\<lambda>p. atomic_load p memory_order_relaxed),
      ATM_LOAD_ACQ = atm_load_acq_u32 (netbsd_ld_bar gnuc ld_acq),
      ATM_STORE = ATM_STORE_X None None,
      ATM_STORE_REL = ATM_STORE_X (Some (netbsd_st_bar gnuc ld_acq)) None\<rparr>"

section \<open>The contract\<close>

text \<open>
  An operation performs one access, with barriers about it.  It acquires when in every
  continuation the access precedes all later ones; it releases when all earlier ones precede it.
\<close>

definition performs :: "mach \<Rightarrow> mach \<Rightarrow> nat \<Rightarrow> bool" where
  "performs s s' k \<longleftrightarrow> (\<exists>xs ys. trace s' = trace s @ xs @ (trace s' ! k) # ys \<and> k = length (trace s @ xs) \<and>
     barriers xs \<and> barriers ys)"

definition acq_at :: "bool \<Rightarrow> mach \<Rightarrow> nat \<Rightarrow> bool" where
  "acq_at ld_acq s' k \<longleftrightarrow> (\<forall>post j. length (trace s') \<le> j \<longrightarrow> j < length (trace s' @ post) \<longrightarrow>
     access ((trace s' @ post) ! j) \<longrightarrow> precedes ld_acq (trace s' @ post) k j)"

definition rel_at :: "bool \<Rightarrow> mach \<Rightarrow> mach \<Rightarrow> nat \<Rightarrow> bool" where
  "rel_at ld_acq s s' k \<longleftrightarrow>
     (\<forall>i<length (trace s). access (trace s ! i) \<longrightarrow> precedes ld_acq (trace s') i k)"

text \<open>A compare-and-swap is held to its barriers only when it succeeds.\<close>

definition cas_contract ::
  "bool \<Rightarrow> bool \<Rightarrow> bool \<Rightarrow> (ptr \<Rightarrow> u32 \<Rightarrow> u32 \<Rightarrow> mach \<Rightarrow> bool \<times> mach) \<Rightarrow> bool" where
  "cas_contract ld_acq acq rel cas \<longleftrightarrow> (\<forall>p old new s. \<exists>s' k.
     cas p old new s = (mem s p = old, s') \<and>
     mem s' = (if mem s p = old then (mem s)(p := new) else mem s) \<and>
     performs s s' k \<and> place (trace s' ! k) = Some p \<and> reads (trace s' ! k) \<and>
     (mem s p = old \<longrightarrow> writes (trace s' ! k) \<and>
        (acq \<longrightarrow> acq_at ld_acq s' k) \<and> (rel \<longrightarrow> rel_at ld_acq s s' k)))"

definition load_contract :: "bool \<Rightarrow> bool \<Rightarrow> (ptr \<Rightarrow> mach \<Rightarrow> u32 \<times> mach) \<Rightarrow> bool" where
  "load_contract ld_acq acq load \<longleftrightarrow> (\<forall>p s. \<exists>s' k.
     load p s = (mem s p, s') \<and> mem s' = mem s \<and>
     performs s s' k \<and> place (trace s' ! k) = Some p \<and> reads (trace s' ! k) \<and>
     (acq \<longrightarrow> acq_at ld_acq s' k))"

definition store_contract :: "bool \<Rightarrow> bool \<Rightarrow> (ptr \<Rightarrow> u32 \<Rightarrow> mach \<Rightarrow> mach) \<Rightarrow> bool" where
  "store_contract ld_acq rel store \<longleftrightarrow> (\<forall>p v s. \<exists>k.
     mem (store p v s) = (mem s)(p := v) \<and>
     performs s (store p v s) k \<and> place (trace (store p v s) ! k) = Some p \<and> writes (trace (store p v s) ! k) \<and>
     (rel \<longrightarrow> rel_at ld_acq s (store p v s) k))"

definition atm_contract :: "bool \<Rightarrow> atm_ops \<Rightarrow> bool" where
  "atm_contract ld_acq A \<longleftrightarrow>
     cas_contract ld_acq False False (ATM_CAS A) \<and> cas_contract ld_acq True False (ATM_CAS_ACQ A) \<and>
     cas_contract ld_acq False True (ATM_CAS_REL A) \<and> cas_contract ld_acq True True (ATM_CAS_RELACQ A) \<and>
     load_contract ld_acq False (ATM_LOAD A) \<and> load_contract ld_acq True (ATM_LOAD_ACQ A) \<and>
     store_contract ld_acq False (ATM_STORE A) \<and> store_contract ld_acq True (ATM_STORE_REL A)"

text \<open>A barrier or a memory order that is enough for each side.\<close>

definition fenced_after :: "bool \<Rightarrow> action \<Rightarrow> action list \<Rightarrow> bool" where
  "fenced_after ld_acq a ys \<longleftrightarrow> acquires a \<or> (\<exists>y\<in>set ys. \<forall>c. access c \<longrightarrow> bar_orders ld_acq a y c)"

definition fenced_before :: "bool \<Rightarrow> action list \<Rightarrow> action \<Rightarrow> bool" where
  "fenced_before ld_acq xs a \<longleftrightarrow> releases a \<or> (\<exists>x\<in>set xs. \<forall>c. access c \<longrightarrow> bar_orders ld_acq c x a)"

lemma bar_orders_nth:
  "x \<in> set xs \<Longrightarrow> \<exists>k. length us \<le> k \<and> k < length (us @ xs) \<and> (us @ xs @ vs) ! k = x"
  by (metis add_less_cancel_left in_set_conv_nth le_add1 length_append nth_append_length_plus nth_append)

lemma fenced_after_acq:
  assumes "fenced_after ld_acq a ys" "access a" "trace s' = us @ a # ys"
  shows "acq_at ld_acq s' (length us)"
  unfolding acq_at_def
proof (intro allI impI)
  fix post j
  let ?tr = "trace s' @ post"
  assume j: "length (trace s') \<le> j" "j < length ?tr" "access (?tr ! j)"
  have a: "?tr ! length us = a" "length us < j" using assms(3) j(1) by simp_all
  show "precedes ld_acq ?tr (length us) j"
  proof (cases "acquires a")
    case False
    then obtain y where y: "y \<in> set ys" "\<forall>c. access c \<longrightarrow> bar_orders ld_acq a y c"
      using assms(1) by (auto simp: fenced_after_def)
    obtain k where "length us < k" "k < length (trace s')" "?tr ! k = y"
      using bar_orders_nth [OF y(1), of "us @ [a]" post] assms(3) by (auto simp: less_eq_Suc_le)
    then show ?thesis using y(2) a assms(2) j by (auto simp: precedes_def intro!: exI [of _ k])
  qed (use a assms(2) j in \<open>simp add: precedes_def\<close>)
qed

lemma fenced_before_rel:
  assumes "fenced_before ld_acq xs a" "access a" "trace s' = trace s @ xs @ a # ys"
  shows "rel_at ld_acq s s' (length (trace s @ xs))"
  unfolding rel_at_def
proof (intro allI impI)
  fix i
  assume i: "i < length (trace s)" "access (trace s ! i)"
  let ?n = "length (trace s @ xs)"
  have a: "trace s' ! ?n = a" "trace s' ! i = trace s ! i" "i < ?n" "?n < length (trace s')"
    using assms(3) i(1) by (simp_all add: nth_append)
  show "precedes ld_acq (trace s') i ?n"
  proof (cases "releases a")
    case False
    then obtain x where x: "x \<in> set xs" "\<forall>c. access c \<longrightarrow> bar_orders ld_acq c x a"
      using assms(1) by (auto simp: fenced_before_def)
    obtain k where "length (trace s) \<le> k" "k < ?n" "trace s' ! k = x"
      using bar_orders_nth [OF x(1), of "trace s" "a # ys"] assms(3) by auto
    then show ?thesis using x(2) a assms(2) i unfolding precedes_def
      by (intro conjI disjI2 exI [of _ k]) simp_all
  qed (use a assms(2) i in \<open>simp add: precedes_def\<close>)
qed


section \<open>What holds of every version\<close>

text \<open>
  A spinlock is taken with an acquiring compare-and-swap and given up with a releasing store.
  Whatever the thread does in between is seen by others after the one and before the other.
\<close>

definition confines :: "bool \<Rightarrow> atm_ops \<Rightarrow> bool" where
  "confines ld_acq A \<longleftrightarrow> (\<forall>p old new q v s s1 s2 body.
     ATM_CAS_ACQ A p old new s = (True, s1) \<longrightarrow> trace s2 = trace s1 @ body \<longrightarrow>
     (let tr = trace (ATM_STORE_REL A q v s2) in
      \<exists>k l. place (tr ! k) = Some p \<and> reads (tr ! k) \<and> writes (tr ! k) \<and>
        place (tr ! l) = Some q \<and> writes (tr ! l) \<and>
        (\<forall>i. length (trace s1) \<le> i \<longrightarrow> i < length (trace s2) \<longrightarrow> access (tr ! i) \<longrightarrow>
           precedes ld_acq tr k i \<and> precedes ld_acq tr i l)))"

lemma performs_trace:
  assumes "performs s s' k"
  shows "k < length (trace s')" "length (trace s) \<le> k" "\<exists>zs. trace s' = trace s @ zs"
  using assms by (auto simp: performs_def dest: arg_cong [of _ _ length])

lemma performsI:
  "trace s' = trace s @ xs @ a # ys \<Longrightarrow> barriers xs \<Longrightarrow> barriers ys \<Longrightarrow> performs s s' (length (trace s @ xs))"
  unfolding performs_def by (rule exI [of _ xs], rule exI [of _ ys]) (simp add: nth_append)

locale atomics =
  fixes ld_acq :: bool and A :: atm_ops
  assumes cas: "cas_contract ld_acq False False (ATM_CAS A)"
    and cas_acq: "cas_contract ld_acq True False (ATM_CAS_ACQ A)"
    and cas_rel: "cas_contract ld_acq False True (ATM_CAS_REL A)"
    and cas_relacq: "cas_contract ld_acq True True (ATM_CAS_RELACQ A)"
    and load: "load_contract ld_acq False (ATM_LOAD A)"
    and load_acq: "load_contract ld_acq True (ATM_LOAD_ACQ A)"
    and store: "store_contract ld_acq False (ATM_STORE A)"
    and store_rel: "store_contract ld_acq True (ATM_STORE_REL A)"
begin

lemma contract: "atm_contract ld_acq A"
  by (simp add: atm_contract_def cas cas_acq cas_rel cas_relacq load load_acq store store_rel)

lemma cas_acq_success:
  assumes "ATM_CAS_ACQ A p old new s = (True, s')"
  obtains k where "performs s s' k" "place (trace s' ! k) = Some p" "reads (trace s' ! k)" "writes (trace s' ! k)"
    "acq_at ld_acq s' k"
proof -
  obtain s'' k where k: "ATM_CAS_ACQ A p old new s = (mem s p = old, s'')" "performs s s'' k"
    "place (trace s'' ! k) = Some p" "reads (trace s'' ! k)"
    "mem s p = old \<longrightarrow> writes (trace s'' ! k) \<and> (True \<longrightarrow> acq_at ld_acq s'' k) \<and> (False \<longrightarrow> rel_at ld_acq s s'' k)"
    using cas_acq unfolding cas_contract_def by metis
  moreover have "s'' = s'" "mem s p = old" using k(1) assms by simp_all
  ultimately show ?thesis by (intro that [of k]) simp_all
qed

lemma confined: "confines ld_acq A"
  unfolding confines_def Let_def
proof (intro allI impI)
  fix p old new q v and s s1 s2 :: mach and body
  assume a: "ATM_CAS_ACQ A p old new s = (True, s1)" and body: "trace s2 = trace s1 @ body"
  let ?s3 = "ATM_STORE_REL A q v s2"
  obtain k where k: "performs s s1 k" "place (trace s1 ! k) = Some p" "reads (trace s1 ! k)"
    "writes (trace s1 ! k)" "acq_at ld_acq s1 k"
    using cas_acq_success [OF a] by metis
  obtain l where l: "performs s2 ?s3 l" "place (trace ?s3 ! l) = Some q" "writes (trace ?s3 ! l)"
    "rel_at ld_acq s2 ?s3 l"
    using store_rel unfolding store_contract_def by metis
  obtain zs where tr: "trace ?s3 = trace s2 @ zs" using performs_trace [OF l(1)] by blast
  have at: "trace ?s3 ! i = trace s1 ! i" if "i < length (trace s1)" for i
    using that by (simp add: tr body nth_append)
  have "precedes ld_acq (trace ?s3) k i \<and> precedes ld_acq (trace ?s3) i l"
    if i: "length (trace s1) \<le> i" "i < length (trace s2)" "access (trace ?s3 ! i)" for i
  proof
    show "precedes ld_acq (trace ?s3) k i"
      using k(5) i unfolding acq_at_def tr body by (auto dest!: spec [of _ "body @ zs"])
    show "precedes ld_acq (trace ?s3) i l"
      using l(4) i by (auto simp: rel_at_def tr nth_append)
  qed
  then show "\<exists>k l. place (trace ?s3 ! k) = Some p \<and> reads (trace ?s3 ! k) \<and> writes (trace ?s3 ! k) \<and>
      place (trace ?s3 ! l) = Some q \<and> writes (trace ?s3 ! l) \<and>
      (\<forall>i. length (trace s1) \<le> i \<longrightarrow> i < length (trace s2) \<longrightarrow> access (trace ?s3 ! i) \<longrightarrow>
         precedes ld_acq (trace ?s3) k i \<and> precedes ld_acq (trace ?s3) i l)"
    using k l at performs_trace(1) [OF k(1)] by - (rule exI [of _ k], rule exI [of _ l], simp)
qed

end

section \<open>Every version keeps the contract\<close>

text \<open>One rule for each kind of operation, in terms of what it appends to the trace.\<close>

lemma cas_contractI:
  assumes "\<And>p old new s. \<exists>xs ys mo mo'. cas p old new s =
      (mem s p = old,
       \<lparr>mem = (if mem s p = old then (mem s)(p := new) else mem s),
        trace = trace s @ xs @ (if mem s p = old then Rmw p mo else Ld p mo') # ys\<rparr>) \<and>
      barriers xs \<and> barriers ys \<and>
      (acq \<longrightarrow> fenced_after ld_acq (Rmw p mo) ys) \<and> (rel \<longrightarrow> fenced_before ld_acq xs (Rmw p mo))"
  shows "cas_contract ld_acq acq rel cas"
  unfolding cas_contract_def
proof (intro allI)
  fix p old new and s :: mach
  define hit where "hit = (mem s p = old)"
  obtain xs ys mo mo' where x: "cas p old new s = (hit,
      \<lparr>mem = (if hit then (mem s)(p := new) else mem s),
       trace = trace s @ xs @ (if hit then Rmw p mo else Ld p mo') # ys\<rparr>)"
    "barriers xs" "barriers ys" "acq \<longrightarrow> fenced_after ld_acq (Rmw p mo) ys"
    "rel \<longrightarrow> fenced_before ld_acq xs (Rmw p mo)"
    using assms [of p old new s] unfolding hit_def by blast
  let ?a = "if hit then Rmw p mo else Ld p mo'" and ?k = "length (trace s @ xs)"
  define s' where "s' = \<lparr>mem = (if hit then (mem s)(p := new) else mem s), trace = trace s @ xs @ ?a # ys\<rparr>"
  have tr: "trace s' = trace s @ xs @ ?a # ys" "trace s' ! ?k = ?a"
    by (simp_all add: s'_def nth_append)
  have "performs s s' ?k" using performsI [OF tr(1) x(2,3)] .
  moreover have "hit \<longrightarrow> (acq \<longrightarrow> acq_at ld_acq s' ?k) \<and> (rel \<longrightarrow> rel_at ld_acq s s' ?k)"
    using fenced_after_acq [of ld_acq "Rmw p mo" ys s' "trace s @ xs"]
      fenced_before_rel [of ld_acq xs "Rmw p mo" s' s ys] x(4,5) tr(1) by auto
  ultimately show "\<exists>s' k. cas p old new s = (mem s p = old, s') \<and>
      mem s' = (if mem s p = old then (mem s)(p := new) else mem s) \<and>
      performs s s' k \<and> place (trace s' ! k) = Some p \<and> reads (trace s' ! k) \<and>
      (mem s p = old \<longrightarrow> writes (trace s' ! k) \<and> (acq \<longrightarrow> acq_at ld_acq s' k) \<and> (rel \<longrightarrow> rel_at ld_acq s s' k))"
    using x(1) tr(2) unfolding hit_def [symmetric] s'_def [symmetric]
    by (intro exI [of _ s'] exI [of _ ?k]) (auto simp: s'_def)
qed

lemma load_contractI:
  assumes "\<And>p s. \<exists>ys mo. load p s = (mem s p, s\<lparr>trace := trace s @ Ld p mo # ys\<rparr>) \<and> barriers ys \<and>
      (acq \<longrightarrow> fenced_after ld_acq (Ld p mo) ys)"
  shows "load_contract ld_acq acq load"
  unfolding load_contract_def
proof (intro allI)
  fix p and s :: mach
  obtain ys mo where y: "load p s = (mem s p, s\<lparr>trace := trace s @ Ld p mo # ys\<rparr>)" "barriers ys"
    "acq \<longrightarrow> fenced_after ld_acq (Ld p mo) ys" using assms by metis
  let ?s' = "s\<lparr>trace := trace s @ Ld p mo # ys\<rparr>" and ?k = "length (trace s)"
  have "performs s ?s' ?k" using performsI [of ?s' s "[]" "Ld p mo" ys] y(2) by (simp add: barriers_def)
  moreover have "acq \<longrightarrow> acq_at ld_acq ?s' ?k"
    using fenced_after_acq [of ld_acq "Ld p mo" ys ?s' "trace s"] y(3) by simp
  ultimately show "\<exists>s' k. load p s = (mem s p, s') \<and> mem s' = mem s \<and> performs s s' k \<and>
      place (trace s' ! k) = Some p \<and> reads (trace s' ! k) \<and> (acq \<longrightarrow> acq_at ld_acq s' k)"
    using y(1) by (intro exI [of _ ?s'] exI [of _ ?k]) simp
qed

lemma store_contractI:
  assumes "\<And>p v s. \<exists>xs ys mo. store p v s =
      \<lparr>mem = (mem s)(p := v), trace = trace s @ xs @ St p mo # ys\<rparr> \<and> barriers xs \<and> barriers ys \<and>
      (rel \<longrightarrow> fenced_before ld_acq xs (St p mo))"
  shows "store_contract ld_acq rel store"
  unfolding store_contract_def
proof (intro allI)
  fix p v and s :: mach
  obtain xs ys mo where x: "store p v s = \<lparr>mem = (mem s)(p := v), trace = trace s @ xs @ St p mo # ys\<rparr>"
    "barriers xs" "barriers ys" "rel \<longrightarrow> fenced_before ld_acq xs (St p mo)" using assms by metis
  let ?k = "length (trace s @ xs)"
  have tr: "trace (store p v s) = trace s @ xs @ St p mo # ys" "trace (store p v s) ! ?k = St p mo"
    by (simp_all add: x(1) nth_append)
  have "performs s (store p v s) ?k"
    using performsI [OF tr(1) x(2,3)] .
  moreover have "rel \<longrightarrow> rel_at ld_acq s (store p v s) ?k"
    using fenced_before_rel [of ld_acq xs "St p mo" "store p v s" s ys] x(4) tr(1) by simp
  ultimately show "\<exists>k. mem (store p v s) = (mem s)(p := v) \<and> performs s (store p v s) k \<and>
      place (trace (store p v s) ! k) = Some p \<and> writes (trace (store p v s) ! k) \<and>
      (rel \<longrightarrow> rel_at ld_acq s (store p v s) k)"
    using tr(2) by (intro exI [of _ ?k]) (simp add: x(1))
qed


lemma mach_upd:
  fixes s :: mach
  shows "s\<lparr>trace := t\<rparr> = \<lparr>mem = mem s, trace = t\<rparr>" "s\<lparr>mem := m, trace := t\<rparr> = \<lparr>mem = m, trace = t\<rparr>"
  by simp_all

lemma sync_cas_contract: "cas_contract ld_acq acq rel sync_bool_compare_and_swap"
  by (rule cas_contractI, rule exI [of _ "[Bar full_barrier]"], rule exI [of _ "[Bar full_barrier]"],
      rule exI [of _ memory_order_relaxed], rule exI [of _ memory_order_relaxed])
    (auto simp: mach_upd sync_bool_compare_and_swap_def compare_exchange_def act_def barriers_def fenced_after_def
      fenced_before_def)

lemma compare_exchange_contract:
  assumes "acq \<Longrightarrow> mo \<in> {memory_order_acquire, memory_order_acq_rel}"
    "rel \<Longrightarrow> mo \<in> {memory_order_release, memory_order_acq_rel}"
  shows "cas_contract ld_acq acq rel (\<lambda>p old new. compare_exchange p old new mo memory_order_relaxed)"
  by (rule cas_contractI, rule exI [of _ "[]"], rule exI [of _ "[]"], rule exI [of _ mo],
      rule exI [of _ memory_order_relaxed])
    (use assms in \<open>auto simp: mach_upd compare_exchange_def act_def barriers_def fenced_after_def acquires_def
      fenced_before_def releases_def\<close>)

lemma atomic_load_contract:
  assumes "acq \<Longrightarrow> mo \<in> {memory_order_acquire, memory_order_acq_rel}"
  shows "load_contract ld_acq acq (\<lambda>p. atomic_load p mo)"
  by (rule load_contractI, rule exI [of _ "[]"], rule exI [of _ mo])
    (use assms in \<open>auto simp: atomic_load_def act_def barriers_def fenced_after_def acquires_def\<close>)

lemma atomic_store_contract:
  assumes "rel \<Longrightarrow> mo \<in> {memory_order_release, memory_order_acq_rel}"
  shows "store_contract ld_acq rel (\<lambda>p v. atomic_store p v mo)"
  by (rule store_contractI, rule exI [of _ "[]"], rule exI [of _ "[]"], rule exI [of _ mo])
    (use assms in \<open>auto simp: atomic_store_def act_def barriers_def fenced_before_def releases_def\<close>)

lemma atm_load_acq_contract:
  assumes "\<And>p c. access c \<Longrightarrow> orders ld_acq b (Ld p memory_order_relaxed) c"
  shows "load_contract ld_acq True (atm_load_acq_u32 b)"
  by (rule load_contractI, rule exI [of _ "[Bar b]"], rule exI [of _ memory_order_relaxed])
    (use assms in \<open>auto simp: atm_load_acq_u32_def atomic_load_def act_def barriers_def fenced_after_def\<close>)

lemma ATM_STORE_X_contract:
  assumes "\<And>p c. rel \<Longrightarrow> access c \<Longrightarrow>
    (case b of None \<Rightarrow> False | Some d \<Rightarrow> orders ld_acq d c (St p memory_order_relaxed))"
  shows "store_contract ld_acq rel (ATM_STORE_X b None)"
proof (cases b)
  case None
  then have "\<not> rel" using assms by (metis access.simps(2) option.simps(4))
  then show ?thesis unfolding None
    by - (rule store_contractI, rule exI [of _ "[]"], rule exI [of _ "[]"], rule exI [of _ memory_order_relaxed],
        simp add: ATM_STORE_X_def opt_bar_def atomic_store_def act_def barriers_def mach_upd)
next
  case (Some d)
  then have "rel \<Longrightarrow> access c \<Longrightarrow> orders ld_acq d c (St p memory_order_relaxed)" for p c using assms by simp
  then show ?thesis unfolding Some
    by - (rule store_contractI, rule exI [of _ "[Bar d]"], rule exI [of _ "[]"], rule exI [of _ memory_order_relaxed],
        simp add: ATM_STORE_X_def opt_bar_def atomic_store_def act_def barriers_def fenced_before_def mach_upd)
qed

text \<open>The operations of the systems, with what is written about them.\<close>

lemma swap_contract:
  assumes f: "swaps report has f"
    and report: "\<And>v old. keep (report v old) old \<longleftrightarrow> v = old"
    and acq: "\<And>p ys. acq \<Longrightarrow> has \<subseteq> set ys \<Longrightarrow> fenced_after ld_acq (Rmw p memory_order_relaxed) (ys @ after)"
    and rel: "\<And>p xs. rel \<Longrightarrow> has \<subseteq> set xs \<Longrightarrow> fenced_before ld_acq (before @ xs) (Rmw p memory_order_relaxed)"
    and bars: "barriers before" "barriers after"
    and cas: "\<And>p old new s. cas p old new s =
      (let (r, s1) = f p old new (s\<lparr>trace := trace s @ before\<rparr>) in (keep r old, s1\<lparr>trace := trace s1 @ after\<rparr>))"
  shows "cas_contract ld_acq acq rel cas"
proof (rule cas_contractI)
  fix p old new and s :: mach
  let ?s = "s\<lparr>trace := trace s @ before\<rparr>"
  have s: "mem ?s = mem s" "trace ?s = trace s @ before" by simp_all
  obtain xs ys where x: "f p old new ?s = (report (mem s p) old,
        \<lparr>mem = (if mem s p = old then (mem s)(p := new) else mem s),
         trace = (trace s @ before) @ xs @
           (if mem s p = old then Rmw p memory_order_relaxed else Ld p memory_order_relaxed) # ys\<rparr>)"
    "barriers xs" "barriers ys" "has \<subseteq> set xs" "has \<subseteq> set ys"
    using f [unfolded swaps_def, rule_format, of p old new ?s] unfolding s by blast
  show "\<exists>xs ys mo mo'. cas p old new s = (mem s p = old,
       \<lparr>mem = (if mem s p = old then (mem s)(p := new) else mem s),
        trace = trace s @ xs @ (if mem s p = old then Rmw p mo else Ld p mo') # ys\<rparr>) \<and>
      barriers xs \<and> barriers ys \<and>
      (acq \<longrightarrow> fenced_after ld_acq (Rmw p mo) ys) \<and> (rel \<longrightarrow> fenced_before ld_acq xs (Rmw p mo))"
    using x bars acq [of ys p] rel [of xs p] report
    by - (rule exI [of _ "before @ xs"], rule exI [of _ "ys @ after"], rule exI [of _ memory_order_relaxed],
      rule exI [of _ memory_order_relaxed], auto simp: cas barriers_def mach_upd)
qed


lemmas atomic_contracts = compare_exchange_contract atomic_load_contract atomic_store_contract atm_load_acq_contract
  ATM_STORE_X_contract sync_cas_contract

text \<open>The versions that the language defines are interpretations of the locale for every CPU.\<close>

interpretation gcc_new: atomics ld_acq gcc_new_atomics for ld_acq
  by unfold_locales (simp_all add: gcc_new_atomics_def gcc_new_cas_def [abs_def] atomic_contracts)

lemma gcc_new_debug_cas_eq: "gcc_new_debug_cas mo = gcc_new_cas mo"
  by (simp add: fun_eq_iff gcc_new_debug_cas_def gcc_new_cas_def compare_exchange_def)

interpretation gcc_new_debug: atomics ld_acq gcc_new_debug_atomics for ld_acq
  by unfold_locales
    (simp_all add: gcc_new_debug_atomics_def gcc_new_debug_cas_eq gcc_new_cas_def [abs_def] atomic_contracts)

interpretation c11: atomics ld_acq c11_atomics for ld_acq
  by unfold_locales (simp_all add: c11_atomics_def c11_cas_def [abs_def] atomic_contracts)

interpretation cxx: atomics ld_acq cxx_atomics for ld_acq
  by unfold_locales (simp_all add: cxx_atomics_def cxx_cas_def [abs_def] atomic_contracts)

interpretation atomic_ind: atomics ld_acq atomic_ind_atomics for ld_acq
  by unfold_locales (simp_all add: atomic_ind_atomics_def nsync_atm_cas_def [abs_def] nsync_atm_load_def [abs_def]
      nsync_atm_store_def [abs_def] atomic_contracts)

interpretation gcc_old: atomics ld_acq "gcc_old_atomics ld_acq" for ld_acq
  by unfold_locales (simp_all add: gcc_old_atomics_def gcc_old_bar_def atomic_contracts)

text \<open>The others keep it when the operations they are given are as documented.\<close>

lemma macos_keeps:
  assumes "swaps (=) {} cs" "swaps (=) {Bar full_barrier} csb"
  shows "atomics ld_acq (macos_atomics cs csb ld_acq)"
proof -
  have full: "cas_contract ld_acq acq rel csb" for acq rel
    by (rule swap_contract [OF assms(2), of "\<lambda>r old. r" _ _ "[]" _ "[]"])
      (auto simp: fenced_after_def fenced_before_def barriers_def intro: bexI [of _ "Bar full_barrier"])
  have "cas_contract ld_acq False False cs"
    by (rule swap_contract [OF assms(1), of "\<lambda>r old. r" _ _ "[]" _ "[]"]) (auto simp: barriers_def)
  then show ?thesis using full
    by unfold_locales (simp_all add: macos_atomics_def macos_bar_def atomic_contracts)
qed

lemma win32_keeps:
  assumes "swaps (\<lambda>found old. found) {Bar full_barrier} ice"
  shows "atomics ld_acq (win32_atomics ice ld_acq)"
proof -
  have "cas_contract ld_acq acq rel (win32_cas ice)" for acq rel
    by (rule swap_contract [OF assms, of "\<lambda>found old. found = old" _ _ "[]" _ "[]"])
      (auto simp: win32_cas_def fenced_after_def fenced_before_def barriers_def intro: bexI [of _ "Bar full_barrier"])
  then show ?thesis
    by unfold_locales (simp_all add: win32_atomics_def win32_bar_def atomic_contracts)
qed


lemma netbsd_keeps:
  assumes "swaps (\<lambda>found old. found) {} cas32"
  shows "atomics ld_acq (netbsd_atomics cas32 gnuc ld_acq)"
proof -
  note rule = swap_contract [OF assms, of "\<lambda>found old. found = old"]
  have "cas_contract ld_acq False False (netbsd_cas_nomb cas32)"
    by (rule rule [of _ _ "[]" _ "[]"]) (auto simp: netbsd_cas_nomb_def barriers_def)
  moreover have "cas_contract ld_acq True False (netbsd_cas_acq cas32)"
    by (rule rule [of _ _ "[Bar membar_enter]" _ "[]"])
      (auto simp: netbsd_cas_acq_def barriers_def act_def fenced_after_def)
  moreover have "cas_contract ld_acq False True
      (\<lambda>p old new s. netbsd_cas_nomb cas32 p old new (act (Bar membar_exit) s))"
    by (rule rule [of _ _ "[]" _ "[Bar membar_exit]"])
      (auto simp: netbsd_cas_nomb_def barriers_def act_def fenced_before_def)
  moreover have "cas_contract ld_acq True True
      (\<lambda>p old new s. netbsd_cas_acq cas32 p old new (act (Bar membar_exit) s))"
    by (rule rule [of _ _ "[Bar membar_enter]" _ "[Bar membar_exit]"])
      (auto simp: netbsd_cas_acq_def barriers_def act_def fenced_before_def fenced_after_def)
  ultimately show ?thesis
    by unfold_locales
      (simp_all add: netbsd_atomics_def netbsd_ld_bar_def netbsd_st_bar_def atomic_contracts)
qed

text \<open>C26. In the nine versions that are written in C or C++ (not the assembler versions
  \<^verbatim>\<open>platform/*/src/nsync_atm_*.s\<close>), whatever barrier the CPU needs for an acquiring load: each operation has the effect on memory and the result
  that the comment at its head states, with one access; operations named \<^verbatim>\<open>ACQ\<close> are seen before all
  later accesses of the thread and those named \<^verbatim>\<open>REL\<close> after all earlier ones, for a
  compare-and-swap if it succeeds; and what a thread does between taking a spinlock and giving it
  up is seen between the two.  Of macOS, Windows and NetBSD it is assumed that their operations
  swap and have the barriers that are documented.
\<close>

theorem atomic_operations_correct:
  assumes "swaps (=) {} OSAtomicCompareAndSwap32"
    and "swaps (=) {Bar full_barrier} OSAtomicCompareAndSwap32Barrier"
    and "swaps (\<lambda>found old. found) {Bar full_barrier} InterlockedCompareExchange"
    and "swaps (\<lambda>found old. found) {} atomic_cas_32"
    and "A \<in> {gcc_new_atomics, gcc_new_debug_atomics, c11_atomics, cxx_atomics, atomic_ind_atomics,
      gcc_old_atomics ld_acq,
      macos_atomics OSAtomicCompareAndSwap32 OSAtomicCompareAndSwap32Barrier ld_acq,
      win32_atomics InterlockedCompareExchange ld_acq, netbsd_atomics atomic_cas_32 gnuc ld_acq}"
  shows "atm_contract ld_acq A \<and> confines ld_acq A"
proof -
  have "atomics ld_acq A"
    using assms(5) macos_keeps [OF assms(1,2)] win32_keeps [OF assms(3)] netbsd_keeps [OF assms(4)]
      gcc_new.atomics_axioms gcc_new_debug.atomics_axioms c11.atomics_axioms cxx.atomics_axioms
      atomic_ind.atomics_axioms gcc_old.atomics_axioms
    by auto
  then show ?thesis by (simp add: atomics.contract atomics.confined)
qed


definition plain_swap :: "(u32 \<Rightarrow> u32 \<Rightarrow> 'r) \<Rightarrow> action list \<Rightarrow> 'r swap" where
  "plain_swap report bars p old new s =
     (report (mem s p) old,
      \<lparr>mem = (if mem s p = old then (mem s)(p := new) else mem s),
       trace = trace s @ bars @
         (if mem s p = old then Rmw p memory_order_relaxed else Ld p memory_order_relaxed) # bars\<rparr>)"

lemma plain_swap_swaps: "barriers bars \<Longrightarrow> swaps report (set bars) (plain_swap report bars)"
  unfolding swaps_def plain_swap_def by blast

theorem atomic_operations_correct_witness:
  "atm_contract False (netbsd_atomics (plain_swap (\<lambda>found old. found) []) True False) \<and>
   confines False (netbsd_atomics (plain_swap (\<lambda>found old. found) []) True False)"
proof (rule atomic_operations_correct [where gnuc = True])
  show "swaps (=) {} (plain_swap (=) [])" "swaps (\<lambda>found old. found) {} (plain_swap (\<lambda>found old. found) [])"
    using plain_swap_swaps [of "[]" "(=)"] plain_swap_swaps [of "[]" "\<lambda>found old. found"]
    by (simp_all add: barriers_def)
  show "swaps (=) {Bar full_barrier} (plain_swap (=) [Bar full_barrier])"
    "swaps (\<lambda>found old. found) {Bar full_barrier} (plain_swap (\<lambda>found old. found) [Bar full_barrier])"
    using plain_swap_swaps [of "[Bar full_barrier]" "(=)"]
      plain_swap_swaps [of "[Bar full_barrier]" "\<lambda>found old. found"]
    by (simp_all add: barriers_def)
qed simp

text \<open>
  NetBSD's \<^verbatim>\<open>membar_enter\<close> would not do after a load, as the comment beside \<^verbatim>\<open>ATM_LD_ACQ_\<close> says: a later
  load could be seen first.
\<close>

lemma load_needs_sync: "\<not> load_contract False True (atm_load_acq_u32 membar_enter)"
proof
  let ?s = "\<lparr>mem = (\<lambda>_. 0), trace = []\<rparr>" and ?l = "Ld 0 memory_order_relaxed"
  assume "load_contract False True (atm_load_acq_u32 membar_enter)"
  then obtain s' k where k: "atm_load_acq_u32 membar_enter 0 ?s = (mem ?s 0, s')" "performs ?s s' k"
    "reads (trace s' ! k)" "acq_at False s' k" unfolding load_contract_def by metis
  have tr: "trace s' = [?l, Bar membar_enter]" using k(1)
    by (auto simp: atm_load_acq_u32_def atomic_load_def act_def)
  have "k < 2" using performs_trace(1) [OF k(2)] by (simp add: tr)
  then have "k = 0" using k(3) by (cases k) (auto simp: tr less_Suc_eq)
  then have "precedes False (trace s' @ [?l]) 0 2"
    using k(4) [unfolded acq_at_def, rule_format, of 2 "[?l]"] by (simp add: tr)
  then show False by (auto simp: precedes_def tr acquires_def releases_def less_Suc_eq numeral_2_eq_2)
qed

end
