(* ===== verification/Num_Time.thy ===== *)
theory Num_Time
  imports Time "HOL-Library.Signed_Division" "HOL-Library.Monad_Syntax"
begin

text \<open>
  Times as one signed integer, in both widths of \<^verbatim>\<open>platform/num_time\<close>: nanoseconds in 8 bytes, or in 4
  bytes milliseconds since the first call of \<^verbatim>\<open>nsync_time_now\<close>.  The macros that take such a time
  apart are those of \<^verbatim>\<open>public/nsync_time_internal.h\<close>.
\<close>

section \<open>Definitions\<close>

text \<open>
  The width \<open>sz\<close> is \<^verbatim>\<open>sizeof (nsync_time)\<close>.  A conversion to the type wraps, and arithmetic that leaves
  its range is undefined.
\<close>

definition wrap :: "nat \<Rightarrow> int \<Rightarrow> int" where
  "wrap sz x = (x + 2 ^ (8 * sz - 1)) mod 2 ^ (8 * sz) - 2 ^ (8 * sz - 1)"

definition fits :: "nat \<Rightarrow> int \<Rightarrow> int option" where
  "fits sz x = (if - (2 ^ (8 * sz - 1)) \<le> x \<and> x < 2 ^ (8 * sz - 1) then Some x else None)"

definition MAX_INT_TYPE :: "bool \<Rightarrow> nat \<Rightarrow> int" where
  "MAX_INT_TYPE is_unsigned sz = (if is_unsigned then 2 ^ (8 * sz) - 1 else 2 ^ (8 * sz - 1) - 1)"

definition num_no_deadline :: "nat \<Rightarrow> int" where
  "num_no_deadline sz = MAX_INT_TYPE False sz"

definition num_s_ns :: "nat \<Rightarrow> int \<Rightarrow> u32 \<Rightarrow> int option" where
  "num_s_ns sz s ns =
     (if sz \<ge> 8
      then do { x \<leftarrow> fits sz (wrap sz s * NSYNC_NS_IN_S); fits sz (x + wrap sz (uint ns)) }
      else do { x \<leftarrow> fits sz (wrap sz s * 1000); fits sz (x + wrap sz (uint ns) sdiv (1000 * 1000)) })"

definition NSYNC_TIME_SEC :: "nat \<Rightarrow> int \<Rightarrow> int" where
  "NSYNC_TIME_SEC sz t = (if sz \<ge> 8 then t sdiv (1000 * 1000 * 1000) else t sdiv 1000)"

definition NSYNC_TIME_NSEC :: "nat \<Rightarrow> int \<Rightarrow> int" where
  "NSYNC_TIME_NSEC sz t = (if sz \<ge> 8 then t smod (1000 * 1000 * 1000) else (t smod 1000) * 1000 * 1000)"

text \<open>The clock's reading is an argument, and so is the reading that the initialiser made.\<close>

definition num_time_now :: "nat \<Rightarrow> int \<Rightarrow> int \<times> u32 \<Rightarrow> int option" where
  "num_time_now sz initial ts = num_s_ns sz (fst ts - (if sz < 8 then initial else 0)) (snd ts)"

text \<open>\<^verbatim>\<open>nanosleep\<close> tells whether it slept to the end, and otherwise what remains.\<close>

definition num_time_sleep :: "nat \<Rightarrow> (int \<times> int \<Rightarrow> bool \<times> int \<times> u32) \<Rightarrow> int \<Rightarrow> int option" where
  "num_time_sleep sz nanosleep delay =
     (case nanosleep (NSYNC_TIME_SEC sz delay, NSYNC_TIME_NSEC sz delay) of
        (done, remain) \<Rightarrow> let r = (if done then (0, 0) else remain) in num_s_ns sz (fst r) (snd r))"

section \<open>Round trips and bounds\<close>

text \<open>How many nanoseconds one unit of the type stands for.\<close>

definition unit_ns :: "nat \<Rightarrow> int" where
  "unit_ns sz = (if sz \<ge> 8 then 1 else 1000 * 1000)"

lemma wrap_id: "sz \<in> {4, 8} \<Longrightarrow> - (2 ^ (8 * sz - 1)) \<le> x \<Longrightarrow> x < 2 ^ (8 * sz - 1) \<Longrightarrow> wrap sz x = x"
  by (auto simp: wrap_def)

lemma sdiv_nonneg:
  fixes t :: int
  assumes "0 \<le> t" "0 < m"
  shows "t sdiv m = t div m" "t smod m = t mod m"
proof -
  show "t sdiv m = t div m" using assms by (cases "t = 0") (simp_all add: signed_divide_int_def sgn_if)
  show "t smod m = t mod m" using assms by (cases "t = 0") (simp_all add: signed_modulo_int_def sgn_if)
qed

text \<open>A number of seconds and nanoseconds becomes that many units, rounded down, while it is in range.\<close>

lemma num_s_ns_value:
  assumes sz: "sz \<in> {4, 8}" and s: "0 \<le> s" and ns: "uint ns < 1000 * 1000 * 1000"
    and range: "(s * (1000 * 1000 * 1000) + uint ns) div unit_ns sz < 2 ^ (8 * sz - 1)"
  shows "num_s_ns sz s ns = Some ((s * (1000 * 1000 * 1000) + uint ns) div unit_ns sz)"
proof -
  define v where "v = uint ns"
  have v: "0 \<le> v" "v < 1000000000" using ns by (simp_all add: v_def)
  have range: "(s * 1000000000 + v) div unit_ns sz < 2 ^ (8 * sz - 1)" using range by (simp add: v_def)
  have div: "(s * 1000000000 + v) div 1000000 = s * 1000 + v div 1000000"
    using div_mult_self2 [of 1000000 v "s * 1000"] by (simp add: add.commute)
  have d: "0 \<le> v div 1000000" using v by simp
  have w: "wrap sz s = s" "wrap sz v = v" using sz s v d range by (auto intro!: wrap_id simp: unit_ns_def div)
  show ?thesis unfolding v_def [symmetric]
  proof (cases "sz = 8")
    case True
    then show "num_s_ns sz s ns = Some ((s * (1000 * 1000 * 1000) + v) div unit_ns sz)" using s v w range
      by (simp add: num_s_ns_def fits_def unit_ns_def NSYNC_NS_IN_S_def v_def [symmetric])
  next
    case False
    then have sz: "sz = 4" using sz by simp
    then show "num_s_ns sz s ns = Some ((s * (1000 * 1000 * 1000) + v) div unit_ns sz)" using s v w range div d
      by (simp add: num_s_ns_def fits_def unit_ns_def sdiv_nonneg v_def [symmetric])
  qed
qed

text \<open>Taking a time apart and putting it together again gives it back.\<close>

lemma num_time_parts:
  assumes sz: "sz \<in> {4, 8}" and t: "0 \<le> t" "t < 2 ^ (8 * sz - 1)"
  shows "0 \<le> NSYNC_TIME_NSEC sz t \<and> NSYNC_TIME_NSEC sz t < 1000 * 1000 * 1000"
    "NSYNC_TIME_SEC sz t * (1000 * 1000 * 1000) + NSYNC_TIME_NSEC sz t = t * unit_ns sz" "0 \<le> NSYNC_TIME_SEC sz t"
proof -
  have "t div 1000 * 1000000000 + t mod 1000 * 1000000 = t * 1000000" by presburger
  then show "NSYNC_TIME_SEC sz t * (1000 * 1000 * 1000) + NSYNC_TIME_NSEC sz t = t * unit_ns sz"
    using sz t by (auto simp: NSYNC_TIME_NSEC_def NSYNC_TIME_SEC_def unit_ns_def sdiv_nonneg)
qed (use sz t in \<open>auto simp: NSYNC_TIME_NSEC_def NSYNC_TIME_SEC_def unit_ns_def sdiv_nonneg\<close>)


lemma num_time_roundtrip:
  assumes sz: "sz \<in> {4, 8}" and t: "0 \<le> t" "t < 2 ^ (8 * sz - 1)"
  shows "num_s_ns sz (NSYNC_TIME_SEC sz t) (word_of_int (NSYNC_TIME_NSEC sz t)) = Some t"
proof -
  note p = num_time_parts [OF assms]
  have u: "uint (word_of_int (NSYNC_TIME_NSEC sz t) :: u32) = NSYNC_TIME_NSEC sz t"
    using p(1) by (simp add: uint_word_of_int)
  have "unit_ns sz \<noteq> 0" by (simp add: unit_ns_def)
  then show ?thesis
    using num_s_ns_value [OF sz p(3), of "word_of_int (NSYNC_TIME_NSEC sz t)"] p(1,2) t(2) by (simp add: u)
qed

text \<open>
  A sleep that is interrupted reports what remains, rounded down to a unit; one that is not
  reports 0.
\<close>

lemma num_time_sleep_remains:
  assumes sz: "sz \<in> {4, 8}" and t: "0 \<le> t" "t < 2 ^ (8 * sz - 1)"
    and ns: "nanosleep (NSYNC_TIME_SEC sz t, NSYNC_TIME_NSEC sz t) = (done, s, ns)"
    and doc: "0 \<le> s" "uint ns < 1000 * 1000 * 1000" "s * (1000 * 1000 * 1000) + uint ns \<le> t * unit_ns sz"
  shows "num_time_sleep sz nanosleep t =
    Some (if done then 0 else (s * (1000 * 1000 * 1000) + uint ns) div unit_ns sz)"
proof -
  have "(s * (1000 * 1000 * 1000) + uint ns) div unit_ns sz \<le> t"
    using zdiv_mono1 [OF doc(3), of "unit_ns sz"] by (simp add: unit_ns_def split: if_splits)
  then show ?thesis using num_s_ns_value [OF sz doc(1,2)] num_s_ns_value [OF sz, of 0 0] ns t(2) sz
    by (auto simp: num_time_sleep_def)
qed

text \<open>The 64-bit instance is the one of the locale \<open>time_rep\<close>; no time is later than \<open>num_no_deadline\<close>.\<close>

lemma num_s_ns_64: "i64 s = Some s \<Longrightarrow> num_s_ns 8 s ns = num_time_s_ns s ns"
proof -
  assume "i64 s = Some s"
  then have "wrap 8 s = s" by (intro wrap_id) (simp_all add: i64_def split: if_splits)
  moreover have "wrap 8 (uint ns) = uint ns"
  proof (rule wrap_id)
    have "uint ns < 2 ^ 32" using uint_lt2p [of ns] by simp
    then show "uint ns < 2 ^ (8 * 8 - 1)" by simp
    show "- (2 ^ (8 * 8 - 1)) \<le> uint ns" using uint_nonnegative [of ns] by (simp add: order_trans [of _ 0])
  qed simp
  ultimately show ?thesis by (simp add: num_s_ns_def num_time_s_ns_def fits_def i64_def)
qed

lemma num_no_deadline_last: "sz \<in> {4, 8} \<Longrightarrow> num_s_ns sz s ns = Some t \<Longrightarrow> num_time_cmp t (num_no_deadline sz) \<le> 0"
  by (auto simp: num_s_ns_def fits_def num_no_deadline_def MAX_INT_TYPE_def num_time_cmp_def Option.bind_eq_Some_conv
      split: if_splits)

end
