(* ===== verification/Spec2Isabelle.thy ===== *)
theory Spec2Isabelle
  imports Mu_Props Mu_Queue Cv_Props Counter_Wait Note_Wait Note_Steps Win32 Once Pool Debug Mkdep Rwlock Per_Thread Cxx Cxx_Once Atomic Num_Time
begin

text \<open>
  \<^bold>\<open>nsync.\<close>  This development models the synchronisation library \<^verbatim>\<open>nsync\<close>, written in C:
  reader-writer mutexes with conditional critical sections, condition variables, waitable counters
  and notes, one-time initialisers, and the platform layer they stand on, and proves what its
  clients rely on.

  \<^bold>\<open>The program.\<close>  A thread that cannot go on initialises a waiter struct, puts it on the list of
  an object and sleeps on the semaphore of the struct; whoever makes the object ready takes the
  struct off the list, clears its flag \<^verbatim>\<open>waiting\<close> and posts the semaphore.
  \<^item> \<^verbatim>\<open>internal/mu.c\<close> and \<^verbatim>\<open>internal/mu_wait.c\<close>: the mutex is one 32-bit word (writer bit, reader
    count, spinlock, hint bits) and a queue of waiters, some of them with a condition.
  \<^item> \<^verbatim>\<open>internal/cv.c\<close>: condition variables hand the threads they wake to the mutex's queue when
    these could not acquire it anyway.
  \<^item> \<^verbatim>\<open>internal/counter.c\<close>, \<^verbatim>\<open>internal/note.c\<close>: objects that become ready; notes form trees, and
    notifying one notifies those below.
  \<^item> \<^verbatim>\<open>internal/wait.c\<close>: waiting for any of several objects; \<^verbatim>\<open>internal/sem_wait.c\<close>: waiting on a
    semaphore until a deadline or until a note is notified.
  \<^item> \<^verbatim>\<open>internal/common.c\<close>, \<^verbatim>\<open>internal/dll.c\<close>, \<^verbatim>\<open>internal/once.c\<close>, \<^verbatim>\<open>internal/debug.c\<close>: the pool of
    waiter structs, spin loops, lists, initialisers, debug output.
  \<^item> \<^verbatim>\<open>platform\<close>: semaphores, times and clocks, atomic operations, thread-specific data, and for C++11 stand-ins for
    parts of the threads library of POSIX; \<^verbatim>\<open>tools/mkdep.c\<close>: the tool that writes the
    dependencies for the builds.

  \<^bold>\<open>Theories and what they model.\<close>
  \<^item> \<open>Prelude\<close>: word types, sums over threads, list lemmas.  \<open>Common\<close>: the bits of the words
    and the two lock types (\<^verbatim>\<open>common.h\<close>, \<^verbatim>\<open>common.c\<close>) and the arithmetic of the fields.
  \<^item> \<open>Mu_State\<close>, \<open>Mu\<close>, \<open>Mu_Wait\<close>: the mutex as a system of threads.  A state has the word,
    the queue, the waiter structs and for every thread its place in the code with the live local
    variables; each function of the source is a function here, with an equation for each point at
    which the thread can be interrupted, that is for each access to shared memory.  \<open>Mu_Inv\<close>
    shows that the word is the sum of what the threads hold of it, \<open>Mu_Waiters\<close> where each
    waiter is, \<open>Mu_Props\<close> the properties: mutual exclusion, refinement of an abstract
    reader-writer lock (\<open>Rw_Spec\<close>, with the locale \<open>refinement\<close> of theory \<open>Refinement\<close>), no lost
    waiter, no panic.
    \<open>Mu_Queue\<close> has the queue as the code keeps it, with groups of equal conditions.
  \<^item> \<open>Cv\<close>, \<open>Cv_Inv\<close>, \<open>Cv_Props\<close>: the condition variable in the same way, with the mutex as its
    environment: no lost wakeup, whom a signal chooses, what a transfer to the mutex wakes.  The
    invariant holds until \<^verbatim>\<open>cv_dequeue\<close> unlinks a struct from the list of a signaller (the flag
    \<open>cv_raced\<close> of the model), which is shown to strand another waiter.
  \<^item> \<open>Dll\<close>: the lists, in a heap of links.  \<open>Waitable\<close>: waking all waiters of a list, over the
    interface \<open>removable_list\<close>.  \<open>Counter\<close>: the counter's operations.
  \<^item> \<open>Note\<close>, \<open>Note_Tree\<close>, \<open>Note_Inv\<close>, \<open>Note_Props\<close>: the forest of notes, with whole operations
    that do not overlap in time (\<open>note_serial\<close>): every operation ends and keeps the invariant;
    notifying reaches exactly the notes below; and a race of overlapping operations that breaks this.
    \<open>Note_Steps\<close>: all interleavings of the locked sections of \<^verbatim>\<open>note.c\<close>, and what holds of the
    waiters of notes in all of them.
  \<^item> \<open>Wait\<close>: \<^verbatim>\<open>nsync_wait_n\<close>, over the functions of its objects.  The locale \<open>waitable_objects\<close>
    states what it relies on; in it are proved that the call ends, that it leaves no struct on a
    list, that the index it returns is that of a ready object, and that it does not sleep for ever
    beside a ready object.  \<open>Counter_Wait\<close> interprets the locale with the counter's functions,
    under arbitrary operations of other threads, and has \<^verbatim>\<open>nsync_counter_wait\<close>; \<open>Note_Wait\<close>
    interprets it with the note's functions and has \<^verbatim>\<open>nsync_note_wait\<close>.  \<open>Sem_Wait\<close> has
    \<^verbatim>\<open>nsync_sem_wait_with_cancel_\<close> in both versions, among arbitrary operations on notes.  In
    \<open>Note_Wait\<close> and \<open>Sem_Wait\<close> the operations of other threads on notes are whole events: executions
    in which operations on notes overlap are not covered there.
  \<^item> \<open>Time\<close>: three representations of times, all instances of the locale \<open>time_rep\<close>; \<open>Num_Time\<close>: the
    integer one in both widths, with its clock and its sleep.  \<open>Sem\<close>,
    \<open>Win32\<close>: the semaphores, instances of the locale \<open>deadline_sem\<close>, and on Windows also clocks,
    sleeping and the timed wait of a condition variable.
  \<^item> \<open>Tls\<close>: thread-specific data on Windows, a table of versioned keys; \<open>Per_Thread\<close>: the
    per-thread waiter, as a system of threads over any keys that keep the contract (locales
    \<open>thread_keys\<close> and \<open>shared_keys\<close>), and over those of \<open>Tls\<close>.
  \<^item> \<open>Cxx\<close>: time points, the semaphore and the timed wait of the C++11 platform.  \<open>Rwlock\<close> and
    \<open>Cxx_Once\<close>: its reader-writer lock and its \<^verbatim>\<open>pthread_once\<close>, as systems of threads over a mutex
    (\<open>Monitor\<close>) and a condition variable; they refine the specifications of the mutex and of
    \<open>Once\<close>.
  \<^item> \<open>Atomic\<close>: the nine versions in C and C++ of the atomic operations with the barriers each has, all
    shown to keep the contract in their comments (locale \<open>atomics\<close>).
  \<^item> \<open>Spin\<close>, \<open>Pool\<close>, \<open>Once\<close>, \<open>Debug\<close>, \<open>Mkdep\<close>: the spin loops, the pool of waiter structs,
    \<^verbatim>\<open>once.c\<close> as a system of threads that refines a specification, the debug output in its bounded
    buffer, and the dependency generator.

  \<^bold>\<open>Conventions.\<close>  A C function keeps its name, without a final underscore.  Words are 32 or 64
  bits wide where they can wrap; \<^verbatim>\<open>time_t\<close> is an integer with its range written out.  \<open>None\<close>, or a
  constructor that says so, stands for a failed assertion, undefined behaviour or a loop that does
  not end.  An atomic operation is one step, and memory is sequentially consistent.

  \<^bold>\<open>Bounds and fuel.\<close>  The systems of threads have any number of threads below \<open>2 ^ 24\<close>, the
  range of the reader count; the lock of \<open>Rwlock\<close> counts in an \<^verbatim>\<open>int\<close> and has any number below
  \<open>2 ^ 31\<close>.  The recursion of \<^verbatim>\<open>note_notify_child\<close> takes fuel; the height of the
  tree of notes is enough, and surplus fuel changes nothing (\<open>fuel_le\<close>), so that the properties of
  notes hold for every large enough fuel (\<open>ends\<close>).  The loop of \<^verbatim>\<open>nsync_wait_n\<close> takes fuel as
  well; a bound on the wakeups still to come is enough, for a counter or a note the semaphore's count at
  the start and one for the struct.  In \<open>Note_Wait\<close> the recursion takes as fuel the number of
  allocated notes plus 2, which is shown to be enough.  The semaphores' loops run over a list of
  observations, and the waits of \<open>Counter_Wait\<close>, \<open>Note_Wait\<close> and \<open>Sem_Wait\<close> over a list of
  events; both may be of any length.

  \<^bold>\<open>What the properties show.\<close>  For the mutex, the condition variable, the initialisers,
  the per-thread waiter and the C++11 lock they are about all reachable states of all
  interleavings, for the condition variable as long as no struct was unlinked from a signaller's list;
  the same for the waiters of notes.  For lists, counters, the tree of notes, pool, times and output they are about
  each operation, run without interference, in every state that satisfies the invariant, errors included.  Some
  theorems record where the code falls short of what it promises: a note whose notification is lost when an
  ancestor is freed, a thread that sleeps for ever when \<^verbatim>\<open>cv_dequeue\<close> unlinks a struct from a signaller's
  list, a conditional wait with a read lock that stalls, a reader count that wraps, a time before the epoch
  with negative nanoseconds.

  \<^bold>\<open>Not modelled.\<close>  Weak memory in the systems of threads: \<open>Atomic\<close> shows for each operation how it is
  ordered among the accesses of its thread, and the other theories take memory as sequentially
  consistent.  The fifteen assembler versions of the atomic operations, \<^verbatim>\<open>platform/*/src/nsync_atm_*.s\<close>
  and \<^verbatim>\<open>.S\<close> (aarch64, alpha, arm, ia64, loongarch, m68k, mips, parisc64, ppc64, riscv, s390x, sparc64, vax,
  x86_32, x86_64).  What a signaller does after \<^verbatim>\<open>cv_dequeue\<close> has unlinked a struct from its list, a data
  race.  Whether a thread in the queue of a mutex is woken in the end, which depends on later calls.
  Starting threads, yielding and panic output, which only call the operating system; the overloads for C++ times, which convert and call the C functions; the
  condition variable as an object of \<^verbatim>\<open>nsync_wait_n\<close>, since \<^verbatim>\<open>cv_dequeue\<close> does not keep the contract
  \<open>waitable_objects\<close> (C15); the tests, \<^verbatim>\<open>tools/run_tests.c\<close> and
  \<^verbatim>\<open>tools/detect.c\<close>; the build files.
\<close>

end
